(* ===== verification/Prelude.thy ===== *)
theory Prelude
  imports Main "HOL-Library.Word"
begin

text \<open>
  Shared vocabulary of the development.

  Errors of the C code are values: \<open>Panic\<close> is a failed \<open>assert\<close> or a call of
  \<open>platform_panic\<close>, \<open>Undef\<close> is an access outside an object (undefined behaviour in C),
  \<open>Fuel\<close> is the artificial error of a recursion that was given too few steps; every
  fuelled definition comes with a lemma that says how many steps are enough.

  Stateful code is written in a small state-and-error monad \<open>('s, 'a) M\<close>. Properties of the
  form "this action relates its start state to its end state by \<open>R\<close>" are proved for whole
  programs with the locale \<open>effect\<close>: it holds the composition rules once, for every
  reflexive and transitive \<open>R\<close>.
\<close>

datatype err = Panic | Undef | Fuel

type_synonym byte = "8 word"
type_synonym i32 = "32 word"
type_synonym 'a result = "err + 'a"
type_synonym ('s, 'a) M = "'s \<Rightarrow> err + ('a \<times> 's)"

section \<open>Results\<close>

definition bindR :: "err + 'a \<Rightarrow> ('a \<Rightarrow> err + 'b) \<Rightarrow> err + 'b" where
  "bindR r f = (case r of Inl e \<Rightarrow> Inl e | Inr a \<Rightarrow> f a)"

lemma bindR_simps [simp]: "bindR (Inl e) f = Inl e" "bindR (Inr a) f = f a"
  by (simp_all add: bindR_def)

lemma bindR_Inr: "bindR r f = Inr b \<longleftrightarrow> (\<exists>a. r = Inr a \<and> f a = Inr b)"
  by (cases r) simp_all

lemma bindR_Inl: "bindR r f = Inl e \<longleftrightarrow> r = Inl e \<or> (\<exists>a. r = Inr a \<and> f a = Inl e)"
  by (cases r) auto

lemma bindR_cong [fundef_cong]:
  "r = r' \<Longrightarrow> (\<And>a. r' = Inr a \<Longrightarrow> f a = f' a) \<Longrightarrow> bindR r f = bindR r' f'"
  by (cases r') simp_all

definition assertR :: "bool \<Rightarrow> err + unit" where
  "assertR b = (if b then Inr () else Inl Panic)"

lemma assertR_simps [simp]: "assertR True = Inr ()" "assertR False = Inl Panic"
  "assertR b = Inr u \<longleftrightarrow> b"
  by (simp_all add: assertR_def)

text \<open>Results that cannot be a given error.\<close>

lemma bindR_not: "r \<noteq> Inl e \<Longrightarrow> (\<And>a. f a \<noteq> Inl e) \<Longrightarrow> bindR r f \<noteq> Inl e"
  by (cases r) auto

lemma if_not: "(b \<Longrightarrow> r \<noteq> Inl e) \<Longrightarrow> (\<not> b \<Longrightarrow> r' \<noteq> Inl e) \<Longrightarrow> (if b then r else r') \<noteq> Inl e"
  by simp

lemma assertR_not: "e \<noteq> Panic \<Longrightarrow> assertR b \<noteq> Inl e"
  by (simp add: assertR_def)

lemma Inr_not: "Inr a \<noteq> Inl e"
  by simp

lemmas not_intros = bindR_not if_not assertR_not Inr_not

section \<open>The state-and-error monad\<close>

definition retM :: "'a \<Rightarrow> ('s, 'a) M" where
  "retM a s = Inr (a, s)"

definition failM :: "err \<Rightarrow> ('s, 'a) M" where
  "failM e s = Inl e"

definition bindM :: "('s, 'a) M \<Rightarrow> ('a \<Rightarrow> ('s, 'b) M) \<Rightarrow> ('s, 'b) M" where
  "bindM m f s = (case m s of Inl e \<Rightarrow> Inl e | Inr (a, s') \<Rightarrow> f a s')"

definition thenM :: "('s, 'a) M \<Rightarrow> ('s, 'b) M \<Rightarrow> ('s, 'b) M" where
  "thenM m n = bindM m (\<lambda>_. n)"

definition getM :: "('s \<Rightarrow> 'a) \<Rightarrow> ('s, 'a) M" where
  "getM f s = Inr (f s, s)"

definition modM :: "('s \<Rightarrow> 's) \<Rightarrow> ('s, unit) M" where
  "modM f s = Inr ((), f s)"

definition liftM :: "err + 'a \<Rightarrow> ('s, 'a) M" where
  "liftM r s = (case r of Inl e \<Rightarrow> Inl e | Inr a \<Rightarrow> Inr (a, s))"

definition assertM :: "bool \<Rightarrow> ('s, unit) M" where
  "assertM b = (if b then retM () else failM Panic)"

definition whenM :: "bool \<Rightarrow> ('s, unit) M \<Rightarrow> ('s, unit) M" where
  "whenM b m = (if b then m else retM ())"

text \<open>A block of statements, and a counted \<open>for\<close> loop.\<close>

primrec doM :: "('s, unit) M list \<Rightarrow> ('s, unit) M" where
  "doM [] = retM ()"
| "doM (m # ms) = thenM m (doM ms)"

primrec repeatM :: "nat \<Rightarrow> ('s, unit) M \<Rightarrow> ('s, unit) M" where
  "repeatM 0 m = retM ()"
| "repeatM (Suc n) m = thenM m (repeatM n m)"

lemmas M_defs = retM_def failM_def bindM_def thenM_def getM_def modM_def liftM_def
  assertM_def whenM_def

text \<open>How a run of each combinator ends: the shape in which hypotheses are taken apart.\<close>

lemma retM_run [simp]: "retM a s = Inr (b, s') \<longleftrightarrow> b = a \<and> s' = s"
  by (auto simp: retM_def)

lemma failM_run [simp]: "failM e s = Inr r \<longleftrightarrow> False"
  by (simp add: failM_def)

lemma bindM_run: "bindM m f s = Inr (b, s'') \<longleftrightarrow> (\<exists>a s'. m s = Inr (a, s') \<and> f a s' = Inr (b, s''))"
  by (auto simp: bindM_def split: sum.splits)

lemma thenM_run: "thenM m n s = Inr (b, s'') \<longleftrightarrow> (\<exists>a s'. m s = Inr (a, s') \<and> n s' = Inr (b, s''))"
  by (auto simp: thenM_def bindM_run)

lemma getM_run [simp]: "getM f s = Inr (b, s') \<longleftrightarrow> b = f s \<and> s' = s"
  by (auto simp: getM_def)

lemma modM_run [simp]: "modM f s = Inr (u, s') \<longleftrightarrow> s' = f s"
  by (auto simp: modM_def)

lemma liftM_run [simp]: "liftM r s = Inr (b, s') \<longleftrightarrow> r = Inr b \<and> s' = s"
  by (auto simp: liftM_def split: sum.splits)

lemma assertM_run [simp]: "assertM b s = Inr (u, s') \<longleftrightarrow> b \<and> s' = s"
  by (auto simp: assertM_def)

lemma whenM_run: "whenM b m s = Inr (u, s') \<longleftrightarrow> (if b then m s = Inr (u, s') else s' = s)"
  by (auto simp: whenM_def)

lemmas run_simps = bindM_run thenM_run whenM_run

text \<open>The same combinators on a run that is being computed.\<close>

lemma retM_eval [simp]: "retM a s = Inr (a, s)" by (simp add: retM_def)
lemma getM_eval [simp]: "getM f s = Inr (f s, s)" by (simp add: getM_def)
lemma modM_eval [simp]: "modM f s = Inr ((), f s)" by (simp add: modM_def)
lemma failM_eval [simp]: "failM e s = Inl e" by (simp add: failM_def)
lemma liftM_eval [simp]: "liftM (Inr a) s = Inr (a, s)" "liftM (Inl e) s = Inl e"
  by (simp_all add: liftM_def)
lemma assertM_eval [simp]: "b \<Longrightarrow> assertM b s = Inr ((), s)" "\<not> b \<Longrightarrow> assertM b s = Inl Panic"
  by (simp_all add: assertM_def)

lemma bindM_unit [simp]: "bindM (retM a) f = f a" "bindM (failM e) f = failM e"
  by (simp_all add: fun_eq_iff bindM_def failM_def)

lemma thenM_unit [simp]: "thenM (retM a) m = m" "thenM (failM e) m = failM e"
  "thenM (assertM True) m = m" "thenM (assertM False) m = failM Panic"
  by (simp_all add: fun_eq_iff thenM_def bindM_def failM_def assertM_def)

lemma bindM_eval: "bindM m f s = (case m s of Inl e \<Rightarrow> Inl e | Inr r \<Rightarrow> f (fst r) (snd r))"
  by (auto simp: bindM_def split: sum.splits)

lemma bindM_cong [fundef_cong]:
  "m s = m' s \<Longrightarrow> s = t \<Longrightarrow> (\<And>a s'. m' t = Inr (a, s') \<Longrightarrow> f a s' = f' a s')
    \<Longrightarrow> m = m' \<Longrightarrow> bindM m f s = bindM m' f' t"
  by (auto simp: bindM_def split: sum.splits)

text \<open>Running an action whose first part is known.\<close>

lemma bindM_step: "m s = Inr (a, s') \<Longrightarrow> bindM m f s = f a s'"
  by (simp add: bindM_eval)

lemma thenM_step: "m s = Inr (u, s') \<Longrightarrow> thenM m n s = n s'"
  by (simp add: thenM_def bindM_eval)

lemma doM_step: "m s = Inr (u, s') \<Longrightarrow> doM (m # ms) s = doM ms s'"
  by (simp add: thenM_step)

lemma doM_single: "doM [m] s = m s"
  by (simp add: thenM_def bindM_eval split: sum.splits)

section \<open>Effects: what an action may do to the state\<close>

text \<open>
  \<open>steps R m\<close>: every run of \<open>m\<close> that returns relates its states by \<open>R\<close>. With
  \<open>R s s' = (I s \<longrightarrow> I s')\<close> it says that \<open>m\<close> keeps the invariant \<open>I\<close>; with
  \<open>R s s' = (f s' = f s)\<close> that \<open>m\<close> leaves the field \<open>f\<close> alone.
\<close>

definition steps :: "('s \<Rightarrow> 's \<Rightarrow> bool) \<Rightarrow> ('s, 'a) M \<Rightarrow> bool" where
  "steps R m \<longleftrightarrow> (\<forall>s a s'. m s = Inr (a, s') \<longrightarrow> R s s')"

lemma stepsI: "(\<And>s a s'. m s = Inr (a, s') \<Longrightarrow> R s s') \<Longrightarrow> steps R m"
  by (simp add: steps_def)

lemma stepsD: "steps R m \<Longrightarrow> m s = Inr (a, s') \<Longrightarrow> R s s'"
  by (simp add: steps_def)

locale effect =
  fixes R :: "'s \<Rightarrow> 's \<Rightarrow> bool"
  assumes eff_refl: "R s s"
    and eff_trans: "R s t \<Longrightarrow> R t u \<Longrightarrow> R s u"
begin

lemma eff_ret: "steps R (retM a)"
  by (rule stepsI) (auto intro: eff_refl)

lemma eff_fail: "steps R (failM e)"
  by (rule stepsI) auto

lemma eff_get: "steps R (getM f)"
  by (rule stepsI) (auto intro: eff_refl)

lemma eff_lift: "steps R (liftM r)"
  by (rule stepsI) (auto intro: eff_refl)

lemma eff_assert: "steps R (assertM b)"
  by (rule stepsI) (auto intro: eff_refl)

lemma eff_bind: "steps R m \<Longrightarrow> (\<And>a. steps R (f a)) \<Longrightarrow> steps R (bindM m f)"
  by (rule stepsI) (auto simp: bindM_run dest!: stepsD intro: eff_trans)

lemma eff_then: "steps R m \<Longrightarrow> steps R n \<Longrightarrow> steps R (thenM m n)"
  by (simp add: thenM_def eff_bind)

lemma eff_when: "steps R m \<Longrightarrow> steps R (whenM b m)"
  by (simp add: whenM_def eff_ret)

lemma eff_if: "steps R m \<Longrightarrow> steps R n \<Longrightarrow> steps R (if b then m else n)"
  by simp

lemma eff_option: "steps R m \<Longrightarrow> (\<And>x. steps R (f x))
    \<Longrightarrow> steps R (case v of None \<Rightarrow> m | Some x \<Rightarrow> f x)"
  by (cases v) simp_all

lemma eff_prod: "(\<And>x y. steps R (f x y)) \<Longrightarrow> steps R (case v of (x, y) \<Rightarrow> f x y)"
  by (cases v) simp

lemma eff_do: "(\<And>m. m \<in> set ms \<Longrightarrow> steps R m) \<Longrightarrow> steps R (doM ms)"
  by (induction ms) (simp_all add: eff_ret eff_then)

lemma eff_do_Nil: "steps R (doM [])"
  by (simp add: eff_ret)

lemma eff_do_Cons: "steps R m \<Longrightarrow> steps R (doM ms) \<Longrightarrow> steps R (doM (m # ms))"
  by (simp add: eff_then)

lemma eff_repeat: "steps R m \<Longrightarrow> steps R (repeatM n m)"
  by (induction n) (simp_all add: eff_ret eff_then)

lemmas eff_rules = eff_ret eff_fail eff_get eff_lift eff_assert eff_bind eff_then eff_when
  eff_if eff_option eff_prod eff_do_Nil eff_do_Cons eff_repeat

end

text \<open>Two effects at once.\<close>

lemma steps_conj: "steps R m \<Longrightarrow> steps Q m \<Longrightarrow> steps (\<lambda>s s'. R s s' \<and> Q s s') m"
  by (auto simp: steps_def)

lemma steps_mono: "steps R m \<Longrightarrow> (\<And>s s'. R s s' \<Longrightarrow> Q s s') \<Longrightarrow> steps Q m"
  by (auto simp: steps_def)

text \<open>Actions that cannot end with a given error.\<close>

definition never :: "err \<Rightarrow> ('s, 'a) M \<Rightarrow> bool" where
  "never e m \<longleftrightarrow> (\<forall>s. m s \<noteq> Inl e)"

named_theorems never_intros \<open>actions that cannot end with a given error\<close>

lemma never_ret [never_intros]: "never e (retM a)"
  and never_get [never_intros]: "never e (getM f)"
  and never_mod [never_intros]: "never e (modM g)"
  and never_fail [never_intros]: "e' \<noteq> e \<Longrightarrow> never e (failM e')"
  and never_lift [never_intros]: "r \<noteq> Inl e \<Longrightarrow> never e (liftM r)"
  by (auto simp: never_def liftM_def split: sum.splits)

lemma never_assert [never_intros]: "e \<noteq> Panic \<Longrightarrow> never e (assertM b)"
  by (simp add: never_def assertM_def)

lemma never_bind [never_intros]: "never e m \<Longrightarrow> (\<And>a. never e (f a)) \<Longrightarrow> never e (bindM m f)"
  by (auto simp: never_def bindM_def split: sum.splits)

lemma never_then [never_intros]: "never e m \<Longrightarrow> never e n \<Longrightarrow> never e (thenM m n)"
  by (simp add: thenM_def never_bind)

lemma never_when [never_intros]: "never e m \<Longrightarrow> never e (whenM b m)"
  by (simp add: whenM_def never_ret)

lemma never_if [never_intros]: "(b \<Longrightarrow> never e m) \<Longrightarrow> (\<not> b \<Longrightarrow> never e n) \<Longrightarrow> never e (if b then m else n)"
  by simp

lemma never_list [never_intros]: "never e m \<Longrightarrow> (\<And>x xs. v = x # xs \<Longrightarrow> never e (f x xs))
    \<Longrightarrow> never e (case v of [] \<Rightarrow> m | x # xs \<Rightarrow> f x xs)"
  by (cases v) simp_all

lemma never_option [never_intros]: "never e m \<Longrightarrow> (\<And>x. never e (f x))
    \<Longrightarrow> never e (case v of None \<Rightarrow> m | Some x \<Rightarrow> f x)"
  by (cases v) simp_all

lemma never_prod [never_intros]: "(\<And>x y. never e (f x y)) \<Longrightarrow> never e (case v of (x, y) \<Rightarrow> f x y)"
  by (cases v) simp

lemma never_do_Nil [never_intros]: "never e (doM [])"
  and never_do_Cons [never_intros]: "never e m \<Longrightarrow> never e (doM ms) \<Longrightarrow> never e (doM (m # ms))"
  by (simp_all add: never_ret never_then)

lemma never_repeat [never_intros]: "never e m \<Longrightarrow> never e (repeatM n m)"
  by (induction n) (simp_all add: never_ret never_then)

text \<open>\<open>lasts m st\<close>: the action does not run out of steps from the state \<open>st\<close>.\<close>

definition lasts :: "('s, 'a) M \<Rightarrow> 's \<Rightarrow> bool" where
  "lasts m st \<longleftrightarrow> m st \<noteq> Inl Fuel"

named_theorems lasts_intros \<open>actions that do not run out of steps\<close>

lemma lasts_never: "never Fuel m \<Longrightarrow> lasts m st"
  by (simp add: lasts_def never_def)

lemma lasts_basic [lasts_intros]:
  "lasts (retM a) st" "lasts (getM f) st" "lasts (modM g) st" "lasts (failM Undef) st"
  by (simp_all add: lasts_def)

lemma lasts_bind:
  "lasts m st \<Longrightarrow> (\<And>a st'. m st = Inr (a, st') \<Longrightarrow> lasts (f a) st') \<Longrightarrow> lasts (bindM m f) st"
  by (auto simp: lasts_def bindM_eval split: sum.splits)

lemma lasts_then: "lasts m st \<Longrightarrow> (\<And>a st'. m st = Inr (a, st') \<Longrightarrow> lasts n st') \<Longrightarrow> lasts (thenM m n) st"
  unfolding thenM_def by (rule lasts_bind)

lemma lasts_if [lasts_intros]: "(b \<Longrightarrow> lasts m st) \<Longrightarrow> (\<not> b \<Longrightarrow> lasts n st) \<Longrightarrow> lasts (if b then m else n) st"
  by simp

lemma lasts_lift: "r \<noteq> Inl Fuel \<Longrightarrow> (\<And>x. r = Inr x \<Longrightarrow> lasts (f x) st) \<Longrightarrow> lasts (bindM (liftM r) f) st"
  by (cases r) (auto simp: lasts_def bindM_eval)

lemma lasts_get: "lasts (f (g st)) st \<Longrightarrow> lasts (bindM (getM g) f) st"
  by (simp add: lasts_def bindM_eval)

lemma lasts_when: "lasts m st \<Longrightarrow> lasts (whenM b m) st"
  by (simp add: whenM_def lasts_basic)

lemma lasts_mod: "lasts m (f st) \<Longrightarrow> lasts (thenM (modM f) m) st"
  by (rule lasts_then) (auto simp: lasts_basic)

section \<open>Characters and little-endian words\<close>

text \<open>The NUL byte that ends a C string, and the value of a (signed) \<open>char\<close> on x86.\<close>

abbreviation NUL :: char where "NUL \<equiv> CHR 0x00"

definition uchar :: "char \<Rightarrow> int" where
  "uchar c = of_char c"

definition schar :: "char \<Rightarrow> int" where
  "schar c = (if uchar c < 128 then uchar c else uchar c - 256)"

definition char_byte :: "char \<Rightarrow> byte" where
  "char_byte c = of_char c"

text \<open>The string that a row of characters holds: it ends at the first NUL.\<close>

definition c_string :: "string \<Rightarrow> string" where
  "c_string s = takeWhile (\<lambda>c. c \<noteq> NUL) s"

lemma c_string_id: "NUL \<notin> set s \<Longrightarrow> c_string s = s"
  by (auto simp: c_string_def takeWhile_eq_all_conv)

lemma uchar_range: "0 \<le> uchar c" "uchar c < 256"
proof -
  have "uchar c = int (of_char c :: nat)" by (simp add: uchar_def of_nat_of_char)
  moreover have "(of_char c :: nat) < 256" by simp
  ultimately show "0 \<le> uchar c" "uchar c < 256" by simp_all
qed

lemma uchar_inject [simp]: "uchar a = uchar b \<longleftrightarrow> a = b"
  by (simp add: uchar_def)

lemma schar_inject [simp]: "schar a = schar b \<longleftrightarrow> a = b"
  using uchar_range [of a] uchar_range [of b] uchar_inject [of a b]
  by (auto simp: schar_def simp del: uchar_inject split: if_splits)

end
