(* ===== verification/CBuffer.thy ===== *)
theory CBuffer
  imports Prelude
begin

text \<open>
  Memory as the string routines see it: a buffer is the list of the bytes of one C object, a
  pointer into it is an index. A read or write outside the object is \<open>Undef\<close>.

  A C string inside a buffer is described by splitting the buffer:
  \<open>pre @ s @ NUL # post\<close> holds the string \<open>s\<close> (which has no NUL of its own) at index
  \<open>length pre\<close>. Every loop lemma about strings is stated over such a split, so that an
  induction on \<open>s\<close> moves one character from \<open>s\<close> to \<open>pre\<close>.
\<close>

type_synonym buf = "char list"

definition rd :: "buf \<Rightarrow> nat \<Rightarrow> err + char" where
  "rd b i = (if i < length b then Inr (b ! i) else Inl Undef)"

definition wr :: "buf \<Rightarrow> nat \<Rightarrow> char \<Rightarrow> err + buf" where
  "wr b i c = (if i < length b then Inr (b[i := c]) else Inl Undef)"

lemma rd_InrD: "rd b i = Inr c \<Longrightarrow> i < length b \<and> c = b ! i"
  by (simp add: rd_def split: if_splits)

lemma wr_InrD: "wr b i c = Inr b' \<Longrightarrow> i < length b \<and> b' = b[i := c]"
  by (simp add: wr_def split: if_splits)

lemma rd_in [simp]: "i < length b \<Longrightarrow> rd b i = Inr (b ! i)"
  by (simp add: rd_def)

lemma wr_in [simp]: "i < length b \<Longrightarrow> wr b i c = Inr (b[i := c])"
  by (simp add: wr_def)

lemma rd_not_fuel [simp]: "rd m p \<noteq> Inl Fuel"
  by (simp add: rd_def)

lemma wr_not_fuel: "wr b i c \<noteq> Inl Fuel"
  by (simp add: wr_def)

text \<open>Reads and writes at a split point.\<close>

lemma rd_split [simp]: "i = length pre \<Longrightarrow> rd (pre @ c # post) i = Inr c"
  by (simp add: rd_def)

lemma wr_split [simp]: "i = length pre \<Longrightarrow> wr (pre @ c # post) i d = Inr (pre @ d # post)"
  by (simp add: wr_def)

text \<open>The string stored at an index, and whether it is terminated inside the buffer.\<close>

definition cstr :: "buf \<Rightarrow> nat \<Rightarrow> string" where
  "cstr b p = takeWhile (\<lambda>c. c \<noteq> NUL) (drop p b)"

definition terminated :: "buf \<Rightarrow> nat \<Rightarrow> bool" where
  "terminated b p \<longleftrightarrow> NUL \<in> set (drop p b)"

lemma takeWhile_NUL [simp]: "NUL \<notin> set s \<Longrightarrow> takeWhile (\<lambda>c. c \<noteq> NUL) (s @ NUL # post) = s"
  by (induction s) auto

lemma cstr_no_NUL [simp]: "NUL \<notin> set (cstr b p)"
  by (auto simp: cstr_def dest: set_takeWhileD)

lemma cstr_split [simp]: "NUL \<notin> set s \<Longrightarrow> i = length pre \<Longrightarrow> cstr (pre @ s @ NUL # post) i = s"
  by (simp add: cstr_def)

lemma terminated_split [simp]: "i = length pre \<Longrightarrow> terminated (pre @ s @ NUL # post) i"
  by (simp add: terminated_def)

lemma terminated_less: "terminated b p \<Longrightarrow> p + length (cstr b p) < length b"
proof -
  assume "terminated b p"
  then have "NUL \<in> set (drop p b)" by (simp add: terminated_def)
  then obtain s post where d: "drop p b = s @ NUL # post" and s: "NUL \<notin> set s"
    by (meson split_list_first)
  then have "cstr b p = s" by (simp add: cstr_def)
  moreover from d have "length s < length (drop p b)" by simp
  ultimately show ?thesis by simp
qed

text \<open>Every terminated string can be split out of its buffer.\<close>

lemma terminatedE:
  assumes "terminated b p"
  obtains pre s post where "b = pre @ s @ NUL # post" and "length pre = p" and "NUL \<notin> set s"
    and "cstr b p = s"
proof -
  from assms have "NUL \<in> set (drop p b)" by (simp add: terminated_def)
  then obtain s post where d: "drop p b = s @ NUL # post" and s: "NUL \<notin> set s"
    by (meson split_list_first)
  have "cstr b p = s" using d s by (simp add: cstr_def)
  moreover have "b = take p b @ s @ NUL # post" using d by (metis append_take_drop_id)
  moreover have "length (take p b) = p" using d by (cases "p \<le> length b") auto
  ultimately show thesis using that s by metis
qed

text \<open>Shifting a split by one character, the step of every induction below.\<close>

lemma split_shift: "pre @ (c # s) @ t = (pre @ [c]) @ s @ t"
  by simp

end
