(* ===== verification/StagingStrings.thy ===== *)
theory StagingStrings
  imports CBuffer "HOL-Library.Sublist"
begin

text \<open>
  The string routines of \<open>attic/staging.c\<close>, twice. First as the loops they are, over byte
  buffers and indices, where a read past the end of the object is an error. Then as functions
  on the stored strings (\<open>nospace\<close>, \<open>trim\<close>, \<open>char_pos\<close>, and equality for \<open>strcmp\<close>), with
  the theorems that the loops compute exactly these and touch nothing else. The assembler's
  model is written with the second form.
\<close>

definition is_blank :: "char \<Rightarrow> bool" where
  "is_blank c \<longleftrightarrow> c = CHR '' '' \<or> c = CHR 0x09"

section \<open>The loops\<close>

subsection \<open>strlen2, find_char2\<close>

function strlen_loop :: "buf \<Rightarrow> nat \<Rightarrow> nat \<Rightarrow> err + nat" where
  "strlen_loop b s s2 =
     bindR (rd b s2) (\<lambda>c. if c \<noteq> NUL then strlen_loop b s (Suc s2) else Inr (s2 - s))"
  by pat_completeness auto
termination
  by (relation "measure (\<lambda>(b, s, s2). length b - s2)") (auto dest!: rd_InrD)

definition strlen2 :: "buf \<Rightarrow> nat \<Rightarrow> err + nat" where
  "strlen2 b s = strlen_loop b s s"

text \<open>\<open>None\<close> is the return value \<open>-1\<close>.\<close>

function find_char_loop :: "buf \<Rightarrow> nat \<Rightarrow> char \<Rightarrow> nat \<Rightarrow> err + nat option" where
  "find_char_loop b s c s2 =
     bindR (rd b s2) (\<lambda>x. if x = c then Inr (Some (s2 - s))
       else if x = NUL then Inr None
       else find_char_loop b s c (Suc s2))"
  by pat_completeness auto
termination
  by (relation "measure (\<lambda>(b, s, c, s2). length b - s2)") (auto dest!: rd_InrD)

definition find_char2 :: "buf \<Rightarrow> nat \<Rightarrow> char \<Rightarrow> err + nat option" where
  "find_char2 b s c = find_char_loop b s c s"

subsection \<open>strcmp2, isstrpref2\<close>

function strcmp2 :: "buf \<Rightarrow> nat \<Rightarrow> buf \<Rightarrow> nat \<Rightarrow> err + int" where
  "strcmp2 b1 s1 b2 s2 =
     bindR (rd b1 s1) (\<lambda>x. bindR (rd b2 s2) (\<lambda>y.
       if schar x < schar y then Inr (- 1)
       else if schar x > schar y then Inr 1
       else if x = NUL then Inr 0
       else strcmp2 b1 (Suc s1) b2 (Suc s2)))"
  by pat_completeness auto
termination
  by (relation "measure (\<lambda>(b1, s1, b2, s2). length b1 - s1)") (auto dest!: rd_InrD)

function isstrpref2 :: "buf \<Rightarrow> nat \<Rightarrow> buf \<Rightarrow> nat \<Rightarrow> err + bool" where
  "isstrpref2 b1 s1 b2 s2 =
     bindR (rd b1 s1) (\<lambda>x. if x = NUL then Inr True
       else bindR (rd b2 s2) (\<lambda>y. if x \<noteq> y then Inr False
         else isstrpref2 b1 (Suc s1) b2 (Suc s2)))"
  by pat_completeness auto
termination
  by (relation "measure (\<lambda>(b1, s1, b2, s2). length b1 - s1)") (auto dest!: rd_InrD)

subsection \<open>strcpy2\<close>

text \<open>Copies between two objects; the result is the destination buffer.\<close>

function strcpy2 :: "buf \<Rightarrow> nat \<Rightarrow> buf \<Rightarrow> nat \<Rightarrow> err + buf" where
  "strcpy2 bd d bs s =
     bindR (rd bs s) (\<lambda>c. bindR (wr bd d c) (\<lambda>bd'.
       if c = NUL then Inr bd' else strcpy2 bd' (Suc d) bs (Suc s)))"
  by pat_completeness auto
termination
  by (relation "measure (\<lambda>(bd, d, bs, s). length bs - s)") (auto dest!: rd_InrD)

subsection \<open>remove_spaces2, trimstr2\<close>

text \<open>\<open>w\<close> is \<open>buf\<close>, which advances, and \<open>r\<close> is \<open>read_buf\<close>.\<close>

function remove_spaces_loop :: "buf \<Rightarrow> nat \<Rightarrow> nat \<Rightarrow> err + buf" where
  "remove_spaces_loop b w r =
     bindR (rd b r) (\<lambda>c. if c = NUL then wr b w NUL
       else if is_blank c then remove_spaces_loop b w (Suc r)
       else bindR (wr b w c) (\<lambda>b'. remove_spaces_loop b' (Suc w) (Suc r)))"
  by pat_completeness auto
termination
  by (relation "measure (\<lambda>(b, w, r). length b - r)") (auto dest!: rd_InrD wr_InrD)

definition remove_spaces2 :: "buf \<Rightarrow> nat \<Rightarrow> err + buf" where
  "remove_spaces2 b p = remove_spaces_loop b p p"

function trim_skip :: "buf \<Rightarrow> nat \<Rightarrow> err + nat" where
  "trim_skip b r =
     bindR (rd b r) (\<lambda>c. if is_blank c then trim_skip b (Suc r) else Inr r)"
  by pat_completeness auto
termination
  by (relation "measure (\<lambda>(b, r). length b - r)") (auto dest!: rd_InrD)

function trim_copy :: "buf \<Rightarrow> nat \<Rightarrow> nat \<Rightarrow> err + buf \<times> nat" where
  "trim_copy b w r =
     bindR (rd b r) (\<lambda>c. if c \<noteq> NUL
       then bindR (wr b w c) (\<lambda>b'. trim_copy b' (Suc w) (Suc r))
       else Inr (b, w))"
  by pat_completeness auto
termination
  by (relation "measure (\<lambda>(b, w, r). length b - r)") (auto dest!: rd_InrD wr_InrD)

text \<open>
  The backwards loop runs \<open>write_buf\<close> down to \<open>buf - 1\<close>; \<open>w\<close> is \<open>write_buf + 1\<close> here,
  so that the guard \<open>write_buf >= buf\<close> is \<open>p < w\<close>.
\<close>

fun trim_back :: "buf \<Rightarrow> nat \<Rightarrow> nat \<Rightarrow> err + buf" where
  "trim_back b p 0 = Inr b"
| "trim_back b p (Suc w) =
     (if p < Suc w
      then bindR (rd b w) (\<lambda>c. if is_blank c
        then bindR (wr b w NUL) (\<lambda>b'. trim_back b' p w) else Inr b)
      else Inr b)"

definition trimstr2 :: "buf \<Rightarrow> nat \<Rightarrow> err + buf" where
  "trimstr2 b p =
     bindR (trim_skip b p) (\<lambda>r.
     bindR (trim_copy b p r) (\<lambda>(b1, w).
     bindR (wr b1 w NUL) (\<lambda>b2. trim_back b2 p w)))"

declare strlen_loop.simps [simp del] find_char_loop.simps [simp del] strcmp2.simps [simp del]
  isstrpref2.simps [simp del] strcpy2.simps [simp del] remove_spaces_loop.simps [simp del]
  trim_skip.simps [simp del] trim_copy.simps [simp del]

section \<open>The functions on strings they compute\<close>

definition nospace :: "string \<Rightarrow> string" where
  "nospace s = filter (\<lambda>c. \<not> is_blank c) s"

definition rstrip :: "string \<Rightarrow> string" where
  "rstrip s = rev (dropWhile is_blank (rev s))"

definition trim :: "string \<Rightarrow> string" where
  "trim s = rstrip (dropWhile is_blank s)"

primrec char_pos :: "char \<Rightarrow> string \<Rightarrow> nat option" where
  "char_pos c [] = None"
| "char_pos c (x # xs) = (if x = c then Some 0 else map_option Suc (char_pos c xs))"

text \<open>Lexicographic order of the signed byte values, a proper prefix being smaller.\<close>

fun sign_cmp :: "string \<Rightarrow> string \<Rightarrow> int" where
  "sign_cmp [] [] = 0"
| "sign_cmp [] (y # ys) = (if 0 < schar y then - 1 else 1)"
| "sign_cmp (x # xs) [] = (if schar x < 0 then - 1 else 1)"
| "sign_cmp (x # xs) (y # ys) =
     (if schar x < schar y then - 1 else if schar x > schar y then 1 else sign_cmp xs ys)"

lemma is_blank_NUL [simp]: "\<not> is_blank NUL"
  by (simp add: is_blank_def)

lemma schar_NUL [simp]: "schar NUL = 0"
  by (simp add: schar_def uchar_def)

lemma schar_eq_0 [simp]: "schar c = 0 \<longleftrightarrow> c = NUL"
  using schar_inject [of c NUL] by simp

subsection \<open>Length and search\<close>

lemma strlen_loop_split:
  "NUL \<notin> set s \<Longrightarrow> i = length pre \<Longrightarrow>
     strlen_loop (pre @ s @ NUL # post) p i = Inr (length pre + length s - p)"
proof (induction s arbitrary: pre i)
  case Nil
  then show ?case by (subst strlen_loop.simps) simp
next
  case (Cons a s)
  from Cons.prems Cons.IH [of "Suc i" "pre @ [a]"] show ?case
    by (subst strlen_loop.simps) (auto simp: rd_def nth_append)
qed

lemma find_char_loop_split:
  "NUL \<notin> set s \<Longrightarrow> c \<noteq> NUL \<Longrightarrow> i = length pre \<Longrightarrow> p \<le> i \<Longrightarrow>
     find_char_loop (pre @ s @ NUL # post) p c i = Inr (map_option (\<lambda>k. length pre - p + k) (char_pos c s))"
proof (induction s arbitrary: pre i)
  case Nil
  then show ?case by (subst find_char_loop.simps) simp
next
  case (Cons a s)
  from Cons.prems Cons.IH [of "Suc i" "pre @ [a]"] show ?case
    by (subst find_char_loop.simps)
      (auto simp: rd_def nth_append option.map_comp comp_def Suc_diff_le)
qed

subsection \<open>Comparison\<close>

lemma strcmp2_split:
  "NUL \<notin> set s \<Longrightarrow> NUL \<notin> set t \<Longrightarrow> i = length pre1 \<Longrightarrow> j = length pre2 \<Longrightarrow>
     strcmp2 (pre1 @ s @ NUL # post1) i (pre2 @ t @ NUL # post2) j = Inr (sign_cmp s t)"
proof (induction s t arbitrary: pre1 pre2 i j rule: sign_cmp.induct)
  case 1
  then show ?case by (subst strcmp2.simps) simp
next
  case (2 y ys)
  then show ?case by (subst strcmp2.simps) auto
next
  case (3 x xs)
  then show ?case by (subst strcmp2.simps) auto
next
  case (4 x xs y ys)
  show ?case
  proof (cases "x = y")
    case True
    with 4 have "strcmp2 ((pre1 @ [x]) @ xs @ NUL # post1) (Suc i) ((pre2 @ [y]) @ ys @ NUL # post2) (Suc j)
        = Inr (sign_cmp xs ys)" by (intro "4.IH") auto
    with True "4.prems" show ?thesis by (subst strcmp2.simps) auto
  next
    case False
    then have "schar x \<noteq> schar y" by simp
    with "4.prems" show ?thesis by (subst strcmp2.simps) auto
  qed
qed

lemma sign_cmp_0: "NUL \<notin> set s \<Longrightarrow> NUL \<notin> set t \<Longrightarrow> sign_cmp s t = 0 \<longleftrightarrow> s = t"
proof (induction s t rule: sign_cmp.induct)
  case (4 x xs y ys)
  then show ?case using schar_inject [of x y] by (auto simp del: schar_inject)
qed auto

lemma isstrpref2_split:
  "NUL \<notin> set s \<Longrightarrow> NUL \<notin> set t \<Longrightarrow> i = length pre1 \<Longrightarrow> j = length pre2 \<Longrightarrow>
     isstrpref2 (pre1 @ s @ NUL # post1) i (pre2 @ t @ NUL # post2) j = Inr (prefix s t)"
proof (induction s arbitrary: t pre1 pre2 i j)
  case Nil
  then show ?case by (subst isstrpref2.simps) simp
next
  case (Cons x xs)
  show ?case
  proof (cases t)
    case Nil
    with Cons.prems show ?thesis by (subst isstrpref2.simps) auto
  next
    case (Cons y ys)
    with Cons.IH [of ys "Suc i" "pre1 @ [x]" "Suc j" "pre2 @ [y]"] Cons.prems show ?thesis
      by (subst isstrpref2.simps) auto
  qed
qed

subsection \<open>Copying\<close>

lemma strcpy2_split:
  "NUL \<notin> set s \<Longrightarrow> i = length pre \<Longrightarrow> d = length pd \<Longrightarrow> length room = Suc (length s) \<Longrightarrow>
     strcpy2 (pd @ room @ rest) d (pre @ s @ NUL # post) i = Inr (pd @ s @ NUL # rest)"
proof (induction s arbitrary: pre i pd d room)
  case Nil
  then obtain x where "room = [x]" by (auto simp: length_Suc_conv)
  with Nil show ?case by (subst strcpy2.simps) simp
next
  case (Cons a s)
  then obtain x room' where room: "room = x # room'" and len: "length room' = Suc (length s)"
    by (auto simp: length_Suc_conv)
  with Cons.IH [of "Suc i" "pre @ [a]" "Suc d" "pd @ [a]" room'] Cons.prems show ?case
    by (subst strcpy2.simps) auto
qed

text \<open>A string that does not fit makes the copy run past the end of the destination.\<close>

lemma strcpy2_overflow:
  "NUL \<notin> set s \<Longrightarrow> i = length pre \<Longrightarrow> d \<le> length bd \<Longrightarrow> length bd \<le> d + length s \<Longrightarrow>
     strcpy2 bd d (pre @ s @ NUL # post) i = Inl Undef"
proof (induction s arbitrary: pre i bd d)
  case Nil
  then show ?case by (subst strcpy2.simps) (simp add: wr_def)
next
  case (Cons a s)
  show ?case
  proof (cases "d < length bd")
    case True
    with Cons.IH [of "Suc i" "pre @ [a]" "Suc d" "bd[d := a]"] Cons.prems show ?thesis
      by (subst strcpy2.simps) auto
  next
    case False
    with Cons.prems show ?thesis by (subst strcpy2.simps) (simp add: wr_def)
  qed
qed

subsection \<open>Removing and trimming blanks\<close>

text \<open>
  Both routines move characters down inside the buffer: between the part already written
  (\<open>pre\<close>) and the part still to be read lies a gap of stale characters.
\<close>

lemma wr_gap:
  assumes "w = length pre"
  obtains gap' where "length gap' = length gap"
    and "wr (pre @ gap @ c # t) w c = Inr ((pre @ [c]) @ gap' @ t)"
proof -
  obtain x gap' where x: "gap @ [c] = x # gap'" by (cases "gap @ [c]") auto
  have split: "pre @ gap @ c # t = pre @ x # gap' @ t"
    using x by (metis append.assoc append_Cons append_Nil)
  have "length (gap @ [c]) = Suc (length gap')" using x by simp
  moreover have "wr (pre @ gap @ c # t) w c = Inr ((pre @ [c]) @ gap' @ t)"
    using assms by (simp add: split)
  ultimately show thesis using that by simp
qed

lemma wr_gap_NUL:
  assumes "w = length pre"
  obtains junk where "length junk = length gap"
    and "wr (pre @ gap @ NUL # post) w NUL = Inr (pre @ NUL # junk @ post)"
  using wr_gap [OF assms, of gap NUL post] by (metis append.assoc append_Cons append_Nil)

lemma remove_spaces_split:
  "NUL \<notin> set s \<Longrightarrow> w = length pre \<Longrightarrow> r = length pre + length gap \<Longrightarrow>
   \<exists>junk. length (nospace s) + length junk = length gap + length s \<and>
     remove_spaces_loop (pre @ gap @ s @ NUL # post) w r = Inr (pre @ nospace s @ NUL # junk @ post)"
proof (induction s arbitrary: pre gap w r)
  case Nil
  obtain junk where "length junk = length gap"
    and "wr (pre @ gap @ NUL # post) w NUL = Inr (pre @ NUL # junk @ post)"
    using wr_gap_NUL [OF Nil.prems(2)] .
  with Nil.prems show ?case
    by (subst remove_spaces_loop.simps) (auto simp: nospace_def rd_def nth_append)
next
  case (Cons a s)
  have rd_a: "rd (pre @ gap @ (a # s) @ NUL # post) r = Inr a"
    using Cons.prems by (simp add: rd_def nth_append)
  show ?case
  proof (cases "is_blank a")
    case True
    with Cons.IH [of w pre "Suc r" "gap @ [a]"] Cons.prems rd_a show ?thesis
      by (subst remove_spaces_loop.simps) (auto simp: nospace_def)
  next
    case False
    obtain gap' where gap': "length gap' = length gap"
      and wr: "wr (pre @ gap @ a # (s @ NUL # post)) w a = Inr ((pre @ [a]) @ gap' @ s @ NUL # post)"
      using wr_gap [OF Cons.prems(2)] .
    from Cons.IH [of "Suc w" "pre @ [a]" "Suc r" gap'] Cons.prems gap'
    obtain junk where "length (nospace s) + length junk = length gap' + length s"
      and "remove_spaces_loop ((pre @ [a]) @ gap' @ s @ NUL # post) (Suc w) (Suc r)
        = Inr ((pre @ [a]) @ nospace s @ NUL # junk @ post)" by auto
    with False Cons.prems rd_a wr gap' show ?thesis
      by (subst remove_spaces_loop.simps) (auto simp: nospace_def)
  qed
qed

lemma trim_skip_split:
  "NUL \<notin> set s \<Longrightarrow> r = length pre \<Longrightarrow>
     trim_skip (pre @ s @ NUL # post) r = Inr (length pre + length (takeWhile is_blank s))"
proof (induction s arbitrary: pre r)
  case Nil
  then show ?case by (subst trim_skip.simps) simp
next
  case (Cons a s)
  with Cons.IH [of "Suc r" "pre @ [a]"] show ?case
    by (subst trim_skip.simps) auto
qed

lemma trim_copy_split:
  "NUL \<notin> set s \<Longrightarrow> w = length pre \<Longrightarrow> r = length pre + length gap \<Longrightarrow>
   \<exists>gap'. length gap' = length gap \<and>
     trim_copy (pre @ gap @ s @ NUL # post) w r = Inr (pre @ s @ gap' @ NUL # post, w + length s)"
proof (induction s arbitrary: pre gap w r)
  case Nil
  then show ?case by (subst trim_copy.simps) (auto simp: rd_def nth_append)
next
  case (Cons a s)
  have rd_a: "rd (pre @ gap @ (a # s) @ NUL # post) r = Inr a"
    using Cons.prems by (simp add: rd_def nth_append)
  obtain gap' where gap': "length gap' = length gap"
    and wr: "wr (pre @ gap @ a # (s @ NUL # post)) w a = Inr ((pre @ [a]) @ gap' @ s @ NUL # post)"
    using wr_gap [OF Cons.prems(2)] .
  from Cons.IH [of "Suc w" "pre @ [a]" "Suc r" gap'] Cons.prems gap' rd_a wr show ?case
    by (subst trim_copy.simps) auto
qed

lemma trim_back_split:
  "length pre = p \<Longrightarrow> w = p + length s \<Longrightarrow>
   \<exists>junk. length (rstrip s) + length junk = length s \<and>
     trim_back (pre @ s @ NUL # post) p w = Inr (pre @ rstrip s @ NUL # junk @ post)"
proof (induction s arbitrary: w post rule: rev_induct)
  case Nil
  have "trim_back (pre @ NUL # post) p p = Inr (pre @ NUL # post)" for p
    by (cases p) (auto simp: rd_def Nil.prems)
  with Nil show ?case by (auto simp: rstrip_def)
next
  case (snoc a s)
  then obtain v where w: "w = Suc v" and v: "v = p + length s" by (cases w) auto
  show ?case
  proof (cases "is_blank a")
    case True
    have "trim_back (pre @ (s @ [a]) @ NUL # post) p w = trim_back (pre @ s @ NUL # NUL # post) p v"
      using snoc.prems w v True
      by (simp add: rd_def wr_def nth_append list_update_append)
    moreover obtain junk where "length (rstrip s) + length junk = length s"
      and "trim_back (pre @ s @ NUL # NUL # post) p v = Inr (pre @ rstrip s @ NUL # junk @ NUL # post)"
      using snoc.IH [of v "NUL # post"] snoc.prems v by auto
    ultimately show ?thesis
      using True by (intro exI [of _ "junk @ [NUL]"]) (simp add: rstrip_def)
  next
    case False
    with snoc.prems w v show ?thesis
      by (auto simp: rd_def nth_append rstrip_def)
  qed
qed

lemma length_nospace: "length (nospace s) \<le> length s"
  by (simp add: nospace_def)

lemma set_rstrip: "set (rstrip s) \<subseteq> set s"
  using set_dropWhileD [of _ is_blank "rev s"] by (auto simp: rstrip_def)

lemma set_trim: "set (trim s) \<subseteq> set s"
  using set_rstrip [of "dropWhile is_blank s"] by (auto simp: trim_def dest: set_dropWhileD)

lemma set_nospace: "set (nospace s) \<subseteq> set s"
  by (auto simp: nospace_def)

lemma not_in_trim [simp]: "c \<notin> set s \<Longrightarrow> c \<notin> set (trim s)"
  using set_trim [of s] by blast

lemma not_in_nospace [simp]: "c \<notin> set s \<Longrightarrow> c \<notin> set (nospace s)"
  by (simp add: nospace_def)

lemma not_in_rstrip [simp]: "c \<notin> set s \<Longrightarrow> c \<notin> set (rstrip s)"
  using set_rstrip [of s] by blast

section \<open>The loops compute the functions on strings\<close>

text \<open>
  What a routine that rewrites the string at \<open>p\<close> in place must leave alone: the object's
  size, the bytes before the string and the bytes after its terminator.
\<close>

definition only_string_changed :: "buf \<Rightarrow> nat \<Rightarrow> buf \<Rightarrow> bool" where
  "only_string_changed b p b' \<longleftrightarrow> length b' = length b \<and> take p b' = take p b \<and>
     drop (Suc (p + length (cstr b p))) b' = drop (Suc (p + length (cstr b p))) b"

lemma only_string_changed_split:
  assumes "NUL \<notin> set s" "length pre = p" "length t + length junk = length s"
  shows "only_string_changed (pre @ s @ NUL # post) p (pre @ t @ NUL # junk @ post)"
proof -
  have "drop (Suc (length t + length junk)) (t @ NUL # junk @ post) = post"
    by (simp add: Suc_diff_le)
  with assms show ?thesis by (auto simp: only_string_changed_def)
qed

text \<open>C40: \<open>trimstr2\<close> replaces the string at \<open>p\<close> by the string without its leading and
  trailing blanks and tabs, stays inside the object, and changes no byte before the string or
  after its terminator.\<close>

theorem trimstr2_correct:
  assumes "terminated b p"
  shows "\<exists>b'. trimstr2 b p = Inr b' \<and> terminated b' p \<and> cstr b' p = trim (cstr b p) \<and>
    only_string_changed b p b'"
proof -
  obtain pre s post where b: "b = pre @ s @ NUL # post" and p: "length pre = p"
    and s: "NUL \<notin> set s" and cs: "cstr b p = s"
    using terminatedE [OF assms] .
  define ws u where "ws = takeWhile is_blank s" and "u = dropWhile is_blank s"
  have su: "s = ws @ u" by (simp add: ws_def u_def)
  then have nu: "NUL \<notin> set u" using s by simp
  have skip: "trim_skip b p = Inr (p + length ws)"
    using trim_skip_split [OF s, of p pre] p b by (simp add: ws_def)
  obtain gap where gap: "length gap = length ws"
    and copy: "trim_copy b p (p + length ws) = Inr (pre @ u @ gap @ NUL # post, p + length u)"
    using trim_copy_split [of u p pre "p + length ws" ws post] s p su b by auto
  obtain junk where junk: "length junk = length gap"
    and wr: "wr (pre @ u @ gap @ NUL # post) (p + length u) NUL = Inr (pre @ u @ NUL # junk @ post)"
    using wr_gap_NUL [of "p + length u" "pre @ u" gap post] p by auto
  obtain junk' where junk': "length (rstrip u) + length junk' = length u"
    and bk: "trim_back (pre @ u @ NUL # junk @ post) p (p + length u)
      = Inr (pre @ rstrip u @ NUL # junk' @ junk @ post)"
    using trim_back_split [OF p refl, of u "junk @ post"] by auto
  have run: "trimstr2 b p = Inr (pre @ rstrip u @ NUL # (junk' @ junk) @ post)"
    using skip copy wr bk by (simp add: trimstr2_def)
  have "only_string_changed b p (pre @ rstrip u @ NUL # (junk' @ junk) @ post)"
    unfolding b using s p su gap junk junk'
    by (intro only_string_changed_split) simp_all
  moreover have "cstr (pre @ rstrip u @ NUL # (junk' @ junk) @ post) p = trim s"
    using cstr_split [where pre = pre and i = p and s = "rstrip u" and post = "(junk' @ junk) @ post"] nu p
    by (simp add: trim_def flip: u_def)
  moreover have "terminated (pre @ rstrip u @ NUL # (junk' @ junk) @ post) p"
    by (rule terminated_split) (simp add: p)
  ultimately show ?thesis using run cs by blast
qed

theorem trimstr2_correct_witness:
  "\<exists>b'. trimstr2 [CHR 0x09, CHR ''a'', CHR '' '', NUL, CHR ''z''] 0 = Inr b' \<and> cstr b' 0 = ''a''"
proof -
  let ?b = "[CHR 0x09, CHR ''a'', CHR '' '', NUL, CHR ''z'']"
  have "terminated ?b 0" by (simp add: terminated_def)
  moreover have "trim (cstr ?b 0) = ''a''"
    by (simp add: cstr_def trim_def rstrip_def is_blank_def)
  ultimately show ?thesis using trimstr2_correct [of ?b 0] by auto
qed

text \<open>\<open>remove_spaces2\<close> replaces the string at \<open>p\<close> by the string without its blanks and
  tabs, stays inside the object, and changes no byte before the string or after its
  terminator.\<close>

theorem remove_spaces2_correct:
  assumes "terminated b p"
  shows "\<exists>b'. remove_spaces2 b p = Inr b' \<and> terminated b' p \<and> cstr b' p = nospace (cstr b p) \<and>
    only_string_changed b p b'"
proof -
  obtain pre s post where b: "b = pre @ s @ NUL # post" and p: "length pre = p"
    and s: "NUL \<notin> set s" and cs: "cstr b p = s"
    using terminatedE [OF assms] .
  have "\<exists>junk. length (nospace s) + length junk = length ([] :: string) + length s \<and>
      remove_spaces_loop (pre @ [] @ s @ NUL # post) p p = Inr (pre @ nospace s @ NUL # junk @ post)"
    by (rule remove_spaces_split) (simp_all add: s p)
  then obtain junk where junk: "length (nospace s) + length junk = length s"
    and run: "remove_spaces2 b p = Inr (pre @ nospace s @ NUL # junk @ post)"
    unfolding b remove_spaces2_def by auto
  have "only_string_changed b p (pre @ nospace s @ NUL # junk @ post)"
    unfolding b using s p junk by (intro only_string_changed_split) simp_all
  moreover have "cstr (pre @ nospace s @ NUL # junk @ post) p = nospace s"
    by (rule cstr_split) (simp_all add: s p)
  moreover have "terminated (pre @ nospace s @ NUL # junk @ post) p"
    by (rule terminated_split) (simp add: p)
  ultimately show ?thesis using run cs by blast
qed

theorem remove_spaces2_correct_witness:
  "\<exists>b'. remove_spaces2 [CHR ''a'', CHR '' '', CHR ''+'', NUL] 0 = Inr b' \<and> cstr b' 0 = ''a+''"
proof -
  let ?b = "[CHR ''a'', CHR '' '', CHR ''+'', NUL]"
  have "terminated ?b 0" by (simp add: terminated_def)
  moreover have "nospace (cstr ?b 0) = ''a+''"
    by (simp add: cstr_def nospace_def is_blank_def)
  ultimately show ?thesis using remove_spaces2_correct [of ?b 0] by auto
qed

text \<open>The other routines read only; each returns what the function on strings says.\<close>

lemma strlen2_correct:
  assumes "terminated b p"
  shows "strlen2 b p = Inr (length (cstr b p))"
  using assms by (elim terminatedE) (auto simp: strlen2_def strlen_loop_split)

lemma find_char2_correct:
  assumes "terminated b p" "c \<noteq> NUL"
  shows "find_char2 b p c = Inr (char_pos c (cstr b p))"
  using assms by (elim terminatedE) (auto simp: find_char2_def find_char_loop_split option.map_ident)

text \<open>\<open>strcmp2\<close> on two terminated strings returns without leaving either object; its
  result is the sign of the lexicographic comparison of the (signed) characters, and it is 0
  exactly when the two strings are equal.\<close>

theorem strcmp2_correct:
  assumes "terminated b1 p1" "terminated b2 p2"
  shows "strcmp2 b1 p1 b2 p2 = Inr (sign_cmp (cstr b1 p1) (cstr b2 p2)) \<and>
    (strcmp2 b1 p1 b2 p2 = Inr 0 \<longleftrightarrow> cstr b1 p1 = cstr b2 p2)"
proof -
  have "strcmp2 b1 p1 b2 p2 = Inr (sign_cmp (cstr b1 p1) (cstr b2 p2))"
    using assms by (elim terminatedE) (simp add: strcmp2_split)
  then show ?thesis by (simp add: sign_cmp_0)
qed

theorem strcmp2_correct_witness:
  "strcmp2 [CHR ''a'', NUL] 0 [CHR ''b'', CHR ''a'', NUL] 1 = Inr 0"
proof -
  have "terminated [CHR ''a'', NUL] 0" "terminated [CHR ''b'', CHR ''a'', NUL] 1"
    by (simp_all add: terminated_def)
  from strcmp2_correct [OF this] show ?thesis by (simp add: cstr_def)
qed

lemma isstrpref2_correct:
  assumes "terminated b1 p1" "terminated b2 p2"
  shows "isstrpref2 b1 p1 b2 p2 = Inr (prefix (cstr b1 p1) (cstr b2 p2))"
  using assms by (elim terminatedE) (simp add: isstrpref2_split)

end
