(* ===== verification/Symbols.thy ===== *)
theory Symbols
  imports Prelude
begin

text \<open>
  The state the two prototype compilers of \<open>attic/\<close> share (\<open>staging.c\<close>, the assembler, and
  \<open>gstaging.c\<close>, the G compiler), its symbol table and its code emitter.

  The symbol table is three parallel C arrays and a counter. An array is a function from its
  index; the code checks \<open>symbol_num < SYMBOL_TABLE_LEN\<close> before it stores, so no access is out
  of range. \<open>symbol_names\<close> holds the string of each slot. \<open>stage\<close>, \<open>current_loc\<close> and the
  bytes written so far (\<open>emitted\<close>, in order) complete the state. What the table promises its
  clients is the locale \<open>symbol_store\<close>, interpreted here on the arrays.
\<close>

record core =
  symbol_num :: nat
  symbol_names :: "nat \<Rightarrow> string"
  symbol_locs :: "nat \<Rightarrow> i32"
  symbol_arities :: "nat \<Rightarrow> i32"
  stage :: nat
  current_loc :: i32
  emitted :: "byte list"

text \<open>The state the program starts with: static memory is zero.\<close>

definition empty_core :: core where
  "empty_core = \<lparr>symbol_num = 0, symbol_names = \<lambda>_. [], symbol_locs = \<lambda>_. 0, symbol_arities = \<lambda>_. 0,
     stage = 0, current_loc = 0, emitted = []\<rparr>"

definition MAX_SYMBOL_NAME_LEN :: nat where "MAX_SYMBOL_NAME_LEN = 128"
definition SYMBOL_TABLE_LEN :: nat where "SYMBOL_TABLE_LEN = 1024"

section \<open>The symbol table\<close>

function symbol_idx_loop :: "(nat \<Rightarrow> string) \<Rightarrow> nat \<Rightarrow> string \<Rightarrow> nat \<Rightarrow> nat" where
  "symbol_idx_loop names num name i =
     (if i < num then (if name = names i then i else symbol_idx_loop names num name (Suc i)) else i)"
  by pat_completeness auto
termination
  by (relation "measure (\<lambda>(names, num, name, i). num - i)") auto

declare symbol_idx_loop.simps [simp del]

definition get_symbol_idx :: "string \<Rightarrow> 'a core_scheme \<Rightarrow> nat" where
  "get_symbol_idx name s = symbol_idx_loop (symbol_names s) (symbol_num s) name 0"

definition find_symbol :: "string \<Rightarrow> 'a core_scheme \<Rightarrow> (i32 \<times> i32) option" where
  "find_symbol name s =
     (let i = get_symbol_idx name s
      in if i = symbol_num s then None else Some (symbol_locs s i, symbol_arities s i))"

definition add_symbol :: "string \<Rightarrow> i32 \<Rightarrow> i32 \<Rightarrow> ('a core_scheme, unit) M" where
  "add_symbol name l a =
     thenM (assertM (0 < length name))
    (thenM (assertM (length name < MAX_SYMBOL_NAME_LEN))
    (bindM (getM symbol_num) (\<lambda>n.
     bindM (getM (find_symbol name)) (\<lambda>res.
     thenM (assertM (res = None))
    (thenM (assertM (n < SYMBOL_TABLE_LEN))
    (modM (\<lambda>s. s\<lparr>symbol_locs := (symbol_locs s)(n := l),
                  symbol_arities := (symbol_arities s)(n := a),
                  symbol_names := (symbol_names s)(n := name),
                  symbol_num := n + 1\<rparr>)))))))"

definition add_symbol_wrapper :: "string \<Rightarrow> i32 \<Rightarrow> i32 \<Rightarrow> ('a core_scheme, unit) M" where
  "add_symbol_wrapper name l a =
     bindM (getM stage) (\<lambda>st.
       if st = 0 then add_symbol name l a
       else if st = 1 then
         bindM (getM (find_symbol name)) (\<lambda>res. case res of
           None \<Rightarrow> failM Panic
         | Some (l2, a2) \<Rightarrow> thenM (assertM (l = l2)) (assertM (a = a2)))
       else failM Panic)"

definition add_symbol_placeholder :: "string \<Rightarrow> i32 \<Rightarrow> ('a core_scheme, unit) M" where
  "add_symbol_placeholder name a =
     bindM (getM stage) (\<lambda>st.
     bindM (getM (find_symbol name)) (\<lambda>res.
     thenM (whenM (st \<noteq> 0) (assertM (res \<noteq> None)))
     (case res of
        None \<Rightarrow> add_symbol name 0xffffffff a
      | Some (l2, a2) \<Rightarrow> assertM (a = a2))))"

definition fix_symbol_placeholder :: "string \<Rightarrow> i32 \<Rightarrow> i32 \<Rightarrow> ('a core_scheme, unit) M" where
  "fix_symbol_placeholder name l a =
     bindM (getM stage) (\<lambda>st.
     bindM (getM (find_symbol name)) (\<lambda>res.
     thenM (whenM (st \<noteq> 0) (assertM (res \<noteq> None)))
     (case res of
        None \<Rightarrow> add_symbol name l a
      | Some (l2, a2) \<Rightarrow>
          thenM (assertM (a = a2))
         (thenM (assertM (l = l2 \<or> (st = 0 \<and> l2 = 0xffffffff)))
         (bindM (getM (get_symbol_idx name)) (\<lambda>idx.
          bindM (getM symbol_num) (\<lambda>n.
          thenM (assertM (idx \<noteq> n))
          (modM (\<lambda>s. s\<lparr>symbol_locs := (symbol_locs s)(idx := l)\<rparr>)))))))))"

section \<open>The emitter\<close>

definition emit :: "byte \<Rightarrow> ('a core_scheme, unit) M" where
  "emit c =
     bindM (getM stage) (\<lambda>st.
     thenM (whenM (st = 1) (modM (\<lambda>s. s\<lparr>emitted := emitted s @ [c]\<rparr>)))
     (modM (\<lambda>s. s\<lparr>current_loc := current_loc s + 1\<rparr>)))"

text \<open>The argument of \<open>emit\<close> is a \<open>char\<close>: an \<open>int\<close> passed to it keeps its low byte. The shifts
  are shifts of a signed \<open>int\<close>.\<close>

definition emit32 :: "i32 \<Rightarrow> ('a core_scheme, unit) M" where
  "emit32 x = doM [emit (ucast x), emit (ucast (signed_drop_bit 8 x)),
     emit (ucast (signed_drop_bit 16 x)), emit (ucast (signed_drop_bit 24 x))]"

section \<open>Lookup\<close>

lemma symbol_idx_loop_le: "i \<le> num \<Longrightarrow> symbol_idx_loop names num name i \<le> num"
  by (induction names num name i rule: symbol_idx_loop.induct)
    (subst symbol_idx_loop.simps, auto)

lemma symbol_idx_loop_hit:
  "symbol_idx_loop names num name i < num \<Longrightarrow> names (symbol_idx_loop names num name i) = name"
proof (induction names num name i rule: symbol_idx_loop.induct)
  case (1 names num name i)
  then show ?case by (auto simp: symbol_idx_loop.simps [of names num name i] split: if_splits)
qed

lemma symbol_idx_loop_first:
  "i \<le> j \<Longrightarrow> j < symbol_idx_loop names num name i \<Longrightarrow> j < num \<Longrightarrow> names j \<noteq> name"
proof (induction names num name i rule: symbol_idx_loop.induct)
  case (1 names num name i)
  show ?case
  proof (cases "i < num \<and> name \<noteq> names i \<and> i \<noteq> j")
    case True
    with 1 show ?thesis by (auto simp: symbol_idx_loop.simps [of names num name i])
  next
    case False
    with "1.prems" show ?thesis by (auto simp: symbol_idx_loop.simps [of names num name i] split: if_splits)
  qed
qed

text \<open>The table is well formed: distinct, non-empty names that fit their slots, and no more of
  them than there are slots.\<close>

definition table_wf :: "'a core_scheme \<Rightarrow> bool" where
  "table_wf s \<longleftrightarrow> inj_on (symbol_names s) {..<symbol_num s} \<and>
     (\<forall>i < symbol_num s. 0 < length (symbol_names s i) \<and> length (symbol_names s i) < MAX_SYMBOL_NAME_LEN) \<and>
     symbol_num s \<le> SYMBOL_TABLE_LEN"

lemma get_symbol_idx_le: "get_symbol_idx name s \<le> symbol_num s"
  by (simp add: get_symbol_idx_def symbol_idx_loop_le)

lemma get_symbol_idx_hit: "get_symbol_idx name s < symbol_num s \<Longrightarrow> symbol_names s (get_symbol_idx name s) = name"
  by (simp add: get_symbol_idx_def symbol_idx_loop_hit)

lemma get_symbol_idx_miss: "get_symbol_idx name s = symbol_num s \<Longrightarrow> j < symbol_num s \<Longrightarrow> symbol_names s j \<noteq> name"
  using symbol_idx_loop_first [of 0 j "symbol_names s" "symbol_num s" name]
  by (simp add: get_symbol_idx_def)

lemma find_symbol_None:
  "find_symbol name s = None \<longleftrightarrow> (\<forall>i < symbol_num s. symbol_names s i \<noteq> name)"
proof -
  have "get_symbol_idx name s = symbol_num s \<or> get_symbol_idx name s < symbol_num s"
    using get_symbol_idx_le [of name s] by linarith
  then show ?thesis
    using get_symbol_idx_hit [of name s] get_symbol_idx_miss [of name s]
    by (auto simp: find_symbol_def Let_def)
qed

lemma find_symbol_Some:
  assumes "table_wf s"
  shows "find_symbol name s = Some (l, a) \<longleftrightarrow>
    (\<exists>i < symbol_num s. symbol_names s i = name \<and> symbol_locs s i = l \<and> symbol_arities s i = a)"
proof
  assume "find_symbol name s = Some (l, a)"
  then show "\<exists>i < symbol_num s. symbol_names s i = name \<and> symbol_locs s i = l \<and> symbol_arities s i = a"
    using get_symbol_idx_le [of name s] get_symbol_idx_hit [of name s]
    by (intro exI [of _ "get_symbol_idx name s"]) (auto simp: find_symbol_def Let_def split: if_splits)
next
  assume "\<exists>i < symbol_num s. symbol_names s i = name \<and> symbol_locs s i = l \<and> symbol_arities s i = a"
  then obtain i where i: "i < symbol_num s" "symbol_names s i = name" "symbol_locs s i = l" "symbol_arities s i = a"
    by blast
  then have ne: "get_symbol_idx name s \<noteq> symbol_num s"
    using get_symbol_idx_miss [of name s i] by auto
  then have lt: "get_symbol_idx name s < symbol_num s"
    using get_symbol_idx_le [of name s] by simp
  moreover have "get_symbol_idx name s = i"
    using lt get_symbol_idx_hit [OF lt] i assms by (auto simp: table_wf_def inj_on_def)
  ultimately show "find_symbol name s = Some (l, a)"
    using i by (auto simp: find_symbol_def Let_def)
qed

lemma find_symbol_cong:
  "symbol_num t = symbol_num s \<Longrightarrow> symbol_names t = symbol_names s \<Longrightarrow> symbol_locs t = symbol_locs s
    \<Longrightarrow> symbol_arities t = symbol_arities s \<Longrightarrow> find_symbol name t = find_symbol name s"
  by (simp add: find_symbol_def get_symbol_idx_def Let_def)

lemma table_wf_cong:
  "symbol_num t = symbol_num s \<Longrightarrow> symbol_names t = symbol_names s \<Longrightarrow> table_wf t = table_wf s"
  by (simp add: table_wf_def)

lemma table_updates [simp]:
  "find_symbol name (s\<lparr>stage := x\<rparr>) = find_symbol name s"
  "find_symbol name (s\<lparr>current_loc := l\<rparr>) = find_symbol name s"
  "find_symbol name (s\<lparr>emitted := e\<rparr>) = find_symbol name s"
  "table_wf (s\<lparr>stage := x\<rparr>) = table_wf s"
  "table_wf (s\<lparr>current_loc := l\<rparr>) = table_wf s"
  "table_wf (s\<lparr>emitted := e\<rparr>) = table_wf s"
  by (rule find_symbol_cong table_wf_cong; simp)+

section \<open>What the table promises: an interface\<close>

text \<open>
  A symbol store: a lookup, an insertion that may refuse, and an invariant. An insertion that
  succeeds extends the lookup by one binding of a name that was not bound, and changes nothing
  else that a client can see.
\<close>

locale symbol_store =
  fixes lookup :: "string \<Rightarrow> 's \<Rightarrow> (i32 \<times> i32) option"
    and insert :: "string \<Rightarrow> i32 \<Rightarrow> i32 \<Rightarrow> ('s, unit) M"
    and inv :: "'s \<Rightarrow> bool"
  assumes insert_fresh: "inv s \<Longrightarrow> insert n l a s = Inr (u, s') \<Longrightarrow> lookup n s = None"
    and insert_inv: "inv s \<Longrightarrow> insert n l a s = Inr (u, s') \<Longrightarrow> inv s'"
    and lookup_insert: "inv s \<Longrightarrow> insert n l a s = Inr (u, s') \<Longrightarrow>
      lookup m s' = (if m = n then Some (l, a) else lookup m s)"
begin

definition extends :: "'s \<Rightarrow> 's \<Rightarrow> bool" where
  "extends s s' \<longleftrightarrow> (inv s \<longrightarrow> inv s' \<and> (\<forall>n x. lookup n s = Some x \<longrightarrow> lookup n s' = Some x))"

sublocale ext: effect extends
  by unfold_locales (auto simp: extends_def)

lemma steps_insert: "steps extends (insert n l a)"
proof (rule stepsI)
  fix s u s'
  assume r: "insert n l a s = Inr (u, s')"
  show "extends s s'"
    unfolding extends_def using insert_fresh [OF _ r] insert_inv [OF _ r] lookup_insert [OF _ r] by auto
qed

lemma insert_twice: "inv s \<Longrightarrow> insert n l a s = Inr (u, s') \<Longrightarrow> insert n l' a' s' = Inr (v, s'') \<Longrightarrow> False"
  using insert_fresh [of s' n l' a' v s''] insert_inv [of s n l a u s'] lookup_insert [of s n l a u s' n]
  by simp

text \<open>A run of insertions binds every name of the list, each to what was inserted.\<close>

lemma insert_all:
  "inv s \<Longrightarrow> doM (map (\<lambda>(n, l, a). insert n l a) xs) s = Inr (u, s') \<Longrightarrow>
     inv s' \<and> distinct (map fst xs) \<and> (\<forall>(n, l, a) \<in> set xs. lookup n s' = Some (l, a)) \<and>
     (\<forall>n. lookup n s \<noteq> None \<longrightarrow> n \<notin> fst ` set xs \<and> lookup n s' = lookup n s)"
proof (induction xs arbitrary: s)
  case Nil
  then show ?case by simp
next
  case (Cons x xs)
  obtain n l a where x: "x = (n, l, a)" by (cases x)
  from Cons.prems obtain v t where i: "insert n l a s = Inr (v, t)"
    and r: "doM (map (\<lambda>(n, l, a). insert n l a) xs) t = Inr (u, s')"
    by (auto simp: x thenM_run)
  note fresh = insert_fresh [OF Cons.prems(1) i] and upd = lookup_insert [OF Cons.prems(1) i]
  have ih: "inv s'" "distinct (map fst xs)" "\<forall>(n, l, a) \<in> set xs. lookup n s' = Some (l, a)"
    and old: "lookup m t \<noteq> None \<Longrightarrow> m \<notin> fst ` set xs \<and> lookup m s' = lookup m t" for m
    using Cons.IH [OF insert_inv [OF Cons.prems(1) i] r] by blast+
  have n: "n \<notin> fst ` set xs" "lookup n s' = Some (l, a)"
    using old [of n] upd by simp_all
  have "m \<notin> fst ` set (x # xs) \<and> lookup m s' = lookup m s" if "lookup m s \<noteq> None" for m
    using that old [of m] upd [of m] fresh by (cases "m = n") (auto simp: x)
  with ih n show ?case by (auto simp: x)
qed

end

lemma add_symbol_run:
  "add_symbol name l a s = Inr (u, s') \<longleftrightarrow>
     0 < length name \<and> length name < MAX_SYMBOL_NAME_LEN \<and> find_symbol name s = None \<and>
     symbol_num s < SYMBOL_TABLE_LEN \<and>
     s' = s\<lparr>symbol_locs := (symbol_locs s)(symbol_num s := l),
            symbol_arities := (symbol_arities s)(symbol_num s := a),
            symbol_names := (symbol_names s)(symbol_num s := name),
            symbol_num := symbol_num s + 1\<rparr>"
  by (auto simp: add_symbol_def run_simps)

lemma add_symbol_wf: "table_wf s \<Longrightarrow> add_symbol name l a s = Inr (u, s') \<Longrightarrow> table_wf s'"
  by (auto simp: add_symbol_run table_wf_def find_symbol_None inj_on_def less_Suc_eq)

lemma add_symbol_find:
  assumes wf: "table_wf s" and run: "add_symbol name l a s = Inr (u, s')"
  shows "find_symbol m s' = (if m = name then Some (l, a) else find_symbol m s)"
proof -
  have fresh: "symbol_names s i \<noteq> name" if "i < symbol_num s" for i
    using run that by (simp add: add_symbol_run find_symbol_None)
  have names: "symbol_names s' i = (if i = symbol_num s then name else symbol_names s i)"
    and locs: "symbol_locs s' i = (if i = symbol_num s then l else symbol_locs s i)"
    and arities: "symbol_arities s' i = (if i = symbol_num s then a else symbol_arities s i)"
    and num: "symbol_num s' = Suc (symbol_num s)" for i
    using run by (simp_all add: add_symbol_run)
  have "find_symbol m s' = Some (l', a') \<longleftrightarrow> (if m = name then Some (l, a) else find_symbol m s) = Some (l', a')" for l' a'
  proof (cases "m = name")
    case True
    have "find_symbol m s' = Some (l', a') \<longleftrightarrow>
        (\<exists>i < Suc (symbol_num s). symbol_names s' i = name \<and> symbol_locs s' i = l' \<and> symbol_arities s' i = a')"
      by (simp add: find_symbol_Some [OF add_symbol_wf [OF wf run]] num True)
    also have "\<dots> \<longleftrightarrow> l = l' \<and> a = a'"
      using fresh by (auto simp: less_Suc_eq names locs arities)
    finally show ?thesis using True by simp
  next
    case False
    let ?hit = "\<lambda>t i. symbol_names t i = m \<and> symbol_locs t i = l' \<and> symbol_arities t i = a'"
    have "\<not> ?hit s' (symbol_num s)" and "\<And>i. i < symbol_num s \<Longrightarrow> ?hit s' i = ?hit s i"
      using False by (simp_all add: names locs arities)
    then have "(\<exists>i < Suc (symbol_num s). ?hit s' i) \<longleftrightarrow> (\<exists>i < symbol_num s. ?hit s i)"
      by (metis less_Suc_eq)
    with False show ?thesis
      by (simp add: find_symbol_Some [OF add_symbol_wf [OF wf run]] find_symbol_Some [OF wf] num)
  qed
  then show ?thesis by (metis option.exhaust surj_pair)
qed

interpretation symtab: symbol_store find_symbol add_symbol table_wf
proof unfold_locales
  fix n l a m u and s s' :: "'a core_scheme"
  assume wf: "table_wf s" and run: "add_symbol n l a s = Inr (u, s')"
  show "find_symbol n s = None" using run by (simp add: add_symbol_run)
  show "table_wf s'" using wf run by (rule add_symbol_wf)
  show "find_symbol m s' = (if m = n then Some (l, a) else find_symbol m s)"
    using wf run by (rule add_symbol_find)
qed

end
