(* ===== verification/Passes.thy ===== *)
theory Passes
  imports Symbols
begin

unbundle bit_operations_syntax

text \<open>
  The two-pass discipline. Both prototype compilers run over their input twice: in stage 0 they
  only count (\<open>emit\<close> advances \<open>current_loc\<close>) and collect symbols, in stage 1 they write bytes
  and only check symbols. \<open>pass_rel\<close> says what any piece of either compiler may do to the shared
  state in each stage; the emitter and the symbol operations are shown here to obey it, and the
  locale \<open>effect\<close> carries it through the handlers of the other theories.
\<close>

named_theorems pass_intros \<open>the operations obey the two-pass discipline\<close>

section \<open>Exact effect of the emitter\<close>

lemma emit_eval:
  "emit c s = Inr ((), s\<lparr>emitted := (if stage s = 1 then emitted s @ [c] else emitted s),
     current_loc := current_loc s + 1\<rparr>)"
  by (simp add: emit_def bindM_def thenM_def whenM_def retM_def)

definition emit_all :: "byte list \<Rightarrow> 'a core_scheme \<Rightarrow> 'a core_scheme" where
  "emit_all bs s = s\<lparr>emitted := (if stage s = 1 then emitted s @ bs else emitted s),
     current_loc := current_loc s + of_nat (length bs)\<rparr>"

lemma emit_all_simps [simp]:
  "stage (emit_all bs s) = stage s"
  "find_symbol n (emit_all bs s) = find_symbol n s"
  "table_wf (emit_all bs s) = table_wf s"
  "current_loc (emit_all bs s) = current_loc s + of_nat (length bs)"
  "emitted (emit_all bs s) = (if stage s = 1 then emitted s @ bs else emitted s)"
  by (simp_all add: emit_all_def)

lemma emit_all_Nil [simp]: "emit_all [] s = s"
  by (simp add: emit_all_def)

lemma emit_all_append: "emit_all cs (emit_all bs s) = emit_all (bs @ cs) s"
  by (simp add: emit_all_def)

lemma emit_is_emit_all: "emit c s = Inr ((), emit_all [c] s)"
  by (simp add: emit_eval emit_all_def)

lemma doM_emit: "doM (map emit bs) s = Inr ((), emit_all bs s)"
  by (induction bs arbitrary: s)
    (simp_all add: thenM_def bindM_def emit_is_emit_all emit_all_append)

lemma doM_append: "doM (ms @ ns) = thenM (doM ms) (doM ns)"
  by (induction ms) (auto simp: fun_eq_iff thenM_def bindM_def retM_def split: sum.splits)

text \<open>\<open>emit32\<close> writes the four bytes of its argument, least significant first.\<close>

definition bytes32 :: "i32 \<Rightarrow> byte list" where
  "bytes32 x = [ucast x, ucast (drop_bit 8 x), ucast (drop_bit 16 x), ucast (drop_bit 24 x)]"

fun le32 :: "byte list \<Rightarrow> i32 option" where
  "le32 (a # b # c # d # _) =
     Some (ucast a OR push_bit 8 (ucast b) OR push_bit 16 (ucast c) OR push_bit 24 (ucast d))"
| "le32 _ = None"

lemma length_bytes32 [simp]: "length (bytes32 x) = 4"
  by (simp add: bytes32_def)

lemma ucast_signed_drop:
  "ucast (signed_drop_bit 8 (x :: i32)) = (ucast (drop_bit 8 x) :: byte)"
  "ucast (signed_drop_bit 16 (x :: i32)) = (ucast (drop_bit 16 x) :: byte)"
  "ucast (signed_drop_bit 24 (x :: i32)) = (ucast (drop_bit 24 x) :: byte)"
  by (rule bit_word_eqI; auto simp: bit_simps)+

lemma emit32_bytes: "emit32 x = doM (map emit (bytes32 x))"
  by (simp add: emit32_def bytes32_def ucast_signed_drop)

lemma emit32_eval: "emit32 x s = Inr ((), emit_all (bytes32 x) s)"
  by (simp add: emit32_bytes doM_emit)

lemma le32_bytes32 [simp]: "le32 (bytes32 x @ rest) = Some x"
proof -
  have "ucast (ucast x :: byte) OR push_bit 8 (ucast (ucast (drop_bit 8 x) :: byte))
      OR push_bit 16 (ucast (ucast (drop_bit 16 x) :: byte))
      OR push_bit 24 (ucast (ucast (drop_bit 24 x) :: byte)) = x" (is "?l = x")
  proof (rule bit_word_eqI)
    fix n :: nat
    assume "n < LENGTH(32)"
    then show "bit ?l n = bit x n"
      by (cases "n < 8"; cases "n < 16"; cases "n < 24") (auto simp: bit_simps)
  qed
  then show ?thesis by (simp add: bytes32_def)
qed

section \<open>The discipline\<close>

text \<open>A later table: bindings persist, but a placeholder's location may have been filled in.\<close>

definition tab_le :: "'a core_scheme \<Rightarrow> 'a core_scheme \<Rightarrow> bool" where
  "tab_le s s' \<longleftrightarrow> (\<forall>n l a. find_symbol n s = Some (l, a) \<longrightarrow>
     (\<exists>l'. find_symbol n s' = Some (l', a) \<and> (l' = l \<or> l = 0xffffffff)))"

lemma tab_le_refl: "tab_le s s"
  by (auto simp: tab_le_def)

lemma tab_le_trans: "tab_le s t \<Longrightarrow> tab_le t u \<Longrightarrow> tab_le s u"
  unfolding tab_le_def by metis

definition pass_rel :: "'a core_scheme \<Rightarrow> 'a core_scheme \<Rightarrow> bool" where
  "pass_rel s s' \<longleftrightarrow> stage s' = stage s \<and>
     (stage s = 0 \<longrightarrow> emitted s' = emitted s \<and> (table_wf s \<longrightarrow> table_wf s' \<and> tab_le s s')) \<and>
     (stage s = 1 \<longrightarrow> table_wf s' = table_wf s \<and> (\<forall>n. find_symbol n s' = find_symbol n s) \<and>
       (\<exists>bs. emitted s' = emitted s @ bs \<and> current_loc s' = current_loc s + of_nat (length bs)))"

interpretation pass: effect pass_rel
proof unfold_locales
  fix s t u :: "'a core_scheme"
  show "pass_rel s s" by (simp add: pass_rel_def tab_le_refl)
  assume "pass_rel s t" and "pass_rel t u"
  then show "pass_rel s u"
    by (auto simp: pass_rel_def add.assoc intro: tab_le_trans)
qed

declare pass.eff_rules [pass_intros]

lemma pass_emit [pass_intros]: "steps pass_rel (emit c)"
  by (rule stepsI) (auto simp: emit_is_emit_all pass_rel_def tab_le_def)

lemma pass_emit32 [pass_intros]: "steps pass_rel (emit32 x)"
  unfolding emit32_def by (intro pass_intros)

lemma pass_emits [pass_intros]: "steps pass_rel (doM (map emit bs))"
  by (rule pass.eff_do) (auto intro: pass_intros)

lemma pass_when_stage: "(\<And>s u s'. m s = Inr (u, s') \<Longrightarrow> P s \<Longrightarrow> pass_rel s s') \<Longrightarrow>
    steps pass_rel (\<lambda>s. if P s then m s else Inl e)"
  by (rule stepsI) (auto split: if_splits)

lemma add_symbol_pass:
  assumes "stage s = 0" and run: "add_symbol n l a s = Inr (u, s')"
  shows "pass_rel s s'"
proof -
  have "stage s' = stage s" "emitted s' = emitted s" using run by (auto simp: add_symbol_run)
  moreover have "table_wf s' \<and> tab_le s s'" if "table_wf s"
    using add_symbol_wf [OF that run] add_symbol_find [OF that run] run
    by (auto simp: tab_le_def add_symbol_run)
  ultimately show ?thesis using assms(1) by (simp add: pass_rel_def)
qed

lemma pass_add_symbol_wrapper [pass_intros]: "steps pass_rel (add_symbol_wrapper n l a)"
  by (rule stepsI)
    (auto simp: add_symbol_wrapper_def run_simps pass.eff_refl split: if_splits option.splits
      dest: add_symbol_pass)

lemma pass_add_symbol_placeholder [pass_intros]: "steps pass_rel (add_symbol_placeholder n a)"
  by (rule stepsI)
    (auto simp: add_symbol_placeholder_def run_simps pass.eff_refl split: if_splits option.splits
      dest: add_symbol_pass)

text \<open>Filling a placeholder in: in stage 0 the location of one symbol changes, in stage 1 the
  stored location is stored again.\<close>

lemma locs_update_find:
  assumes wf: "table_wf s" and idx: "get_symbol_idx n s \<noteq> symbol_num s"
  shows "find_symbol m (s\<lparr>symbol_locs := (symbol_locs s)(get_symbol_idx n s := l)\<rparr>) =
    (if m = n then Some (l, symbol_arities s (get_symbol_idx n s)) else find_symbol m s)"
proof -
  let ?i = "get_symbol_idx n s"
  let ?t = "s\<lparr>symbol_locs := (symbol_locs s)(?i := l)\<rparr>"
  have i: "?i < symbol_num s" using get_symbol_idx_le [of n s] idx by simp
  have name: "symbol_names s ?i = n" using get_symbol_idx_hit [OF i] .
  have same: "get_symbol_idx m ?t = get_symbol_idx m s" by (simp add: get_symbol_idx_def)
  show ?thesis
  proof (cases "m = n")
    case True
    then show ?thesis using idx same by (simp add: find_symbol_def Let_def)
  next
    case False
    have "get_symbol_idx m s \<noteq> ?i \<or> get_symbol_idx m s = symbol_num s"
      using False name get_symbol_idx_hit [of m s] i by auto
    then show ?thesis using False same i by (auto simp: find_symbol_def Let_def)
  qed
qed

lemma pass_fix_symbol_placeholder [pass_intros]: "steps pass_rel (fix_symbol_placeholder n l a)"
proof (rule stepsI)
  fix s u and s' :: "'a core_scheme"
  assume run: "fix_symbol_placeholder n l a s = Inr (u, s')"
  show "pass_rel s s'"
  proof (cases "find_symbol n s")
    case None
    with run have "stage s = 0" "add_symbol n l a s = Inr (u, s')"
      by (auto simp: fix_symbol_placeholder_def run_simps split: if_splits)
    then show ?thesis by (rule add_symbol_pass)
  next
    case (Some la)
    obtain l2 a2 where la: "la = (l2, a2)" by (cases la)
    from run Some la have l: "l = l2 \<or> stage s = 0 \<and> l2 = 0xffffffff"
      and idx: "get_symbol_idx n s \<noteq> symbol_num s"
      and s': "s' = s\<lparr>symbol_locs := (symbol_locs s)(get_symbol_idx n s := l)\<rparr>"
      by (auto simp: fix_symbol_placeholder_def run_simps split: if_splits)
    from Some la idx have l2: "l2 = symbol_locs s (get_symbol_idx n s)" "a2 = symbol_arities s (get_symbol_idx n s)"
      by (auto simp: find_symbol_def Let_def)
    have wf: "table_wf s' = table_wf s" using s' by (auto intro!: table_wf_cong)
    have same: "s' = s" if "l = l2" using that s' l2 by (simp add: fun_upd_idem)
    show ?thesis
    proof (cases "l = l2")
      case True
      then show ?thesis using same pass.eff_refl by simp
    next
      case False
      with l have "stage s = 0" "l2 = 0xffffffff" by auto
      moreover have "tab_le s s'" if "table_wf s"
        using locs_update_find [OF that idx] Some la l2 \<open>l2 = 0xffffffff\<close>
        unfolding tab_le_def s' by auto
      ultimately show ?thesis using wf s' by (simp add: pass_rel_def)
    qed
  qed
qed

section \<open>Consequences for a whole pass\<close>

text \<open>In stage 1 the location is anchored to the output: it is the start address plus the number
  of bytes written.\<close>

definition anchored :: "i32 \<Rightarrow> 'a core_scheme \<Rightarrow> bool" where
  "anchored start s \<longleftrightarrow> stage s = 1 \<and> current_loc s = start + of_nat (length (emitted s))"

lemma pass_anchored: "pass_rel s s' \<Longrightarrow> anchored start s \<Longrightarrow> anchored start s'"
  by (auto simp: pass_rel_def anchored_def)

lemma pass_find: "pass_rel s s' \<Longrightarrow> stage s = 1 \<Longrightarrow> find_symbol n s' = find_symbol n s"
  by (simp add: pass_rel_def)

lemma pass_stage: "pass_rel s s' \<Longrightarrow> stage s' = stage s"
  by (simp add: pass_rel_def)

text \<open>Checking a symbol in stage 1 does nothing else than check.\<close>

lemma add_symbol_wrapper_stage1:
  "stage s = 1 \<Longrightarrow> add_symbol_wrapper n l a s = Inr (u, s') \<longleftrightarrow> find_symbol n s = Some (l, a) \<and> s' = s"
  by (auto simp: add_symbol_wrapper_def run_simps split: option.splits)

lemma add_symbol_wrapper_stage0:
  "stage s = 0 \<Longrightarrow> add_symbol_wrapper n l a s = add_symbol n l a s"
  by (auto simp: add_symbol_wrapper_def bindM_def)

section \<open>What the shared operations leave alone\<close>

text \<open>A state with the same shared fields.\<close>

lemma truncate_find:
  assumes "core.truncate s' = core.truncate s"
  shows "find_symbol n s' = find_symbol n s" "table_wf s' = table_wf s" "pass_rel s s'"
proof -
  have eqs: "symbol_num s' = symbol_num s" "symbol_names s' = symbol_names s" "symbol_locs s' = symbol_locs s"
    "symbol_arities s' = symbol_arities s" "stage s' = stage s" "current_loc s' = current_loc s"
    "emitted s' = emitted s"
    using assms by (simp_all add: core.truncate_def)
  have f: "find_symbol m s' = find_symbol m s" for m by (rule find_symbol_cong) (simp_all add: eqs)
  show "find_symbol n s' = find_symbol n s" by (rule f)
  show t: "table_wf s' = table_wf s" by (rule table_wf_cong) (simp_all add: eqs)
  show "pass_rel s s'" using f t by (simp add: pass_rel_def tab_le_def eqs)
qed

text \<open>The operations of this state do not touch the fields that a client adds to it, and they
  keep the table well formed in any stage.\<close>

definition core_rel :: "'a core_scheme \<Rightarrow> 'a core_scheme \<Rightarrow> bool" where
  "core_rel s s' \<longleftrightarrow> pass_rel s s' \<and> more s' = more s \<and> (table_wf s \<longrightarrow> table_wf s')"

interpretation core: effect core_rel
  by unfold_locales (auto simp: core_rel_def intro: pass.eff_refl pass.eff_trans)

named_theorems core_intros \<open>operations on the shared state only\<close>

declare core.eff_rules [core_intros]

lemma core_relI:
  assumes "steps pass_rel m" "\<And>s u s'. m s = Inr (u, s') \<Longrightarrow> more s' = more s \<and> (table_wf s \<longrightarrow> table_wf s')"
  shows "steps core_rel m"
  using assms by (auto simp: steps_def core_rel_def)

lemma core_emit [core_intros]: "steps core_rel (emit c)"
  by (rule core_relI [OF pass_emit]) (auto simp: emit_eval)

lemma add_symbol_core: "add_symbol n l a s = Inr (u, s') \<Longrightarrow> more s' = more s \<and> (table_wf s \<longrightarrow> table_wf s')"
  using add_symbol_wf [of s n l a u s'] by (auto simp: add_symbol_run)

lemma core_add_symbol_wrapper [core_intros]: "steps core_rel (add_symbol_wrapper n l a)"
  by (rule core_relI [OF pass_add_symbol_wrapper])
    (auto simp: add_symbol_wrapper_def run_simps split: if_splits option.splits dest: add_symbol_core)

lemma core_add_symbol_placeholder [core_intros]: "steps core_rel (add_symbol_placeholder n a)"
  by (rule core_relI [OF pass_add_symbol_placeholder])
    (auto simp: add_symbol_placeholder_def run_simps split: if_splits option.splits dest: add_symbol_core)

lemma core_fix_symbol_placeholder [core_intros]: "steps core_rel (fix_symbol_placeholder n l a)"
proof (rule core_relI [OF pass_fix_symbol_placeholder])
  fix s u and s' :: "'a core_scheme"
  assume run: "fix_symbol_placeholder n l a s = Inr (u, s')"
  have "table_wf (s\<lparr>symbol_locs := ls\<rparr>) = table_wf s" for ls
    by (rule table_wf_cong) simp_all
  with run show "more s' = more s \<and> (table_wf s \<longrightarrow> table_wf s')"
    by (auto simp: fix_symbol_placeholder_def run_simps split: if_splits option.splits dest: add_symbol_core)
qed

lemma core_emit32 [core_intros]: "steps core_rel (emit32 x)"
  unfolding emit32_def by (intro core_intros)

lemma never_core [never_intros]:
  "e \<noteq> Panic \<Longrightarrow> never e (emit c)"
  "e \<noteq> Panic \<Longrightarrow> never e (emit32 x)"
  "e \<noteq> Panic \<Longrightarrow> never e (add_symbol_wrapper n l a)"
  "e \<noteq> Panic \<Longrightarrow> never e (add_symbol_placeholder n a)"
  "e \<noteq> Panic \<Longrightarrow> never e (fix_symbol_placeholder n l a)"
  by (auto simp: emit_def emit32_def add_symbol_wrapper_def add_symbol_def add_symbol_placeholder_def
      fix_symbol_placeholder_def intro!: never_intros)

end
