(* ===== verification/Operands.thy ===== *)
theory Operands
  imports StagingStrings Passes
begin

text \<open>
  Registers, numbers and operands of \<open>attic/staging.c\<close>, on the strings they are given. The C
  functions cut the operand string in place; where a caller looks at the string again, the
  string it finds is returned as a second result.
\<close>

definition decode_reg32 :: "string \<Rightarrow> int" where
  "decode_reg32 reg =
     (if reg = ''eax'' then 0 else if reg = ''ecx'' then 1 else if reg = ''edx'' then 2
      else if reg = ''ebx'' then 3 else if reg = ''esp'' then 4 else if reg = ''ebp'' then 5
      else if reg = ''esi'' then 6 else if reg = ''edi'' then 7 else - 1)"

definition decode_reg8 :: "string \<Rightarrow> int" where
  "decode_reg8 reg =
     (if reg = ''al'' then 0 else if reg = ''cl'' then 1 else if reg = ''dl'' then 2
      else if reg = ''bl'' then 3 else if reg = ''ah'' then 4 else if reg = ''ch'' then 5
      else if reg = ''dh'' then 6 else if reg = ''bh'' then 7 else - 1)"

section \<open>Numbers\<close>

text \<open>The loop of \<open>decode_number2\<close>: is the number decimal, was a digit seen, the value so far.
  The second result is what is left in \<open>*num\<close>, also when the string is refused.\<close>

fun decode_number_loop :: "bool \<Rightarrow> bool \<Rightarrow> i32 \<Rightarrow> string \<Rightarrow> bool \<times> i32" where
  "decode_number_loop is_decimal digit_seen num [] = (digit_seen, num)"
| "decode_number_loop is_decimal digit_seen num (c # operand) =
     (let num = (if is_decimal then num * 10 else num * 16) in
      if schar (CHR ''0'') \<le> schar c \<and> schar c \<le> schar (CHR ''9'') then
        decode_number_loop is_decimal True (num + word_of_int (schar c - schar (CHR ''0''))) operand
      else if \<not> is_decimal \<and> schar (CHR ''a'') \<le> schar c \<and> schar c \<le> schar (CHR ''f'') then
        decode_number_loop is_decimal True (num + word_of_int (schar c - schar (CHR ''a'') + 10)) operand
      else (False, num))"

definition decode_number :: "string \<Rightarrow> bool \<times> i32" where
  "decode_number operand =
     (if length operand \<ge> 2 \<and> operand ! 0 = CHR ''0'' \<and> operand ! 1 = CHR ''x''
      then decode_number_loop False False 0 (drop 2 operand)
      else decode_number_loop True False 0 operand)"

definition decode_number_or_symbol :: "string \<Rightarrow> bool \<Rightarrow> ('a core_scheme, bool \<times> i32) M" where
  "decode_number_or_symbol operand force_symbol =
     (let (res, num) = decode_number operand in
      if res then retM (True, num)
      else bindM (getM stage) (\<lambda>st.
        if st = 1 \<or> force_symbol then
          bindM (getM (find_symbol operand)) (\<lambda>f. case f of
            Some (l, a) \<Rightarrow> retM (True, l)
          | None \<Rightarrow> retM (False, num))
        else if st = 0 then retM (True, 0)
        else failM Panic))"

section \<open>Operands\<close>

record operand =
  is_direct :: bool
  reg :: int
  disp :: i32
  is8 :: bool
  is32 :: bool

text \<open>
  \<open>t\<close> is the operand without spaces, \<open>t2\<close> what follows a size prefix, \<open>u\<close> what follows the
  bracket. Writing NUL over the \<open>+\<close> or over the closing bracket cuts \<open>t\<close> there: that prefix of
  \<open>t\<close> is the string a caller still sees.
\<close>

definition decode_operand :: "string \<Rightarrow> ('a core_scheme, operand option \<times> string) M" where
  "decode_operand operand =
     (let t = nospace operand;
          i8 = prefix ''BYTE'' t;
          t1 = (if i8 then drop 4 t else t);
          i32 = prefix ''DWORD'' t1;
          t2 = (if i32 then drop 5 t1 else t1)
      in thenM (assertM (\<not> i8 \<or> \<not> i32))
     (if t2 \<noteq> [] \<and> t2 ! 0 = CHR ''['' then
        (let u = drop 1 t2 in
         case char_pos (CHR ''+'') u of
           None \<Rightarrow>
             (case char_pos (CHR '']'') u of
                None \<Rightarrow> retM (None, t)
              | Some closed_pos \<Rightarrow>
                  if closed_pos + 1 < length u then retM (None, t)
                  else (let r = decode_reg32 (take closed_pos u);
                            cut = take (length t - length u + closed_pos) t
                        in retM (if r \<noteq> - 1
                                 then Some \<lparr>is_direct = False, reg = r, disp = 0, is8 = i8, is32 = i32\<rparr>
                                 else None, cut)))
         | Some plus_pos \<Rightarrow>
             (let r = decode_reg32 (take plus_pos u);
                  cut = take (length t - length u + plus_pos) t;
                  v = drop (plus_pos + 1) u
              in if r = - 1 then retM (None, cut)
                 else (case char_pos (CHR '']'') v of
                    None \<Rightarrow> retM (None, cut)
                  | Some closed_pos \<Rightarrow>
                      if closed_pos + 1 < length v then retM (None, cut)
                      else bindM (decode_number_or_symbol (take closed_pos v) False) (\<lambda>(res, d).
                        retM (if res
                              then Some \<lparr>is_direct = False, reg = r, disp = d, is8 = i8, is32 = i32\<rparr>
                              else None, cut)))))
      else if i32 \<or> i8 then retM (None, t)
      else if decode_reg32 t2 \<noteq> - 1 then
        retM (Some \<lparr>is_direct = True, reg = decode_reg32 t2, disp = 0, is8 = False, is32 = True\<rparr>, t)
      else if decode_reg8 t2 \<noteq> - 1 then
        retM (Some \<lparr>is_direct = True, reg = decode_reg8 t2, disp = 0, is8 = True, is32 = False\<rparr>, t)
      else retM (None, t)))"

section \<open>What numbers mean\<close>

text \<open>
  The value of a string of digits, most significant digit first, without reference to the loop:
  decimal digits, or lower-case hexadecimal ones after \<open>0x\<close>.
\<close>

definition digit_val :: "bool \<Rightarrow> char \<Rightarrow> nat option" where
  "digit_val is_decimal c =
     (if 48 \<le> uchar c \<and> uchar c \<le> 57 then Some (nat (uchar c) - 48)
      else if \<not> is_decimal \<and> 97 \<le> uchar c \<and> uchar c \<le> 102 then Some (nat (uchar c) - 87)
      else None)"

definition base :: "bool \<Rightarrow> nat" where
  "base is_decimal = (if is_decimal then 10 else 16)"

definition all_digits :: "bool \<Rightarrow> string \<Rightarrow> bool" where
  "all_digits is_decimal s \<longleftrightarrow> s \<noteq> [] \<and> (\<forall>c \<in> set s. digit_val is_decimal c \<noteq> None)"

primrec digits_val :: "bool \<Rightarrow> nat \<Rightarrow> string \<Rightarrow> nat" where
  "digits_val is_decimal n [] = n"
| "digits_val is_decimal n (c # s) = digits_val is_decimal (n * base is_decimal + the (digit_val is_decimal c)) s"

definition hex_prefixed :: "string \<Rightarrow> bool" where
  "hex_prefixed s \<longleftrightarrow> prefix ''0x'' s"

definition number_body :: "string \<Rightarrow> string" where
  "number_body s = (if hex_prefixed s then drop 2 s else s)"

lemma schar_digits [simp]:
  "schar (CHR ''0'') = 48" "schar (CHR ''9'') = 57" "schar (CHR ''a'') = 97" "schar (CHR ''f'') = 102"
  by (simp_all add: schar_def uchar_def)

lemma schar_small [simp]: "uchar c < 128 \<Longrightarrow> schar c = uchar c"
  and schar_big [simp]: "\<not> uchar c < 128 \<Longrightarrow> schar c = uchar c - 256"
  by (simp_all add: schar_def)

lemma digit_conditions:
  "schar (CHR ''0'') \<le> schar c \<and> schar c \<le> schar (CHR ''9'') \<longleftrightarrow> 48 \<le> uchar c \<and> uchar c \<le> 57"
  "schar (CHR ''a'') \<le> schar c \<and> schar c \<le> schar (CHR ''f'') \<longleftrightarrow> 97 \<le> uchar c \<and> uchar c \<le> 102"
  using uchar_range [of c] by (cases "uchar c < 128"; simp)+

lemma decode_number_step:
  "decode_number_loop d seen num (c # s) =
    (case digit_val d c of
       None \<Rightarrow> (False, num * of_nat (base d))
     | Some v \<Rightarrow> decode_number_loop d True (num * of_nat (base d) + of_nat v) s)"
proof -
  have val: "word_of_int (schar c - schar (CHR ''0'')) = (of_nat (nat (uchar c) - 48) :: i32)"
    if "48 \<le> uchar c" "uchar c \<le> 57"
  proof -
    have "schar c - schar (CHR ''0'') = int (nat (uchar c) - 48)"
      using that by simp
    then show ?thesis by simp
  qed
  have val': "word_of_int (schar c - schar (CHR ''a'') + 10) = (of_nat (nat (uchar c) - 87) :: i32)"
    if "97 \<le> uchar c" "uchar c \<le> 102"
  proof -
    have "schar c - schar (CHR ''a'') + 10 = int (nat (uchar c) - 87)"
      using that by simp
    then show ?thesis by simp
  qed
  show ?thesis
    unfolding decode_number_loop.simps digit_conditions(1,2) digit_val_def base_def Let_def
    by (auto simp: val val' simp del: of_int_diff of_int_add schar_digits schar_small)
qed

lemma decode_number_loop_digits:
  "\<forall>c \<in> set s. digit_val d c \<noteq> None \<Longrightarrow>
     decode_number_loop d seen (of_nat n) s = (seen \<or> s \<noteq> [], of_nat (digits_val d n s))"
proof (induction s arbitrary: n seen)
  case Nil
  then show ?case by simp
next
  case (Cons c s)
  then obtain v where "digit_val d c = Some v" by auto
  with Cons.IH [of True "n * base d + v"] Cons.prems show ?case
    by (simp add: decode_number_step del: decode_number_loop.simps)
qed

lemma decode_number_loop_bad:
  "\<exists>c \<in> set s. digit_val d c = None \<Longrightarrow> \<not> fst (decode_number_loop d seen num s)"
  by (induction s arbitrary: num seen)
    (auto simp: decode_number_step simp del: decode_number_loop.simps(2) split: option.splits)

lemma decode_number_split:
  "decode_number s = decode_number_loop (\<not> hex_prefixed s) False 0 (number_body s)"
proof -
  have "length s \<ge> 2 \<and> s ! 0 = CHR ''0'' \<and> s ! 1 = CHR ''x'' \<longleftrightarrow> hex_prefixed s"
    by (cases s; cases "tl s") (auto simp: hex_prefixed_def)
  then show ?thesis by (simp add: decode_number_def number_body_def)
qed

text \<open>C38: \<open>decode_number2\<close> accepts exactly the non-empty decimal numerals and the non-empty
  lower-case hexadecimal numerals after \<open>0x\<close>, and on acceptance stores the numeral's value
  modulo \<open>2 ^ 32\<close>.\<close>

theorem decode_number_correct:
  "fst (decode_number s) = all_digits (\<not> hex_prefixed s) (number_body s) \<and>
   (fst (decode_number s) \<longrightarrow>
      unat (snd (decode_number s)) = digits_val (\<not> hex_prefixed s) 0 (number_body s) mod 2 ^ 32)"
proof (cases "\<forall>c \<in> set (number_body s). digit_val (\<not> hex_prefixed s) c \<noteq> None")
  case True
  from decode_number_loop_digits [OF True, of False 0] True show ?thesis
    by (simp add: decode_number_split all_digits_def unat_of_nat)
next
  case False
  then have "\<not> fst (decode_number s)"
    unfolding decode_number_split by (intro decode_number_loop_bad) auto
  with False show ?thesis by (auto simp: all_digits_def)
qed

theorem decode_number_correct_witness:
  "decode_number ''0x10'' = (True, 16) \<and>
   unat (snd (decode_number ''0x10'')) = digits_val False 0 ''10'' mod 2 ^ 32"
proof -
  have hex: "hex_prefixed ''0x10''" "number_body ''0x10'' = ''10''"
    by (simp_all add: hex_prefixed_def number_body_def)
  have run: "decode_number ''0x10'' = (True, 16)"
    by (simp add: decode_number_def Let_def schar_def uchar_def)
  with decode_number_correct [of "''0x10''"] hex show ?thesis by simp
qed

section \<open>Operands as they are written\<close>

definition reg32_name :: "nat \<Rightarrow> string" where
  "reg32_name i = [''eax'', ''ecx'', ''edx'', ''ebx'', ''esp'', ''ebp'', ''esi'', ''edi''] ! i"

definition reg8_name :: "nat \<Rightarrow> string" where
  "reg8_name i = [''al'', ''cl'', ''dl'', ''bl'', ''ah'', ''ch'', ''dh'', ''bh''] ! i"

lemma less8: "i < 8 \<Longrightarrow> i = 0 \<or> i = 1 \<or> i = 2 \<or> i = 3 \<or> i = 4 \<or> i = 5 \<or> i = 6 \<or> i = (7::nat)"
  by linarith

lemma decode_reg32_name: "i < 8 \<Longrightarrow> decode_reg32 (reg32_name i) = int i"
  by (auto dest!: less8 simp: decode_reg32_def reg32_name_def)

lemma decode_reg8_name: "i < 8 \<Longrightarrow> decode_reg8 (reg8_name i) = int i"
  by (auto dest!: less8 simp: decode_reg8_def reg8_name_def)

lemma decode_reg32_range: "decode_reg32 r = - 1 \<or> (\<exists>i < 8. decode_reg32 r = int i \<and> r = reg32_name i)"
proof -
  have "\<exists>i < 8. r = reg32_name i" if "decode_reg32 r \<noteq> - 1"
  proof -
    let ?L = "[''eax'', ''ecx'', ''edx'', ''ebx'', ''esp'', ''ebp'', ''esi'', ''edi'']"
    have "r \<in> set ?L"
      using that by (auto simp: decode_reg32_def split: if_splits)
    then have "\<exists>i < length ?L. ?L ! i = r" by (simp only: in_set_conv_nth)
    then obtain i where i: "i < length ?L" "?L ! i = r" by blast
    from i(1) have "i < 8" by simp
    moreover from i(2) have "r = reg32_name i" by (simp only: reg32_name_def)
    ultimately show ?thesis by blast
  qed
  then show ?thesis using decode_reg32_name by metis
qed

lemma decode_reg8_range: "decode_reg8 r = - 1 \<or> (\<exists>i < 8. decode_reg8 r = int i \<and> r = reg8_name i)"
proof -
  have "\<exists>i < 8. r = reg8_name i" if "decode_reg8 r \<noteq> - 1"
  proof -
    let ?L = "[''al'', ''cl'', ''dl'', ''bl'', ''ah'', ''ch'', ''dh'', ''bh'']"
    have "r \<in> set ?L"
      using that by (auto simp: decode_reg8_def split: if_splits)
    then have "\<exists>i < length ?L. ?L ! i = r" by (simp only: in_set_conv_nth)
    then obtain i where i: "i < length ?L" "?L ! i = r" by blast
    from i(1) have "i < 8" by simp
    moreover from i(2) have "r = reg8_name i" by (simp only: reg8_name_def)
    ultimately show ?thesis by blast
  qed
  then show ?thesis using decode_reg8_name by metis
qed

datatype size_prefix = NoSize | Byte | Dword

datatype src_operand = R32 nat | R8 nat | Mem size_prefix nat "string option"

fun show_size :: "size_prefix \<Rightarrow> string" where
  "show_size NoSize = []"
| "show_size Byte = ''BYTE''"
| "show_size Dword = ''DWORD''"

fun show_operand :: "src_operand \<Rightarrow> string" where
  "show_operand (R32 i) = reg32_name i"
| "show_operand (R8 i) = reg8_name i"
| "show_operand (Mem p i None) = show_size p @ ''['' @ reg32_name i @ '']''"
| "show_operand (Mem p i (Some d)) = show_size p @ ''['' @ reg32_name i @ ''+'' @ d @ '']''"

text \<open>The operands the assembler accepts: a displacement is a number.\<close>

fun operand_ok :: "src_operand \<Rightarrow> bool" where
  "operand_ok (R32 i) = (i < 8)"
| "operand_ok (R8 i) = (i < 8)"
| "operand_ok (Mem p i None) = (i < 8)"
| "operand_ok (Mem p i (Some d)) = (i < 8 \<and> fst (decode_number d))"

fun meaning :: "src_operand \<Rightarrow> operand" where
  "meaning (R32 i) = \<lparr>is_direct = True, reg = int i, disp = 0, is8 = False, is32 = True\<rparr>"
| "meaning (R8 i) = \<lparr>is_direct = True, reg = int i, disp = 0, is8 = True, is32 = False\<rparr>"
| "meaning (Mem p i d) = \<lparr>is_direct = False, reg = int i,
     disp = (case d of None \<Rightarrow> 0 | Some d \<Rightarrow> snd (decode_number d)), is8 = (p = Byte), is32 = (p = Dword)\<rparr>"

lemma nospace_id [simp]: "\<forall>c \<in> set s. \<not> is_blank c \<Longrightarrow> nospace s = s"
  by (simp add: nospace_def)

lemma nospace_append [simp]: "nospace (s @ t) = nospace s @ nospace t"
  by (simp add: nospace_def)

lemma nospace_Cons [simp]: "nospace (c # s) = (if is_blank c then nospace s else c # nospace s)"
  by (simp add: nospace_def)

lemma char_pos_split [simp]: "c \<notin> set s \<Longrightarrow> char_pos c (s @ c # t) = Some (length s)"
  by (induction s) auto

lemma char_pos_None: "char_pos c s = None \<longleftrightarrow> c \<notin> set s"
  by (induction s) auto

lemma numeral_chars:
  assumes "fst (decode_number d)" and "c \<in> set d"
  shows "48 \<le> uchar c \<and> c \<noteq> CHR '']''"
proof -
  have body: "\<forall>c \<in> set (number_body d). digit_val (\<not> hex_prefixed d) c \<noteq> None"
  proof (rule ccontr)
    assume "\<not> ?thesis"
    then have "\<not> fst (decode_number d)"
      unfolding decode_number_split by (intro decode_number_loop_bad) auto
    with assms(1) show False by contradiction
  qed
  have "d = number_body d \<or> (\<exists>r. d = CHR ''0'' # CHR ''x'' # r \<and> r = number_body d)"
    by (auto simp: number_body_def hex_prefixed_def prefix_def)
  then have "c \<in> set (number_body d) \<or> c = CHR ''0'' \<or> c = CHR ''x''"
    using assms(2) by (metis set_ConsD)
  then show ?thesis
  proof (elim disjE)
    assume "c \<in> set (number_body d)"
    with body have "digit_val (\<not> hex_prefixed d) c \<noteq> None" by blast
    then have r: "48 \<le> uchar c \<and> uchar c \<le> 57 \<or> 97 \<le> uchar c \<and> uchar c \<le> 102"
      by (auto simp: digit_val_def split: if_splits)
    moreover have "uchar (CHR '']'') = 93" by (simp add: uchar_def)
    ultimately show ?thesis by auto
  qed (simp_all add: uchar_def)
qed

lemma numeral_plain:
  assumes "fst (decode_number d)"
  shows "CHR ''+'' \<notin> set d" "CHR '']'' \<notin> set d" "\<forall>c \<in> set d. \<not> is_blank c"
proof -
  have "uchar (CHR ''+'') = 43" "uchar (CHR '' '') = 32" "uchar (CHR 0x09) = 9"
    by (simp_all add: uchar_def)
  with numeral_chars [OF assms] show "CHR ''+'' \<notin> set d" "CHR '']'' \<notin> set d" "\<forall>c \<in> set d. \<not> is_blank c"
    by (fastforce simp: is_blank_def)+
qed

lemma reg32_name_plain:
  assumes "i < 8"
  shows "CHR ''+'' \<notin> set (reg32_name i)" "CHR '']'' \<notin> set (reg32_name i)"
    "\<forall>c \<in> set (reg32_name i). \<not> is_blank c" "length (reg32_name i) = 3"
  using less8 [OF assms] by (auto simp: reg32_name_def is_blank_def)

lemma decode_or_symbol_number:
  "fst (decode_number d) \<Longrightarrow> decode_number_or_symbol d f s = Inr ((True, snd (decode_number d)), s)"
  by (cases "decode_number d") (simp add: decode_number_or_symbol_def)

lemma size_prefixes:
  "prefix ''BYTE'' (show_size p @ CHR ''['' # r) \<longleftrightarrow> p = Byte"
  "prefix ''DWORD'' (if p = Byte then drop 4 (show_size p @ CHR ''['' # r) else show_size p @ CHR ''['' # r) \<longleftrightarrow> p = Dword"
  by (cases p; simp)+

lemma decode_operand_mem:
  assumes "nospace x = show_size p @ CHR ''['' # u"
  shows "decode_operand x s =
    (let cut = (\<lambda>k. take (length (show_size p) + 1 + k) (nospace x)) in
     case char_pos (CHR ''+'') u of
       None \<Rightarrow> (case char_pos (CHR '']'') u of
           None \<Rightarrow> Inr ((None, nospace x), s)
         | Some k \<Rightarrow> if k + 1 < length u then Inr ((None, nospace x), s)
             else Inr ((if decode_reg32 (take k u) \<noteq> - 1
               then Some \<lparr>is_direct = False, reg = decode_reg32 (take k u), disp = 0, is8 = (p = Byte), is32 = (p = Dword)\<rparr>
               else None, cut k), s))
     | Some k \<Rightarrow> if decode_reg32 (take k u) = - 1 then Inr ((None, cut k), s)
         else case char_pos (CHR '']'') (drop (k + 1) u) of
             None \<Rightarrow> Inr ((None, cut k), s)
           | Some j \<Rightarrow> if j + 1 < length (drop (k + 1) u) then Inr ((None, cut k), s)
               else bindM (decode_number_or_symbol (take j (drop (k + 1) u)) False) (\<lambda>(res, d).
                 retM (if res then Some \<lparr>is_direct = False, reg = decode_reg32 (take k u), disp = d,
                     is8 = (p = Byte), is32 = (p = Dword)\<rparr> else None, cut k)) s)"
proof -
  define t where "t = show_size p @ CHR ''['' # u"
  have t: "nospace x = t" using assms by (simp add: t_def)
  have i8: "prefix ''BYTE'' t = (p = Byte)"
    and i32: "prefix ''DWORD'' (if p = Byte then drop 4 t else t) = (p = Dword)"
    unfolding t_def by (rule size_prefixes)+
  have t2: "(if p = Dword then drop 5 (if p = Byte then drop 4 t else t) else if p = Byte then drop 4 t else t)
      = CHR ''['' # u"
    by (cases p) (simp_all add: t_def)
  have len: "length t - length u = Suc (length (show_size p))" by (simp add: t_def)
  have np: "p = Byte \<longrightarrow> p \<noteq> Dword" by auto
  have d1: "drop 1 (CHR ''['' # u) = u" by simp
  show ?thesis
    unfolding decode_operand_def t i8 Let_def i32 t2 d1
    by (simp add: thenM_def bindM_def len np split: option.splits)
qed

lemma decode_operand_direct:
  assumes "\<not> prefix ''BYTE'' (nospace x)" "\<not> prefix ''DWORD'' (nospace x)" "\<not> prefix ''['' (nospace x)"
  shows "decode_operand x s = Inr
    (if decode_reg32 (nospace x) \<noteq> - 1 then
       (Some \<lparr>is_direct = True, reg = decode_reg32 (nospace x), disp = 0, is8 = False, is32 = True\<rparr>, nospace x)
     else if decode_reg8 (nospace x) \<noteq> - 1 then
       (Some \<lparr>is_direct = True, reg = decode_reg8 (nospace x), disp = 0, is8 = True, is32 = False\<rparr>, nospace x)
     else (None, nospace x), s)"
proof -
  have e1: "prefix ''BYTE'' (nospace x) = False" and e2: "prefix ''DWORD'' (nospace x) = False"
    using assms(1,2) by blast+
  have e3: "(nospace x \<noteq> [] \<and> nospace x ! 0 = CHR ''['') = False"
    using assms(3) by (cases "nospace x") auto
  show ?thesis
    unfolding decode_operand_def Let_def e1 e2 if_False e3
    by (simp add: thenM_def bindM_def)
qed

lemma reg32_name_first:
  assumes "i < 8"
  shows "\<not> prefix ''BYTE'' (reg32_name i)" "\<not> prefix ''DWORD'' (reg32_name i)" "\<not> prefix ''['' (reg32_name i)"
  using less8 [OF assms] by (auto simp: reg32_name_def)

lemma reg8_name_first:
  assumes "i < 8"
  shows "\<not> prefix ''BYTE'' (reg8_name i)" "\<not> prefix ''DWORD'' (reg8_name i)" "\<not> prefix ''['' (reg8_name i)"
    "decode_reg32 (reg8_name i) = - 1"
  using less8 [OF assms] by (auto simp: reg8_name_def decode_reg32_def)

text \<open>C37: reading back what is written: an operand of the assembler's syntax (a register, or a
  register in brackets with an optional numeric displacement and an optional size prefix),
  with blanks and tabs anywhere in it, is decoded to its register number, its displacement
  modulo \<open>2 ^ 32\<close> and its size, in every stage and without touching the assembler's state.\<close>

theorem decode_operand_show:
  assumes "operand_ok opnd" and "nospace x = show_operand opnd"
  shows "\<exists>cut. decode_operand x s = Inr ((Some (meaning opnd), cut), s)"
proof (cases opnd)
  case (R32 i)
  then have i: "i < 8" and x: "nospace x = reg32_name i" using assms by simp_all
  show ?thesis
    using decode_operand_direct [of x s] reg32_name_first [OF i] decode_reg32_name [OF i] R32 by (simp add: x)
next
  case (R8 i)
  then have i: "i < 8" and x: "nospace x = reg8_name i" using assms by simp_all
  show ?thesis
    using decode_operand_direct [of x s] reg8_name_first [OF i] decode_reg8_name [OF i] R8 by (simp add: x)
next
  case (Mem p i d)
  show ?thesis
  proof (cases d)
    case None
    have i: "i < 8" using assms(1) Mem None by simp
    note name = reg32_name_plain [OF i]
    have plus: "char_pos (CHR ''+'') (reg32_name i @ '']'') = None"
      using name(1) by (simp add: char_pos_None)
    have "nospace x = show_size p @ CHR ''['' # (reg32_name i @ '']'')" using assms(2) Mem None by simp
    from decode_operand_mem [OF this, of s] show ?thesis
      by (simp add: plus name decode_reg32_name [OF i] Mem None)
  next
    case (Some e)
    have i: "i < 8" and e: "fst (decode_number e)" using assms(1) Mem Some by simp_all
    note name = reg32_name_plain [OF i] and plain = numeral_plain [OF e]
    have "nospace x = show_size p @ CHR ''['' # (reg32_name i @ CHR ''+'' # (e @ '']''))"
      using assms(2) Mem Some by simp
    from decode_operand_mem [OF this, of s] show ?thesis
      by (simp add: name plain decode_reg32_name [OF i] Mem Some decode_or_symbol_number [OF e] bindM_def)
  qed
qed

theorem decode_operand_show_witness:
  "\<exists>cut. decode_operand '' DWORD [ebp + 0x8]'' empty_core
     = Inr ((Some \<lparr>is_direct = False, reg = 5, disp = 8, is8 = False, is32 = True\<rparr>, cut), empty_core)"
proof -
  have num: "decode_number ''0x8'' = (True, 8)"
    by (simp add: decode_number_def Let_def schar_def uchar_def)
  have "operand_ok (Mem Dword 5 (Some ''0x8''))" by (simp add: num)
  moreover have "nospace '' DWORD [ebp + 0x8]'' = show_operand (Mem Dword 5 (Some ''0x8''))"
    by (simp add: is_blank_def reg32_name_def nospace_def)
  ultimately show ?thesis
    using decode_operand_show [of "Mem Dword 5 (Some ''0x8'')" "'' DWORD [ebp + 0x8]''" empty_core]
    by (simp add: num)
qed

text \<open>Whatever the operand, decoding it reads the state and no more, and an operand it returns
  names an existing register and has at most one size.\<close>

definition operand_wf :: "operand \<Rightarrow> bool" where
  "operand_wf p \<longleftrightarrow> 0 \<le> reg p \<and> reg p < 8 \<and> \<not> (is8 p \<and> is32 p) \<and> (is_direct p \<longrightarrow> is8 p \<or> is32 p)"

lemma decode_number_or_symbol_state: "decode_number_or_symbol x f s = Inr (r, s') \<Longrightarrow> s' = s"
  by (auto simp: decode_number_or_symbol_def run_simps split: prod.splits if_splits option.splits)

lemma decode_operand_state: "decode_operand x s = Inr (r, s') \<Longrightarrow> s' = s"
  by (auto simp: decode_operand_def run_simps Let_def dest: decode_number_or_symbol_state
      split: prod.splits if_splits option.splits)

lemma decode_operand_wf: "decode_operand x s = Inr ((Some p, rest), s') \<Longrightarrow> operand_wf p"
  using decode_reg32_range decode_reg8_range
  by (fastforce simp: decode_operand_def run_simps Let_def operand_wf_def
      split: prod.splits if_splits option.splits)

lemma pass_decode_number_or_symbol [pass_intros]: "steps pass_rel (decode_number_or_symbol x f)"
  by (rule stepsI) (auto dest: decode_number_or_symbol_state intro: pass.eff_refl)

lemma pass_decode_operand [pass_intros]: "steps pass_rel (decode_operand x)"
  by (rule stepsI) (auto dest: decode_operand_state intro: pass.eff_refl)

end
