(* ===== verification/Encode.thy ===== *)
theory Encode
  imports Operands
begin

text \<open>
  Instruction encoding of \<open>attic/staging.c\<close>: the addressing byte, the opcode bytes and the
  handlers that the opcode table dispatches to.

  The opcode table itself is data of the assembly seed, reached through \<open>get_opcode_names\<close>,
  \<open>get_opcode_funcs\<close>, \<open>get_rm32_opcode\<close> and so on: it is the parameter \<open>T\<close> of the handlers. An
  entry packs a first byte, a second byte or register field, and a flag for the second byte;
  \<open>0xf0\<close> marks an addressing mode that the instruction does not have.
\<close>

unbundle bit_operations_syntax

datatype handler = ProcessPushLike | ProcessAddLike | ProcessJmpLike | ProcessInt | ProcessRet | ProcessInLike

record optab =
  opcode_names :: "string list"
  opcode_funcs :: "handler list"
  rm32_opcode :: "i32 list"
  imm32_opcode :: "i32 list"
  rm8r8_opcode :: "i32 list"
  rm32r32_opcode :: "i32 list"
  r8rm8_opcode :: "i32 list"
  r32rm32_opcode :: "i32 list"
  rm8imm8_opcode :: "i32 list"
  rm32imm32_opcode :: "i32 list"

definition table_get :: "'b list \<Rightarrow> nat \<Rightarrow> ('s, 'b) M" where
  "table_get xs i = (if i < length xs then retM (xs ! i) else failM Undef)"

text \<open>The entries of the enumeration that the handlers test for.\<close>

definition OP_PUSH :: nat where "OP_PUSH = 0"
definition OP_INT :: nat where "OP_INT = 30"
definition OP_RET :: nat where "OP_RET = 31"
definition OP_IN :: nat where "OP_IN = 32"
definition OP_OUT :: nat where "OP_OUT = 33"

section \<open>Addressing byte and opcode\<close>

text \<open>
  The first three assertions are written \<open>mod == mod & 0x3\<close>, which C reads as
  \<open>(mod == mod) & 0x3\<close>.
\<close>

definition c_bool :: "bool \<Rightarrow> int" where
  "c_bool b = (if b then 1 else 0)"

definition emit_modrm :: "int \<Rightarrow> int \<Rightarrow> int \<Rightarrow> ('a core_scheme, unit) M" where
  "emit_modrm mode r rm =
     thenM (assertM (c_bool (mode = mode) AND 3 \<noteq> 0))
    (thenM (assertM (c_bool (r = r) AND 7 \<noteq> 0))
    (thenM (assertM (c_bool (rm = rm) AND 7 \<noteq> 0))
    (thenM (assertM (mode = 2 \<or> mode = 3))
    (thenM (emit (word_of_int (push_bit 6 mode + push_bit 3 r + rm)))
    (whenM (mode = 2 \<and> rm = 4) (emit 0x24))))))"

definition emit_helper :: "i32 \<Rightarrow> bool \<Rightarrow> int \<Rightarrow> int \<Rightarrow> i32 \<Rightarrow> ('a core_scheme, unit) M" where
  "emit_helper opcode_data direct r rm d =
     (let opcode = opcode_data AND 0xff;
          opcode2 = signed_drop_bit 8 opcode_data AND 0xff;
          has_opcode2 = opcode_data AND 0xff0000 \<noteq> 0;
          r = (if r = - 1 then uint opcode2 else r);
          mode = (if direct then 3 else 2);
          has_modrm = rm \<noteq> - 1
      in thenM (assertM (opcode \<noteq> 0xf0))
        (doM [emit (ucast opcode),
              whenM has_opcode2 (emit (ucast opcode2)),
              whenM has_modrm (emit_modrm mode r rm),
              whenM (\<not> direct) (emit32 d)]))"

section \<open>The handlers of the text section\<close>

definition process_jmp_like :: "optab \<Rightarrow> nat \<Rightarrow> string \<Rightarrow> ('a core_scheme, unit) M" where
  "process_jmp_like T opc data =
     bindM (decode_operand data) (\<lambda>(res, data). case res of
       Some p \<Rightarrow>
         thenM (assertM (\<not> is8 p))
        (bindM (table_get (rm32_opcode T) opc) (\<lambda>opcode_data.
         emit_helper opcode_data (is_direct p) (- 1) (reg p) (disp p)))
     | None \<Rightarrow>
         bindM (table_get (imm32_opcode T) opc) (\<lambda>opcode_data.
         thenM (emit_helper opcode_data True (- 1) (- 1) 0)
        (bindM (decode_number_or_symbol data False) (\<lambda>(res, rel).
         if \<not> res then failM Panic
         else bindM (getM current_loc) (\<lambda>current_loc. emit32 (rel - current_loc - 4))))))"

definition process_push_like :: "optab \<Rightarrow> nat \<Rightarrow> string \<Rightarrow> ('a core_scheme, unit) M" where
  "process_push_like T opc data =
     bindM (decode_operand data) (\<lambda>(res, data). case res of
       Some p \<Rightarrow>
         thenM (assertM (\<not> is8 p))
        (bindM (table_get (rm32_opcode T) opc) (\<lambda>opcode_data.
         emit_helper opcode_data (is_direct p) (- 1) (reg p) (disp p)))
     | None \<Rightarrow>
         thenM (assertM (opc = OP_PUSH))
        (bindM (decode_number_or_symbol data False) (\<lambda>(res, imm).
         if res then doM [emit 0x68, emit32 imm] else failM Panic)))"

definition process_add_like :: "optab \<Rightarrow> nat \<Rightarrow> string \<Rightarrow> ('a core_scheme, unit) M" where
  "process_add_like T opc data =
     (case char_pos (CHR '','') data of
        None \<Rightarrow> failM Panic
      | Some comma_pos \<Rightarrow>
          (let dest = take comma_pos data; src = drop (comma_pos + 1) data in
           bindM (decode_operand dest) (\<lambda>(dest_res, _). case dest_res of
             None \<Rightarrow> failM Panic
           | Some d \<Rightarrow>
               bindM (decode_operand src) (\<lambda>(src_res, src). case src_res of
                 Some s \<Rightarrow>
                   (let i8 = (is8 d \<or> is8 s); i32 = (is32 d \<or> is32 s) in
                    thenM (assertM (i8 \<or> i32))
                   (thenM (assertM (\<not> i8 \<or> \<not> i32))
                   (if is_direct d then
                      bindM (table_get (if i8 then r8rm8_opcode T else r32rm32_opcode T) opc) (\<lambda>opcode_data.
                      emit_helper opcode_data (is_direct s) (reg d) (reg s) (disp s))
                    else if is_direct s then
                      bindM (table_get (if i8 then rm8r8_opcode T else rm32r32_opcode T) opc) (\<lambda>opcode_data.
                      emit_helper opcode_data False (reg s) (reg d) (disp d))
                    else failM Panic)))
               | None \<Rightarrow>
                   thenM (assertM (is8 d \<or> is32 d))
                  (bindM (decode_number_or_symbol src False) (\<lambda>(res, imm).
                   if \<not> res then failM Panic
                   else if is8 d then
                     bindM (table_get (rm8imm8_opcode T) opc) (\<lambda>opcode_data.
                     doM [emit_helper opcode_data (is_direct d) (- 1) (reg d) (disp d), emit (ucast imm)])
                   else
                     bindM (table_get (rm32imm32_opcode T) opc) (\<lambda>opcode_data.
                     doM [emit_helper opcode_data (is_direct d) (- 1) (reg d) (disp d), emit32 imm]))))))) "

text \<open>The range test of \<open>process_int2\<close> looks at \<open>res\<close>, which is 1 here, and not at \<open>imm\<close>.\<close>

definition process_int :: "nat \<Rightarrow> string \<Rightarrow> ('a core_scheme, unit) M" where
  "process_int opc data =
     thenM (assertM (opc = OP_INT))
    (bindM (decode_number_or_symbol data False) (\<lambda>(res, imm).
     if \<not> res then failM Panic
     else if c_bool res < 0 \<or> c_bool res \<ge> 0x100 then failM Panic
     else doM [emit 0xcd, emit (ucast imm)]))"

definition process_ret :: "nat \<Rightarrow> string \<Rightarrow> ('a core_scheme, unit) M" where
  "process_ret opc data =
     thenM (assertM (opc = OP_RET)) (thenM (assertM (data = [])) (emit 0xc3))"

definition process_in_like :: "nat \<Rightarrow> string \<Rightarrow> ('a core_scheme, unit) M" where
  "process_in_like opc data =
     thenM (assertM (opc = OP_IN \<or> opc = OP_OUT))
     (case char_pos (CHR '','') data of
        None \<Rightarrow> failM Panic
      | Some comma_pos \<Rightarrow>
          (let first = take comma_pos data; second = drop (comma_pos + 1) data;
               opcode = (if opc = OP_IN then 0xec else 0xee);
               port = trim (if opc = OP_IN then second else first);
               r = trim (if opc = OP_IN then first else second)
           in thenM (assertM (port = ''dx''))
             (if r = ''al'' then emit opcode
              else if r = ''ax'' then doM [emit 0x66, emit (opcode + 1)]
              else if r = ''eax'' then emit (opcode + 1)
              else failM Panic)))"

fun call_handler :: "optab \<Rightarrow> handler \<Rightarrow> nat \<Rightarrow> string \<Rightarrow> ('a core_scheme, unit) M" where
  "call_handler T ProcessPushLike opc data = process_push_like T opc data"
| "call_handler T ProcessAddLike opc data = process_add_like T opc data"
| "call_handler T ProcessJmpLike opc data = process_jmp_like T opc data"
| "call_handler T ProcessInt opc data = process_int opc data"
| "call_handler T ProcessRet opc data = process_ret opc data"
| "call_handler T ProcessInLike opc data = process_in_like opc data"

text \<open>The scan of the name table; the result says whether the opcode was known.\<close>

fun text_line_loop :: "optab \<Rightarrow> string list \<Rightarrow> nat \<Rightarrow> string \<Rightarrow> string \<Rightarrow> ('a core_scheme, bool) M" where
  "text_line_loop T [] idx opcode data = retM False"
| "text_line_loop T (name # names) idx opcode data =
     (if name = [] then retM False
      else if name = opcode then
        bindM (table_get (opcode_funcs T) idx) (\<lambda>h. thenM (call_handler T h idx data) (retM True))
      else text_line_loop T names (idx + 1) opcode data)"

definition process_text_line :: "optab \<Rightarrow> string \<Rightarrow> string \<Rightarrow> ('a core_scheme, bool) M" where
  "process_text_line T opcode data = text_line_loop T (opcode_names T) 0 opcode data"

section \<open>Two-pass discipline of the handlers\<close>

lemma pass_table_get [pass_intros]: "steps pass_rel (table_get xs i)"
  unfolding table_get_def by (intro pass_intros)

lemma pass_emit_modrm [pass_intros]: "steps pass_rel (emit_modrm m r rm)"
  unfolding emit_modrm_def by (intro pass_intros)

lemma pass_emit_helper [pass_intros]: "steps pass_rel (emit_helper od direct r rm d)"
  unfolding emit_helper_def Let_def by (intro pass_intros)

lemma pass_jmp_like [pass_intros]: "steps pass_rel (process_jmp_like T opc data)"
  unfolding process_jmp_like_def by (intro pass_intros)

lemma pass_push_like [pass_intros]: "steps pass_rel (process_push_like T opc data)"
  unfolding process_push_like_def by (intro pass_intros)

lemma pass_add_like [pass_intros]: "steps pass_rel (process_add_like T opc data)"
  unfolding process_add_like_def Let_def by (intro pass_intros)

lemma pass_int [pass_intros]: "steps pass_rel (process_int opc data)"
  unfolding process_int_def by (intro pass_intros)

lemma pass_ret [pass_intros]: "steps pass_rel (process_ret opc data)"
  unfolding process_ret_def by (intro pass_intros)

lemma pass_in_like [pass_intros]: "steps pass_rel (process_in_like opc data)"
  unfolding process_in_like_def Let_def by (intro pass_intros)

lemma pass_handler [pass_intros]: "steps pass_rel (call_handler T h opc data)"
  by (cases h) (simp_all add: pass_intros)

lemma pass_text_line_loop: "steps pass_rel (text_line_loop T names idx opcode data)"
  by (induction names arbitrary: idx) (auto intro!: pass_intros)

lemma pass_text_line [pass_intros]: "steps pass_rel (process_text_line T opcode data)"
  unfolding process_text_line_def by (rule pass_text_line_loop)

section \<open>The bytes mean the operands\<close>

text \<open>
  The reader's side of the encoding, from the processor manual: the addressing byte holds
  a mode (2 bits), a register field (3 bits) and a base (3 bits); mode 3 is a register, mode 2
  is memory with a 32-bit displacement, and base 4 in mode 2 announces a scale-index-base byte
  whose index 4 means that there is no index.
\<close>

datatype ea = EReg nat | EMem nat i32

definition read_disp :: "nat \<Rightarrow> nat \<Rightarrow> byte list \<Rightarrow> (nat \<times> ea \<times> byte list) option" where
  "read_disp r b bs = (case le32 bs of None \<Rightarrow> None | Some d \<Rightarrow> Some (r, EMem b d, drop 4 bs))"

fun decode_ea :: "byte list \<Rightarrow> (nat \<times> ea \<times> byte list) option" where
  "decode_ea [] = None"
| "decode_ea (b # bs) =
     (let mode = unat b div 64; r = unat b div 8 mod 8; rm = unat b mod 8 in
      if mode = 3 then Some (r, EReg rm, bs)
      else if mode = 2 then
        (if rm \<noteq> 4 then read_disp r rm bs
         else (case bs of [] \<Rightarrow> None
           | sib # bs' \<Rightarrow> if unat sib div 8 mod 8 = 4 then read_disp r (unat sib mod 8) bs' else None))
      else None)"

definition ea_bytes :: "bool \<Rightarrow> nat \<Rightarrow> nat \<Rightarrow> i32 \<Rightarrow> byte list" where
  "ea_bytes direct r rm d =
     of_nat ((if direct then 3 else 2) * 64 + r * 8 + rm) #
       (if \<not> direct \<and> rm = 4 then [0x24] else []) @ (if direct then [] else bytes32 d)"

lemma modrm_fields:
  fixes r rm m :: nat
  assumes "r < 8" "rm < 8"
  shows "(m * 64 + r * 8 + rm) div 64 = m" "(m * 64 + r * 8 + rm) div 8 mod 8 = r"
    "(m * 64 + r * 8 + rm) mod 8 = rm"
proof -
  have v: "m * 64 + r * 8 + rm = (m * 8 + r) * 8 + rm" by simp
  have d: "(m * 64 + r * 8 + rm) div 8 = m * 8 + r"
    unfolding v by (simp only: div_mult_self3) (simp add: assms)
  then show "(m * 64 + r * 8 + rm) div 8 mod 8 = r" using assms by simp
  have "(m * 64 + r * 8 + rm) div 64 = (m * 64 + r * 8 + rm) div 8 div 8"
    by (simp flip: div_mult2_eq)
  then show "(m * 64 + r * 8 + rm) div 64 = m" unfolding d using assms by simp
  show "(m * 64 + r * 8 + rm) mod 8 = rm"
    unfolding v by (simp only: mod_mult_self3) (simp add: assms)
qed

lemma decode_ea_bytes:
  assumes "r < 8" "rm < 8"
  shows "decode_ea (ea_bytes direct r rm d @ rest) = Some (r, if direct then EReg rm else EMem rm d, rest)"
proof -
  have val: "unat (of_nat ((if direct then 3 else 2) * 64 + r * 8 + rm) :: byte)
      = (if direct then 3 else 2) * 64 + r * 8 + rm" (is "unat (of_nat ?v :: byte) = _")
    using assms by (simp only: unat_of_nat) auto
  have parts: "?v div 64 = (if direct then 3 else 2)" "?v div 8 mod 8 = r" "?v mod 8 = rm"
    by (rule modrm_fields [OF assms])+
  have tail: "read_disp r b (bytes32 d @ rest) = Some (r, EMem b d, rest)" for b
    by (simp add: read_disp_def)
  show ?thesis
    unfolding ea_bytes_def append_Cons decode_ea.simps Let_def val parts
    by (cases direct; cases "rm = 4") (simp_all add: tail)
qed

definition opcode_bytes :: "i32 \<Rightarrow> byte list" where
  "opcode_bytes od = ucast (od AND 0xff) #
     (if od AND 0xff0000 \<noteq> 0 then [ucast (signed_drop_bit 8 od AND 0xff)] else [])"

lemma word_of_int_modrm:
  assumes "m = 2 \<or> m = 3" "0 \<le> r" "0 \<le> rm"
  shows "(word_of_int (push_bit 6 m + push_bit 3 r + rm) :: byte) = of_nat (nat m * 64 + nat r * 8 + nat rm)"
proof -
  have "push_bit 6 m + push_bit 3 r + rm = int (nat m * 64 + nat r * 8 + nat rm)"
    using assms by (auto simp: push_bit_eq_mult)
  then show ?thesis by (metis of_int_of_nat_eq)
qed

lemma emit_modrm_eval:
  assumes "0 \<le> r" "0 \<le> rm"
  shows "emit_modrm (if direct then 3 else 2) r rm s = Inr ((), emit_all
    (of_nat ((if direct then 3 else 2) * 64 + nat r * 8 + nat rm) #
       (if \<not> direct \<and> rm = 4 then [0x24] else [])) s)"
proof -
  have b: "(word_of_int (push_bit 6 (if direct then 3 else 2) + push_bit 3 r + rm) :: byte)
      = of_nat ((if direct then 3 else 2) * 64 + nat r * 8 + nat rm)"
    using word_of_int_modrm [of "if direct then 3 else 2" r rm] assms by auto
  have one: "c_bool (x = x) AND 3 \<noteq> 0" "c_bool (x = x) AND 7 \<noteq> 0" for x :: int
    by (simp_all add: c_bool_def)
  show ?thesis
    unfolding emit_modrm_def thenM_def bindM_def b
    using one by (simp add: emit_is_emit_all whenM_def emit_all_append)
qed

lemma emit_helper_plain_eval:
  assumes "od AND 0xff \<noteq> 0xf0"
  shows "emit_helper od True r (- 1) d s = Inr ((), emit_all (opcode_bytes od) s)"
  using assms
  by (simp add: emit_helper_def Let_def thenM_def bindM_def emit_is_emit_all whenM_def retM_def
      opcode_bytes_def emit_all_append)

lemma emit_helper_eval:
  assumes od: "od AND 0xff \<noteq> 0xf0" and r: "r = - 1 \<longrightarrow> r' = unat (signed_drop_bit 8 od AND 0xff :: i32)"
    "r \<noteq> - 1 \<longrightarrow> 0 \<le> r \<and> r' = nat r" and rm: "0 \<le> rm"
  shows "emit_helper od direct r rm d s =
    Inr ((), emit_all (opcode_bytes od @ ea_bytes direct r' (nat rm) d) s)"
proof -
  define q where "q = (if r = - 1 then uint (signed_drop_bit 8 od AND 0xff :: i32) else r)"
  have q: "0 \<le> q" "nat q = r'" using r by (auto simp: q_def)
  have rm1: "rm \<noteq> - 1" "nat rm = 4 \<longleftrightarrow> rm = 4" using rm by auto
  show ?thesis
    unfolding emit_helper_def Let_def q_def [symmetric]
    using od rm1 q
    by (simp add: thenM_def bindM_def emit_is_emit_all whenM_def retM_def emit_modrm_eval [OF q(1) rm]
        emit32_eval opcode_bytes_def ea_bytes_def emit_all_append)
qed

text \<open>C36: what \<open>emit_helper2\<close> writes can be read back. For an opcode entry that exists, a
  register field and a base below 8, it writes the opcode bytes and then bytes from which the
  processor's reading rule recovers exactly the register field and the operand (the register, or
  base and displacement, the stack pointer as base included), whatever bytes follow.\<close>

theorem emit_helper_roundtrip:
  assumes "od AND 0xff \<noteq> 0xf0" and "r < 8" and "rm < 8"
  shows "\<exists>bs. emit_helper od direct (int r) (int rm) d s = Inr ((), emit_all (opcode_bytes od @ bs) s) \<and>
    (\<forall>rest. decode_ea (bs @ rest) = Some (r, if direct then EReg rm else EMem rm d, rest))"
proof -
  have "emit_helper od direct (int r) (int rm) d s
      = Inr ((), emit_all (opcode_bytes od @ ea_bytes direct r (nat (int rm)) d) s)"
    by (rule emit_helper_eval) (use assms in auto)
  with decode_ea_bytes [OF assms(2,3)] show ?thesis by (intro exI [of _ "ea_bytes direct r rm d"]) simp
qed

theorem emit_helper_roundtrip_witness:
  "\<exists>bs. emit_helper 0x89 False 3 4 8 empty_core = Inr ((), emit_all ([0x89] @ bs) empty_core) \<and>
    decode_ea (bs @ [0xc3]) = Some (3, EMem 4 8, [0xc3])"
proof -
  have "(0x89 :: i32) AND 0xff \<noteq> 0xf0" by simp
  from emit_helper_roundtrip [OF this, of 3 4 False 8 empty_core] show ?thesis
    by (auto simp: opcode_bytes_def)
qed

text \<open>C35: decoded operands have the type the encoder needs. Whatever the text, if \<open>decode_operand\<close> accepts it then the
  state is unchanged, and the operand it returns has an existing register, at most one size, and a size if it is a register; and
  for every register field and every opcode entry that exists \<open>emit_helper2\<close> encodes such an operand without
  a failure, and the processor reads exactly this operand back.\<close>

theorem decoded_operand_encodes:
  assumes "decode_operand x s = Inr ((Some p, rest), s')" and "od AND 0xff \<noteq> 0xf0" and "r < 8"
  shows "s' = s \<and> operand_wf p \<and> (\<exists>bs. emit_helper od (is_direct p) (int r) (reg p) (disp p) s = Inr ((), emit_all (opcode_bytes od @ bs) s) \<and>
    (\<forall>more. decode_ea (bs @ more) = Some (r, if is_direct p then EReg (nat (reg p)) else EMem (nat (reg p)) (disp p), more)))"
proof -
  have p: "operand_wf p" by (rule decode_operand_wf [OF assms(1)])
  then obtain i where i: "reg p = int i" "i < 8" unfolding operand_wf_def by (metis nat_eq_iff2 nat_less_eq_zless nat_numeral)
  have "emit_helper od (is_direct p) (int r) (int i) (disp p) s
      = Inr ((), emit_all (opcode_bytes od @ ea_bytes (is_direct p) r (nat (int i)) (disp p)) s)"
    by (rule emit_helper_eval) (use assms i in auto)
  with decode_ea_bytes [OF assms(3) i(2)] decode_operand_state [OF assms(1)] p show ?thesis
    by (intro conjI exI [of _ "ea_bytes (is_direct p) r i (disp p)"]) (simp_all add: i(1))
qed

theorem decoded_operand_encodes_witness:
  "\<exists>p bs. decode_operand ''al'' empty_core = Inr ((Some p, ''al''), empty_core) \<and> operand_wf p \<and>
    emit_helper 0x88 (is_direct p) 3 (reg p) (disp p) empty_core = Inr ((), emit_all ([0x88] @ bs) empty_core)"
proof -
  have "decode_operand ''al'' empty_core = Inr ((Some \<lparr>is_direct = True, reg = 0, disp = 0, is8 = True, is32 = False\<rparr>, ''al''), empty_core)"
    by (simp add: decode_operand_def Let_def nospace_def is_blank_def decode_reg32_def decode_reg8_def thenM_def bindM_eval)
  from decoded_operand_encodes [OF this, where od = "0x88" and r = 3] this show ?thesis by (fastforce simp: opcode_bytes_def)
qed

text \<open>The two-operand instructions: which table and which bytes a pair of operands calls for.
  The register operand goes to the register field, the other one is the addressed operand; two
  memory operands or operands of different sizes have no encoding.\<close>

fun ea_of :: "src_operand \<Rightarrow> ea" where
  "ea_of (R32 i) = EReg i"
| "ea_of (R8 i) = EReg i"
| "ea_of (Mem p i d) = EMem i (disp (meaning (Mem p i d)))"

fun two_operand_form :: "optab \<Rightarrow> src_operand \<Rightarrow> src_operand \<Rightarrow> (i32 list \<times> nat \<times> ea) option" where
  "two_operand_form T (R32 i) (R32 j) = Some (r32rm32_opcode T, i, EReg j)"
| "two_operand_form T (R8 i) (R8 j) = Some (r8rm8_opcode T, i, EReg j)"
| "two_operand_form T (R32 i) (Mem p b d) =
     (if p = Byte then None else Some (r32rm32_opcode T, i, ea_of (Mem p b d)))"
| "two_operand_form T (R8 i) (Mem p b d) =
     (if p = Dword then None else Some (r8rm8_opcode T, i, ea_of (Mem p b d)))"
| "two_operand_form T (Mem p b d) (R32 i) =
     (if p = Byte then None else Some (rm32r32_opcode T, i, ea_of (Mem p b d)))"
| "two_operand_form T (Mem p b d) (R8 i) =
     (if p = Dword then None else Some (rm8r8_opcode T, i, ea_of (Mem p b d)))"
| "two_operand_form T _ _ = None"

lemma set_nospace_eq: "set (nospace x) = {c \<in> set x. \<not> is_blank c}"
  by (auto simp: nospace_def)

lemma comma_not_shown:
  assumes "operand_ok opnd" and "nospace x = show_operand opnd"
  shows "CHR '','' \<notin> set x"
proof -
  have "CHR '','' \<notin> set (show_operand opnd)"
  proof (cases opnd)
    case (Mem p i d)
    have name: "CHR '','' \<notin> set (reg32_name i)" using assms(1) Mem
      by (cases d) (auto dest!: less8 simp: reg32_name_def)
    have num: "CHR '','' \<notin> set e" if "d = Some e" for e
    proof
      assume c: "CHR '','' \<in> set e"
      have "fst (decode_number e)" using assms(1) Mem that by simp
      from numeral_chars [OF this c] show False by (simp add: uchar_def)
    qed
    show ?thesis using Mem name num by (cases d; cases p) auto
  qed (use assms(1) in \<open>auto dest!: less8 simp: reg32_name_def reg8_name_def\<close>)
  then have "CHR '','' \<notin> set (nospace x)" by (simp add: assms(2))
  then show ?thesis by (auto simp: set_nospace_eq is_blank_def)
qed

lemma add_like_decoded:
  assumes "operand_ok d" "operand_ok s" "nospace x = show_operand d" "nospace y = show_operand s"
  shows "process_add_like T opc (x @ CHR '','' # y) st =
    (let i8 = (is8 (meaning d) \<or> is8 (meaning s)); i32 = (is32 (meaning d) \<or> is32 (meaning s)) in
     thenM (assertM (i8 \<or> i32)) (thenM (assertM (\<not> i8 \<or> \<not> i32))
       (if is_direct (meaning d) then
          bindM (table_get (if i8 then r8rm8_opcode T else r32rm32_opcode T) opc) (\<lambda>opcode_data.
          emit_helper opcode_data (is_direct (meaning s)) (reg (meaning d)) (reg (meaning s)) (disp (meaning s)))
        else if is_direct (meaning s) then
          bindM (table_get (if i8 then rm8r8_opcode T else rm32r32_opcode T) opc) (\<lambda>opcode_data.
          emit_helper opcode_data False (reg (meaning s)) (reg (meaning d)) (disp (meaning d)))
        else failM Panic)) st)"
proof -
  obtain cd where d: "decode_operand x st = Inr ((Some (meaning d), cd), st)"
    using decode_operand_show [OF assms(1,3)] by blast
  obtain cs where s: "decode_operand y st = Inr ((Some (meaning s), cs), st)"
    using decode_operand_show [OF assms(2,4)] by blast
  have comma: "char_pos (CHR '','') (x @ CHR '','' # y) = Some (length x)"
    using comma_not_shown [OF assms(1,3)] by simp
  show ?thesis
    unfolding process_add_like_def comma option.case Let_def
    by (simp add: bindM_def [of "decode_operand x"] bindM_def [of "decode_operand y"] d s)
qed

lemma meaning_reg: "operand_ok opnd \<Longrightarrow> \<exists>i < 8. reg (meaning opnd) = int i"
  by (cases opnd rule: operand_ok.cases) auto

lemma emit_from_table:
  assumes "opc < length tbl" "tbl ! opc AND 0xff \<noteq> 0xf0" "r < 8" "rm < 8"
  shows "\<exists>bs. bindM (table_get tbl opc) (\<lambda>od. emit_helper od direct (int r) (int rm) d) s
      = Inr ((), emit_all (opcode_bytes (tbl ! opc) @ bs) s) \<and>
    (\<forall>rest. decode_ea (bs @ rest) = Some (r, if direct then EReg rm else EMem rm d, rest))"
proof -
  have "emit_helper (tbl ! opc) direct (int r) (int rm) d s
      = Inr ((), emit_all (opcode_bytes (tbl ! opc) @ ea_bytes direct r (nat (int rm)) d) s)"
    by (rule emit_helper_eval) (use assms in auto)
  with decode_ea_bytes [OF assms(3,4)] assms(1) show ?thesis
    by (intro exI [of _ "ea_bytes direct r rm d"]) (simp add: bindM_def table_get_def)
qed

text \<open>C6: the two-operand instructions (\<open>add\<close>, \<open>sub\<close>, \<open>mov\<close>, \<open>cmp\<close>, \<open>and\<close>, \<open>or\<close>) on two
  written operands: a pair without an encoding (two memory operands, different sizes, no size)
  is refused; otherwise, when the table has the entry, the bytes written are the entry's opcode
  bytes and bytes that read back as the two operands.\<close>

theorem process_add_like_encodes:
  assumes "operand_ok d" "operand_ok s" "nospace x = show_operand d" "nospace y = show_operand s"
  shows "case two_operand_form T d s of
      None \<Rightarrow> process_add_like T opc (x @ CHR '','' # y) st = Inl Panic
    | Some (tbl, r, e) \<Rightarrow> opc < length tbl \<and> tbl ! opc AND 0xff \<noteq> 0xf0 \<longrightarrow>
        (\<exists>bs. process_add_like T opc (x @ CHR '','' # y) st
            = Inr ((), emit_all (opcode_bytes (tbl ! opc) @ bs) st) \<and>
          (\<forall>rest. decode_ea (bs @ rest) = Some (r, e, rest)))"
proof -
  have run: "process_add_like T opc (x @ CHR '','' # y) st = Inl Panic"
    if "two_operand_form T d s = None"
    unfolding add_like_decoded [OF assms] Let_def
    using that by (cases "(T, d, s)" rule: two_operand_form.cases)
      (auto simp: thenM_def bindM_def assertM_def retM_def failM_def split: if_splits)
  have ok: "\<exists>bs. process_add_like T opc (x @ CHR '','' # y) st
      = Inr ((), emit_all (opcode_bytes (tbl ! opc) @ bs) st) \<and>
      (\<forall>rest. decode_ea (bs @ rest) = Some (r, e, rest))"
    if form: "two_operand_form T d s = Some (tbl, r, e)"
      and tbl: "opc < length tbl" "tbl ! opc AND 0xff \<noteq> 0xf0" for tbl r e
  proof -
    obtain i j where i: "i < 8" "reg (meaning d) = int i" and j: "j < 8" "reg (meaning s) = int j"
      using meaning_reg assms(1,2) by blast
    have "\<exists>direct rm di. rm < 8 \<and> r < 8 \<and> e = (if direct then EReg rm else EMem rm di) \<and>
        process_add_like T opc (x @ CHR '','' # y) st =
          bindM (table_get tbl opc) (\<lambda>od. emit_helper od direct (int r) (int rm) di) st"
    proof (cases "is_direct (meaning d)")
      case True
      show ?thesis
        unfolding add_like_decoded [OF assms] Let_def
        using True form i j
        by (intro exI [of _ "is_direct (meaning s)"] exI [of _ j] exI [of _ "disp (meaning s)"],
            cases "(T, d, s)" rule: two_operand_form.cases)
          (auto simp: thenM_def bindM_def split: if_splits)
    next
      case False
      show ?thesis
        unfolding add_like_decoded [OF assms] Let_def
        using False form i j
        by (intro exI [of _ False] exI [of _ i] exI [of _ "disp (meaning d)"],
            cases "(T, d, s)" rule: two_operand_form.cases)
          (auto simp: thenM_def bindM_def split: if_splits)
    qed
    then obtain direct rm di where "rm < 8" "r < 8" and e: "e = (if direct then EReg rm else EMem rm di)"
      and eq: "process_add_like T opc (x @ CHR '','' # y) st =
        bindM (table_get tbl opc) (\<lambda>od. emit_helper od direct (int r) (int rm) di) st" by blast
    from emit_from_table [OF tbl this(2,1), of direct di st] show ?thesis
      unfolding eq e .
  qed
  show ?thesis using run ok by (auto split: option.splits)
qed

definition example_tables :: optab where
  "example_tables = \<lparr>opcode_names = [], opcode_funcs = [], rm32_opcode = [], imm32_opcode = [],
     rm8r8_opcode = [], rm32r32_opcode = [0xf0, 0xf0, 0x01], r8rm8_opcode = [],
     r32rm32_opcode = [], rm8imm8_opcode = [], rm32imm32_opcode = []\<rparr>"

theorem process_add_like_encodes_witness:
  "\<exists>bs. process_add_like example_tables 2 ''[ebx+4],eax'' empty_core
      = Inr ((), emit_all ([0x01] @ bs) empty_core) \<and> decode_ea bs = Some (0, EMem 3 4, [])"
proof -
  let ?d = "Mem NoSize 3 (Some ''4'')" and ?s = "R32 0"
  have num: "decode_number ''4'' = (True, 4)"
    by (simp add: decode_number_def Let_def schar_def uchar_def)
  have d: "operand_ok ?d" and s: "operand_ok ?s" by (simp_all add: num)
  have x: "nospace ''[ebx+4]'' = show_operand ?d" and y: "nospace ''eax'' = show_operand ?s"
    by (simp_all add: is_blank_def reg32_name_def nospace_def)
  from process_add_like_encodes [OF d s x y, of example_tables 2 empty_core]
  obtain bs where "process_add_like example_tables 2 ''[ebx+4],eax'' empty_core
      = Inr ((), emit_all ([0x01] @ bs) empty_core)" and r: "\<forall>rest. decode_ea (bs @ rest) = Some (0, EMem 3 4, rest)"
    by (auto simp: example_tables_def num opcode_bytes_def)
  moreover have "decode_ea bs = Some (0, EMem 3 4, [])" using r [rule_format, of "[]"] by simp
  ultimately show ?thesis by blast
qed

section \<open>Jumps\<close>

text \<open>Row \<open>i\<close> is the first row of the opcode table for \<open>op\<close>, and its handler is \<open>h\<close>.\<close>

definition dispatches :: "optab \<Rightarrow> nat \<Rightarrow> string \<Rightarrow> handler \<Rightarrow> bool" where
  "dispatches T i op h \<longleftrightarrow> op \<noteq> [] \<and> i < length (opcode_names T) \<and> opcode_names T ! i = op \<and>
     (\<forall>j < i. opcode_names T ! j \<noteq> [] \<and> opcode_names T ! j \<noteq> op) \<and>
     i < length (opcode_funcs T) \<and> opcode_funcs T ! i = h"

lemma text_line_loop_hit:
  assumes "i < length names" "names ! i = op" "op \<noteq> []" "\<forall>j < i. names ! j \<noteq> [] \<and> names ! j \<noteq> op"
  shows "text_line_loop T names idx op data =
    bindM (table_get (opcode_funcs T) (idx + i)) (\<lambda>h. thenM (call_handler T h (idx + i) data) (retM True))"
  using assms
proof (induction names arbitrary: idx i)
  case Nil
  then show ?case by simp
next
  case (Cons n names)
  show ?case
  proof (cases i)
    case 0
    then show ?thesis using Cons.prems by (simp del: retM_eval)
  next
    case (Suc k)
    have "\<forall>j < k. names ! j \<noteq> [] \<and> names ! j \<noteq> op" using Cons.prems(4) Suc by auto
    then show ?thesis using Cons.IH [of k "idx + 1"] Cons.prems Suc by (auto dest: spec [of _ 0])
  qed
qed

lemma process_text_line_dispatch:
  assumes "dispatches T i op h"
  shows "process_text_line T op data s = thenM (call_handler T h i data) (retM True) s"
  using assms unfolding process_text_line_def dispatches_def
  by (subst text_line_loop_hit [where i = i]) (simp_all add: table_get_def bindM_def)

text \<open>A word that can only be a symbol: not a number, a register or a memory operand.\<close>

definition plain_symbol :: "string \<Rightarrow> bool" where
  "plain_symbol name \<longleftrightarrow> name \<noteq> [] \<and> CHR ''['' \<notin> set name \<and> (\<forall>c \<in> set name. \<not> is_blank c) \<and>
     decode_reg32 name = - 1 \<and> decode_reg8 name = - 1 \<and> \<not> fst (decode_number name)"

lemma bracket_first: "CHR ''['' \<notin> set t \<Longrightarrow> t = [] \<or> t ! 0 \<noteq> CHR ''[''"
  by (cases t) auto

lemma decode_operand_symbol:
  assumes "plain_symbol name" and "decode_operand name s = Inr (r, s')"
  shows "r = (None, name) \<and> s' = s"
proof -
  have id: "nospace name = name" using assms(1) by (simp add: plain_symbol_def)
  have nb: "(t \<noteq> [] \<and> t ! 0 = CHR ''['') = False" if "set t \<subseteq> set name" for t
    using bracket_first [of t] assms(1) that by (auto simp: plain_symbol_def)
  define t1 where "t1 = (if prefix ''BYTE'' name then drop 4 name else name)"
  define t2 where "t2 = (if prefix ''DWORD'' t1 then drop 5 t1 else t1)"
  have "set t1 \<subseteq> set name" by (simp add: t1_def set_drop_subset)
  then have e: "(t2 \<noteq> [] \<and> t2 ! 0 = CHR ''['') = False"
    using set_drop_subset [of 5 t1] by (intro nb) (auto simp: t2_def)
  obtain o2 x where r: "r = (o2, x)" by (cases r)
  have st: "s' = s" using assms(2) by (rule decode_operand_state)
  have same: "\<not> prefix ''BYTE'' name \<and> \<not> prefix ''DWORD'' t1 \<longrightarrow> t2 = name"
    by (simp add: t1_def t2_def)
  have "o2 = None \<and> x = name"
    using assms same
    unfolding decode_operand_def Let_def id t1_def [symmetric] t2_def [symmetric] e if_False r
    by (auto simp: run_simps plain_symbol_def split: if_splits)
  with st r show ?thesis by simp
qed

text \<open>The displacement written for a jump to a symbol, added to the address after the
  instruction, is the symbol's address.\<close>

lemma process_jmp_like_symbol:
  assumes "plain_symbol name" "stage s = 1" and run: "process_jmp_like T opc name s = Inr (u, s')"
  shows "\<exists>l a rel. find_symbol name s = Some (l, a) \<and>
    s' = emit_all (opcode_bytes (imm32_opcode T ! opc) @ bytes32 rel) s \<and> current_loc s' + rel = l"
proof -
  let ?od = "imm32_opcode T ! opc"
  obtain rest t where d: "decode_operand name s = Inr (rest, t)"
    using run by (auto simp: process_jmp_like_def run_simps)
  from decode_operand_symbol [OF assms(1) d] have r: "rest = (None, name)" "t = s" by simp_all
  have opc: "opc < length (imm32_opcode T)"
    and run': "thenM (emit_helper ?od True (- 1) (- 1) 0) (bindM (decode_number_or_symbol name False) (\<lambda>(res, rel).
         if \<not> res then failM Panic
         else bindM (getM current_loc) (\<lambda>current_loc. emit32 (rel - current_loc - 4)))) s = Inr (u, s')"
    using run d r by (auto simp: process_jmp_like_def bindM_def [of "decode_operand name"]
        bindM_def [of "table_get _ _"] table_get_def split: if_splits)
  then obtain s1 where "emit_helper ?od True (- 1) (- 1) 0 s = Inr ((), s1)"
    and rest: "bindM (decode_number_or_symbol name False) (\<lambda>(res, rel).
         if \<not> res then failM Panic
         else bindM (getM current_loc) (\<lambda>current_loc. emit32 (rel - current_loc - 4))) s1 = Inr (u, s')"
    unfolding thenM_run [of "emit_helper _ _ _ _ _"] by auto
  moreover from this have "?od AND 0xff \<noteq> 0xf0"
    by (auto simp: emit_helper_def Let_def run_simps)
  ultimately have s1: "s1 = emit_all (opcode_bytes ?od) s"
    by (simp add: emit_helper_plain_eval)
  have num: "decode_number name = (False, n)" if "decode_number name = (b, n)" for b n
    using assms(1) that by (simp add: plain_symbol_def)
  obtain n where n: "decode_number name = (False, n)" using num by (cases "decode_number name") auto
  from rest obtain l a where f: "find_symbol name s = Some (l, a)"
    and "emit32 (l - current_loc s1 - 4) s1 = Inr (u, s')"
    by (auto simp: decode_number_or_symbol_def n run_simps s1 assms(2) split: option.splits)
  then have "s' = emit_all (bytes32 (l - current_loc s1 - 4)) s1" by (simp add: emit32_eval)
  with f s1 show ?thesis by (intro exI [of _ l] exI [of _ a] exI [of _ "l - current_loc s1 - 4"])
      (simp add: emit_all_append)
qed

end
