(* ===== verification/Assembler.thy ===== *)
theory Assembler
  imports Encode "HOL-Library.Signed_Division"
begin

text \<open>
  The line level of \<open>attic/staging.c\<close>: sections, data, text and directives, the line reader
  and the two passes of \<open>assemble2\<close>, with what the assembler promises about its output.

  The input file is its list of characters; resetting the file starts from the whole list
  again. Logging is left out.
\<close>

record asm_state = core +
  line_no :: nat

definition INPUT_BUF_LEN :: nat where "INPUT_BUF_LEN = 1024"

section \<open>Lines\<close>

definition process_bss_line :: "string \<Rightarrow> string \<Rightarrow> ('a core_scheme, bool) M" where
  "process_bss_line opcode data =
     (if opcode = ''resb'' then
        bindM (decode_number_or_symbol data True) (\<lambda>(res, val).
          if \<not> res then failM Panic
          else thenM (repeatM (nat (sint val)) (emit 0)) (retM True))
      else if opcode = ''resd'' then
        bindM (decode_number_or_symbol data True) (\<lambda>(res, val).
          if \<not> res then failM Panic
          else thenM (repeatM (nat (sint val)) (emit32 0)) (retM True))
      else retM False)"

definition process_data_line :: "string \<Rightarrow> string \<Rightarrow> ('a core_scheme, bool) M" where
  "process_data_line opcode data =
     (if opcode = ''db'' then
        (if data \<noteq> [] \<and> data ! 0 = CHR 0x27 then
           (let len = length data in
            thenM (assertM (len \<ge> 2))
           (thenM (assertM (data ! (len - 1) = CHR 0x27))
           (thenM (doM (map (\<lambda>c. emit (char_byte c)) (drop 1 (take (len - 1) data))))
           (retM True))))
         else
           bindM (decode_number_or_symbol data False) (\<lambda>(res, val).
             if \<not> res then failM Panic else thenM (emit (ucast val)) (retM True)))
      else if opcode = ''dd'' then
        bindM (decode_number_or_symbol data False) (\<lambda>(res, val).
          if \<not> res then failM Panic else thenM (emit32 val) (retM True))
      else retM False)"

text \<open>\<open>%\<close> on \<open>int\<close> truncates towards zero; a zero alignment divides by zero.\<close>

definition process_directive_line :: "string \<Rightarrow> string \<Rightarrow> ('a core_scheme, bool) M" where
  "process_directive_line opcode data =
     (if opcode = ''section'' then retM True
      else if opcode = ''global'' then retM True
      else if opcode = ''align'' then
        bindM (decode_number_or_symbol data True) (\<lambda>(res, val).
          if \<not> res then failM Panic
          else if val = 0 then failM Undef
          else bindM (getM current_loc) (\<lambda>current_loc.
            (let to_skip = val - word_of_int (sint current_loc smod sint val)
             in thenM (repeatM (nat (sint to_skip)) (emit 0)) (retM True))))
      else if opcode = ''extern'' then thenM (add_symbol_wrapper data 0 (- 1)) (retM True)
      else retM False)"

definition process_equ_line :: "string \<Rightarrow> string \<Rightarrow> ('a core_scheme, bool) M" where
  "process_equ_line opcode data =
     (case char_pos (CHR '' '') data of
        None \<Rightarrow> retM False
      | Some data_space_pos \<Rightarrow>
          if take data_space_pos data = ''equ'' then
            (let val_str = trim (drop (data_space_pos + 1) data) in
             bindM (decode_number_or_symbol val_str False) (\<lambda>(res, val).
               if res then thenM (add_symbol_wrapper opcode val (- 1)) (retM True) else failM Panic))
          else retM False)"

definition unless :: "bool \<Rightarrow> ('s, bool) M \<Rightarrow> ('s, bool) M" where
  "unless processed m = (if processed then retM True else m)"

text \<open>The data of a line without a space is a string literal. The handlers of jumps and pushes begin with \<open>remove_spaces\<close>, which
  writes the terminator of its argument: a literal may not be written.\<close>

definition writes_literal :: "optab \<Rightarrow> string \<Rightarrow> string \<Rightarrow> bool" where
  "writes_literal T opcode data \<longleftrightarrow> data = [] \<and>
     (case map_of (zip (takeWhile (\<lambda>name. name \<noteq> []) (opcode_names T)) (opcode_funcs T)) opcode of
        None \<Rightarrow> False
      | Some h \<Rightarrow> h = ProcessJmpLike \<or> h = ProcessPushLike)"

definition process_line :: "optab \<Rightarrow> string \<Rightarrow> ('a core_scheme, unit) M" where
  "process_line T line =
     (let (opcode, data) =
        (case char_pos (CHR '' '') line of
           None \<Rightarrow> (line, [])
         | Some opcode_len \<Rightarrow> (take opcode_len line, trim (drop (opcode_len + 1) line)))
      in bindM (process_directive_line opcode data) (\<lambda>processed.
         bindM (unless processed (process_bss_line opcode data)) (\<lambda>processed.
         bindM (unless processed (if writes_literal T opcode data then failM Undef else process_text_line T opcode data)) (\<lambda>processed.
         bindM (unless processed (process_data_line opcode data)) (\<lambda>processed.
         bindM (unless processed (process_equ_line opcode data)) (\<lambda>processed.
         if processed then retM () else failM Panic))))))"

section \<open>The reader and the two passes\<close>

text \<open>
  \<open>readline2\<close> on the rest of the file: it returns whether the end was reached, the buffer as
  the string it now holds (up to the first NUL), and the rest. A line that does not fit panics.
\<close>

fun readline_loop :: "nat \<Rightarrow> string \<Rightarrow> string \<Rightarrow> err + (bool \<times> string \<times> string)" where
  "readline_loop 0 buf inp = Inl Panic"
| "readline_loop (Suc len) buf [] = Inr (True, buf, [])"
| "readline_loop (Suc len) buf (c # inp) =
     (if c = CHR 0x0A then Inr (False, buf, inp) else readline_loop len (buf @ [c]) inp)"

definition readline :: "nat \<Rightarrow> string \<Rightarrow> err + (bool \<times> string \<times> string)" where
  "readline len inp = bindR (readline_loop len [] inp) (\<lambda>(finished, buf, inp).
     Inr (finished, c_string buf, inp))"

definition clean_line :: "string \<Rightarrow> string" where
  "clean_line buf =
     trim (case char_pos (CHR '';'') buf of None \<Rightarrow> buf | Some semicolon_pos \<Rightarrow> take semicolon_pos buf)"

text \<open>One non-empty line: a label, or a statement.\<close>

definition assemble_line :: "optab \<Rightarrow> string \<Rightarrow> ('a core_scheme, unit) M" where
  "assemble_line T buf =
     (let len = length buf in
      if buf ! (len - 1) = CHR '':''
      then bindM (getM current_loc) (\<lambda>l. add_symbol_wrapper (take (len - 1) buf) l (- 1))
      else process_line T buf)"

lemma readline_loop_shorter:
  "readline_loop len buf inp = Inr (finished, buf', inp') \<Longrightarrow>
     length inp' + (length buf' - length buf) \<le> length inp \<and> length buf \<le> length buf' \<and>
     (\<not> finished \<longrightarrow> length inp' < length inp)"
  by (induction len buf inp rule: readline_loop.induct) (fastforce split: if_splits)+

lemma readline_shorter:
  assumes "readline len inp = Inr (finished, buf, inp')"
  shows "\<not> finished \<or> clean_line buf \<noteq> [] \<Longrightarrow> length inp' < length inp"
proof -
  obtain raw where run: "readline_loop len [] inp = Inr (finished, raw, inp')" and buf: "buf = c_string raw"
    using assms by (auto simp: readline_def bindR_Inr)
  have "clean_line [] = []" by (simp add: clean_line_def trim_def rstrip_def)
  then have "raw \<noteq> []" if "clean_line buf \<noteq> []"
    using that buf by (auto simp: c_string_def)
  with readline_loop_shorter [OF run] show "\<not> finished \<or> clean_line buf \<noteq> [] \<Longrightarrow> length inp' < length inp"
    by (cases raw) auto
qed

function assemble_loop :: "optab \<Rightarrow> string \<Rightarrow> (asm_state, unit) M" where
  "assemble_loop T inp s =
     bindR (readline INPUT_BUF_LEN inp) (\<lambda>(finished, raw, inp').
       (let buf = clean_line raw in
        if finished \<and> length buf = 0 then Inr ((), s)
        else if length buf = 0 then assemble_loop T inp' (s\<lparr>line_no := line_no s + 1\<rparr>)
        else bindR (assemble_line T buf s) (\<lambda>(_, s').
          assemble_loop T inp' (s'\<lparr>line_no := line_no s' + 1\<rparr>))))"
  by pat_completeness auto
termination
  by (relation "measure (\<lambda>(T, inp, s). length inp)") (auto dest: readline_shorter)

declare assemble_loop.simps [simp del]

definition assemble_pass :: "optab \<Rightarrow> string \<Rightarrow> i32 \<Rightarrow> nat \<Rightarrow> (asm_state, unit) M" where
  "assemble_pass T file start st =
     thenM (modM (\<lambda>s. s\<lparr>stage := st, line_no := 0, current_loc := start\<rparr>)) (assemble_loop T file)"

definition assemble :: "optab \<Rightarrow> string \<Rightarrow> i32 \<Rightarrow> (asm_state, unit) M" where
  "assemble T file start =
     thenM (assemble_pass T file start 0)
    (thenM (assemble_pass T file start 1)
    (modM (\<lambda>s. s\<lparr>stage := 2\<rparr>)))"

text \<open>The state before \<open>assemble\<close>: an empty symbol table and no output.\<close>

definition empty_asm :: asm_state where
  "empty_asm = \<lparr>symbol_num = 0, symbol_names = \<lambda>_. [], symbol_locs = \<lambda>_. 0, symbol_arities = \<lambda>_. 0,
     stage = 0, current_loc = 0, emitted = [], line_no = 0\<rparr>"

section \<open>Two-pass discipline\<close>

lemma pass_repeat_emit [pass_intros]: "steps pass_rel (repeatM n (emit c))"
  by (intro pass_intros)

lemma pass_bss_line [pass_intros]: "steps pass_rel (process_bss_line opcode data)"
  unfolding process_bss_line_def by (intro pass_intros)

lemma pass_data_line [pass_intros]: "steps pass_rel (process_data_line opcode data)"
  unfolding process_data_line_def Let_def
  by (intro pass_intros pass.eff_do) (auto intro!: pass_intros)

lemma pass_directive_line [pass_intros]: "steps pass_rel (process_directive_line opcode data)"
  unfolding process_directive_line_def Let_def by (intro pass_intros)

lemma pass_equ_line [pass_intros]: "steps pass_rel (process_equ_line opcode data)"
  unfolding process_equ_line_def Let_def by (intro pass_intros)

lemma pass_unless [pass_intros]: "steps pass_rel m \<Longrightarrow> steps pass_rel (unless b m)"
  unfolding unless_def by (intro pass_intros)

lemma pass_process_line [pass_intros]: "steps pass_rel (process_line T line)"
  unfolding process_line_def Let_def by (intro pass_intros)

lemma pass_assemble_line [pass_intros]: "steps pass_rel (assemble_line T buf)"
  unfolding assemble_line_def Let_def by (intro pass_intros)

lemma pass_line_no: "pass_rel s (s\<lparr>line_no := n\<rparr>)"
proof -
  have "find_symbol m (s\<lparr>line_no := n\<rparr>) = find_symbol m s" for m by (rule find_symbol_cong) simp_all
  moreover have "table_wf (s\<lparr>line_no := n\<rparr>) = table_wf s" by (rule table_wf_cong) simp_all
  ultimately show ?thesis by (simp add: pass_rel_def tab_le_def)
qed

lemma pass_assemble_loop: "assemble_loop T inp s = Inr (u, s') \<Longrightarrow> pass_rel s s'"
proof (induction T inp s rule: assemble_loop.induct)
  case (1 T inp s)
  obtain finished raw inp' where rl: "readline INPUT_BUF_LEN inp = Inr (finished, raw, inp')"
    using "1.prems" by (auto simp: assemble_loop.simps [of T inp s] bindR_Inr)
  consider (stop) "s' = s" | (blank) "\<not> finished" "clean_line raw = []"
      "assemble_loop T inp' (s\<lparr>line_no := line_no s + 1\<rparr>) = Inr (u, s')"
    | (line) v t where "clean_line raw \<noteq> []" "assemble_line T (clean_line raw) s = Inr (v, t)"
      "assemble_loop T inp' (t\<lparr>line_no := line_no t + 1\<rparr>) = Inr (u, s')"
    using "1.prems" rl by (auto simp: assemble_loop.simps [of T inp s] Let_def bindR_Inr split: if_splits)
  then show ?case
  proof cases
    case stop
    then show ?thesis by (simp add: pass.eff_refl)
  next
    case blank
    have "pass_rel (s\<lparr>line_no := line_no s + 1\<rparr>) s'"
      by (rule "1.IH"(1) [OF rl refl refl refl]) (use blank in auto)
    then show ?thesis using pass_line_no pass.eff_trans by blast
  next
    case line
    have "pass_rel (t\<lparr>line_no := line_no t + 1\<rparr>) s'"
      by (rule "1.IH"(2) [OF rl refl refl refl]) (use line in auto)
    moreover have "pass_rel s t" using pass_assemble_line line(2) by (rule stepsD)
    ultimately show ?thesis using pass_line_no pass.eff_trans by blast
  qed
qed

section \<open>The output and its labels\<close>

lemma pass_assemble_pass:
  assumes "assemble_pass T file start st s = Inr (u, s')"
  shows "pass_rel (s\<lparr>stage := st, line_no := 0, current_loc := start\<rparr>) s'"
  using assms by (auto simp: assemble_pass_def run_simps dest: pass_assemble_loop)

text \<open>The state fields that starting a pass does not touch.\<close>

lemma start_pass_find [simp]:
  "find_symbol n (s\<lparr>line_no := k\<rparr>) = find_symbol n s"
  "table_wf (s\<lparr>line_no := k\<rparr>) = table_wf s"
  by (rule find_symbol_cong table_wf_cong; simp)+

lemma assemble_run:
  assumes "assemble T file start s = Inr (u, s')"
  obtains s1 s2 where "assemble_pass T file start 0 s = Inr ((), s1)"
    and "assemble_pass T file start 1 s1 = Inr ((), s2)" and "s' = s2\<lparr>stage := 2\<rparr>"
  using assms by (auto simp: assemble_def run_simps)

lemma pass0_state:
  assumes "table_wf s" and "assemble_pass T file start 0 s = Inr (u, s1)"
  shows "table_wf s1" "emitted s1 = emitted s" "tab_le s s1"
  using pass_assemble_pass [OF assms(2)] assms(1)
  by (auto simp: pass_rel_def tab_le_def)

lemma pass1_state:
  assumes "assemble_pass T file start 1 s1 = Inr (u, s2)"
  shows "table_wf s2 = table_wf s1" "find_symbol n s2 = find_symbol n s1"
    "\<exists>bs. emitted s2 = emitted s1 @ bs \<and> current_loc s2 = start + of_nat (length bs)"
  using pass_assemble_pass [OF assms] by (auto simp: pass_rel_def)

text \<open>C39: when assembling returns, the final location is the start address plus the number of
  bytes written, and the symbol table is well formed (distinct non-empty names within the
  limits).\<close>

theorem assemble_output_length:
  assumes "table_wf s" "emitted s = []" "assemble T file start s = Inr (u, s')"
  shows "current_loc s' = start + of_nat (length (emitted s')) \<and> table_wf s' \<and> stage s' = 2"
proof -
  obtain s1 s2 where p0: "assemble_pass T file start 0 s = Inr ((), s1)"
    and p1: "assemble_pass T file start 1 s1 = Inr ((), s2)" and s': "s' = s2\<lparr>stage := 2\<rparr>"
    using assemble_run [OF assms(3)] .
  from pass0_state [OF assms(1) p0] pass1_state [OF p1] assms(2) show ?thesis by (auto simp: s')
qed

text \<open>Reading stops at the first newline, whatever follows it.\<close>

lemma readline_loop_append:
  "CHR 0x0A \<in> set pre \<Longrightarrow> readline_loop len buf (pre @ rest) =
     bindR (readline_loop len buf pre) (\<lambda>(f, b, i). Inr (f, b, i @ rest)) \<and>
   (\<forall>f b i. readline_loop len buf pre = Inr (f, b, i) \<longrightarrow> \<not> f \<and> (i = [] \<or> last i = last pre))"
proof (induction len buf pre rule: readline_loop.induct)
  case (3 len buf c inp)
  then show ?case by (cases "inp = []") auto
qed auto

lemma readline_append:
  assumes "pre \<noteq> []" "last pre = CHR 0x0A"
  shows "readline len (pre @ rest) = bindR (readline len pre) (\<lambda>(f, b, i). Inr (f, b, i @ rest))"
    and "readline len pre = Inr (f, b, i) \<Longrightarrow> \<not> f \<and> (i = [] \<or> last i = CHR 0x0A)"
proof -
  have "CHR 0x0A \<in> set pre" using assms by (metis last_in_set)
  note app = readline_loop_append [OF this, of len "[]" rest]
  show "readline len (pre @ rest) = bindR (readline len pre) (\<lambda>(f, b, i). Inr (f, b, i @ rest))"
    unfolding readline_def app [THEN conjunct1] by (cases "readline_loop len [] pre") auto
  show "readline len pre = Inr (f, b, i) \<Longrightarrow> \<not> f \<and> (i = [] \<or> last i = CHR 0x0A)"
    using app [THEN conjunct2] assms(2) by (auto simp: readline_def bindR_Inr)
qed

text \<open>A file of whole lines can be assembled piece by piece.\<close>

lemma assemble_loop_Nil: "assemble_loop T [] s = Inr ((), s)"
proof -
  have "readline INPUT_BUF_LEN [] = Inr (True, [], [])"
    by (simp add: readline_def INPUT_BUF_LEN_def numeral_eq_Suc c_string_def)
  then show ?thesis
    by (simp add: assemble_loop.simps [of T "[]"] clean_line_def trim_def rstrip_def)
qed

lemma assemble_loop_append:
  "pre = [] \<or> last pre = CHR 0x0A \<Longrightarrow>
     assemble_loop T (pre @ rest) s = bindR (assemble_loop T pre s) (\<lambda>(_, t). assemble_loop T rest t)"
proof (induction T pre s rule: assemble_loop.induct)
  case (1 T pre s)
  show ?case
  proof (cases "pre = []")
    case True
    then show ?thesis by (simp add: assemble_loop_Nil)
  next
    case False
    with "1.prems" have nl: "last pre = CHR 0x0A" by simp
    note rl = readline_append [OF False nl, of INPUT_BUF_LEN]
    show ?thesis
    proof (cases "readline INPUT_BUF_LEN pre")
      case (Inl e)
      then show ?thesis by (simp add: assemble_loop.simps [of T "pre @ rest"] assemble_loop.simps [of T pre] rl(1))
    next
      case (Inr r)
      obtain f b i where r: "r = (f, b, i)" by (cases r)
      with Inr rl(2) have f: "\<not> f" and i: "i = [] \<or> last i = CHR 0x0A" by auto
      note ih = "1.IH" [OF Inr [unfolded r] refl refl refl]
      show ?thesis
        using ih(1) [OF _ _ i] ih(2) [OF _ _ _ _ i] f Inr r
        by (auto simp: assemble_loop.simps [of T "pre @ rest"] assemble_loop.simps [of T pre] rl(1)
            Let_def bindR_def split: sum.splits prod.splits)
    qed
  qed
qed

text \<open>One line of the input at a time.\<close>

lemma readline_loop_line:
  "CHR 0x0A \<notin> set line \<Longrightarrow> readline_loop len buf (line @ CHR 0x0A # post) =
     (if length line < len then Inr (False, buf @ line, post) else Inl Panic)"
  by (induction len buf line rule: readline_loop.induct) (auto simp: less_Suc_eq_0_disj gr0_conv_Suc)

lemma readline_line:
  "CHR 0x0A \<notin> set line \<Longrightarrow> readline len (line @ CHR 0x0A # post) =
     (if length line < len then Inr (False, c_string line, post) else Inl Panic)"
  by (simp add: readline_def readline_loop_line)

lemma assemble_loop_line:
  assumes "CHR 0x0A \<notin> set line" "clean_line (c_string line) = l" "l \<noteq> []"
  shows "assemble_loop T (line @ CHR 0x0A # post) s = Inr (u, s') \<longleftrightarrow>
    length line < INPUT_BUF_LEN \<and> (\<exists>v t. assemble_line T l s = Inr (v, t) \<and>
      assemble_loop T post (t\<lparr>line_no := line_no t + 1\<rparr>) = Inr (u, s'))"
  using assms(2,3)
  by (auto simp: assemble_loop.simps [of T "line @ CHR 0x0A # post"] readline_line [OF assms(1)] bindR_Inr Let_def)

text \<open>The run of the second pass around one line of the file: \<open>t\<close> is the state before the line
  and \<open>t'\<close> the state after it.\<close>

lemma assemble_around_line:
  assumes wf: "table_wf s" and e: "emitted s = []"
    and run: "assemble T (pre @ line @ CHR 0x0A # post) start s = Inr (u, s')"
    and pre: "pre = [] \<or> last pre = CHR 0x0A"
    and line: "CHR 0x0A \<notin> set line" "clean_line (c_string line) = l" "l \<noteq> []"
  obtains s1 t v t' cs where "assemble_pass T pre start 1 s1 = Inr ((), t)"
    and "assemble_line T l t = Inr (v, t')" and "anchored start t" and "anchored start t'"
    and "emitted s' = emitted t' @ cs" and "\<And>n. find_symbol n t = find_symbol n s'"
proof -
  obtain s1 s2 where p0: "assemble_pass T (pre @ line @ CHR 0x0A # post) start 0 s = Inr ((), s1)"
    and p1: "assemble_pass T (pre @ line @ CHR 0x0A # post) start 1 s1 = Inr ((), s2)"
    and s': "s' = s2\<lparr>stage := 2\<rparr>"
    using assemble_run [OF run] .
  let ?s = "s1\<lparr>stage := 1, line_no := 0, current_loc := start\<rparr>"
  obtain t where pass: "assemble_loop T pre ?s = Inr ((), t)"
    and rest: "assemble_loop T (line @ CHR 0x0A # post) t = Inr ((), s2)"
    using p1 by (auto simp: assemble_pass_def run_simps assemble_loop_append [OF pre] bindR_Inr)
  obtain v t' where one: "assemble_line T l t = Inr (v, t')"
    and tail: "assemble_loop T post (t'\<lparr>line_no := line_no t' + 1\<rparr>) = Inr ((), s2)"
    using rest unfolding assemble_loop_line [OF line] by blast
  have e1: "emitted s1 = []" using pass0_state [OF wf p0] e by simp
  have a0: "anchored start ?s" by (simp add: anchored_def e1)
  have r1: "pass_rel ?s t" using pass by (rule pass_assemble_loop)
  have r2: "pass_rel t t'" using pass_assemble_line one by (rule stepsD)
  have r3: "pass_rel t' s2" using pass_line_no pass_assemble_loop [OF tail] by (rule pass.eff_trans)
  have at: "anchored start t" using r1 a0 by (rule pass_anchored)
  have at': "anchored start t'" using r2 at by (rule pass_anchored)
  have "find_symbol n t = find_symbol n s'" for n
    using pass_find [OF pass.eff_trans [OF r2 r3], of n] at by (simp add: s' anchored_def)
  moreover obtain cs where "emitted s' = emitted t' @ cs"
    using r3 at' by (auto simp: pass_rel_def anchored_def s')
  moreover have "assemble_pass T pre start 1 s1 = Inr ((), t)"
    using pass by (simp add: assemble_pass_def thenM_def bindM_def)
  ultimately show ?thesis using that one at at' by blast
qed

text \<open>C5: labels are addresses. When a file assembles and one of its lines is \<open>name:\<close>, the
  final symbol table binds \<open>name\<close> to the start address plus the number of bytes that the lines
  before it produce, and those bytes are the beginning of the output.\<close>

theorem assemble_label:
  assumes "table_wf s" "emitted s = []"
    and "assemble T (pre @ line @ CHR 0x0A # post) start s = Inr (u, s')"
    and "pre = [] \<or> last pre = CHR 0x0A"
    and "CHR 0x0A \<notin> set line" "clean_line (c_string line) = name @ '':''"
  shows "\<exists>s1 t cs. assemble_pass T pre start 1 s1 = Inr ((), t) \<and> emitted s' = emitted t @ cs \<and>
    find_symbol name s' = Some (start + of_nat (length (emitted t)), - 1)"
proof -
  have ne: "name @ '':'' \<noteq> []" by simp
  obtain s1 t v t' cs where p: "assemble_pass T pre start 1 s1 = Inr ((), t)"
    and l: "assemble_line T (name @ '':'') t = Inr (v, t')" and a: "anchored start t"
    and e: "emitted s' = emitted t' @ cs" and f: "\<And>n. find_symbol n t = find_symbol n s'"
    using assemble_around_line [OF assms ne] by metis
  from l a have "find_symbol name t = Some (current_loc t, - 1)" and "t' = t"
    by (auto simp: assemble_line_def bindM_def anchored_def add_symbol_wrapper_stage1 nth_append)
  with p e f a show ?thesis by (metis anchored_def)
qed

section \<open>Jumps in the output\<close>

definition other_keywords :: "string list" where
  "other_keywords = [''section'', ''global'', ''align'', ''extern'', ''resb'', ''resd'']"

lemma trim_plain: "\<forall>c \<in> set s. \<not> is_blank c \<Longrightarrow> trim s = s"
proof -
  assume plain: "\<forall>c \<in> set s. \<not> is_blank c"
  have "dropWhile is_blank s = s" "dropWhile is_blank (rev s) = rev s"
    using plain by (auto simp: dropWhile_eq_self_iff hd_rev)
  then show "trim s = s" by (simp add: trim_def rstrip_def)
qed

lemma process_line_text:
  assumes "CHR '' '' \<notin> set op" "op \<notin> set other_keywords" "dispatches T i op h" "trim data = data"
    and "data \<noteq> []"
  shows "process_line T (op @ CHR '' '' # data) s = thenM (call_handler T h i data) (retM ()) s"
  using assms
  by (simp add: process_line_def other_keywords_def process_directive_line_def process_bss_line_def
      unless_def writes_literal_def process_text_line_dispatch bindM_def [of "process_text_line T op data"])
    (auto simp: thenM_def bindM_def split: sum.splits)

lemma assemble_line_text:
  assumes "CHR '' '' \<notin> set op" "op \<notin> set other_keywords" "dispatches T i op h" "trim data = data"
    and "data \<noteq> []" "last data \<noteq> CHR '':''"
  shows "assemble_line T (op @ CHR '' '' # data) s = thenM (call_handler T h i data) (retM ()) s"
proof -
  have "(op @ CHR '' '' # data) ! (length (op @ CHR '' '' # data) - 1) = last data"
    using assms(5) by (simp add: nth_append last_conv_nth nth_Cons')
  then show ?thesis
    using assms(6) by (simp add: assemble_line_def process_line_text [OF assms(1-5)])
qed

text \<open>C4: jumps reach their labels. When a file assembles and one of its lines is a jump-like
  instruction on a symbol, the output is the bytes of the lines before it, the opcode bytes, four
  displacement bytes and the rest; and the displacement, added to the address just after the
  instruction, is the address the final symbol table has for the symbol, whether the symbol is
  defined before or after the jump.\<close>

theorem assemble_jump:
  assumes "table_wf s" "emitted s = []"
    and "assemble T (pre @ line @ CHR 0x0A # post) start s = Inr (u, s')"
    and "pre = [] \<or> last pre = CHR 0x0A"
    and "CHR 0x0A \<notin> set line" "clean_line (c_string line) = op @ CHR '' '' # name"
    and "dispatches T i op ProcessJmpLike" "CHR '' '' \<notin> set op" "op \<notin> set other_keywords"
    and "plain_symbol name" "last name \<noteq> CHR '':''"
  shows "\<exists>s1 t rel rest l a. assemble_pass T pre start 1 s1 = Inr ((), t) \<and>
    emitted s' = emitted t @ opcode_bytes (imm32_opcode T ! i) @ bytes32 rel @ rest \<and>
    find_symbol name s' = Some (l, a) \<and>
    start + of_nat (length (emitted t @ opcode_bytes (imm32_opcode T ! i)) + 4) + rel = l"
proof -
  have ne: "op @ CHR '' '' # name \<noteq> []" by simp
  obtain s1 t v t' cs where p: "assemble_pass T pre start 1 s1 = Inr ((), t)"
    and l: "assemble_line T (op @ CHR '' '' # name) t = Inr (v, t')" and a: "anchored start t"
    and e: "emitted s' = emitted t' @ cs" and f: "\<And>n. find_symbol n t = find_symbol n s'"
    using assemble_around_line [OF assms(1-6) ne] by metis
  have name: "trim name = name" "name \<noteq> []"
    using assms(10) by (simp_all add: plain_symbol_def trim_plain)
  have run: "process_jmp_like T i name t = Inr ((), t')"
    using l unfolding assemble_line_text [OF assms(8,9,7) name assms(11)] by (auto simp: thenM_run)
  have st: "stage t = 1" using a by (simp add: anchored_def)
  obtain lo ar rel where sym: "find_symbol name t = Some (lo, ar)"
    and t': "t' = emit_all (opcode_bytes (imm32_opcode T ! i) @ bytes32 rel) t"
    and target: "current_loc t' + rel = lo"
    using process_jmp_like_symbol [OF assms(10) st run] by blast
  have loc: "current_loc t' = start + of_nat (length (emitted t @ opcode_bytes (imm32_opcode T ! i)) + 4)"
    using a by (simp add: t' anchored_def)
  have "emitted s' = emitted t @ opcode_bytes (imm32_opcode T ! i) @ bytes32 rel @ cs"
    using e st by (simp add: t')
  with p sym target loc f show ?thesis by metis
qed

section \<open>A small program\<close>

definition jump_tables :: optab where
  "jump_tables = example_tables\<lparr>opcode_names := [''jmp'', []], opcode_funcs := [ProcessJmpLike],
     imm32_opcode := [0xe9]\<rparr>"

definition jump_file :: string where
  "jump_file = ''db 7'' @ [CHR 0x0A] @ ''jmp b'' @ [CHR 0x0A] @ ''b: ; here'' @ [CHR 0x0A]"

lemma jump_file_run:
  "\<exists>s'. assemble jump_tables jump_file 0 empty_asm = Inr ((), s') \<and>
     emitted s' = [7, 0xe9, 0, 0, 0, 0] \<and> find_symbol ''b'' s' = Some (6, - 1)"
proof -
  have "case assemble jump_tables jump_file 0 empty_asm of Inl e \<Rightarrow> False
    | Inr ((), s') \<Rightarrow> emitted s' = [7, 0xe9, 0, 0, 0, 0] \<and> find_symbol ''b'' s' = Some (6, - 1)"
    by code_simp
  then show ?thesis by (auto split: sum.splits prod.splits unit.splits)
qed

lemma empty_asm_wf: "table_wf empty_asm" "emitted empty_asm = []"
  by (simp_all add: table_wf_def empty_asm_def SYMBOL_TABLE_LEN_def)

theorem assemble_output_length_witness:
  "\<exists>s'. assemble jump_tables jump_file 0 empty_asm = Inr ((), s') \<and> emitted s' = [7, 0xe9, 0, 0, 0, 0] \<and>
     current_loc s' = 6 \<and> table_wf s' \<and> stage s' = 2"
proof -
  obtain s' where run: "assemble jump_tables jump_file 0 empty_asm = Inr ((), s')"
    and e: "emitted s' = [7, 0xe9, 0, 0, 0, 0]"
    using jump_file_run by blast
  from assemble_output_length [OF empty_asm_wf run] e have "current_loc s' = 6 \<and> table_wf s' \<and> stage s' = 2" by simp
  with run e show ?thesis by blast
qed

lemma jump_file_label:
  "jump_file = (''db 7'' @ [CHR 0x0A] @ ''jmp b'' @ [CHR 0x0A]) @ ''b: ; here'' @ CHR 0x0A # []"
  by (simp add: jump_file_def)

theorem assemble_label_witness:
  "\<exists>s' t cs. assemble jump_tables jump_file 0 empty_asm = Inr ((), s') \<and> emitted s' = emitted (t :: asm_state) @ cs \<and>
     find_symbol ''b'' s' = Some (0 + of_nat (length (emitted t)), - 1)"
proof -
  obtain s' where run: "assemble jump_tables jump_file 0 empty_asm = Inr ((), s')"
    using jump_file_run by blast
  have line: "CHR 0x0A \<notin> set ''b: ; here''" "clean_line (c_string ''b: ; here'') = ''b'' @ '':''"
    by (simp_all add: clean_line_def c_string_def trim_def rstrip_def is_blank_def)
  from assemble_label [OF empty_asm_wf run [unfolded jump_file_label] _ line] run show ?thesis by auto
qed

lemma jump_file_jump:
  "jump_file = (''db 7'' @ [CHR 0x0A]) @ ''jmp b'' @ CHR 0x0A # ''b: ; here'' @ [CHR 0x0A]"
  by (simp add: jump_file_def)

theorem assemble_jump_witness:
  "\<exists>s' (t :: asm_state) rel rest l a. assemble jump_tables jump_file 0 empty_asm = Inr ((), s') \<and>
     emitted s' = emitted t @ [0xe9] @ bytes32 rel @ rest \<and> find_symbol ''b'' s' = Some (l, a) \<and>
     0 + of_nat (length (emitted t @ [0xe9]) + 4) + rel = l"
proof -
  obtain s' where run: "assemble jump_tables jump_file 0 empty_asm = Inr ((), s')"
    using jump_file_run by blast
  have line: "CHR 0x0A \<notin> set ''jmp b''" "clean_line (c_string ''jmp b'') = ''jmp'' @ CHR '' '' # ''b''"
    by (simp_all add: clean_line_def c_string_def trim_def rstrip_def is_blank_def)
  have d: "dispatches jump_tables 0 ''jmp'' ProcessJmpLike"
    by (simp add: dispatches_def jump_tables_def)
  have op: "CHR '' '' \<notin> set ''jmp''" "''jmp'' \<notin> set other_keywords" "last ''b'' \<noteq> CHR '':''"
    by (simp_all add: other_keywords_def)
  have b: "plain_symbol ''b''"
    by (simp add: plain_symbol_def is_blank_def decode_reg32_def decode_reg8_def decode_number_def Let_def schar_def uchar_def)
  have od: "opcode_bytes (imm32_opcode jump_tables ! 0) = [0xe9]"
    by (simp add: jump_tables_def opcode_bytes_def)
  from assemble_jump [OF empty_asm_wf run [unfolded jump_file_jump] _ line d op(1,2) b op(3)] run show ?thesis
    unfolding od by auto
qed

end
