(* ===== verification/GLexer.thy ===== *)
theory GLexer
  imports Operands
begin

text \<open>
  The lexer of the prototype G compiler (\<open>attic/gstaging.c\<close>) and its state.

  The token buffer and the variable stack are C arrays of fixed size; the token buffer is the
  string it holds, and a write past its end is \<open>Undef\<close> (\<open>get_token2\<close> does not check). The input
  is the rest of the file. Labels are counted by a natural number.
\<close>

record g_state = core +
  label_num :: nat
  stack_vars :: "nat \<Rightarrow> string"
  block_depth :: nat
  stack_depth :: nat
  temp_depth :: nat
  token_given_back :: bool
  token_buf :: string
  input :: string

definition MAX_TOKEN_LEN :: nat where "MAX_TOKEN_LEN = 128"
definition STACK_LEN :: nat where "STACK_LEN = 1024"

section \<open>Tokens\<close>

definition is_whitespace :: "char \<Rightarrow> bool" where
  "is_whitespace x \<longleftrightarrow> x = CHR '' '' \<or> x = CHR 0x09 \<or> x = CHR 0x0A"

text \<open>The end of the token: the NUL is written after the saved characters.\<close>

definition end_token :: "string \<Rightarrow> string \<Rightarrow> err + (string \<times> string)" where
  "end_token tok inp = (if length tok < MAX_TOKEN_LEN then Inr (c_string tok, inp) else Inl Undef)"

text \<open>
  States: 0 plain, 1 comment, 2 string, 3 escape in a string, 4 character, 5 escape in a
  character.
\<close>

definition next_state :: "nat \<Rightarrow> char \<Rightarrow> nat" where
  "next_state state x =
     (if state = 0 then (if x = CHR 0x22 then 2 else if x = CHR 0x27 then 4 else 0)
      else if state = 2 then (if x = CHR 0x22 then 0 else if x = CHR 0x5C then 3 else 2)
      else if state = 3 then 2
      else if state = 4 then (if x = CHR 0x27 then 0 else if x = CHR 0x5C then 5 else 4)
      else 4)"

text \<open>A character that is neither white space nor in a comment is saved.\<close>

fun token_loop :: "nat \<Rightarrow> string \<Rightarrow> string \<Rightarrow> err + (string \<times> string)" where
  "token_loop state tok [] = end_token tok []"
| "token_loop state tok (x # inp) =
     (if state = 0 \<and> is_whitespace x then
        (if length tok > 0 then end_token tok inp else token_loop 0 tok inp)
      else if state = 0 \<and> x = CHR ''#'' then token_loop 1 tok inp
      else if state = 1 then
        (if x = CHR 0x0A then (if length tok > 0 then end_token tok inp else token_loop 0 tok inp)
         else token_loop 1 tok inp)
      else if state > 5 then Inl Panic
      else if length tok < MAX_TOKEN_LEN then token_loop (next_state state x) (tok @ [x]) inp
      else Inl Undef)"

definition get_token :: "(g_state, string) M" where
  "get_token s =
     (if token_given_back s then Inr (token_buf s, s\<lparr>token_given_back := False\<rparr>)
      else bindR (token_loop 0 [] (input s)) (\<lambda>(tok, inp).
        Inr (tok, s\<lparr>token_buf := tok, input := inp\<rparr>)))"

definition give_back_token :: "(g_state, unit) M" where
  "give_back_token =
     bindM (getM token_given_back) (\<lambda>b.
     thenM (assertM (\<not> b)) (modM (\<lambda>s. s\<lparr>token_given_back := True\<rparr>)))"

section \<open>Escapes and literals\<close>

definition escaped :: "char \<Rightarrow> char" where
  "escaped x =
     (if x = CHR ''n'' then CHR 0x0A else if x = CHR ''t'' then CHR 0x09 else if x = CHR ''0'' then NUL
      else if x = CHR 0x5C then CHR 0x5C else if x = CHR 0x27 then CHR 0x27
      else if x = CHR 0x22 then CHR 0x22 else NUL)"

fun escaped_string_loop :: "string \<Rightarrow> ('a core_scheme, unit) M" where
  "escaped_string_loop [] = failM Panic"
| "escaped_string_loop (c # s) =
     (if c = CHR 0x22 then assertM (s = [])
      else if c = CHR 0x5C then
        (case s of [] \<Rightarrow> failM Panic
         | d # s' \<Rightarrow> thenM (emit (char_byte (escaped d))) (escaped_string_loop s'))
      else thenM (emit (char_byte c)) (escaped_string_loop s))"

definition emit_escaped_string :: "string \<Rightarrow> ('a core_scheme, unit) M" where
  "emit_escaped_string s =
     (case s of [] \<Rightarrow> failM Panic
      | c # s \<Rightarrow> thenM (assertM (c = CHR 0x22)) (escaped_string_loop s))"

text \<open>Reading a string at an index: its NUL may be read, what lies behind it is stale memory.\<close>

definition char_at :: "string \<Rightarrow> nat \<Rightarrow> err + char" where
  "char_at s i = (if i < length s then Inr (s ! i) else if i = length s then Inr NUL else Inl Undef)"

definition decode_number_or_char :: "string \<Rightarrow> err + (bool \<times> i32)" where
  "decode_number_or_char operand =
     bindR (char_at operand 0) (\<lambda>c0.
     if c0 = CHR 0x27 then
       bindR (char_at operand 1) (\<lambda>c1.
       if c1 = CHR 0x5C then
         bindR (char_at operand 2) (\<lambda>c2.
         bindR (char_at operand 3) (\<lambda>c3. bindR (assertR (c3 = CHR 0x27)) (\<lambda>_.
         bindR (char_at operand 4) (\<lambda>c4. bindR (assertR (c4 = NUL)) (\<lambda>_.
         Inr (True, word_of_int (schar (escaped c2))))))))
       else
         bindR (char_at operand 2) (\<lambda>c2. bindR (assertR (c2 = CHR 0x27)) (\<lambda>_.
         bindR (char_at operand 3) (\<lambda>c3. bindR (assertR (c3 = NUL)) (\<lambda>_.
         Inr (True, word_of_int (schar c1)))))))
     else Inr (decode_number operand))"

section \<open>What the lexer reads\<close>

text \<open>The written form of tokens, without the automaton: plain characters and quoted parts, where
  a backslash protects the next character; between tokens white space and comments.\<close>

fun body_ok :: "char \<Rightarrow> string \<Rightarrow> bool" where
  "body_ok q [] = True"
| "body_ok q [c] = (c \<noteq> q \<and> c \<noteq> CHR 0x5C)"
| "body_ok q (c # d # s) = (if c = CHR 0x5C then body_ok q s else c \<noteq> q \<and> body_ok q (d # s))"

definition plain_char :: "char \<Rightarrow> bool" where
  "plain_char c \<longleftrightarrow> \<not> is_whitespace c \<and> c \<noteq> CHR ''#'' \<and> c \<noteq> CHR 0x22 \<and> c \<noteq> CHR 0x27"

inductive token_text :: "string \<Rightarrow> bool" where
  text_nil: "token_text []"
| text_char: "plain_char c \<Longrightarrow> token_text t \<Longrightarrow> token_text (c # t)"
| text_quoted: "q = CHR 0x22 \<or> q = CHR 0x27 \<Longrightarrow> body_ok q b \<Longrightarrow> token_text t \<Longrightarrow> token_text (q # b @ q # t)"

inductive gap :: "string \<Rightarrow> bool" where
  gap_nil: "gap []"
| gap_white: "is_whitespace c \<Longrightarrow> gap g \<Longrightarrow> gap (c # g)"
| gap_comment: "CHR 0x0A \<notin> set c \<Longrightarrow> gap g \<Longrightarrow> gap (CHR ''#'' # c @ CHR 0x0A # g)"

definition separator :: "string \<Rightarrow> bool" where
  "separator z \<longleftrightarrow> (\<exists>c. is_whitespace c \<and> z = [c]) \<or>
     (\<exists>c. CHR 0x0A \<notin> set c \<and> z = CHR ''#'' # c @ [CHR 0x0A])"

definition spelled :: "string \<times> string \<times> string \<Rightarrow> bool" where
  "spelled = (\<lambda>(g, t, z). gap g \<and> token_text t \<and> t \<noteq> [] \<and> NUL \<notin> set t \<and> length t < MAX_TOKEN_LEN \<and> separator z)"

lemma loop_comment:
  "CHR 0x0A \<notin> set c \<Longrightarrow> token_loop (Suc 0) tok (c @ CHR 0x0A # r) =
     (if length tok > 0 then end_token tok r else token_loop 0 tok r)"
  by (induction c) auto

lemma loop_gap: "gap g \<Longrightarrow> token_loop 0 [] (g @ r) = token_loop 0 [] r"
  by (induction rule: gap.induct) (auto simp: is_whitespace_def loop_comment)

text \<open>Inside quotes every character is saved.\<close>

definition quote_state :: "char \<Rightarrow> nat" where
  "quote_state q = (if q = CHR 0x22 then 2 else 4)"

lemma next_quoted:
  assumes "q = CHR 0x22 \<or> q = CHR 0x27"
  shows "next_state (quote_state q) q = 0"
    "c \<noteq> q \<Longrightarrow> c \<noteq> CHR 0x5C \<Longrightarrow> next_state (quote_state q) c = quote_state q"
    "next_state (next_state (quote_state q) (CHR 0x5C)) c = quote_state q"
    "quote_state q \<noteq> 0" "quote_state q \<noteq> 1" "quote_state q \<le> 5"
    "next_state (quote_state q) (CHR 0x5C) \<noteq> 0" "next_state (quote_state q) (CHR 0x5C) \<noteq> 1"
    "next_state (quote_state q) (CHR 0x5C) \<le> 5"
  using assms by (auto simp: quote_state_def next_state_def)

lemma loop_save:
  "state \<noteq> 0 \<Longrightarrow> state \<noteq> 1 \<Longrightarrow> state \<le> 5 \<Longrightarrow> length tok < MAX_TOKEN_LEN \<Longrightarrow>
     token_loop state tok (x # r) = token_loop (next_state state x) (tok @ [x]) r"
  by simp

lemma loop_body:
  assumes "body_ok q b" "q = CHR 0x22 \<or> q = CHR 0x27" "length tok + length b < MAX_TOKEN_LEN"
  shows "token_loop (quote_state q) tok (b @ q # r) = token_loop 0 (tok @ b @ [q]) r"
  using assms
proof (induction q b arbitrary: tok rule: body_ok.induct)
  case (1 q)
  then show ?case
    using loop_save [of "quote_state q" tok q r] next_quoted [OF "1.prems"(2)] by (simp del: token_loop.simps)
next
  case (2 q c)
  then show ?case
    using loop_save [of "quote_state q" tok c "q # r"] loop_save [of "quote_state q" "tok @ [c]" q r]
      next_quoted [OF "2.prems"(2)] by (simp del: token_loop.simps)
next
  case (3 q c d s)
  note n = next_quoted [OF "3.prems"(2)]
  show ?case
  proof (cases "c = CHR 0x5C")
    case True
    have "token_loop (quote_state q) tok ((c # d # s) @ q # r) = token_loop (quote_state q) (tok @ [c, d]) (s @ q # r)"
      using "3.prems"(3) True n loop_save [of "quote_state q" tok c "d # s @ q # r"]
        loop_save [of "next_state (quote_state q) (CHR 0x5C)" "tok @ [c]" d "s @ q # r"]
      by (simp del: token_loop.simps)
    also have "\<dots> = token_loop 0 ((tok @ [c, d]) @ s @ [q]) r"
      by (rule "3.IH"(1)) (use "3.prems" True in simp_all)
    finally show ?thesis by simp
  next
    case False
    have "token_loop (quote_state q) tok ((c # d # s) @ q # r) = token_loop (quote_state q) (tok @ [c]) ((d # s) @ q # r)"
      using "3.prems" False n loop_save [of "quote_state q" tok c "d # s @ q # r"]
      by (simp del: token_loop.simps)
    also have "\<dots> = token_loop 0 ((tok @ [c]) @ (d # s) @ [q]) r"
      by (rule "3.IH"(2)) (use "3.prems" False in simp_all)
    finally show ?thesis by simp
  qed
qed

lemma loop_text:
  "token_text t \<Longrightarrow> length tok + length t \<le> MAX_TOKEN_LEN \<Longrightarrow> token_loop 0 tok (t @ r) = token_loop 0 (tok @ t) r"
proof (induction arbitrary: tok rule: token_text.induct)
  case (text_char c t)
  have "token_loop 0 tok ((c # t) @ r) = token_loop 0 (tok @ [c]) (t @ r)"
    using text_char by (simp add: plain_char_def next_state_def)
  with text_char.IH [of "tok @ [c]"] text_char.prems show ?case by simp
next
  case (text_quoted q b t)
  have q: "\<not> is_whitespace q" "q \<noteq> CHR ''#''" using text_quoted.hyps by (auto simp: is_whitespace_def)
  have "token_loop 0 tok ((q # b @ q # t) @ r) = token_loop (quote_state q) (tok @ [q]) (b @ q # t @ r)"
    using text_quoted.hyps(1) text_quoted.prems q by (auto simp: next_state_def quote_state_def)
  also have "\<dots> = token_loop 0 ((tok @ [q]) @ b @ [q]) (t @ r)"
    by (rule loop_body) (use text_quoted in auto)
  also have "\<dots> = token_loop 0 (((tok @ [q]) @ b @ [q]) @ t) r"
    by (rule text_quoted.IH) (use text_quoted.prems in simp)
  finally show ?case by simp
qed simp

lemma loop_separator:
  assumes "separator z" "tok \<noteq> []"
  shows "token_loop 0 tok (z @ r) = end_token tok r"
  using assms by (auto simp: separator_def is_whitespace_def loop_comment)

lemma get_token_spelled:
  assumes "\<not> token_given_back s" "spelled (g, t, z)" "input s = g @ t @ z @ rest"
  shows "get_token s = Inr (t, s\<lparr>token_buf := t, input := rest\<rparr>)"
proof -
  have "token_loop 0 [] (input s) = end_token t rest"
    using assms(2) by (simp add: assms(3) spelled_def loop_gap loop_text loop_separator)
  moreover have "c_string t = t" using assms(2) by (simp add: spelled_def c_string_id)
  ultimately show ?thesis using assms(1,2) by (simp add: get_token_def end_token_def spelled_def)
qed

text \<open>Reading several tokens, as the parser does one by one.\<close>

primrec get_tokens :: "nat \<Rightarrow> (g_state, string list) M" where
  "get_tokens 0 = retM []"
| "get_tokens (Suc n) = bindM get_token (\<lambda>t. bindM (get_tokens n) (\<lambda>ts. retM (t # ts)))"

text \<open>C11: the lexer reads back what was written. For any list of tokens, each of them plain
  characters and quoted parts (with escaped characters) that fit the token buffer, written with
  any white space and comments before them and a blank or a comment after them, calling
  \<open>get_token2\<close> once for each returns exactly these tokens and leaves the rest of the input
  untouched.\<close>

theorem get_tokens_spelled:
  assumes "\<not> token_given_back s" "\<forall>x \<in> set xs. spelled x"
    and "input s = concat (map (\<lambda>(g, t, z). g @ t @ z) xs) @ rest"
  shows "\<exists>s'. get_tokens (length xs) s = Inr (map (fst \<circ> snd) xs, s') \<and> input s' = rest \<and> \<not> token_given_back s'"
  using assms
proof (induction xs arbitrary: s)
  case (Cons x xs)
  obtain g t z where x: "x = (g, t, z)" by (cases x)
  let ?r = "concat (map (\<lambda>(g, t, z). g @ t @ z) xs) @ rest"
  have "get_token s = Inr (t, s\<lparr>token_buf := t, input := ?r\<rparr>)"
    by (rule get_token_spelled) (use Cons.prems x in auto)
  moreover obtain s' where "get_tokens (length xs) (s\<lparr>token_buf := t, input := ?r\<rparr>) = Inr (map (fst \<circ> snd) xs, s')"
    "input s' = rest" "\<not> token_given_back s'"
    using Cons.IH [of "s\<lparr>token_buf := t, input := ?r\<rparr>"] Cons.prems by auto
  ultimately show ?case by (simp add: bindM_def x)
qed simp

text \<open>Static memory is zero.\<close>

definition empty_g :: g_state where
  "empty_g = \<lparr>symbol_num = 0, symbol_names = \<lambda>_. [], symbol_locs = \<lambda>_. 0, symbol_arities = \<lambda>_. 0,
     stage = 0, current_loc = 0, emitted = [], label_num = 0, stack_vars = \<lambda>_. [], block_depth = 0,
     stack_depth = 0, temp_depth = 0, token_given_back = False, token_buf = [], input = []\<rparr>"

theorem get_tokens_spelled_witness:
  "\<exists>s'. get_tokens 2 (empty_g\<lparr>input := '' fun # x'' @ [CHR 0x0A] @ [CHR 0x22] @ ''a b'' @ [CHR 0x22, CHR 0x0A, CHR ''}'']\<rparr>)
     = Inr ([''fun'', [CHR 0x22] @ ''a b'' @ [CHR 0x22]], s') \<and> input s' = ''}''"
proof -
  let ?q = "[CHR 0x22] @ ''a b'' @ [CHR 0x22]"
  let ?l = "[('' '', ''fun'', '' ''), (''# x'' @ [CHR 0x0A], ?q, [CHR 0x0A])]"
  have w: "is_whitespace CHR '' ''" "is_whitespace CHR 0x0A" by (simp_all add: is_whitespace_def)
  have "gap '' ''" by (intro gap.intros w)
  moreover have "gap (CHR ''#'' # '' x'' @ CHR 0x0A # [])" by (intro gap.intros) simp
  moreover have "token_text ''fun''"
    by (intro token_text.intros) (simp_all add: plain_char_def is_whitespace_def)
  moreover have "token_text (CHR 0x22 # ''a b'' @ CHR 0x22 # [])"
    by (intro text_quoted text_nil) simp_all
  moreover have "separator '' ''" "separator [CHR 0x0A]" using w by (auto simp: separator_def)
  ultimately have "\<forall>x \<in> set ?l. spelled x" by (simp add: spelled_def MAX_TOKEN_LEN_def)
  moreover have "input (empty_g\<lparr>input := '' fun # x'' @ [CHR 0x0A] @ ?q @ [CHR 0x0A, CHR ''}'']\<rparr>) =
      concat (map (\<lambda>(g, t, z). g @ t @ z) ?l) @ ''}''"
    by simp
  moreover have "\<not> token_given_back (empty_g\<lparr>input := '' fun # x'' @ [CHR 0x0A] @ ?q @ [CHR 0x0A, CHR ''}'']\<rparr>)"
    by (simp add: empty_g_def)
  ultimately obtain s' where "get_tokens (length ?l)
      (empty_g\<lparr>input := '' fun # x'' @ [CHR 0x0A] @ ?q @ [CHR 0x0A, CHR ''}'']\<rparr>) = Inr (map (fst \<circ> snd) ?l, s')"
    "input s' = ''}''"
    using get_tokens_spelled [of _ ?l "''}''"] by blast
  then show ?thesis by (simp add: numeral_2_eq_2)
qed

section \<open>String literals\<close>

text \<open>How a programmer writes a character in a literal.\<close>

definition quote_char :: "char \<Rightarrow> string" where
  "quote_char c =
     (if c = CHR 0x0A then [CHR 0x5C, CHR ''n''] else if c = CHR 0x09 then [CHR 0x5C, CHR ''t'']
      else if c = NUL then [CHR 0x5C, CHR ''0''] else if c = CHR 0x5C \<or> c = CHR 0x27 \<or> c = CHR 0x22 then [CHR 0x5C, c]
      else [c])"

lemma escaped_string_loop_quote:
  "escaped_string_loop (quote_char c @ t) s =
     thenM (emit (char_byte c)) (escaped_string_loop t) s"
  by (simp add: quote_char_def escaped_def)

text \<open>C12: a string literal denotes its characters. The literal written for a list of characters,
  with the special ones (quotes, backslash, newline, tabulator, NUL) escaped, is compiled to
  exactly these characters, in order, in either pass.\<close>

theorem emit_escaped_string_quote:
  "emit_escaped_string ([CHR 0x22] @ concat (map quote_char cs) @ [CHR 0x22]) s =
     Inr ((), emit_all (map char_byte cs) s)"
proof -
  have "escaped_string_loop (concat (map quote_char cs) @ [CHR 0x22]) s = Inr ((), emit_all (map char_byte cs) s)" for s :: "'a core_scheme"
    by (induction cs arbitrary: s)
      (simp_all add: escaped_string_loop_quote thenM_def bindM_def emit_is_emit_all emit_all_append)
  then show ?thesis by (simp add: emit_escaped_string_def thenM_def bindM_def)
qed

end
