(* ===== verification/GCompiler.thy ===== *)
theory GCompiler
  imports GLexer
begin

text \<open>
  The prototype G compiler, \<open>attic/gstaging.c\<close>: the compile-time variable stack, expressions,
  statements, blocks and declarations, and the two passes of \<open>compile2\<close>.

  A block may contain blocks, and a block or an expression goes on until a token closes it: the
  loops take a number of steps, \<open>compile\<close> supplies one for each character of the file and some
  more, and \<open>compile_enough\<close> shows that it never runs out.
\<close>

definition TEMP_VAR :: string where "TEMP_VAR = ''__temp''"

section \<open>Emitting\<close>

definition emit_str :: "byte list \<Rightarrow> ('a core_scheme, unit) M" where
  "emit_str bs = doM (map emit bs)"

definition gen_label :: "(g_state, nat) M" where
  "gen_label = bindM (getM label_num) (\<lambda>n. thenM (modM (\<lambda>s. s\<lparr>label_num := n + 1\<rparr>)) (retM n))"

text \<open>\<open>sprintf\<close> with \<open>%d\<close> on a number that is not negative.\<close>

fun decimal :: "nat \<Rightarrow> string" where
  "decimal n = (if n < 10 then [char_of (48 + n)] else decimal (n div 10) @ [char_of (48 + n mod 10)])"

declare decimal.simps [simp del]

definition write_label :: "nat \<Rightarrow> string" where
  "write_label n = CHR ''.'' # decimal n"

text \<open>The flag says whether the caller passed a place for the arity.\<close>

definition get_symbol :: "string \<Rightarrow> bool \<Rightarrow> ('a core_scheme, i32 \<times> i32) M" where
  "get_symbol name want_arity =
     bindM (getM stage) (\<lambda>st.
     if st = 1 \<or> want_arity then
       bindM (getM (find_symbol name)) (\<lambda>res. case res of None \<Rightarrow> failM Panic | Some r \<Rightarrow> retM r)
     else retM (0, 0))"

definition compute_rel :: "i32 \<Rightarrow> ('a core_scheme, i32) M" where
  "compute_rel addr = getM (\<lambda>s. addr - current_loc s - 4)"

text \<open>\<open>emit32(get_symbol(write_label(lab), 0))\<close>, absolute and relative.\<close>

definition emit_label :: "nat \<Rightarrow> (g_state, unit) M" where
  "emit_label lab = bindM (get_symbol (write_label lab) False) (\<lambda>(l, _). emit32 l)"

definition emit_label_rel :: "nat \<Rightarrow> (g_state, unit) M" where
  "emit_label_rel lab =
     bindM (get_symbol (write_label lab) False) (\<lambda>(l, _). bindM (compute_rel l) emit32)"

definition place_label :: "nat \<Rightarrow> (g_state, unit) M" where
  "place_label lab = bindM (getM current_loc) (\<lambda>l. add_symbol_wrapper (write_label lab) l (- 1))"

section \<open>The variable stack\<close>

definition push_var :: "string \<Rightarrow> bool \<Rightarrow> (g_state, unit) M" where
  "push_var var_name temp =
     thenM (assertM (length var_name > 0))
    (thenM (assertM (length var_name < MAX_TOKEN_LEN))
    (bindM (getM stack_depth) (\<lambda>d.
     thenM (assertM (d < STACK_LEN))
    (thenM (modM (\<lambda>s. s\<lparr>stack_vars := (stack_vars s)(d := var_name), stack_depth := d + 1\<rparr>))
    (if temp then modM (\<lambda>s. s\<lparr>temp_depth := temp_depth s + 1\<rparr>)
     else bindM (getM temp_depth) (\<lambda>t. assertM (t = 0)))))))"

definition pop_var :: "bool \<Rightarrow> (g_state, unit) M" where
  "pop_var temp =
     bindM (getM stack_depth) (\<lambda>d.
     thenM (assertM (d > 0))
    (thenM (modM (\<lambda>s. s\<lparr>stack_depth := d - 1\<rparr>))
    (whenM temp (bindM (getM temp_depth) (\<lambda>t.
       thenM (assertM (t > 0)) (modM (\<lambda>s. s\<lparr>temp_depth := t - 1\<rparr>)))))))"

text \<open>Each turn of the loop takes one from the counter it tests.\<close>

definition pop_temps :: "(g_state, unit) M" where
  "pop_temps = bindM (getM temp_depth) (\<lambda>t. repeatM t (pop_var True))"

function stack_loop :: "(nat \<Rightarrow> string) \<Rightarrow> nat \<Rightarrow> string \<Rightarrow> nat \<Rightarrow> int" where
  "stack_loop vars depth var_name i =
     (if i < depth then (if var_name = vars (depth - 1 - i) then int i
                         else stack_loop vars depth var_name (i + 1))
      else - 1)"
  by pat_completeness auto
termination
  by (relation "measure (\<lambda>(vars, depth, name, i). depth - i)") auto

declare stack_loop.simps [simp del]

definition find_in_stack :: "string \<Rightarrow> g_state \<Rightarrow> int" where
  "find_in_stack var_name s = stack_loop (stack_vars s) (stack_depth s) var_name 0"

section \<open>Expressions\<close>

definition push_expr :: "string \<Rightarrow> bool \<Rightarrow> (g_state, unit) M" where
  "push_expr tok want_addr =
     bindM (liftM (decode_number_or_char tok)) (\<lambda>(num, val).
     if num then
       doM [assertM (\<not> want_addr), push_var TEMP_VAR True, emit 0x68, emit32 val]
     else bindM (getM (find_in_stack tok)) (\<lambda>pos.
       if pos \<noteq> - 1 then
         (if want_addr then
            doM [push_var TEMP_VAR True, emit_str [0x8d, 0x84, 0x24], emit32 (4 * word_of_int pos), emit 0x50]
          else
            doM [push_var TEMP_VAR True, emit_str [0xff, 0xb4, 0x24], emit32 (4 * word_of_int pos)])
       else bindM (get_symbol tok True) (\<lambda>(l, arity).
         thenM (whenM (arity = - 2) (assertM (\<not> want_addr)))
        (if want_addr \<or> arity = - 2 then
           doM [push_var TEMP_VAR True, emit 0x68, emit32 l]
         else if arity = - 1 then
           doM [push_var TEMP_VAR True, emit 0xb8, emit32 l, emit_str [0xff, 0x30]]
         else
           doM [emit 0xe8, bindM (compute_rel l) emit32, emit_str [0x81, 0xc4], emit32 (4 * arity),
                repeatM (nat (sint arity)) (pop_var True), push_var TEMP_VAR True, emit 0x50]))))"

text \<open>A string literal, as both loops compile it: jump over it, and push its address.\<close>

definition push_string :: "string \<Rightarrow> (g_state, unit) M" where
  "push_string tok =
     bindM gen_label (\<lambda>str_lab. bindM gen_label (\<lambda>jmp_lab.
     doM [emit 0xe9, emit_label_rel jmp_lab, place_label str_lab, emit_escaped_string tok, emit 0,
          place_label jmp_lab, push_var TEMP_VAR True, emit 0x68, emit_label str_lab]))"

definition push_name :: "string \<Rightarrow> (g_state, unit) M" where
  "push_name tok =
     (if prefix ''@'' tok then push_expr (drop 1 tok) True else push_expr tok False)"

primrec expr_loop :: "nat \<Rightarrow> (g_state, unit) M" where
  "expr_loop 0 = failM Fuel"
| "expr_loop (Suc n) =
     bindM get_token (\<lambda>tok.
     if tok = ''{'' then give_back_token
     else thenM (if prefix [CHR 0x22] tok then push_string tok else push_name tok) (expr_loop n))"

definition push_expr_until_brace :: "nat \<Rightarrow> (g_state, unit) M" where
  "push_expr_until_brace n =
     thenM (expr_loop n) (bindM (getM temp_depth) (\<lambda>t. assertM (t > 0)))"

definition decode_number_or_symbol2 :: "string \<Rightarrow> ('a core_scheme, i32) M" where
  "decode_number_or_symbol2 str =
     bindM (liftM (decode_number_or_char str)) (\<lambda>(res, val).
     if res then retM val else bindM (get_symbol str True) (\<lambda>(l, arity). retM l))"

section \<open>Statements and blocks\<close>

definition end_statement :: "(g_state, unit) M" where
  "end_statement =
     bindM (getM temp_depth) (\<lambda>t.
     doM [emit_str [0x81, 0xc4], emit32 (4 * of_nat t), pop_temps])"

definition ret_statement :: "(g_state, unit) M" where
  "ret_statement =
     bindM (getM temp_depth) (\<lambda>t.
     thenM (whenM (t > 0) (doM [emit 0x58, pop_var True]))
    (bindM (getM stack_depth) (\<lambda>d.
     doM [emit_str [0x81, 0xc4], emit32 (4 * of_nat d), emit_str [0x5d, 0xc3]])))"

text \<open>After the block of an \<open>if\<close>: an \<open>else\<close> with its block, or a token to give back.\<close>

definition else_part :: "(g_state, unit) M \<Rightarrow> nat \<Rightarrow> (g_state, unit) M" where
  "else_part block else_lab =
     bindM get_token (\<lambda>else_tok.
     if else_tok = ''else'' then
       bindM gen_label (\<lambda>fi_lab.
       doM [emit 0xe9, emit_label_rel fi_lab, place_label else_lab, block, place_label fi_lab])
     else doM [place_label else_lab, give_back_token])"

definition if_statement :: "nat \<Rightarrow> (g_state, unit) M \<Rightarrow> (g_state, unit) M" where
  "if_statement n block =
     thenM (push_expr_until_brace n)
    (bindM gen_label (\<lambda>else_lab.
     doM [pop_var True, emit_str [0x58, 0x83, 0xf8, 0x00, 0x0f, 0x84], emit_label_rel else_lab, block,
       else_part block else_lab]))"

definition while_statement :: "nat \<Rightarrow> (g_state, unit) M \<Rightarrow> (g_state, unit) M" where
  "while_statement n block =
     bindM gen_label (\<lambda>restart_lab. bindM gen_label (\<lambda>end_lab.
     doM [place_label restart_lab, push_expr_until_brace n, pop_var True,
       emit_str [0x58, 0x83, 0xf8, 0x00, 0x0f, 0x84], emit_label_rel end_lab, block,
       emit 0xe9, emit_label_rel restart_lab, place_label end_lab]))"

definition var_statement :: "string \<Rightarrow> (g_state, unit) M" where
  "var_statement name =
     doM [assertM (name \<noteq> []), push_var name False, emit_str [0x83, 0xec, 0x04]]"

definition call_statement :: "string \<Rightarrow> (g_state, unit) M" where
  "call_statement arity_str =
     thenM (assertM (arity_str \<noteq> []))
    (bindM (decode_number_or_symbol2 arity_str) (\<lambda>arity.
     doM [pop_var True, emit_str [0x58, 0xff, 0xd0], emit_str [0x81, 0xc4], emit32 (4 * arity),
       repeatM (nat (sint arity)) (pop_var True), push_var TEMP_VAR True, emit 0x50]))"

text \<open>One turn of the loop of \<open>parse_block2\<close> on a token that does not close the block.\<close>

definition parse_statement :: "nat \<Rightarrow> (g_state, unit) M \<Rightarrow> string \<Rightarrow> (g_state, unit) M" where
  "parse_statement n block tok =
     (if tok = '';'' then end_statement
      else if tok = ''ret'' then ret_statement
      else if tok = ''if'' then if_statement n block
      else if tok = ''while'' then while_statement n block
      else if prefix ''$'' tok then var_statement (drop 1 tok)
      else if prefix [CHR 0x5C] tok then call_statement (drop 1 tok)
      else if prefix [CHR 0x22] tok then push_string tok
      else push_name tok)"

definition in_block :: "(g_state, unit) M \<Rightarrow> (g_state, unit) M" where
  "in_block loop =
     thenM (modM (\<lambda>s. s\<lparr>block_depth := block_depth s + 1\<rparr>))
    (bindM (getM stack_depth) (\<lambda>saved_stack_depth.
     bindM get_token (\<lambda>tok.
     thenM (assertM (tok = ''{''))
    (thenM loop
    (thenM (emit_str [0x81, 0xc4])
    (bindM (getM stack_depth) (\<lambda>d.
     doM [assertM (d \<ge> saved_stack_depth), emit32 (4 * (of_nat d - of_nat saved_stack_depth)),
       modM (\<lambda>s. s\<lparr>stack_depth := saved_stack_depth\<rparr>),
       modM (\<lambda>s. s\<lparr>block_depth := block_depth s - 1\<rparr>)])))))))"

primrec block_loop :: "nat \<Rightarrow> (g_state, unit) M" where
  "block_loop 0 = failM Fuel"
| "block_loop (Suc n) =
     bindM get_token (\<lambda>tok.
     thenM (assertM (tok \<noteq> []))
    (if tok = ''}'' then retM ()
     else thenM (parse_statement n (in_block (block_loop n)) tok) (block_loop n)))"

definition parse_block :: "nat \<Rightarrow> (g_state, unit) M" where
  "parse_block n = in_block (block_loop n)"

section \<open>Declarations\<close>

text \<open>\<open>atoi\<close>: blanks, a sign, decimal digits up to the first other character; a value that is
  no \<open>int\<close> has no defined result.\<close>

definition is_space :: "char \<Rightarrow> bool" where
  "is_space c \<longleftrightarrow> c = CHR '' '' \<or> (9 \<le> uchar c \<and> uchar c \<le> 13)"

definition is_digit :: "char \<Rightarrow> bool" where
  "is_digit c \<longleftrightarrow> 48 \<le> uchar c \<and> uchar c \<le> 57"

definition atoi :: "string \<Rightarrow> err + i32" where
  "atoi str =
     (let s = dropWhile is_space str;
          neg = prefix ''-'' s;
          ds = takeWhile is_digit (if neg \<or> prefix ''+'' s then drop 1 s else s);
          v = foldl (\<lambda>v c. v * 10 + (uchar c - 48)) 0 ds;
          v = (if neg then - v else v)
      in if - (2 ^ 31) \<le> v \<and> v < 2 ^ 31 then Inr (word_of_int v) else Inl Undef)"

text \<open>The name is copied to a second buffer, which is as long as the token buffer.\<close>

definition fun_decl :: "nat \<Rightarrow> (g_state, unit) M" where
  "fun_decl n =
     bindM get_token (\<lambda>name.
     bindM get_token (\<lambda>arity_str.
     bindM (liftM (atoi arity_str)) (\<lambda>arity.
     bindM (getM current_loc) (\<lambda>l.
     doM [fix_symbol_placeholder name l arity, emit_str [0x55, 0x89, 0xe5], parse_block n,
       emit_str [0x5d, 0xc3]]))))"

definition ifun_decl :: "(g_state, unit) M" where
  "ifun_decl =
     bindM get_token (\<lambda>name.
     bindM get_token (\<lambda>arity_str.
     bindM (liftM (atoi arity_str)) (\<lambda>arity. add_symbol_placeholder name arity)))"

definition const_decl :: "(g_state, unit) M" where
  "const_decl =
     bindM get_token (\<lambda>name.
     bindM get_token (\<lambda>val_str.
     bindM (decode_number_or_symbol2 val_str) (\<lambda>val. add_symbol_wrapper name val (- 2))))"

definition global_decl :: "string \<Rightarrow> (g_state, unit) M" where
  "global_decl name =
     thenM (assertM (name \<noteq> []))
    (bindM (getM current_loc) (\<lambda>l.
     doM [add_symbol_wrapper name l (- 1), emit32 0]))"

definition array_decl :: "string \<Rightarrow> (g_state, unit) M" where
  "array_decl name =
     thenM (assertM (name \<noteq> []))
    (bindM (getM current_loc) (\<lambda>l.
     thenM (add_symbol_wrapper name l (- 2))
    (bindM get_token (\<lambda>len_str.
     bindM (decode_number_or_symbol2 len_str) (\<lambda>len.
     repeatM (nat (sint len)) (emit 0))))))"

definition parse_decl :: "nat \<Rightarrow> string \<Rightarrow> (g_state, unit) M" where
  "parse_decl n tok =
     (if tok = ''fun'' then fun_decl n
      else if tok = ''ifun'' then ifun_decl
      else if tok = ''const'' then const_decl
      else if prefix ''$'' tok then global_decl (drop 1 tok)
      else if prefix ''%'' tok then array_decl (drop 1 tok)
      else failM Panic)"

primrec parse :: "nat \<Rightarrow> (g_state, unit) M" where
  "parse 0 = failM Fuel"
| "parse (Suc n) =
     bindM get_token (\<lambda>tok.
     if tok = [] then retM () else thenM (parse_decl n tok) (parse n))"

definition preamble_entry :: "string \<Rightarrow> i32 \<Rightarrow> byte list \<Rightarrow> (g_state, unit) M" where
  "preamble_entry name arity code =
     bindM (getM current_loc) (\<lambda>l. thenM (add_symbol_wrapper name l arity) (emit_str code))"

definition emit_preamble :: "(g_state, unit) M" where
  "emit_preamble =
     doM [preamble_entry ''='' 2 [0x8b, 0x44, 0x24, 0x04, 0x8b, 0x4c, 0x24, 0x08, 0x89, 0x01, 0xc3],
          preamble_entry ''param'' 1 [0x8b, 0x44, 0x24, 0x04, 0x8b, 0x44, 0x85, 0x08, 0xc3],
          preamble_entry ''+'' 2 [0x8b, 0x44, 0x24, 0x04, 0x03, 0x44, 0x24, 0x08, 0xc3],
          preamble_entry ''-'' 2 [0x8b, 0x44, 0x24, 0x04, 0x2b, 0x44, 0x24, 0x08, 0xc3]]"

definition compile_pass :: "nat \<Rightarrow> string \<Rightarrow> i32 \<Rightarrow> bool \<Rightarrow> nat \<Rightarrow> (g_state, unit) M" where
  "compile_pass n file start_loc with_preamble st =
     doM [modM (\<lambda>s. s\<lparr>stage := st, input := file, label_num := 0, current_loc := start_loc\<rparr>),
          whenM with_preamble emit_preamble,
          parse n,
          bindM (getM block_depth) (\<lambda>d. assertM (d = 0)),
          bindM (getM stack_depth) (\<lambda>d. assertM (d = 0)),
          bindM (getM temp_depth) (\<lambda>d. assertM (d = 0))]"

definition compile_steps :: "nat \<Rightarrow> string \<Rightarrow> i32 \<Rightarrow> bool \<Rightarrow> (g_state, unit) M" where
  "compile_steps n file start_loc with_preamble =
     doM [modM (\<lambda>s. s\<lparr>block_depth := 0, stack_depth := 0, temp_depth := 0\<rparr>),
          compile_pass n file start_loc with_preamble 0,
          compile_pass n file start_loc with_preamble 1,
          modM (\<lambda>s. s\<lparr>stage := 2\<rparr>)]"

definition compile :: "string \<Rightarrow> i32 \<Rightarrow> bool \<Rightarrow> (g_state, unit) M" where
  "compile file = compile_steps (length file + 2) file"

end
