(* ===== verification/GDiscipline.thy ===== *)
theory GDiscipline
  imports GCompiler "HOL-Library.Code_Target_Nat"
begin

text \<open>
  What every piece of the G compiler does to the state. \<open>g_rel\<close> is the two-pass discipline
  together with the invariant \<open>g_wf\<close> (symbol table well formed, no empty name on the variable
  stack) and the block depth; \<open>quiet\<close> adds that no input is read. From \<open>g_rel\<close> follow the facts
  about whole blocks and whole programs, and from a count of the tokens still to be read that
  the loops never run out of steps.
\<close>

definition g_wf :: "g_state \<Rightarrow> bool" where
  "g_wf s \<longleftrightarrow> table_wf s \<and> (\<forall>i < stack_depth s. stack_vars s i \<noteq> [])"

definition g_rel :: "g_state \<Rightarrow> g_state \<Rightarrow> bool" where
  "g_rel s s' \<longleftrightarrow> pass_rel s s' \<and> (g_wf s \<longrightarrow> g_wf s') \<and> block_depth s' = block_depth s"

definition quiet :: "g_state \<Rightarrow> g_state \<Rightarrow> bool" where
  "quiet s s' \<longleftrightarrow> g_rel s s' \<and> input s' = input s \<and> token_buf s' = token_buf s \<and>
     token_given_back s' = token_given_back s"

interpretation g: effect g_rel
  by unfold_locales (auto simp: g_rel_def intro: pass.eff_refl pass.eff_trans)

interpretation quiet: effect quiet
  by unfold_locales (auto simp: quiet_def intro: g.eff_refl g.eff_trans)

named_theorems quiet_intros \<open>actions that read no input\<close>
named_theorems g_intros \<open>actions that keep the discipline of the G compiler\<close>

declare quiet.eff_rules [quiet_intros]
declare g.eff_rules [g_intros]

lemma quiet_g: "steps quiet m \<Longrightarrow> steps g_rel m"
  by (erule steps_mono) (simp add: quiet_def)

section \<open>Actions that read no input\<close>

text \<open>An action on the shared state leaves every other field alone.\<close>

lemma quiet_core:
  assumes "steps core_rel m"
  shows "steps quiet m"
proof (rule steps_mono [OF assms])
  fix s s' :: g_state
  assume "core_rel s s'"
  then have m: "core.more s' = core.more s" and p: "pass_rel s s'" and w: "table_wf s \<longrightarrow> table_wf s'"
    by (simp_all add: core_rel_def)
  have "label_num s' = label_num s" "stack_vars s' = stack_vars s" "block_depth s' = block_depth s"
    "stack_depth s' = stack_depth s" "temp_depth s' = temp_depth s"
    "token_given_back s' = token_given_back s" "token_buf s' = token_buf s" "input s' = input s"
    by (cases s; cases s'; use m in simp)+
  with p w show "quiet s s'" by (simp add: quiet_def g_rel_def g_wf_def)
qed

lemma quiet_push_var [quiet_intros]: "steps quiet (push_var v t)"
proof (rule stepsI)
  fix s u s'
  assume run: "push_var v t s = Inr (u, s')"
  have "core.truncate s' = core.truncate s" using run
    by (auto simp: push_var_def run_simps core.truncate_def split: if_splits)
  note tr = truncate_find [OF this]
  show "quiet s s'" using run tr(2,3)
    by (auto simp: quiet_def g_rel_def g_wf_def push_var_def run_simps less_Suc_eq split: if_splits)
qed

lemma quiet_pop_var [quiet_intros]: "steps quiet (pop_var t)"
proof (rule stepsI)
  fix s u s'
  assume run: "pop_var t s = Inr (u, s')"
  have "core.truncate s' = core.truncate s" using run
    by (auto simp: pop_var_def run_simps core.truncate_def split: if_splits)
  note tr = truncate_find [OF this]
  show "quiet s s'" using run tr(2,3)
    by (auto simp: quiet_def g_rel_def g_wf_def pop_var_def run_simps split: if_splits)
qed

lemma quiet_gen_label [quiet_intros]: "steps quiet gen_label"
proof (rule stepsI)
  fix s u s'
  assume run: "gen_label s = Inr (u, s')"
  have "core.truncate s' = core.truncate s" using run
    by (auto simp: gen_label_def run_simps core.truncate_def)
  note tr = truncate_find [OF this]
  show "quiet s s'" using run tr(2,3)
    by (auto simp: quiet_def g_rel_def g_wf_def gen_label_def run_simps)
qed

lemma core_get_symbol [core_intros]: "steps core_rel (get_symbol n b)"
  unfolding get_symbol_def by (intro core_intros)

lemma core_compute_rel [core_intros]: "steps core_rel (compute_rel l)"
  unfolding compute_rel_def by (intro core_intros)

lemma core_emit_str [core_intros]: "steps core_rel (emit_str bs)"
  unfolding emit_str_def by (rule core.eff_do) (auto intro: core_intros)

lemma core_escaped_string_loop [core_intros]: "steps core_rel (escaped_string_loop s :: ('a core_scheme, unit) M)"
proof (induction s rule: escaped_string_loop.induct)
  case 1
  show ?case unfolding escaped_string_loop.simps by (rule core.eff_fail)
next
  case (2 c s)
  have "steps core_rel (case s of [] \<Rightarrow> failM Panic
      | d # s' \<Rightarrow> thenM (emit (char_byte (escaped d))) (escaped_string_loop s' :: ('a core_scheme, unit) M))"
    if "c \<noteq> CHR 0x22" "c = CHR 0x5C"
    using "2.IH"(1) [OF that] by (cases s) (auto intro: core.eff_fail core.eff_then core_emit)
  moreover have "steps core_rel (thenM (emit (char_byte c)) (escaped_string_loop s :: ('a core_scheme, unit) M))"
    if "c \<noteq> CHR 0x22" "c \<noteq> CHR 0x5C"
    using "2.IH"(2) [OF that] by (simp add: core_intros)
  ultimately show ?case by (simp add: core_intros)
qed

lemma core_emit_escaped_string [core_intros]: "steps core_rel (emit_escaped_string s)"
  unfolding emit_escaped_string_def by (cases s) (auto intro!: core_intros)

lemma core_decode_number_or_symbol2 [core_intros]: "steps core_rel (decode_number_or_symbol2 s)"
  unfolding decode_number_or_symbol2_def by (intro core_intros)

lemmas quiet_cores [quiet_intros] = core_emit [THEN quiet_core] core_emit32 [THEN quiet_core]
  core_add_symbol_wrapper [THEN quiet_core] core_add_symbol_placeholder [THEN quiet_core]
  core_fix_symbol_placeholder [THEN quiet_core] core_get_symbol [THEN quiet_core]
  core_compute_rel [THEN quiet_core] core_emit_str [THEN quiet_core]
  core_emit_escaped_string [THEN quiet_core] core_decode_number_or_symbol2 [THEN quiet_core]

lemma quiet_emit_label [quiet_intros]: "steps quiet (emit_label l)" "steps quiet (emit_label_rel l)"
    "steps quiet (place_label l)"
  unfolding emit_label_def emit_label_rel_def place_label_def by (intro quiet_intros)+

lemma quiet_pop_temps [quiet_intros]: "steps quiet pop_temps"
  unfolding pop_temps_def by (intro quiet_intros)

lemma quiet_push_expr [quiet_intros]: "steps quiet (push_expr tok a)"
  unfolding push_expr_def by (intro quiet_intros)

lemma quiet_push_string [quiet_intros]: "steps quiet (push_string tok)"
  unfolding push_string_def by (intro quiet_intros)

lemma quiet_push_name [quiet_intros]: "steps quiet (push_name tok)"
  unfolding push_name_def by (intro quiet_intros)

lemma quiet_statements [quiet_intros]:
  "steps quiet end_statement" "steps quiet ret_statement" "steps quiet (var_statement v)"
  "steps quiet (call_statement a)"
  unfolding end_statement_def ret_statement_def var_statement_def call_statement_def
  by (intro quiet_intros)+

section \<open>Actions that read tokens\<close>

lemmas g_quiet [g_intros] = quiet_push_var [THEN quiet_g] quiet_pop_var [THEN quiet_g]
  quiet_gen_label [THEN quiet_g] quiet_emit_label [THEN quiet_g] quiet_pop_temps [THEN quiet_g]
  quiet_push_string [THEN quiet_g] quiet_push_name [THEN quiet_g] quiet_statements [THEN quiet_g]
  quiet_cores [THEN quiet_g]

lemma get_token_run:
  "get_token s = Inr (tok, s') \<Longrightarrow>
     core.truncate s' = core.truncate s \<and> block_depth s' = block_depth s \<and> stack_vars s' = stack_vars s \<and>
     stack_depth s' = stack_depth s \<and> temp_depth s' = temp_depth s \<and> label_num s' = label_num s \<and>
     token_buf s' = tok \<and> \<not> token_given_back s'"
  by (auto simp: get_token_def bindR_Inr core.truncate_def split: if_splits)

lemma g_get_token [g_intros]: "steps g_rel get_token"
proof (rule stepsI)
  fix s a s'
  assume "get_token s = Inr (a, s')"
  note r = get_token_run [OF this]
  with truncate_find [of s' s] show "g_rel s s'" by (simp add: g_rel_def g_wf_def)
qed

lemma give_back_token_run: "give_back_token s = Inr (u, s') \<longleftrightarrow> \<not> token_given_back s \<and> s' = s\<lparr>token_given_back := True\<rparr>"
  by (auto simp: give_back_token_def run_simps)

lemma g_give_back_token [g_intros]: "steps g_rel give_back_token"
proof (rule stepsI)
  fix s u s'
  assume "give_back_token s = Inr (u, s')"
  then have s': "s' = s\<lparr>token_given_back := True\<rparr>" by (simp add: give_back_token_run)
  then have "core.truncate s' = core.truncate s" by (simp add: core.truncate_def)
  from truncate_find [OF this] show "g_rel s s'" by (simp add: g_rel_def g_wf_def s')
qed

lemma g_expr_loop [g_intros]: "steps g_rel (expr_loop n)"
  by (induction n; unfold expr_loop.simps; intro g_intros)

lemma g_push_expr_until_brace [g_intros]: "steps g_rel (push_expr_until_brace n)"
  unfolding push_expr_until_brace_def by (intro g_intros)

lemma g_if_statement [g_intros]: "steps g_rel block \<Longrightarrow> steps g_rel (if_statement n block)"
  unfolding if_statement_def else_part_def by (intro g_intros)

lemma g_while_statement [g_intros]: "steps g_rel block \<Longrightarrow> steps g_rel (while_statement n block)"
  unfolding while_statement_def by (intro g_intros)

lemma g_parse_statement [g_intros]: "steps g_rel block \<Longrightarrow> steps g_rel (parse_statement n block tok)"
  unfolding parse_statement_def by (intro g_intros)

text \<open>How a block runs: the opening brace, its statements, and the code that drops its variables.\<close>

lemma in_block_run:
  assumes "in_block loop s = Inr (u, s')"
  obtains s0 s1 s2 where "get_token (s\<lparr>block_depth := block_depth s + 1\<rparr>) = Inr (''{'', s0)"
    and "loop s0 = Inr ((), s1)" and "stack_depth s \<le> stack_depth s1"
    and "s2 = emit_all ([0x81, 0xc4] @ bytes32 (4 * (of_nat (stack_depth s1) - of_nat (stack_depth s)))) s1"
    and "s' = s2\<lparr>stack_depth := stack_depth s, block_depth := block_depth s1 - 1\<rparr>"
  using assms
  by (auto simp: in_block_def run_simps emit_str_def emit32_eval doM_emit emit_is_emit_all emit_all_append)
    (auto simp: emit_all_def)

lemma block_depth_truncate: "core.truncate (s\<lparr>block_depth := d\<rparr>) = core.truncate s"
  "core.truncate (s\<lparr>stack_depth := k, block_depth := d\<rparr>) = core.truncate s"
  by (simp_all add: core.truncate_def)

lemma g_in_block:
  assumes loop: "steps g_rel loop" and run: "in_block loop s = Inr (u, s')"
  shows "g_rel s s' \<and> stack_depth s' = stack_depth s"
proof -
  let ?s = "s\<lparr>block_depth := block_depth s + 1\<rparr>"
  obtain s0 s1 s2 where tok: "get_token ?s = Inr (''{'', s0)" and body: "loop s0 = Inr ((), s1)"
    and le: "stack_depth s \<le> stack_depth s1"
    and s2: "s2 = emit_all ([0x81, 0xc4] @ bytes32 (4 * (of_nat (stack_depth s1) - of_nat (stack_depth s)))) s1"
    and s': "s' = s2\<lparr>stack_depth := stack_depth s, block_depth := block_depth s1 - 1\<rparr>"
    using in_block_run [OF run] .
  have p1: "pass_rel s ?s" "table_wf ?s = table_wf s"
    by (rule truncate_find(3) truncate_find(2), rule block_depth_truncate)+
  have r1: "g_rel ?s s0" using g_get_token tok by (rule stepsD)
  have r2: "g_rel s0 s1" using loop body by (rule stepsD)
  have "steps core_rel (doM (map emit bs))" for bs :: "byte list"
    by (rule core.eff_do) (auto intro: core_intros)
  from stepsD [OF quiet_g [OF quiet_core [OF this]] doM_emit]
  have r3: "g_rel s1 s2" unfolding s2 .
  have p4: "pass_rel s2 s'" "table_wf s' = table_wf s2"
    unfolding s' by (rule truncate_find(3) truncate_find(2), rule block_depth_truncate)+
  note r = g.eff_trans [OF g.eff_trans [OF r1 r2] r3]
  have "pass_rel s s'"
    using p1(1) p4(1) r pass.eff_trans unfolding g_rel_def by blast
  moreover have "g_wf s'" if "g_wf s"
  proof -
    have "g_wf ?s" using that p1(2) by (simp add: g_wf_def)
    then have "g_wf s2" using r by (simp add: g_rel_def)
    moreover have "stack_depth s2 = stack_depth s1" "stack_vars s2 = stack_vars s1"
      by (simp_all add: s2 emit_all_def)
    ultimately show ?thesis using le p4(2) by (auto simp: g_wf_def s')
  qed
  moreover have "block_depth s1 = block_depth s + 1"
    using r1 r2 by (simp add: g_rel_def)
  ultimately show ?thesis by (simp add: g_rel_def s')
qed

lemma g_block_loop [g_intros]: "steps g_rel (block_loop n)"
proof (induction n)
  case 0
  show ?case unfolding block_loop.simps by (rule g.eff_fail)
next
  case (Suc n)
  have "steps g_rel (in_block (block_loop n))"
    using g_in_block [OF Suc.IH] by (intro stepsI) blast
  with Suc.IH show ?case unfolding block_loop.simps by (intro g_intros)
qed

lemma g_parse_block [g_intros]: "steps g_rel (parse_block n)"
  unfolding parse_block_def using g_in_block [OF g_block_loop] by (intro stepsI) blast

lemma g_decls [g_intros]: "steps g_rel (fun_decl n)" "steps g_rel ifun_decl" "steps g_rel const_decl"
  "steps g_rel (global_decl v)" "steps g_rel (array_decl v)"
  unfolding fun_decl_def ifun_decl_def const_decl_def global_decl_def array_decl_def
  by (intro g_intros)+

lemma g_parse_decl [g_intros]: "steps g_rel (parse_decl n tok)"
  unfolding parse_decl_def by (intro g_intros)

lemma g_parse [g_intros]: "steps g_rel (parse n)"
  by (induction n; unfold parse.simps; intro g_intros)

lemma g_emit_preamble [g_intros]: "steps g_rel emit_preamble"
  unfolding emit_preamble_def preamble_entry_def by (intro g_intros)

text \<open>C10: blocks are balanced. Whatever a block contains, when \<open>parse_block2\<close> returns, the
  variable stack has the depth it had before the block, so the variables of a block are dropped
  at its end, the block depth is back, no symbol was lost or renamed, and in the second pass the
  location moved by exactly the number of bytes written.\<close>

theorem parse_block_balanced:
  assumes "parse_block n s = Inr (u, s')" and "g_wf s"
  shows "stack_depth s' = stack_depth s \<and> block_depth s' = block_depth s \<and> g_wf s' \<and>
    (stage s = 0 \<longrightarrow> emitted s' = emitted s \<and> tab_le s s') \<and>
    (stage s = 1 \<longrightarrow> (\<forall>name. find_symbol name s' = find_symbol name s) \<and>
      (\<exists>bs. emitted s' = emitted s @ bs \<and> current_loc s' = current_loc s + of_nat (length bs)))"
  using g_in_block [OF g_block_loop assms(1) [unfolded parse_block_def]] assms(2)
  by (auto simp: g_rel_def pass_rel_def g_wf_def)

section \<open>The loops never run out of steps\<close>

text \<open>Tokens still to be read: characters of the input, and a token that was given back.\<close>

definition left :: "g_state \<Rightarrow> nat" where
  "left s = length (input s) + (if token_given_back s \<and> token_buf s \<noteq> [] then 1 else 0)"

lemma end_token_left: "end_token tok inp = Inr (t, inp') \<Longrightarrow> inp' = inp \<and> length t \<le> length tok"
  by (auto simp: end_token_def c_string_def length_takeWhile_le split: if_splits)

lemma token_loop_left:
  "token_loop state tok inp = Inr (t, inp') \<Longrightarrow> length inp' + length t \<le> length inp + length tok"
proof (induction state tok inp rule: token_loop.induct)
  case (1 state tok)
  then show ?case using end_token_left by fastforce
next
  case (2 state tok x inp)
  from "2.prems" "2.IH" show ?case
    by (auto simp: Let_def split: if_splits dest!: end_token_left)
qed

lemma get_token_left:
  assumes "get_token s = Inr (tok, s')"
  shows "left s' + (if tok = [] then 0 else 1) \<le> left s"
proof (cases "token_given_back s")
  case True
  then show ?thesis using assms by (auto simp: get_token_def left_def)
next
  case False
  then obtain inp where "token_loop 0 [] (input s) = Inr (tok, inp)" "s' = s\<lparr>token_buf := tok, input := inp\<rparr>"
    using assms by (auto simp: get_token_def bindR_Inr)
  with token_loop_left [OF this(1)] False show ?thesis
    by (cases tok) (auto simp: left_def)
qed

text \<open>\<open>bounded k m\<close>: started in a good state with at most \<open>k\<close> tokens left, \<open>m\<close> does not run
  out of steps, and if it returns the state is good and there are still at most \<open>k\<close>.\<close>

definition bounded :: "nat \<Rightarrow> (g_state, 'a) M \<Rightarrow> bool" where
  "bounded k m \<longleftrightarrow> (\<forall>s. g_wf s \<and> left s \<le> k \<longrightarrow>
     m s \<noteq> Inl Fuel \<and> (\<forall>a s'. m s = Inr (a, s') \<longrightarrow> g_wf s' \<and> left s' \<le> k))"

named_theorems bounded_intros \<open>actions that stay within a bound on the tokens left\<close>

lemma boundedI: "(\<And>s. g_wf s \<Longrightarrow> left s \<le> k \<Longrightarrow> m s \<noteq> Inl Fuel) \<Longrightarrow>
    (\<And>s a s'. g_wf s \<Longrightarrow> left s \<le> k \<Longrightarrow> m s = Inr (a, s') \<Longrightarrow> g_wf s' \<and> left s' \<le> k) \<Longrightarrow> bounded k m"
  unfolding bounded_def by blast

lemma boundedD: "bounded k m \<Longrightarrow> g_wf s \<Longrightarrow> left s \<le> k \<Longrightarrow>
    m s \<noteq> Inl Fuel \<and> (\<forall>a s'. m s = Inr (a, s') \<longrightarrow> g_wf s' \<and> left s' \<le> k)"
  unfolding bounded_def by blast

lemma bounded_bind [bounded_intros]:
  assumes "bounded k m" "\<And>a. bounded k (f a)"
  shows "bounded k (bindM m f)"
proof (rule boundedI)
  fix s
  assume s: "g_wf s" "left s \<le> k"
  show "bindM m f s \<noteq> Inl Fuel"
    using boundedD [OF assms(1) s] boundedD [OF assms(2)]
    by (auto simp: bindM_def split: sum.splits)
next
  fix s b s'
  assume s: "g_wf s" "left s \<le> k" and run: "bindM m f s = Inr (b, s')"
  then obtain a t where "m s = Inr (a, t)" "f a t = Inr (b, s')" by (auto simp: bindM_run)
  with boundedD [OF assms(1) s] boundedD [OF assms(2)] show "g_wf s' \<and> left s' \<le> k" by blast
qed

lemma bounded_then [bounded_intros]: "bounded k m \<Longrightarrow> bounded k n \<Longrightarrow> bounded k (thenM m n)"
  by (simp add: thenM_def bounded_bind)

lemma quiet_left: "quiet s s' \<Longrightarrow> left s' = left s \<and> (g_wf s \<longrightarrow> g_wf s')"
  by (simp add: quiet_def left_def g_rel_def)

lemma bounded_quiet: "steps quiet m \<Longrightarrow> never Fuel m \<Longrightarrow> bounded k m"
  by (rule boundedI) (auto simp: never_def dest!: stepsD quiet_left)

lemma bounded_do [bounded_intros]: "bounded k (doM [])"
  "bounded k m \<Longrightarrow> bounded k (doM ms) \<Longrightarrow> bounded k (doM (m # ms))"
  by (simp_all add: bounded_then bounded_quiet quiet_intros never_intros del: retM_eval)

lemma never_string_loop: "never Fuel (escaped_string_loop s)"
  by (induction s rule: escaped_string_loop.induct; unfold escaped_string_loop.simps; intro never_intros; simp)

lemma char_at_fuel: "char_at s i \<noteq> Inl Fuel"
  by (simp add: char_at_def)

lemma decode_number_or_char_fuel: "decode_number_or_char tok \<noteq> Inl Fuel"
  unfolding decode_number_or_char_def by (intro not_intros char_at_fuel) simp_all

lemma never_g [never_intros]:
  "never Fuel (emit_str bs)" "never Fuel (emit_escaped_string tok)" "never Fuel (get_symbol name b)"
  "never Fuel (compute_rel l)" "never Fuel (push_var v t)" "never Fuel (pop_var t)" "never Fuel gen_label"
  "never Fuel (emit_label lab)" "never Fuel (emit_label_rel lab)" "never Fuel (place_label lab)"
  "never Fuel pop_temps" "never Fuel (push_expr tok a)" "never Fuel (push_string tok)"
  "never Fuel (push_name tok)" "never Fuel (decode_number_or_symbol2 tok)" "never Fuel end_statement"
  "never Fuel ret_statement" "never Fuel (var_statement v)" "never Fuel (call_statement x)"
proof -
  show e [never_intros]: "never Fuel (emit_str bs)" for bs
    unfolding emit_str_def by (induction bs) (auto intro!: never_intros simp del: retM_eval)
  show s [never_intros]: "never Fuel (emit_escaped_string tok)" for tok
    unfolding emit_escaped_string_def
    by (intro never_intros never_string_loop; simp)
  note d [never_intros] = never_lift [OF decode_number_or_char_fuel]
  show a [never_intros]: "never Fuel (get_symbol name b)" for name b
    unfolding get_symbol_def by (intro never_intros) simp_all
  show b [never_intros]: "never Fuel (compute_rel l)" for l
    unfolding compute_rel_def by (intro never_intros)
  show c [never_intros]: "never Fuel (push_var v t)" for v t
    unfolding push_var_def by (intro never_intros) simp_all
  show f [never_intros]: "never Fuel (pop_var t)" for t
    unfolding pop_var_def by (intro never_intros) simp_all
  show g [never_intros]: "never Fuel gen_label"
    unfolding gen_label_def by (intro never_intros)
  show h [never_intros]: "never Fuel (emit_label lab)" "never Fuel (emit_label_rel lab)" "never Fuel (place_label lab)" for lab
    unfolding emit_label_def emit_label_rel_def place_label_def by (intro never_intros; simp)+
  show i [never_intros]: "never Fuel pop_temps"
    unfolding pop_temps_def by (intro never_intros)
  show j [never_intros]: "never Fuel (push_expr tok a)" for tok a
    unfolding push_expr_def by (intro never_intros; simp)
  show k [never_intros]: "never Fuel (push_string tok)" for tok
    unfolding push_string_def by (intro never_intros; simp)
  show "never Fuel (push_name tok)" for tok
    unfolding push_name_def by (intro never_intros)
  show l [never_intros]: "never Fuel (decode_number_or_symbol2 tok)" for tok
    unfolding decode_number_or_symbol2_def by (intro never_intros)
  show "never Fuel end_statement" unfolding end_statement_def by (intro never_intros; simp)
  show "never Fuel ret_statement" unfolding ret_statement_def by (intro never_intros; simp)
  show "never Fuel (var_statement v)" unfolding var_statement_def by (intro never_intros; simp)
  show "never Fuel (call_statement x)" unfolding call_statement_def by (intro never_intros; simp)
qed

text \<open>The same from one state, and the rule for an action that starts by reading a token.\<close>

definition safe :: "nat \<Rightarrow> g_state \<Rightarrow> (g_state, 'a) M \<Rightarrow> bool" where
  "safe k s m \<longleftrightarrow> m s \<noteq> Inl Fuel \<and> (\<forall>a s'. m s = Inr (a, s') \<longrightarrow> g_wf s' \<and> left s' \<le> k)"

lemma bounded_safe: "bounded j m \<Longrightarrow> g_wf s \<Longrightarrow> left s \<le> j \<Longrightarrow> j \<le> k \<Longrightarrow> safe k s m"
  unfolding safe_def using boundedD [of j m s] by fastforce

lemma get_token_fuel: "get_token s \<noteq> Inl Fuel"
proof -
  have "token_loop state tok inp \<noteq> Inl Fuel" for state tok inp
    by (induction inp arbitrary: state tok) (simp_all add: end_token_def Let_def)
  then show ?thesis by (auto simp: get_token_def bindR_def split: sum.splits)
qed

lemma bounded_token:
  assumes "\<And>tok s. g_wf s \<Longrightarrow> token_buf s = tok \<Longrightarrow> \<not> token_given_back s \<Longrightarrow>
    left s + (if tok = [] then 0 else 1) \<le> k \<Longrightarrow> safe k s (f tok)"
  shows "bounded k (bindM get_token f)"
proof -
  have "safe k s (bindM get_token f)" if wf: "g_wf s" and l: "left s \<le> k" for s
  proof (cases "get_token s")
    case (Inl e)
    then show ?thesis using get_token_fuel [of s] by (simp add: safe_def bindM_def)
  next
    case (Inr r)
    obtain tok t where r: "r = (tok, t)" by (cases r)
    have "g_rel s t" using g_get_token Inr [unfolded r] by (rule stepsD)
    then have "safe k t (f tok)"
      using assms [of t tok] wf l get_token_run [OF Inr [unfolded r]] get_token_left [OF Inr [unfolded r]]
      by (simp add: g_rel_def)
    with Inr r show ?thesis by (simp add: safe_def bindM_def)
  qed
  then show ?thesis unfolding safe_def bounded_def by blast
qed

lemma bounded_get_token [bounded_intros]: "bounded k get_token"
proof -
  have "bounded k (bindM get_token retM)"
    by (rule bounded_token) (auto simp: safe_def split: if_splits)
  moreover have "bindM get_token retM = get_token"
    by (auto simp: fun_eq_iff bindM_def split: sum.splits)
  ultimately show ?thesis by (simp only:)
qed

lemma safe_give_back:
  assumes "g_wf s" "left s + (if token_buf s = [] then 0 else 1) \<le> k"
  shows "safe k s give_back_token"
proof -
  have "never Fuel give_back_token" unfolding give_back_token_def by (intro never_intros; simp)
  moreover have "g_wf s' \<and> left s' \<le> k" if "give_back_token s = Inr (u, s')" for u s'
  proof -
    have "g_rel s s'" using g_give_back_token that by (rule stepsD)
    with assms that show ?thesis by (auto simp: give_back_token_run left_def g_rel_def)
  qed
  ultimately show ?thesis by (auto simp: safe_def never_def)
qed

lemma safe_then_quiet:
  assumes "steps quiet m" "never Fuel m" "\<And>t. quiet s t \<Longrightarrow> safe k t n"
  shows "safe k s (thenM m n)"
proof -
  have "m s \<noteq> Inl Fuel" using assms(2) by (simp add: never_def)
  moreover have "safe k t n" if "m s = Inr (a, t)" for a t
    using assms(3) [OF stepsD [OF assms(1) that]] .
  ultimately show ?thesis by (fastforce simp: safe_def thenM_def bindM_def split: sum.splits)
qed

lemma push_name_empty:
  assumes "g_wf s"
  shows "push_name [] s = Inl Panic"
proof -
  have "stack_loop (stack_vars s) (stack_depth s) [] i = - 1" for i
    using assms
  proof (induction "stack_vars s" "stack_depth s" "[] :: string" i rule: stack_loop.induct)
    case (1 i)
    have "stack_vars s (stack_depth s - 1 - i) \<noteq> []" if "i < stack_depth s"
      using "1.prems" that by (simp add: g_wf_def)
    with 1 show ?case by (subst stack_loop.simps) auto
  qed
  moreover have "find_symbol [] s = None"
    using assms by (auto simp: find_symbol_None g_wf_def table_wf_def)
  moreover have "decode_number_or_char [] = Inr (False, 0)"
    by (simp add: decode_number_or_char_def char_at_def decode_number_def)
  ultimately show ?thesis
    by (simp add: push_name_def push_expr_def bindM_def find_in_stack_def get_symbol_def)
qed

lemmas bounded_quiets [bounded_intros] =
  bounded_quiet [OF quiet_push_string never_g(13)] bounded_quiet [OF quiet_push_name never_g(14)]
  bounded_quiet [OF quiet_pop_var never_g(6)] bounded_quiet [OF quiet_gen_label never_g(7)]
  bounded_quiet [OF quiet_emit_label(1) never_g(8)] bounded_quiet [OF quiet_emit_label(2) never_g(9)]
  bounded_quiet [OF quiet_emit_label(3) never_g(10)] bounded_quiet [OF quiet_statements(1) never_g(16)]
  bounded_quiet [OF quiet_statements(2) never_g(17)] bounded_quiet [OF quiet_statements(3) never_g(18)]
  bounded_quiet [OF quiet_statements(4) never_g(19)] bounded_quiet [OF quiet_cores(8) never_g(1)]
  bounded_quiet [OF quiet_cores(10) never_g(15)]

lemma bounded_plain [bounded_intros]:
  "bounded k (retM a)" "bounded k (getM h)" "bounded k (assertM b)" "bounded k (failM Panic)"
  "bounded k (emit c)" "bounded k (emit32 x)" "bounded k (add_symbol_wrapper name l a')"
  "bounded k (add_symbol_placeholder name a')" "bounded k (fix_symbol_placeholder name l a')"
  by (rule bounded_quiet; intro quiet_intros never_intros; simp)+

lemma bounded_if [bounded_intros]: "(b \<Longrightarrow> bounded k m) \<Longrightarrow> (\<not> b \<Longrightarrow> bounded k n) \<Longrightarrow> bounded k (if b then m else n)"
  by simp

lemma bounded_expr_loop: "k < n \<Longrightarrow> bounded k (expr_loop n)"
proof (induction n arbitrary: k)
  case (Suc n)
  show ?case unfolding expr_loop.simps
  proof (rule bounded_token)
    fix tok s
    assume s: "g_wf s" "token_buf s = tok" "\<not> token_given_back s"
      "left s + (if tok = [] then 0 else 1) \<le> k"
    show "safe k s (if tok = ''{'' then give_back_token
        else thenM (if prefix [CHR 0x22] tok then push_string tok else push_name tok) (expr_loop n))"
    proof (cases "tok = []")
      case True
      then show ?thesis using push_name_empty [OF s(1)] by (simp add: safe_def thenM_def bindM_def)
    next
      case False
      then have "k - 1 < n" "left s \<le> k - 1" using s Suc.prems by auto
      have "bounded (k - 1) (thenM (if prefix [CHR 0x22] tok then push_string tok else push_name tok) (expr_loop n))"
        by (intro bounded_intros Suc.IH \<open>k - 1 < n\<close>)
      from bounded_safe [OF this s(1) \<open>left s \<le> k - 1\<close>] safe_give_back [OF s(1)] s False
      show ?thesis by auto
    qed
  qed
qed simp

lemma bounded_push_expr_until_brace: "k < n \<Longrightarrow> bounded k (push_expr_until_brace n)"
  unfolding push_expr_until_brace_def by (intro bounded_intros bounded_expr_loop)

lemma bounded_else_part:
  assumes block: "bounded k block"
  shows "bounded k (else_part block else_lab)"
  unfolding else_part_def
proof (rule bounded_token)
  fix tok s
  assume s: "g_wf s" "token_buf s = tok" "\<not> token_given_back s"
    "left s + (if tok = [] then 0 else 1) \<le> k"
  have "bounded k (bindM gen_label (\<lambda>fi_lab.
       doM [emit 0xe9, emit_label_rel fi_lab, place_label else_lab, block, place_label fi_lab]))"
    by (intro bounded_intros block)
  from bounded_safe [OF this s(1)] s(4) have yes: "safe k s (bindM gen_label (\<lambda>fi_lab.
       doM [emit 0xe9, emit_label_rel fi_lab, place_label else_lab, block, place_label fi_lab]))"
    by simp
  have "safe k t (thenM give_back_token (doM []))" if "quiet s t" for t
  proof -
    have "g_wf t" "token_buf t = tok" "left t = left s"
      using that s quiet_left [OF that] by (simp_all add: quiet_def)
    then have "safe k t give_back_token" using s(4) by (intro safe_give_back) auto
    then show ?thesis by (auto simp: safe_def thenM_def bindM_def split: sum.splits)
  qed
  then have no: "safe k s (doM [place_label else_lab, give_back_token])"
    unfolding doM.simps(2) [of "place_label else_lab"]
    by (intro safe_then_quiet quiet_intros never_intros) simp
  show "safe k s (if tok = ''else'' then
       bindM gen_label (\<lambda>fi_lab.
       doM [emit 0xe9, emit_label_rel fi_lab, place_label else_lab, block, place_label fi_lab])
     else doM [place_label else_lab, give_back_token])"
    using yes no by simp
qed

lemma bounded_if_statement: "bounded k block \<Longrightarrow> k < n \<Longrightarrow> bounded k (if_statement n block)"
  unfolding if_statement_def by (intro bounded_intros bounded_push_expr_until_brace bounded_else_part)

lemma bounded_while_statement: "bounded k block \<Longrightarrow> k < n \<Longrightarrow> bounded k (while_statement n block)"
  unfolding while_statement_def by (intro bounded_intros bounded_push_expr_until_brace)

lemma bounded_parse_statement: "bounded k block \<Longrightarrow> k < n \<Longrightarrow> bounded k (parse_statement n block tok)"
  unfolding parse_statement_def
  by (intro bounded_intros bounded_if_statement bounded_while_statement)

lemma bounded_field [bounded_intros]: "bounded k (modM (\<lambda>s. s\<lparr>block_depth := h s\<rparr>))"
proof (rule boundedI)
  fix s :: g_state
  show "modM (\<lambda>s. s\<lparr>block_depth := h s\<rparr>) s \<noteq> Inl Fuel" by simp
next
  fix s u s'
  assume s: "g_wf s" "left s \<le> k" and "modM (\<lambda>s. s\<lparr>block_depth := h s\<rparr>) s = Inr (u, s')"
  then have s': "s' = s\<lparr>block_depth := h s\<rparr>" by simp
  have "table_wf s' = table_wf s" unfolding s' by (rule truncate_find(2) [OF block_depth_truncate(1)])
  with s show "g_wf s' \<and> left s' \<le> k" by (simp add: g_wf_def left_def s')
qed

lemma bounded_in_block:
  assumes loop: "bounded k loop" and g: "steps g_rel loop"
  shows "bounded k (in_block loop)"
proof (rule boundedI)
  fix s
  assume s: "g_wf s" "left s \<le> k"
  have tail: "never Fuel (thenM (emit_str [0x81, 0xc4]) (bindM (getM stack_depth) (\<lambda>d'.
      doM [assertM (d' \<ge> d), emit32 (4 * (of_nat d' - of_nat d)),
        modM (\<lambda>s. s\<lparr>stack_depth := d\<rparr>), modM (\<lambda>s. s\<lparr>block_depth := block_depth s - 1\<rparr>)])))" for d
    by (intro never_intros; simp)
  let ?s = "s\<lparr>block_depth := block_depth s + 1\<rparr>"
  have "bounded k (bindM get_token (\<lambda>tok. thenM (assertM (tok = ''{'')) loop))"
    by (intro bounded_intros loop)
  moreover have "g_wf ?s" "left ?s \<le> k"
    using s truncate_find(2) [OF block_depth_truncate(1) [of "block_depth s + 1" s]]
    by (simp_all add: g_wf_def left_def)
  ultimately have "bindM get_token (\<lambda>tok. thenM (assertM (tok = ''{'')) loop) ?s \<noteq> Inl Fuel"
    by (rule boundedD [THEN conjunct1])
  then show "in_block loop s \<noteq> Inl Fuel"
    using tail by (auto simp: in_block_def thenM_def [of "modM _"] thenM_def [of "assertM _"] thenM_def [of loop]
        bindM_def never_def split: sum.splits)
next
  fix s u s'
  assume s: "g_wf s" "left s \<le> k" and run: "in_block loop s = Inr (u, s')"
  let ?s = "s\<lparr>block_depth := block_depth s + 1\<rparr>"
  obtain s0 s1 s2 where tok: "get_token ?s = Inr (''{'', s0)" and body: "loop s0 = Inr ((), s1)"
    and s2: "s2 = emit_all ([0x81, 0xc4] @ bytes32 (4 * (of_nat (stack_depth s1) - of_nat (stack_depth s)))) s1"
    and s': "s' = s2\<lparr>stack_depth := stack_depth s, block_depth := block_depth s1 - 1\<rparr>"
    using in_block_run [OF run] .
  have "g_wf ?s" "left ?s \<le> k"
    using s truncate_find(2) [OF block_depth_truncate(1) [of "block_depth s + 1" s]]
    by (simp_all add: g_wf_def left_def)
  then have "g_wf s0" "left s0 \<le> k"
    using boundedD [OF bounded_get_token] tok by blast+
  then have "left s1 \<le> k" using boundedD [OF loop] body by blast
  moreover have "left s' = left s1" by (simp add: left_def s' s2 emit_all_def)
  moreover have "g_wf s'" using g_in_block [OF g run] s by (simp add: g_rel_def)
  ultimately show "g_wf s' \<and> left s' \<le> k" by simp
qed

lemma bounded_block_loop: "k < n \<Longrightarrow> bounded k (block_loop n)"
proof (induction n arbitrary: k)
  case (Suc n)
  show ?case unfolding block_loop.simps
  proof (rule bounded_token)
    fix tok s
    assume s: "g_wf s" "token_buf s = tok" "\<not> token_given_back s"
      "left s + (if tok = [] then 0 else 1) \<le> k"
    show "safe k s (thenM (assertM (tok \<noteq> [])) (if tok = ''}'' then retM ()
        else thenM (parse_statement n (in_block (block_loop n)) tok) (block_loop n)))"
    proof (cases "tok = []")
      case True
      then show ?thesis by (simp add: safe_def thenM_def bindM_def)
    next
      case False
      then have k: "k - 1 < n" "left s \<le> k - 1" using s Suc.prems by auto
      note ih = Suc.IH [OF k(1)]
      have "bounded (k - 1) (thenM (assertM (tok \<noteq> [])) (if tok = ''}'' then retM ()
          else thenM (parse_statement n (in_block (block_loop n)) tok) (block_loop n)))"
        by (intro bounded_intros bounded_parse_statement bounded_in_block ih g_block_loop k)
      then show ?thesis by (rule bounded_safe) (use s(1) k(2) in simp_all)
    qed
  qed
qed simp

lemma bounded_parse_block: "k < n \<Longrightarrow> bounded k (parse_block n)"
  unfolding parse_block_def by (intro bounded_in_block bounded_block_loop g_block_loop)

lemma bounded_atoi [bounded_intros]: "bounded k (liftM (atoi a))"
  by (rule bounded_quiet; intro quiet_intros never_intros) (simp add: atoi_def Let_def)

lemma bounded_repeat_emit [bounded_intros]: "bounded k (repeatM n (emit c))"
  by (rule bounded_quiet; intro quiet_intros never_intros) simp

lemma bounded_parse_decl: "k < n \<Longrightarrow> bounded k (parse_decl n tok)"
  unfolding parse_decl_def fun_decl_def ifun_decl_def const_decl_def global_decl_def array_decl_def
  by (intro bounded_intros bounded_parse_block)

lemma bounded_parse: "k < n \<Longrightarrow> bounded k (parse n)"
proof (induction n arbitrary: k)
  case (Suc n)
  show ?case unfolding parse.simps
  proof (rule bounded_token)
    fix tok s
    assume s: "g_wf s" "token_buf s = tok" "\<not> token_given_back s"
      "left s + (if tok = [] then 0 else 1) \<le> k"
    show "safe k s (if tok = [] then retM () else thenM (parse_decl n tok) (parse n))"
    proof (cases "tok = []")
      case True
      with s show ?thesis by (simp add: safe_def)
    next
      case False
      then have k: "k - 1 < n" "left s \<le> k - 1" using s Suc.prems by auto
      have "bounded (k - 1) (thenM (parse_decl n tok) (parse n))"
        by (intro bounded_intros bounded_parse_decl Suc.IH k)
      from bounded_safe [OF this s(1) k(2)] False show ?thesis by simp
    qed
  qed
qed simp

section \<open>Whole programs\<close>

text \<open>The start of a pass, and of the compilation.\<close>

lemma g_wf_start:
  "table_wf s \<Longrightarrow> g_wf (s\<lparr>block_depth := 0, stack_depth := 0, temp_depth := 0\<rparr>)"
  "g_wf s \<Longrightarrow> g_wf (s\<lparr>stage := st, input := file, label_num := 0, current_loc := l\<rparr>)"
proof -
  have "table_wf (s\<lparr>block_depth := 0, stack_depth := 0, temp_depth := 0\<rparr>) = table_wf s"
    "table_wf (s\<lparr>stage := st, input := file, label_num := 0, current_loc := l\<rparr>) = table_wf s"
    by (rule table_wf_cong; simp)+
  then show "table_wf s \<Longrightarrow> g_wf (s\<lparr>block_depth := 0, stack_depth := 0, temp_depth := 0\<rparr>)"
    "g_wf s \<Longrightarrow> g_wf (s\<lparr>stage := st, input := file, label_num := 0, current_loc := l\<rparr>)"
    by (auto simp: g_wf_def)
qed

lemma bounded_emit_preamble [bounded_intros]: "bounded k emit_preamble"
  unfolding emit_preamble_def preamble_entry_def by (intro bounded_intros)

text \<open>A pass after its start.\<close>

lemma compile_pass_start:
  "compile_pass n file l wp st s =
     doM [whenM wp emit_preamble, parse n,
          bindM (getM block_depth) (\<lambda>d. assertM (d = 0)),
          bindM (getM stack_depth) (\<lambda>d. assertM (d = 0)),
          bindM (getM temp_depth) (\<lambda>d. assertM (d = 0))]
       (s\<lparr>stage := st, input := file, label_num := 0, current_loc := l\<rparr>)"
  by (simp add: compile_pass_def thenM_def [of "modM _"] bindM_def [of "modM _"])

lemma compile_pass_safe:
  assumes "g_wf s"
  shows "safe (length file + 1) s (compile_pass (length file + 2) file l wp st)"
proof -
  let ?k = "length file + 1" and ?s = "s\<lparr>stage := st, input := file, label_num := 0, current_loc := l\<rparr>"
  have "bounded ?k (whenM wp emit_preamble)"
    unfolding whenM_def by (intro bounded_intros)
  moreover have "bounded ?k (parse (length file + 2))" by (rule bounded_parse) simp
  ultimately have "bounded ?k (doM [whenM wp emit_preamble, parse (length file + 2),
          bindM (getM block_depth) (\<lambda>d. assertM (d = 0)),
          bindM (getM stack_depth) (\<lambda>d. assertM (d = 0)),
          bindM (getM temp_depth) (\<lambda>d. assertM (d = 0))])" (is "bounded _ ?m")
    by (intro bounded_intros)
  moreover have "left ?s \<le> ?k" by (simp add: left_def)
  ultimately show ?thesis
    using boundedD [OF _ g_wf_start(2) [OF assms]] unfolding safe_def compile_pass_start by blast
qed

text \<open>C7: \<open>compile2\<close> terminates on every input. The step count that \<open>compile\<close> supplies, two more
  than the length of the file, is enough: no loop of either pass runs out of steps, whatever the
  file, so every run ends with a result or with a panic of the code (or an access outside the
  token buffer).\<close>

theorem compile_enough:
  assumes "table_wf s"
  shows "compile file start_loc with_preamble s \<noteq> Inl Fuel"
proof -
  let ?p = "\<lambda>st. compile_pass (length file + 2) file start_loc with_preamble st"
  let ?s = "s\<lparr>block_depth := 0, stack_depth := 0, temp_depth := 0\<rparr>"
  have s0: "safe (length file + 1) ?s (?p 0)"
    using compile_pass_safe [OF g_wf_start(1) [OF assms]] .
  have "?p 1 t \<noteq> Inl Fuel" if "?p 0 ?s = Inr ((), t)" for t
  proof -
    have "g_wf t" using s0 that by (simp add: safe_def)
    from compile_pass_safe [OF this] show ?thesis by (simp add: safe_def)
  qed
  with s0 show ?thesis
    by (auto simp: compile_def compile_steps_def thenM_def bindM_def safe_def split: sum.splits)
qed

lemma compile_pass_rel:
  assumes "compile_pass n file l wp st s = Inr (u, s')"
  shows "g_rel (s\<lparr>stage := st, input := file, label_num := 0, current_loc := l\<rparr>) s' \<and>
    block_depth s' = 0 \<and> stack_depth s' = 0 \<and> temp_depth s' = 0"
proof -
  let ?s = "s\<lparr>stage := st, input := file, label_num := 0, current_loc := l\<rparr>"
  obtain t where run: "thenM (whenM wp emit_preamble) (parse n) ?s = Inr ((), t)" and s': "s' = t"
    and d: "block_depth t = 0 \<and> stack_depth t = 0 \<and> temp_depth t = 0"
    using assms unfolding compile_pass_start by (auto simp: thenM_run bindM_run)
  have "steps g_rel (thenM (whenM wp emit_preamble) (parse n))" by (intro g_intros)
  from stepsD [OF this run] d show ?thesis by (simp add: s')
qed

text \<open>C13: a program that compiles. The final location is the start address plus the number of
  bytes written, the symbol table is well formed, and no block, variable or temporary is left
  open.\<close>

theorem compile_output:
  assumes "table_wf s" "emitted s = []" "compile file start_loc with_preamble s = Inr (u, s')"
  shows "current_loc s' = start_loc + of_nat (length (emitted s')) \<and> table_wf s' \<and>
    block_depth s' = 0 \<and> stack_depth s' = 0 \<and> temp_depth s' = 0"
proof -
  let ?p = "compile_pass (length file + 2) file start_loc with_preamble"
  let ?s = "s\<lparr>block_depth := 0, stack_depth := 0, temp_depth := 0\<rparr>"
  obtain s1 s2 where p0: "?p 0 ?s = Inr ((), s1)" and p1: "?p 1 s1 = Inr ((), s2)" and s': "s' = s2\<lparr>stage := 2\<rparr>"
    using assms(3) by (auto simp: compile_def compile_steps_def run_simps)
  note r0 = compile_pass_rel [OF p0] and r1 = compile_pass_rel [OF p1]
  have "g_wf s1" using r0 g_wf_start(2) [OF g_wf_start(1) [OF assms(1)]] by (simp add: g_rel_def)
  then have "g_wf s2" using r1 g_wf_start(2) by (simp add: g_rel_def)
  moreover have "emitted s1 = []" using r0 assms(2) by (simp add: g_rel_def pass_rel_def)
  ultimately show ?thesis using r1 by (auto simp: s' g_rel_def pass_rel_def g_wf_def)
qed

section \<open>The code of loops and conditionals\<close>

text \<open>In the second pass a label reference is a jump to where the label is.\<close>

lemma emit_label_rel_run:
  assumes "stage s = 1" "emit_label_rel lab s = Inr (u, s')"
  shows "\<exists>l a rel. find_symbol (write_label lab) s = Some (l, a) \<and> s' = emit_all (bytes32 rel) s \<and>
    current_loc s' + rel = l"
proof -
  from assms obtain l a where "find_symbol (write_label lab) s = Some (l, a)"
    and "s' = emit_all (bytes32 (l - current_loc s - 4)) s"
    by (auto simp: emit_label_rel_def get_symbol_def compute_rel_def run_simps emit32_eval split: option.splits)
  then show ?thesis
    by (intro exI [of _ l] exI [of _ a] exI [of _ "l - current_loc s - 4"]) simp
qed

lemma place_label_run:
  "stage s = 1 \<Longrightarrow> place_label lab s = Inr (u, s') \<longleftrightarrow> find_symbol (write_label lab) s = Some (current_loc s, - 1) \<and> s' = s"
  by (auto simp: place_label_def bindM_run add_symbol_wrapper_stage1)

lemma emit_str_eval: "emit_str bs s = Inr ((), emit_all bs s)"
  by (simp add: emit_str_def doM_emit)

lemma gen_label_run: "gen_label s = Inr (n, s') \<longleftrightarrow> n = label_num s \<and> s' = s\<lparr>label_num := n + 1\<rparr>"
  by (auto simp: gen_label_def run_simps)

lemma g_find: "g_rel s s' \<Longrightarrow> stage s = 1 \<Longrightarrow> find_symbol n s' = find_symbol n s \<and> stage s' = 1"
  by (simp add: g_rel_def pass_rel_def)

text \<open>Bytes written since: \<open>wrote s s' bs\<close> says that a second-pass run wrote \<open>bs\<close>.\<close>

definition wrote :: "'a core_scheme \<Rightarrow> 'a core_scheme \<Rightarrow> byte list \<Rightarrow> bool" where
  "wrote s s' bs \<longleftrightarrow> stage s = 1 \<and> stage s' = 1 \<and> emitted s' = emitted s @ bs \<and>
     current_loc s' = current_loc s + of_nat (length bs) \<and> (\<forall>n. find_symbol n s' = find_symbol n s)"

lemma wrote_refl: "stage s = 1 \<Longrightarrow> wrote s s []"
  by (simp add: wrote_def)

lemma wrote_trans: "wrote s t bs \<Longrightarrow> wrote t u cs \<Longrightarrow> wrote s u (bs @ cs)"
  by (simp add: wrote_def add.assoc)

lemma wrote_emit_all: "stage s = 1 \<Longrightarrow> wrote s (emit_all bs s) bs"
  by (simp add: wrote_def)

lemma g_wrote:
  assumes "g_rel s s'" "stage s = 1"
  obtains bs where "wrote s s' bs"
  using assms by (auto simp: g_rel_def pass_rel_def wrote_def)

lemma truncate_wrote:
  fixes s s' :: g_state
  assumes "core.truncate s' = core.truncate s" "stage s = 1"
  shows "wrote s s' []"
proof -
  have "find_symbol n s' = find_symbol n s" for n using assms(1) by (rule truncate_find(1))
  moreover have "stage s' = stage s" "emitted s' = emitted s" "current_loc s' = current_loc s"
    using assms(1) by (simp_all add: core.truncate_def)
  ultimately show ?thesis using assms(2) by (simp add: wrote_def)
qed

lemma pop_var_wrote: "pop_var b s = Inr (u, s') \<Longrightarrow> stage s = 1 \<Longrightarrow> wrote s s' []"
  by (rule truncate_wrote) (auto simp: pop_var_def run_simps core.truncate_def split: if_splits)

lemma gen_label_wrote: "gen_label s = Inr (n, s') \<Longrightarrow> stage s = 1 \<Longrightarrow> wrote s s' []"
  by (rule truncate_wrote) (auto simp: gen_label_run core.truncate_def)

lemma back_distance: "c + r = a \<Longrightarrow> c = a + b \<Longrightarrow> r = - (b :: i32)"
  by (simp add: algebra_simps eq_neg_iff_add_eq_0)

text \<open>Two states that read the same source text next.\<close>

definition same_source :: "g_state \<Rightarrow> g_state \<Rightarrow> bool" where
  "same_source s t \<longleftrightarrow> input t = input s \<and> token_given_back t = token_given_back s \<and> token_buf t = token_buf s"

lemma same_source_emit: "same_source s (emit_all bs s)"
  by (simp add: same_source_def emit_all_def)

lemma same_source_trans: "same_source s t \<Longrightarrow> same_source t u \<Longrightarrow> same_source s u"
  by (simp add: same_source_def)

lemma gen_label_source: "gen_label s = Inr (n, s') \<Longrightarrow> same_source s s'"
  by (simp add: gen_label_run same_source_def)

lemma pop_var_source: "pop_var b s = Inr (u, s') \<Longrightarrow> same_source s s'"
  by (auto simp: pop_var_def run_simps same_source_def split: if_splits)

text \<open>C8: the code of a \<open>while\<close> statement. In the second pass the statement writes the code of its condition, a test
  that jumps if the popped value is zero, the code of its body, and a jump. The condition is compiled from the
  source and at the place where the statement starts, the body from the source that follows the condition and right
  after the first jump. That jump skips exactly the body and the jump behind it, which take \<open>length body + 5\<close> bytes; the last
  jump goes back over the whole statement, to the first byte of the condition.\<close>

theorem while_statement_code:
  assumes "stage s = 1" "while_statement n (parse_block k) s = Inr (u, s')"
  shows "\<exists>s0 s1 s2 s3 cond body exit_rel back_rel code.
    wrote s s0 [] \<and> same_source s s0 \<and> push_expr_until_brace n s0 = Inr ((), s1) \<and> wrote s0 s1 cond \<and>
    wrote s s2 (cond @ [0x58, 0x83, 0xf8, 0x00, 0x0f, 0x84] @ bytes32 exit_rel) \<and> same_source s1 s2 \<and>
    parse_block k s2 = Inr ((), s3) \<and> wrote s2 s3 body \<and>
    code = cond @ [0x58, 0x83, 0xf8, 0x00, 0x0f, 0x84] @ bytes32 exit_rel @ body @ [0xe9] @ bytes32 back_rel \<and>
    wrote s s' code \<and> same_source s3 s' \<and>
    exit_rel = of_nat (length body + 5) \<and> back_rel = - of_nat (length code)"
proof -
  obtain a b t0 t1 t2 t3 t4 t5 t6 t7 where lab: "gen_label s = Inr (a, t0)" "gen_label t0 = Inr (b, t1)"
    and restart: "place_label a t1 = Inr ((), t2)" and c: "push_expr_until_brace n t2 = Inr ((), t3)"
    and pop: "pop_var True t3 = Inr ((), t4)"
    and exit_jump: "emit_label_rel b (emit_all [0x58, 0x83, 0xf8, 0x00, 0x0f, 0x84] t4) = Inr ((), t5)"
    and body: "parse_block k t5 = Inr ((), t6)"
    and back_jump: "emit_label_rel a (emit_all [0xe9] t6) = Inr ((), t7)"
    and end_label: "place_label b t7 = Inr ((), s')"
    using assms(2) by (auto simp: while_statement_def run_simps emit_str_eval emit_is_emit_all)
  have st: "stage t0 = 1" "stage t1 = 1" using gen_label_wrote lab assms(1) by (auto simp: wrote_def)
  have w1: "wrote s t1 []"
    using wrote_trans [OF gen_label_wrote [OF lab(1) assms(1)] gen_label_wrote [OF lab(2) st(1)]] by simp
  from restart st have t2: "t2 = t1" "find_symbol (write_label a) t1 = Some (current_loc t1, - 1)"
    by (simp_all add: place_label_run)
  obtain cond where w2: "wrote t2 t3 cond"
    using g_wrote [OF stepsD [OF g_push_expr_until_brace c]] t2 st by auto
  then have w3: "wrote t2 t4 cond"
    using wrote_trans [OF w2 pop_var_wrote [OF pop]] by (simp add: wrote_def)
  let ?test = "[0x58, 0x83, 0xf8, 0x00, 0x0f, 0x84] :: byte list"
  have st4: "stage t4 = 1" using w3 by (simp add: wrote_def)
  obtain l x rel where f: "find_symbol (write_label b) t4 = Some (l, x)"
    and t5: "t5 = emit_all (?test @ bytes32 rel) t4" and l: "current_loc t5 + rel = l"
    using emit_label_rel_run [OF _ exit_jump] st4 by (auto simp: emit_all_append)
  have w4: "wrote t2 t5 (cond @ ?test @ bytes32 rel)"
    using wrote_trans [OF w3 wrote_emit_all [OF st4]] by (simp add: t5)
  obtain bd where w5: "wrote t5 t6 bd"
    using g_wrote [OF stepsD [OF g_parse_block body]] w4 by (auto simp: wrote_def)
  have st6: "stage t6 = 1" using w5 by (simp add: wrote_def)
  obtain l' x' rel' where f': "find_symbol (write_label a) t6 = Some (l', x')"
    and t7: "t7 = emit_all ([0xe9] @ bytes32 rel') t6" and l': "current_loc t7 + rel' = l'"
    using emit_label_rel_run [OF _ back_jump] st6 by (auto simp: emit_all_append)
  have st7: "stage t7 = 1" using st6 by (simp add: t7)
  from end_label st7 have s': "s' = t7" "find_symbol (write_label b) t7 = Some (current_loc t7, - 1)"
    by (simp_all add: place_label_run)
  have w6: "wrote t6 t7 ([0xe9] @ bytes32 rel')" using wrote_emit_all [OF st6] by (simp add: t7)
  note w = wrote_trans [OF w1 [folded t2(1)] wrote_trans [OF w4 wrote_trans [OF w5 w6]]]
  let ?code = "cond @ ?test @ bytes32 rel @ bd @ [0xe9] @ bytes32 rel'"
  have whole: "wrote s s' ?code" using w s' t2 by simp
  have "current_loc t5 + rel = current_loc s'"
    using l f s' w4 w5 w6 w3 by (simp add: wrote_def)
  moreover have "wrote t5 s' (bd @ [0xe9] @ bytes32 rel')" using wrote_trans [OF w5 w6] s' by simp
  ultimately have exit_rel: "rel = of_nat (length bd + 5)" by (simp add: wrote_def)
  have "current_loc s' + rel' = current_loc s"
    using l' f' t2 w1 w4 w5 s' by (simp add: wrote_def)
  moreover have "current_loc s' = current_loc s + of_nat (length ?code)" using whole by (simp only: wrote_def)
  ultimately have back_rel: "rel' = - of_nat (length ?code)"
    by (rule back_distance)
  have src: "same_source s t2" "same_source t3 t5" "same_source t6 s'"
    using same_source_trans [OF gen_label_source [OF lab(1)] gen_label_source [OF lab(2)]]
      same_source_trans [OF pop_var_source [OF pop] same_source_emit] same_source_emit [of t6] t2(1) t5 t7 s'(1) by simp_all
  have front: "wrote s t5 (cond @ ?test @ bytes32 rel)" using wrote_trans [OF w1 [folded t2(1)] w4] by simp
  show ?thesis
    by (rule exI [of _ t2], rule exI [of _ t3], rule exI [of _ t5], rule exI [of _ t6], rule exI [of _ cond], rule exI [of _ bd],
        rule exI [of _ rel], rule exI [of _ rel'], rule exI [of _ ?code])
      (intro conjI refl w1 [folded t2(1)] c w2 front body w5 whole src exit_rel back_rel)
qed

lemma give_back_wrote: "give_back_token s = Inr (u, s') \<Longrightarrow> stage s = 1 \<Longrightarrow> wrote s s' []"
  by (rule truncate_wrote) (auto simp: give_back_token_run core.truncate_def)

lemma get_token_wrote: "get_token s = Inr (tok, s') \<Longrightarrow> stage s = 1 \<Longrightarrow> wrote s s' []"
  by (rule truncate_wrote) (auto dest: get_token_run)

text \<open>What follows the first block of an \<open>if\<close>: nothing, or a jump over the second block. The
  label of the second branch is where the code that is run for a false condition starts.\<close>

lemma else_part_code:
  assumes "stage s = 1" "else_part (parse_block k) lab s = Inr (u, s')"
  obtains tok t where "get_token s = Inr (tok, t)" "tok \<noteq> ''else''" "give_back_token t = Inr ((), s')" "wrote s s' []"
      "find_symbol (write_label lab) s = Some (current_loc s', - 1)"
    | t s2 s3 body rel where "get_token s = Inr (''else'', t)" "same_source t s2" "wrote s s2 ([0xe9] @ bytes32 rel)"
      "parse_block k s2 = Inr ((), s3)" "wrote s2 s3 body" "same_source s3 s'" "wrote s s' ([0xe9] @ bytes32 rel @ body)"
      "find_symbol (write_label lab) s = Some (current_loc s2, - 1)" "rel = of_nat (length body)"
proof -
  obtain tok t where tok: "get_token s = Inr (tok, t)"
    and rest: "(if tok = ''else'' then bindM gen_label (\<lambda>fi_lab.
         doM [emit 0xe9, emit_label_rel fi_lab, place_label lab, parse_block k, place_label fi_lab])
       else doM [place_label lab, give_back_token]) t = Inr (u, s')"
    using assms(2) by (auto simp: else_part_def bindM_run [of get_token])
  have w0: "wrote s t []" using get_token_wrote [OF tok assms(1)] .
  then have st: "stage t = 1" by (simp add: wrote_def)
  show thesis
  proof (cases "tok = ''else''")
    case True
    obtain a t1 t3 t4 where lab: "gen_label t = Inr (a, t1)"
      and jump: "emit_label_rel a (emit_all [0xe9] t1) = Inr ((), t3)"
      and place: "place_label lab t3 = Inr ((), t3)" "find_symbol (write_label lab) t3 = Some (current_loc t3, - 1)"
      and body: "parse_block k t3 = Inr ((), t4)" and end_label: "place_label a t4 = Inr ((), s')"
    proof -
      from rest True obtain a t1 t2 t3 t4 where r: "gen_label t = Inr (a, t1)"
        "emit_label_rel a (emit_all [0xe9] t1) = Inr ((), t2)" "place_label lab t2 = Inr ((), t3)"
        "parse_block k t3 = Inr ((), t4)" "place_label a t4 = Inr ((), s')"
        by (auto simp: run_simps emit_is_emit_all)
      have "stage t1 = 1" using gen_label_wrote [OF r(1) st] by (simp add: wrote_def)
      then have "stage t2 = 1" using emit_label_rel_run [OF _ r(2)] by auto
      with r(3) have "t3 = t2 \<and> find_symbol (write_label lab) t2 = Some (current_loc t2, - 1)"
        by (simp add: place_label_run)
      with r that show ?thesis by blast
    qed
    have w1: "wrote t t1 []" using gen_label_wrote [OF lab st] .
    then have st1: "stage t1 = 1" by (simp add: wrote_def)
    obtain l x rel where f: "find_symbol (write_label a) t1 = Some (l, x)"
      and t3: "t3 = emit_all ([0xe9] @ bytes32 rel) t1" and l: "current_loc t3 + rel = l"
      using emit_label_rel_run [OF _ jump] st1 by (auto simp: emit_all_append)
    have w3: "wrote t1 t3 ([0xe9] @ bytes32 rel)" using wrote_emit_all [OF st1] by (simp add: t3)
    obtain bd where w4: "wrote t3 t4 bd"
      using g_wrote [OF stepsD [OF g_parse_block body]] w3 by (auto simp: wrote_def)
    then have "stage t4 = 1" by (simp add: wrote_def)
    with end_label have s': "s' = t4" "find_symbol (write_label a) t4 = Some (current_loc t4, - 1)"
      by (simp_all add: place_label_run)
    have w: "wrote s s' ([0xe9] @ bytes32 rel @ bd)"
      using wrote_trans [OF w0 wrote_trans [OF w1 wrote_trans [OF w3 w4]]] s' by simp
    have "find_symbol (write_label lab) s = Some (current_loc t3, - 1)"
      using place(2) w0 w1 w3 by (simp add: wrote_def)
    moreover have "current_loc t3 + rel = current_loc s'"
      using l f s' w3 w4 by (simp add: wrote_def)
    then have "rel = of_nat (length bd)" using w4 s'(1) by (simp add: wrote_def)
    moreover have "wrote s t3 ([0xe9] @ bytes32 rel)" using wrote_trans [OF w0 wrote_trans [OF w1 w3]] by simp
    moreover have "same_source t t3" using same_source_trans [OF gen_label_source [OF lab] same_source_emit] by (simp add: t3)
    moreover have "same_source t4 s'" by (simp add: s'(1) same_source_def)
    ultimately show thesis using that(2) tok True body w4 w s'(1) by blast
  next
    case False
    with rest obtain t1 where place: "place_label lab t = Inr ((), t1)" and gb: "give_back_token t1 = Inr ((), s')"
      by (auto simp: run_simps)
    from place st have t1: "t1 = t" "find_symbol (write_label lab) t = Some (current_loc t, - 1)"
      by (simp_all add: place_label_run)
    have g: "wrote t s' []" using give_back_wrote [OF gb] st t1 by simp
    have "wrote s s' []" using wrote_trans [OF w0 g] by simp
    moreover have "find_symbol (write_label lab) s = Some (current_loc s', - 1)" using t1(2) w0 g by (simp add: wrote_def)
    ultimately show thesis using that(1) tok False gb t1(1) by blast
  qed
qed

text \<open>C9: the code of an \<open>if\<close> statement. In the second pass the statement writes the code of its condition, a test that
  jumps if the popped value is zero, and the code of the first block, which is compiled from the source that follows
  the condition and right after the jump. Without an \<open>else\<close> that is all, the token read in its place is given back, and
  the jump skips exactly the first block. With an \<open>else\<close> an unconditional jump and the code of the second block follow,
  compiled from the source after \<open>else\<close> and right after that jump: the first jump skips the first block and the second jump,
  \<open>length body + 5\<close> bytes, so that it leads to the second block; the second one skips exactly the second block.\<close>

theorem if_statement_code:
  assumes "stage s = 1" "if_statement n (parse_block k) s = Inr (u, s')"
  shows "\<exists>s1 s2 s3 tok t cond body rel front.
    push_expr_until_brace n s = Inr ((), s1) \<and> wrote s s1 cond \<and>
    front = cond @ [0x58, 0x83, 0xf8, 0x00, 0x0f, 0x84] @ bytes32 rel \<and> wrote s s2 front \<and> same_source s1 s2 \<and>
    parse_block k s2 = Inr ((), s3) \<and> wrote s2 s3 body \<and> get_token s3 = Inr (tok, t) \<and>
    (if tok = ''else'' then
       (\<exists>s4 s5 body2 rel2. wrote s s4 (front @ body @ [0xe9] @ bytes32 rel2) \<and> same_source t s4 \<and>
         parse_block k s4 = Inr ((), s5) \<and> wrote s4 s5 body2 \<and>
         wrote s s' (front @ body @ [0xe9] @ bytes32 rel2 @ body2) \<and> same_source s5 s' \<and>
         rel = of_nat (length body + 5) \<and> rel2 = of_nat (length body2))
     else wrote s s' (front @ body) \<and> give_back_token t = Inr ((), s') \<and> rel = of_nat (length body))"
proof -
  let ?test = "[0x58, 0x83, 0xf8, 0x00, 0x0f, 0x84] :: byte list"
  obtain a t1 t2 t3 t4 t5 where c: "push_expr_until_brace n s = Inr ((), t1)"
    and lab: "gen_label t1 = Inr (a, t2)" and pop: "pop_var True t2 = Inr ((), t3)"
    and jump: "emit_label_rel a (emit_all ?test t3) = Inr ((), t4)"
    and body: "parse_block k t4 = Inr ((), t5)"
    and tail: "else_part (parse_block k) a t5 = Inr ((), s')"
    using assms(2) by (auto simp: if_statement_def run_simps emit_str_eval)
  obtain cond where w1: "wrote s t1 cond"
    using g_wrote [OF stepsD [OF g_push_expr_until_brace c]] assms(1) by auto
  then have "stage t1 = 1" by (simp add: wrote_def)
  note w2 = gen_label_wrote [OF lab this]
  then have "stage t2 = 1" by (simp add: wrote_def)
  note w3 = wrote_trans [OF w1 wrote_trans [OF w2 pop_var_wrote [OF pop this]]]
  then have st3: "stage t3 = 1" by (simp add: wrote_def)
  obtain l x rel where f: "find_symbol (write_label a) t3 = Some (l, x)"
    and t4: "t4 = emit_all (?test @ bytes32 rel) t3" and l: "current_loc t4 + rel = l"
    using emit_label_rel_run [OF _ jump] st3 by (auto simp: emit_all_append)
  let ?front = "cond @ ?test @ bytes32 rel"
  have w4: "wrote s t4 ?front" using wrote_trans [OF w3 wrote_emit_all [OF st3]] by (simp add: t4)
  have src: "same_source t1 t4"
    using same_source_trans [OF gen_label_source [OF lab] same_source_trans [OF pop_var_source [OF pop] same_source_emit]] t4 by simp
  obtain bd where w5: "wrote t4 t5 bd"
    using g_wrote [OF stepsD [OF g_parse_block body]] w4 by (auto simp: wrote_def)
  then have st5: "stage t5 = 1" by (simp add: wrote_def)
  have target: "find_symbol (write_label a) t5 = Some (l, x)" using f w3 w4 w5 by (simp add: wrote_def)
  note w = wrote_trans [OF w4 w5]
  show ?thesis
  proof (rule else_part_code [OF st5 tail])
    fix tok t
    assume e: "get_token t5 = Inr (tok, t)" "tok \<noteq> ''else''" "give_back_token t = Inr ((), s')" "wrote t5 s' []"
      "find_symbol (write_label a) t5 = Some (current_loc s', - 1)"
    have "rel = of_nat (length bd)" using e(4,5) target l w5 by (auto simp: wrote_def)
    moreover have "wrote s s' (?front @ bd)" using wrote_trans [OF w e(4)] by simp
    ultimately show ?thesis using c w1 w4 src body w5 e(1-3)
      by (intro exI [of _ t1] exI [of _ t4] exI [of _ t5] exI [of _ tok] exI [of _ t] exI [of _ cond] exI [of _ bd]
          exI [of _ rel] exI [of _ ?front]) simp
  next
    fix t s4 s5 body2 rel2
    assume e: "get_token t5 = Inr (''else'', t)" "same_source t s4" "wrote t5 s4 ([0xe9] @ bytes32 rel2)"
      "parse_block k s4 = Inr ((), s5)" "wrote s4 s5 body2" "same_source s5 s'" "wrote t5 s' ([0xe9] @ bytes32 rel2 @ body2)"
      "find_symbol (write_label a) t5 = Some (current_loc s4, - 1)" "rel2 = of_nat (length body2)"
    have "wrote t4 s4 (bd @ [0xe9] @ bytes32 rel2)" using wrote_trans [OF w5 e(3)] by simp
    then have "rel = of_nat (length bd + 5)" using e(8) target l by (auto simp: wrote_def)
    moreover have "wrote s s4 (?front @ bd @ [0xe9] @ bytes32 rel2)" "wrote s s' (?front @ bd @ [0xe9] @ bytes32 rel2 @ body2)"
      using wrote_trans [OF w e(3)] wrote_trans [OF w e(7)] by simp_all
    ultimately have "wrote s s4 (?front @ bd @ [0xe9] @ bytes32 rel2) \<and> same_source t s4 \<and>
        parse_block k s4 = Inr ((), s5) \<and> wrote s4 s5 body2 \<and>
        wrote s s' (?front @ bd @ [0xe9] @ bytes32 rel2 @ body2) \<and> same_source s5 s' \<and>
        rel = of_nat (length bd + 5) \<and> rel2 = of_nat (length body2)"
      using e by blast
    then show ?thesis using c w1 w4 src body w5 e(1)
      by (intro exI [of _ t1] exI [of _ t4] exI [of _ t5] exI [of _ "''else''"] exI [of _ t] exI [of _ cond] exI [of _ bd]
          exI [of _ rel] exI [of _ ?front] conjI refl) (simp_all only: if_True simp_thms, blast)
  qed
qed

section \<open>Small programs\<close>

text \<open>The second pass in front of a statement on \<open>inp\<close>, with the labels \<open>.0\<close> and \<open>.1\<close>.\<close>

definition label_state :: "i32 \<Rightarrow> i32 \<Rightarrow> string \<Rightarrow> g_state" where
  "label_state l0 l1 inp = empty_g\<lparr>stage := 1, symbol_num := 2,
     symbol_names := (\<lambda>_. [])(0 := ''.0'', 1 := ''.1''), symbol_locs := (\<lambda>_. 0)(0 := l0, 1 := l1),
     symbol_arities := \<lambda>_. - 1, input := inp\<rparr>"

lemma empty_g_wf: "table_wf empty_g" "emitted empty_g = []"
  by (simp_all add: table_wf_def empty_g_def SYMBOL_TABLE_LEN_def)

definition returns :: "err + 'a \<Rightarrow> bool" where
  "returns r = (case r of Inl e \<Rightarrow> False | Inr a \<Rightarrow> True)"

lemma returnsE: "returns (m s) \<Longrightarrow> (\<And>s'. m s = Inr ((), s') \<Longrightarrow> P) \<Longrightarrow> P"
  by (cases "m s") (auto simp: returns_def)

lemma example_runs:
  "returns (while_statement 4 (parse_block 4) (label_state 0 26 ''1 { }''))"
  "returns (if_statement 4 (parse_block 4) (label_state 26 32 ''1 { } else { } ''))"
  "returns (parse_block 4 (label_state 0 0 ''{ $x 5 ; }''))"
  "returns (compile ''fun main 0 { 1 ret ; }'' 0 False empty_g)"
  by code_simp+

theorem while_statement_code_witness:
  "\<exists>s' cond body exit_rel back_rel code.
    while_statement 4 (parse_block 4) (label_state 0 26 ''1 { }'') = Inr ((), s') \<and>
    code = cond @ [0x58, 0x83, 0xf8, 0x00, 0x0f, 0x84] @ bytes32 exit_rel @ body @ [0xe9] @ bytes32 back_rel \<and>
    wrote (label_state 0 26 ''1 { }'') s' code \<and>
    exit_rel = of_nat (length body + 5) \<and> back_rel = - of_nat (length code)"
proof -
  obtain s' where run: "while_statement 4 (parse_block 4) (label_state 0 26 ''1 { }'') = Inr ((), s')"
    using example_runs(1) by (rule returnsE)
  have "stage (label_state 0 26 ''1 { }'') = 1" by (simp add: label_state_def empty_g_def)
  from while_statement_code [OF this run] run show ?thesis by blast
qed

theorem if_statement_code_witness:
  "\<exists>s' cond body rel rest.
    if_statement 4 (parse_block 4) (label_state 26 32 ''1 { } else { } '') = Inr ((), s') \<and>
    wrote (label_state 26 32 ''1 { } else { } '') s'
      (cond @ [0x58, 0x83, 0xf8, 0x00, 0x0f, 0x84] @ bytes32 rel @ body @ rest) \<and>
    (rel = of_nat (length body + 5) \<or> rest = [] \<and> rel = of_nat (length body))"
proof -
  obtain s' where run: "if_statement 4 (parse_block 4) (label_state 26 32 ''1 { } else { } '') = Inr ((), s')"
    using example_runs(2) by (rule returnsE)
  have "stage (label_state 26 32 ''1 { } else { } '') = 1" by (simp add: label_state_def empty_g_def)
  from if_statement_code [OF this run] obtain s3 tok t cond body rel front where
    front: "front = cond @ [0x58, 0x83, 0xf8, 0x00, 0x0f, 0x84] @ bytes32 rel"
    and rest: "if tok = ''else'' then
       (\<exists>s4 s5 body2 rel2. wrote (label_state 26 32 ''1 { } else { } '') s4 (front @ body @ [0xe9] @ bytes32 rel2) \<and> same_source t s4 \<and>
         parse_block 4 s4 = Inr ((), s5) \<and> wrote s4 s5 body2 \<and>
         wrote (label_state 26 32 ''1 { } else { } '') s' (front @ body @ [0xe9] @ bytes32 rel2 @ body2) \<and> same_source s5 s' \<and>
         rel = of_nat (length body + 5) \<and> rel2 = of_nat (length body2))
     else wrote (label_state 26 32 ''1 { } else { } '') s' (front @ body) \<and> give_back_token t = Inr ((), s') \<and> rel = of_nat (length body)"
    by (elim exE conjE) (rule that, assumption+)
  show ?thesis
  proof (cases "tok = ''else''")
    case True
    then obtain rel2 body2 where "wrote (label_state 26 32 ''1 { } else { } '') s' (front @ body @ [0xe9] @ bytes32 rel2 @ body2)"
      "rel = of_nat (length body + 5)" using rest by (simp only: if_True simp_thms) blast
    then have "wrote (label_state 26 32 ''1 { } else { } '') s'
        (cond @ [0x58, 0x83, 0xf8, 0x00, 0x0f, 0x84] @ bytes32 rel @ body @ [0xe9] @ bytes32 rel2 @ body2)"
      "rel = of_nat (length body + 5)" by (simp_all add: front)
    with run show ?thesis by blast
  next
    case False
    then have "wrote (label_state 26 32 ''1 { } else { } '') s' (front @ body)" "rel = of_nat (length body)"
      using rest by simp_all
    then have "wrote (label_state 26 32 ''1 { } else { } '') s' (cond @ [0x58, 0x83, 0xf8, 0x00, 0x0f, 0x84] @ bytes32 rel @ body @ [])"
      "rel = of_nat (length body)" by (simp_all only: front append_assoc append_Nil2)
    with run show ?thesis by blast
  qed
qed

theorem parse_block_balanced_witness:
  "\<exists>s'. parse_block 4 (label_state 0 0 ''{ $x 5 ; }'') = Inr ((), s') \<and> stack_depth s' = 0 \<and> block_depth s' = 0"
proof -
  let ?s = "(label_state 0 0 ''{ $x 5 ; }'') :: g_state"
  obtain s' where run: "parse_block 4 ?s = Inr ((), s')"
    using example_runs(3) by (rule returnsE)
  have "inj_on (symbol_names ?s) {..<2}"
    by (auto simp: inj_on_def label_state_def numeral_2_eq_2 less_Suc_eq)
  then have "g_wf ?s"
    by (auto simp: g_wf_def table_wf_def label_state_def empty_g_def SYMBOL_TABLE_LEN_def
        MAX_SYMBOL_NAME_LEN_def numeral_2_eq_2 less_Suc_eq)
  from parse_block_balanced [OF run this] run show ?thesis
    by (simp add: label_state_def empty_g_def)
qed

theorem compile_enough_witness:
  "compile ''fun main 0 { 1 if { 2 '' 0 True empty_g \<noteq> Inl Fuel"
  by (rule compile_enough [OF empty_g_wf(1)])

theorem compile_output_witness:
  "\<exists>s'. compile ''fun main 0 { 1 ret ; }'' 0 False empty_g = Inr ((), s') \<and>
     current_loc s' = of_nat (length (emitted s')) \<and> stack_depth s' = 0"
proof -
  obtain s' where run: "compile ''fun main 0 { 1 ret ; }'' 0 False empty_g = Inr ((), s')"
    using example_runs(4) by (rule returnsE)
  from compile_output [OF empty_g_wf run] run show ?thesis by simp
qed

end
