(* ===== verification/Machine.thy ===== *)
theory Machine
  imports Passes "HOL-Library.Signed_Division" "HOL-Library.Sublist"
begin

text \<open>
  The processor that runs the code of the two compilers, as far as their expressions use it: the
  registers \<open>eip\<close>, \<open>eax\<close>, \<open>ecx\<close>, \<open>edx\<close> and \<open>ebp\<close>, the operands of the last comparison, the stack as a list of
  words with the top first, and a memory of bytes that holds the program. The encodings and the effect of
  the instructions are those of the processor manual. Code that a compiler emits is
  run by decoding its bytes; \<open>computes\<close> says what a piece of code does to the values on the stack.
\<close>

section \<open>Instructions\<close>

datatype alu = AddOp | SubOp | AndOp | OrOp | XorOp | CmpOp

datatype cond = CE | CNE | CL | CLE | CG | CGE

datatype instr = PushImm i32 | PushStk i32 | PushEax | AddEsp i32 | LoadArg | AddArg | SubArg
  | MovEax i32 | PushMem | CallRel i32 | Ret
  | PopEax | PopEcx | LoadStk i32 | EaxEcx alu | XorEax | XorEdx | MovEaxEdx | ImulEcx | IdivEcx
  | ShlCl | ShrCl | NotEax | CmpEax byte | CmpEcx byte | Jcc cond byte | Jmp byte | CallEax
  | PushEcx | MovEaxEsp | AddEaxImm i32 | StoreEcx | AddEsp8 byte | SubEsp8 byte | JeNear i32 | JmpNear i32
  | PushEbp | MovEbpEsp | PopEbp

record cpu =
  eip :: i32
  eax :: i32
  ecx :: i32
  edx :: i32
  ebp :: i32
  cmp :: "(i32 \<times> i32) option"
  stk :: "i32 list"
  bottom :: i32
  below :: "nat \<Rightarrow> i32"

type_synonym memory = "i32 \<Rightarrow> byte"

definition window :: "memory \<Rightarrow> i32 \<Rightarrow> nat \<Rightarrow> byte list" where
  "window mem a n = map (\<lambda>i. mem (a + of_nat i)) [0..<n]"

definition load :: "memory \<Rightarrow> i32 \<Rightarrow> i32 option" where
  "load mem a = le32 (window mem a 4)"

definition with_imm :: "(i32 \<Rightarrow> instr) \<Rightarrow> byte list \<Rightarrow> instr option" where
  "with_imm c bs = map_option c (le32 bs)"

definition with_imm8 :: "(byte \<Rightarrow> instr) \<Rightarrow> byte list \<Rightarrow> instr option" where
  "with_imm8 c bs = (case bs of [] \<Rightarrow> None | b # _ \<Rightarrow> Some (c b))"

text \<open>The second result is the length of the instruction.\<close>

definition decode :: "byte list \<Rightarrow> (instr option \<times> nat)" where
  "decode bs =
     (if prefix [0x68] bs then (with_imm PushImm (drop 1 bs), 5)
      else if prefix [0xff, 0xb4, 0x24] bs then (with_imm PushStk (drop 3 bs), 7)
      else if prefix [0xff, 0x30] bs then (Some PushMem, 2)
      else if prefix [0x50] bs then (Some PushEax, 1)
      else if prefix [0x81, 0xc4] bs then (with_imm AddEsp (drop 2 bs), 6)
      else if prefix [0x8b, 0x44, 0x24, 0x04] bs then (Some LoadArg, 4)
      else if prefix [0x03, 0x44, 0x24, 0x08] bs then (Some AddArg, 4)
      else if prefix [0x2b, 0x44, 0x24, 0x08] bs then (Some SubArg, 4)
      else if prefix [0xb8] bs then (with_imm MovEax (drop 1 bs), 5)
      else if prefix [0xe8] bs then (with_imm CallRel (drop 1 bs), 5)
      else if prefix [0xc3] bs then (Some Ret, 1)
      else if prefix [0x58] bs then (Some PopEax, 1)
      else if prefix [0x59] bs then (Some PopEcx, 1)
      else if prefix [0x8b, 0x84, 0x24] bs then (with_imm LoadStk (drop 3 bs), 7)
      else if prefix [0x01, 0xc8] bs then (Some (EaxEcx AddOp), 2)
      else if prefix [0x29, 0xc8] bs then (Some (EaxEcx SubOp), 2)
      else if prefix [0x21, 0xc8] bs then (Some (EaxEcx AndOp), 2)
      else if prefix [0x09, 0xc8] bs then (Some (EaxEcx OrOp), 2)
      else if prefix [0x31, 0xc8] bs then (Some (EaxEcx XorOp), 2)
      else if prefix [0x39, 0xc8] bs then (Some (EaxEcx CmpOp), 2)
      else if prefix [0x31, 0xc0] bs then (Some XorEax, 2)
      else if prefix [0x31, 0xd2] bs then (Some XorEdx, 2)
      else if prefix [0x89, 0xd0] bs then (Some MovEaxEdx, 2)
      else if prefix [0xf7, 0xe9] bs then (Some ImulEcx, 2)
      else if prefix [0xf7, 0xf9] bs then (Some IdivEcx, 2)
      else if prefix [0xd3, 0xe0] bs then (Some ShlCl, 2)
      else if prefix [0xd3, 0xe8] bs then (Some ShrCl, 2)
      else if prefix [0xf7, 0xd0] bs then (Some NotEax, 2)
      else if prefix [0x83, 0xf8] bs then (with_imm8 CmpEax (drop 2 bs), 3)
      else if prefix [0x83, 0xf9] bs then (with_imm8 CmpEcx (drop 2 bs), 3)
      else if prefix [0x74] bs then (with_imm8 (Jcc CE) (drop 1 bs), 2)
      else if prefix [0x75] bs then (with_imm8 (Jcc CNE) (drop 1 bs), 2)
      else if prefix [0x7c] bs then (with_imm8 (Jcc CL) (drop 1 bs), 2)
      else if prefix [0x7e] bs then (with_imm8 (Jcc CLE) (drop 1 bs), 2)
      else if prefix [0x7f] bs then (with_imm8 (Jcc CG) (drop 1 bs), 2)
      else if prefix [0x7d] bs then (with_imm8 (Jcc CGE) (drop 1 bs), 2)
      else if prefix [0xeb] bs then (with_imm8 Jmp (drop 1 bs), 2)
      else if prefix [0xff, 0xd0] bs then (Some CallEax, 2)
      else if prefix [0x51] bs then (Some PushEcx, 1)
      else if prefix [0x89, 0xe0] bs then (Some MovEaxEsp, 2)
      else if prefix [0x05] bs then (with_imm AddEaxImm (drop 1 bs), 5)
      else if prefix [0x89, 0x08] bs then (Some StoreEcx, 2)
      else if prefix [0x83, 0xc4] bs then (with_imm8 AddEsp8 (drop 2 bs), 3)
      else if prefix [0x83, 0xec] bs then (with_imm8 SubEsp8 (drop 2 bs), 3)
      else if prefix [0x0f, 0x84] bs then (with_imm JeNear (drop 2 bs), 6)
      else if prefix [0xe9] bs then (with_imm JmpNear (drop 1 bs), 5)
      else if prefix [0x55] bs then (Some PushEbp, 1)
      else if prefix [0x89, 0xe5] bs then (Some MovEbpEsp, 2)
      else if prefix [0x5d] bs then (Some PopEbp, 1)
      else (None, 0))"

definition push :: "i32 \<Rightarrow> cpu \<Rightarrow> cpu" where
  "push v c = c\<lparr>stk := v # stk c\<rparr>"

text \<open>The address of the word on top: the words of the stack end at \<open>bottom\<close>.\<close>

definition esp :: "cpu \<Rightarrow> i32" where
  "esp c = bottom c - 4 * of_nat (length (stk c))"

text \<open>A stack pointer that moves up drops words, one that moves down takes in words that are in the memory below it:
  an arbitrary stream \<open>below\<close>.\<close>

definition drop_words :: "i32 \<Rightarrow> cpu \<Rightarrow> cpu option" where
  "drop_words d c =
     (if unat d div 4 \<le> length (stk c) \<and> unat d mod 4 = 0
      then Some (c\<lparr>stk := drop (unat d div 4) (stk c), cmp := None\<rparr>) else None)"

definition take_words :: "i32 \<Rightarrow> cpu \<Rightarrow> cpu option" where
  "take_words d c =
     (if unat d mod 4 = 0
      then Some (c\<lparr>stk := map (below c) [0..<unat d div 4] @ stk c, below := (\<lambda>i. below c (i + unat d div 4)), cmp := None\<rparr>)
      else None)"

definition alu_result :: "alu \<Rightarrow> i32 \<Rightarrow> i32 \<Rightarrow> i32" where
  "alu_result op a b = (case op of AddOp \<Rightarrow> a + b | SubOp \<Rightarrow> a - b | AndOp \<Rightarrow> a AND b | OrOp \<Rightarrow> a OR b
     | XorOp \<Rightarrow> a XOR b | CmpOp \<Rightarrow> a)"

text \<open>The condition codes after a comparison of two words; the jumps compare them as signed numbers.\<close>

definition holds_cond :: "cond \<Rightarrow> i32 \<times> i32 \<Rightarrow> bool" where
  "holds_cond k ab = (case ab of (a, b) \<Rightarrow> (case k of CE \<Rightarrow> a = b | CNE \<Rightarrow> a \<noteq> b | CL \<Rightarrow> sint a < sint b
     | CLE \<Rightarrow> sint a \<le> sint b | CG \<Rightarrow> sint a > sint b | CGE \<Rightarrow> sint a \<ge> sint b))"

text \<open>Division of the signed double word \<open>edx:eax\<close>, truncating; it traps on a zero divisor and on
  a quotient that does not fit.\<close>

definition idiv :: "cpu \<Rightarrow> cpu option" where
  "idiv c =
     (let dividend = sint (edx c) * 2 ^ 32 + uint (eax c); divisor = sint (ecx c); q = dividend sdiv divisor in
      if divisor = 0 \<or> q < - (2 ^ 31) \<or> 2 ^ 31 \<le> q then None
      else Some (c\<lparr>eax := of_int q, edx := of_int (dividend smod divisor), cmp := None\<rparr>))"

fun exec :: "memory \<Rightarrow> instr \<Rightarrow> cpu \<Rightarrow> cpu option" where
  "exec mem (PushImm v) c = Some (push v c)"
| "exec mem (PushStk d) c =
     (if unat d div 4 < length (stk c) \<and> unat d mod 4 = 0 then Some (push (stk c ! (unat d div 4)) c) else None)"
| "exec mem PushEax c = Some (push (eax c) c)"
| "exec mem (AddEsp d) c = drop_words d c"
| "exec mem LoadArg c = (case stk c of _ # a # _ \<Rightarrow> Some (c\<lparr>eax := a\<rparr>) | _ \<Rightarrow> None)"
| "exec mem AddArg c = (case stk c of _ # _ # b # _ \<Rightarrow> Some (c\<lparr>eax := eax c + b, cmp := None\<rparr>) | _ \<Rightarrow> None)"
| "exec mem SubArg c = (case stk c of _ # _ # b # _ \<Rightarrow> Some (c\<lparr>eax := eax c - b, cmp := None\<rparr>) | _ \<Rightarrow> None)"
| "exec mem (MovEax v) c = Some (c\<lparr>eax := v\<rparr>)"
| "exec mem PushMem c = (case load mem (eax c) of None \<Rightarrow> None | Some v \<Rightarrow> Some (push v c))"
| "exec mem (CallRel d) c = Some (push (eip c) c\<lparr>eip := eip c + d\<rparr>)"
| "exec mem Ret c = (case stk c of r # t \<Rightarrow> Some (c\<lparr>eip := r, stk := t\<rparr>) | _ \<Rightarrow> None)"
| "exec mem PopEax c = (case stk c of v # t \<Rightarrow> Some (c\<lparr>eax := v, stk := t\<rparr>) | _ \<Rightarrow> None)"
| "exec mem PopEcx c = (case stk c of v # t \<Rightarrow> Some (c\<lparr>ecx := v, stk := t\<rparr>) | _ \<Rightarrow> None)"
| "exec mem (LoadStk d) c =
     (if unat d div 4 < length (stk c) \<and> unat d mod 4 = 0 then Some (c\<lparr>eax := stk c ! (unat d div 4)\<rparr>) else None)"
| "exec mem (EaxEcx op) c = Some (c\<lparr>eax := alu_result op (eax c) (ecx c),
     cmp := (if op = CmpOp then Some (eax c, ecx c) else None)\<rparr>)"
| "exec mem XorEax c = Some (c\<lparr>eax := 0, cmp := None\<rparr>)"
| "exec mem XorEdx c = Some (c\<lparr>edx := 0, cmp := None\<rparr>)"
| "exec mem MovEaxEdx c = Some (c\<lparr>eax := edx c\<rparr>)"
| "exec mem ImulEcx c =
     (let p = sint (eax c) * sint (ecx c) in Some (c\<lparr>eax := of_int p, edx := of_int (p div 2 ^ 32), cmp := None\<rparr>))"
| "exec mem IdivEcx c = idiv c"
| "exec mem ShlCl c = Some (c\<lparr>eax := push_bit (unat (ecx c) mod 32) (eax c), cmp := None\<rparr>)"
| "exec mem ShrCl c = Some (c\<lparr>eax := drop_bit (unat (ecx c) mod 32) (eax c), cmp := None\<rparr>)"
| "exec mem NotEax c = Some (c\<lparr>eax := NOT (eax c)\<rparr>)"
| "exec mem (CmpEax b) c = Some (c\<lparr>cmp := Some (eax c, scast b)\<rparr>)"
| "exec mem (CmpEcx b) c = Some (c\<lparr>cmp := Some (ecx c, scast b)\<rparr>)"
| "exec mem (Jcc k d) c = (case cmp c of None \<Rightarrow> None
     | Some ab \<Rightarrow> Some (if holds_cond k ab then c\<lparr>eip := eip c + scast d\<rparr> else c))"
| "exec mem (Jmp d) c = Some (c\<lparr>eip := eip c + scast d\<rparr>)"
| "exec mem CallEax c = Some (push (eip c) c\<lparr>eip := eax c\<rparr>)"
| "exec mem PushEcx c = Some (push (ecx c) c)"
| "exec mem MovEaxEsp c = Some (c\<lparr>eax := esp c\<rparr>)"
| "exec mem (AddEaxImm v) c = Some (c\<lparr>eax := eax c + v, cmp := None\<rparr>)"
| "exec mem StoreEcx c =
     (let d = unat (eax c - esp c) in
      if d div 4 < length (stk c) \<and> d mod 4 = 0 then Some (c\<lparr>stk := (stk c)[d div 4 := ecx c]\<rparr>) else None)"
| "exec mem (AddEsp8 b) c = drop_words (scast b) c"
| "exec mem (SubEsp8 b) c = take_words (scast b) c"
| "exec mem (JeNear d) c = (case cmp c of None \<Rightarrow> None
     | Some ab \<Rightarrow> Some (if holds_cond CE ab then c\<lparr>eip := eip c + d\<rparr> else c))"
| "exec mem (JmpNear d) c = Some (c\<lparr>eip := eip c + d\<rparr>)"
| "exec mem PushEbp c = Some (push (ebp c) c)"
| "exec mem MovEbpEsp c = Some (c\<lparr>ebp := esp c\<rparr>)"
| "exec mem PopEbp c = (case stk c of v # t \<Rightarrow> Some (c\<lparr>ebp := v, stk := t\<rparr>) | _ \<Rightarrow> None)"

text \<open>One step: the instruction is decoded and \<open>eip\<close> moves behind it before it is executed.\<close>

definition step :: "memory \<Rightarrow> cpu \<Rightarrow> cpu option" where
  "step mem c =
     (case decode (window mem (eip c) 7) of
        (None, _) \<Rightarrow> None
      | (Some i, len) \<Rightarrow> exec mem i (c\<lparr>eip := eip c + of_nat len\<rparr>))"

inductive runs :: "memory \<Rightarrow> cpu \<Rightarrow> cpu \<Rightarrow> bool" for mem where
  runs_refl: "runs mem c c"
| runs_step: "step mem c = Some d \<Longrightarrow> runs mem d e \<Longrightarrow> runs mem c e"

lemma runs_trans: "runs mem a b \<Longrightarrow> runs mem b c \<Longrightarrow> runs mem a c"
  by (induction rule: runs.induct) (auto intro: runs_step)

lemma runs_one: "step mem c = Some d \<Longrightarrow> runs mem c d"
  by (blast intro: runs_step runs_refl)

section \<open>Code in memory\<close>

definition code_at :: "memory \<Rightarrow> i32 \<Rightarrow> byte list \<Rightarrow> bool" where
  "code_at mem a bs \<longleftrightarrow> window mem a (length bs) = bs"

lemma window_append: "window mem a (m + n) = window mem a m @ window mem (a + of_nat m) n"
  by (rule nth_equalityI) (auto simp: window_def nth_append algebra_simps)

lemma length_window [simp]: "length (window mem a n) = n"
  by (simp add: window_def)

lemma code_at_append: "code_at mem a (bs @ cs) \<longleftrightarrow> code_at mem a bs \<and> code_at mem (a + of_nat (length bs)) cs"
  by (auto simp: code_at_def window_append)

lemma code_at_window:
  assumes "code_at mem a bs" "length bs \<le> n"
  shows "\<exists>r. window mem a n = bs @ r"
proof -
  have "window mem a n = window mem a (length bs) @ window mem (a + of_nat (length bs)) (n - length bs)"
    using window_append [of mem a "length bs" "n - length bs"] assms(2) by simp
  then show ?thesis using assms(1) by (auto simp: code_at_def)
qed

text \<open>The bytes of an instruction.\<close>

fun encode :: "instr \<Rightarrow> byte list" where
  "encode (PushImm v) = 0x68 # bytes32 v"
| "encode (PushStk d) = [0xff, 0xb4, 0x24] @ bytes32 d"
| "encode PushEax = [0x50]"
| "encode (AddEsp d) = [0x81, 0xc4] @ bytes32 d"
| "encode LoadArg = [0x8b, 0x44, 0x24, 0x04]"
| "encode AddArg = [0x03, 0x44, 0x24, 0x08]"
| "encode SubArg = [0x2b, 0x44, 0x24, 0x08]"
| "encode (MovEax v) = 0xb8 # bytes32 v"
| "encode PushMem = [0xff, 0x30]"
| "encode (CallRel d) = 0xe8 # bytes32 d"
| "encode Ret = [0xc3]"
| "encode PopEax = [0x58]"
| "encode PopEcx = [0x59]"
| "encode (LoadStk d) = [0x8b, 0x84, 0x24] @ bytes32 d"
| "encode (EaxEcx op) = [case op of AddOp \<Rightarrow> 0x01 | SubOp \<Rightarrow> 0x29 | AndOp \<Rightarrow> 0x21 | OrOp \<Rightarrow> 0x09 | XorOp \<Rightarrow> 0x31
     | CmpOp \<Rightarrow> 0x39, 0xc8]"
| "encode XorEax = [0x31, 0xc0]"
| "encode XorEdx = [0x31, 0xd2]"
| "encode MovEaxEdx = [0x89, 0xd0]"
| "encode ImulEcx = [0xf7, 0xe9]"
| "encode IdivEcx = [0xf7, 0xf9]"
| "encode ShlCl = [0xd3, 0xe0]"
| "encode ShrCl = [0xd3, 0xe8]"
| "encode NotEax = [0xf7, 0xd0]"
| "encode (CmpEax b) = [0x83, 0xf8, b]"
| "encode (CmpEcx b) = [0x83, 0xf9, b]"
| "encode (Jcc k d) = [case k of CE \<Rightarrow> 0x74 | CNE \<Rightarrow> 0x75 | CL \<Rightarrow> 0x7c | CLE \<Rightarrow> 0x7e | CG \<Rightarrow> 0x7f | CGE \<Rightarrow> 0x7d, d]"
| "encode (Jmp d) = [0xeb, d]"
| "encode CallEax = [0xff, 0xd0]"
| "encode PushEcx = [0x51]"
| "encode MovEaxEsp = [0x89, 0xe0]"
| "encode (AddEaxImm v) = 0x05 # bytes32 v"
| "encode StoreEcx = [0x89, 0x08]"
| "encode (AddEsp8 b) = [0x83, 0xc4, b]"
| "encode (SubEsp8 b) = [0x83, 0xec, b]"
| "encode (JeNear d) = [0x0f, 0x84] @ bytes32 d"
| "encode (JmpNear d) = 0xe9 # bytes32 d"
| "encode PushEbp = [0x55]"
| "encode MovEbpEsp = [0x89, 0xe5]"
| "encode PopEbp = [0x5d]"

lemma decode_encode: "decode (encode i @ r) = (Some i, length (encode i))"
proof (cases i)
  case (EaxEcx op)
  then show ?thesis by (cases op) (simp_all add: decode_def)
next
  case (Jcc k d)
  then show ?thesis by (cases k) (simp_all add: decode_def with_imm8_def)
qed (simp_all add: decode_def with_imm_def with_imm8_def)

lemma word_moves [simp]:
  "unat d div 4 \<le> length (stk c) \<Longrightarrow> unat d mod 4 = 0 \<Longrightarrow>
     drop_words d c = Some (c\<lparr>stk := drop (unat d div 4) (stk c), cmp := None\<rparr>)"
  by (simp add: drop_words_def)

lemma length_encode: "length (encode i) \<le> 7"
  by (cases i) simp_all

lemma step_code:
  assumes "code_at mem (eip c) (encode i)"
  shows "step mem c = exec mem i (c\<lparr>eip := eip c + of_nat (length (encode i))\<rparr>)"
proof -
  obtain r where "window mem (eip c) 7 = encode i @ r"
    using code_at_window [OF assms length_encode] by blast
  then show ?thesis by (simp add: step_def decode_encode)
qed

lemma runs_code:
  assumes "code_at mem (eip c) (encode i @ bs)"
    and "exec mem i (c\<lparr>eip := eip c + of_nat (length (encode i))\<rparr>) = Some d" and "runs mem d e"
  shows "runs mem c e"
  using assms step_code [of mem c i] by (auto simp: code_at_append intro: runs_step)


section \<open>What a piece of code does\<close>

text \<open>\<open>computes\<close>: the code, run from where it was written on a stack that begins with the values \<open>vs\<close>, ends
  behind itself with the values \<open>ws\<close> in their place; what lies below is untouched.\<close>

definition computes_values :: "memory \<Rightarrow> i32 \<Rightarrow> byte list \<Rightarrow> i32 list \<Rightarrow> i32 list \<Rightarrow> bool" where
  "computes_values mem a bs vs ws \<longleftrightarrow> (\<forall>c rest. eip c = a \<and> stk c = vs @ rest \<and> code_at mem a bs \<longrightarrow>
     (\<exists>d. runs mem c d \<and> eip d = a + of_nat (length bs) \<and> stk d = ws @ rest))"

lemma values_Nil: "computes_values mem a [] vs vs"
  by (auto simp: computes_values_def intro: runs_refl)

lemma values_append:
  assumes "computes_values mem a bs us vs" "computes_values mem (a + of_nat (length bs)) cs vs ws"
  shows "computes_values mem a (bs @ cs) us ws"
  unfolding computes_values_def
proof (intro allI impI)
  fix c :: cpu and rest
  assume c: "eip c = a \<and> stk c = us @ rest \<and> code_at mem a (bs @ cs)"
  with assms(1) obtain d where d: "runs mem c d" "eip d = a + of_nat (length bs)" "stk d = vs @ rest"
    by (auto simp: code_at_append computes_values_def)
  with assms(2) c obtain e where "runs mem d e" "eip e = a + of_nat (length bs) + of_nat (length cs)"
    "stk e = ws @ rest"
    by (auto simp: code_at_append computes_values_def)
  with d(1) show "\<exists>d. runs mem c d \<and> eip d = a + of_nat (length (bs @ cs)) \<and> stk d = ws @ rest"
    by (intro exI [of _ e]) (simp add: runs_trans add.assoc)
qed

text \<open>One instruction that keeps \<open>eip\<close> behind it.\<close>

lemma values_instr:
  assumes "\<And>(c :: cpu) rest. stk c = vs @ rest \<Longrightarrow> \<exists>d. exec mem i c = Some d \<and> eip d = eip c \<and> stk d = ws @ rest"
  shows "computes_values mem a (encode i) vs ws"
  unfolding computes_values_def
proof (intro allI impI)
  fix c :: cpu and rest
  assume c: "eip c = a \<and> stk c = vs @ rest \<and> code_at mem a (encode i)"
  let ?c = "c\<lparr>eip := eip c + of_nat (length (encode i))\<rparr>"
  obtain d where d: "exec mem i ?c = Some d" "eip d = eip ?c" "stk d = ws @ rest"
    using assms [of ?c rest] c by auto
  have "step mem c = Some d" using step_code [of mem c i] c d(1) by simp
  with d c show "\<exists>d. runs mem c d \<and> eip d = a + of_nat (length (encode i)) \<and> stk d = ws @ rest"
    by (auto intro: runs_one)
qed

lemma values_push_imm: "computes_values mem a ([0x68] @ bytes32 v) vs (v # vs)"
  using values_instr [of vs mem "PushImm v" "v # vs" a] by (simp add: push_def)

text \<open>The calling convention of both compilers: the code at \<open>l\<close>, called with its arguments on the stack, returns
  behind the call with the result in \<open>eax\<close> and the stack as it was.\<close>

definition implements :: "memory \<Rightarrow> i32 \<Rightarrow> nat \<Rightarrow> (i32 list \<Rightarrow> i32) \<Rightarrow> bool" where
  "implements mem l n f \<longleftrightarrow> (\<forall>c args ret rest. eip c = l \<and> stk c = ret # args @ rest \<and> length args = n \<longrightarrow>
     (\<exists>d. runs mem c d \<and> eip d = ret \<and> eax d = f args \<and> stk d = args @ rest))"

text \<open>The weaker convention of compiled functions, which may assign to their parameters; for some arguments and the result.\<close>

definition answers :: "memory \<Rightarrow> i32 \<Rightarrow> i32 list \<Rightarrow> i32 \<Rightarrow> bool" where
  "answers mem l args v \<longleftrightarrow> (\<forall>c ret rest. eip c = l \<and> stk c = ret # args @ rest \<longrightarrow>
     (\<exists>d args'. runs mem c d \<and> eip d = ret \<and> eax d = v \<and> stk d = args' @ rest \<and> length args' = length args))"

lemma index_word:
  assumes "n < 2 ^ 30"
  shows "unat (4 * of_nat n :: i32) div 4 = n" "unat (4 * of_nat n :: i32) mod 4 = 0"
proof -
  have "unat (4 * of_nat n :: i32) = 4 * n"
    using assms unat_of_nat [of "4 * n", where ?'a = 32] by simp
  then show "unat (4 * of_nat n :: i32) div 4 = n" "unat (4 * of_nat n :: i32) mod 4 = 0" by simp_all
qed

lemma load_total: "\<exists>v. load mem l = Some v"
  by (simp add: load_def window_def upt_rec numeral_eq_Suc)

text \<open>The word at an address to the stack, by way of \<open>eax\<close>.\<close>

lemma values_push_global:
  assumes "load mem l = Some v"
  shows "computes_values mem a ([0xb8] @ bytes32 l @ [0xff, 0x30]) vs (v # vs)"
  unfolding computes_values_def
proof (intro allI impI)
  fix c :: cpu and rest
  assume c: "eip c = a \<and> stk c = vs @ rest \<and> code_at mem a ([0xb8] @ bytes32 l @ [0xff, 0x30])"
  let ?c1 = "c\<lparr>eip := eip c + 5, eax := l\<rparr>"
  let ?c2 = "push v (?c1\<lparr>eip := eip ?c1 + 2\<rparr>)"
  have code: "code_at mem (eip c) (encode (MovEax l) @ encode PushMem)" using c by simp
  have "runs mem c ?c2"
  proof (rule runs_code [OF code])
    show "exec mem (MovEax l) (c\<lparr>eip := eip c + of_nat (length (encode (MovEax l)))\<rparr>) = Some ?c1" by simp
    show "runs mem ?c1 ?c2"
      using code step_code [of mem ?c1 PushMem] assms unfolding code_at_append by (auto intro: runs_one)
  qed
  then show "\<exists>d. runs mem c d \<and> eip d = a + of_nat (length ([0xb8] @ bytes32 l @ [0xff, 0x30])) \<and> stk d = (v # vs) @ rest"
    using c by (intro exI [of _ ?c2]) (simp add: push_def)
qed

end
