(* ===== verification/GCode.thy ===== *)
theory GCode
  imports GDiscipline Machine
begin

text \<open>
  What the code of G expressions does when it runs. A G expression is a sequence
  of tokens in postfix order; its meaning is a function on the stack of named values. The
  theorem says that the emitted code computes this meaning on the machine.
\<close>

section \<open>What an expression means\<close>

text \<open>
  The stack of a running function as the programmer sees it: values with names, the last one
  first. \<open>impl\<close> gives the function behind a symbol's address. A number pushes its value; a variable
  pushes the value of its first occurrence; a constant symbol pushes its location; a global
  variable pushes the word stored there; a function takes its arguments and pushes its result.
\<close>

type_synonym env = "(string \<times> i32) list"

definition sem_symbol :: "memory \<Rightarrow> (i32 \<Rightarrow> i32 list \<Rightarrow> i32) \<Rightarrow> i32 \<Rightarrow> i32 \<Rightarrow> env \<Rightarrow> env option" where
  "sem_symbol mem impl l arity env =
     (if arity = - 2 then Some ((TEMP_VAR, l) # env)
      else if arity = - 1 then (case load mem l of None \<Rightarrow> None | Some v \<Rightarrow> Some ((TEMP_VAR, v) # env))
      else (let n = nat (sint arity) in
        if n \<le> length env then Some ((TEMP_VAR, impl l (map snd (take n env))) # drop n env) else None))"

definition sem_token :: "memory \<Rightarrow> (i32 \<Rightarrow> i32 list \<Rightarrow> i32) \<Rightarrow> (string \<Rightarrow> (i32 \<times> i32) option) \<Rightarrow> string \<Rightarrow> env \<Rightarrow> env option" where
  "sem_token mem impl tab tok env =
     (case decode_number_or_char tok of
        Inl e \<Rightarrow> None
      | Inr (True, v) \<Rightarrow> Some ((TEMP_VAR, v) # env)
      | Inr (False, _) \<Rightarrow>
          (case map_of env tok of
             Some v \<Rightarrow> Some ((TEMP_VAR, v) # env)
           | None \<Rightarrow> (case tab tok of None \<Rightarrow> None | Some (l, a) \<Rightarrow> sem_symbol mem impl l a env)))"

primrec sem_expr :: "memory \<Rightarrow> (i32 \<Rightarrow> i32 list \<Rightarrow> i32) \<Rightarrow> (string \<Rightarrow> (i32 \<times> i32) option) \<Rightarrow> string list \<Rightarrow> env \<Rightarrow> env option" where
  "sem_expr mem impl tab [] env = Some env"
| "sem_expr mem impl tab (tok # toks) env =
     (case sem_token mem impl tab tok env of None \<Rightarrow> None | Some env' \<Rightarrow> sem_expr mem impl tab toks env')"

text \<open>The functions of the preamble.\<close>

lemma implements_code:
  assumes "code_at mem l (encode LoadArg @ encode i @ encode Ret)"
    and "\<And>(c :: cpu) ret a b rest. stk c = ret # a # b # rest \<Longrightarrow> eax c = a \<Longrightarrow> exec mem i c = Some (c\<lparr>eax := g a b, cmp := None\<rparr>)"
  shows "implements mem l 2 (\<lambda>args. g (args ! 0) (args ! 1))"
  unfolding implements_def
proof (intro allI impI)
  fix c :: cpu and args ret rest
  assume "eip c = l \<and> stk c = ret # args @ rest \<and> length args = 2"
  then obtain a b where c: "eip c = l" "stk c = ret # a # b # rest" and args: "args = [a, b]"
    by (auto simp: length_Suc_conv numeral_2_eq_2)
  let ?c1 = "c\<lparr>eip := eip c + 4, eax := a\<rparr>"
  let ?c2 = "?c1\<lparr>eip := eip ?c1 + of_nat (length (encode i)), eax := g a b, cmp := None\<rparr>"
  let ?d = "?c2\<lparr>eip := ret, stk := a # b # rest\<rparr>"
  have "runs mem c ?d"
  proof (rule runs_code [of mem c LoadArg "encode i @ encode Ret" ?c1])
    show "code_at mem (eip c) (encode LoadArg @ encode i @ encode Ret)" using assms(1) c by simp
    show "exec mem LoadArg (c\<lparr>eip := eip c + of_nat (length (encode LoadArg))\<rparr>) = Some ?c1" using c by simp
    show "runs mem ?c1 ?d"
    proof (rule runs_code [of mem ?c1 i "encode Ret" ?c2])
      show "code_at mem (eip ?c1) (encode i @ encode Ret)" using assms(1) c unfolding code_at_append by simp
      show "exec mem i (?c1\<lparr>eip := eip ?c1 + of_nat (length (encode i))\<rparr>) = Some ?c2"
        using assms(2) [of "?c1\<lparr>eip := eip ?c1 + of_nat (length (encode i))\<rparr>" ret a b rest] c by simp
      show "runs mem ?c2 ?d"
      proof (rule runs_code [of mem ?c2 Ret "[]" ?d])
        show "code_at mem (eip ?c2) (encode Ret @ [])" using assms(1) c unfolding code_at_append by (simp add: add.assoc code_at_def window_def)
        show "exec mem Ret (?c2\<lparr>eip := eip ?c2 + of_nat (length (encode Ret))\<rparr>) = Some ?d" using c by simp
        show "runs mem ?d ?d" by (rule runs_refl)
      qed
    qed
  qed
  then show "\<exists>d. runs mem c d \<and> eip d = ret \<and> eax d = g (args ! 0) (args ! 1) \<and> stk d = args @ rest"
    by (intro exI [of _ ?d]) (simp add: args)
qed

section \<open>The variable stack at compile time\<close>

definition names :: "g_state \<Rightarrow> string list" where
  "names s = map (stack_vars s) (rev [0..<stack_depth s])"

lemma length_names [simp]: "length (names s) = stack_depth s"
  by (simp add: names_def)

lemma names_nth: "p < stack_depth s \<Longrightarrow> names s ! p = stack_vars s (stack_depth s - 1 - p)"
  by (simp add: names_def rev_nth)

lemma names_emit_all [simp]: "names (emit_all bs s) = names s"
  by (simp add: names_def emit_all_def)

lemma depth_emit_all [simp]: "stack_depth (emit_all bs s) = stack_depth s"
  by (simp add: emit_all_def)

lemma stack_loop_names:
  "map fst env = names s \<Longrightarrow> i \<le> stack_depth s \<Longrightarrow>
     (case map_of (drop i env) name of
        None \<Rightarrow> stack_loop (stack_vars s) (stack_depth s) name i = - 1
      | Some v \<Rightarrow> \<exists>p < stack_depth s. stack_loop (stack_vars s) (stack_depth s) name i = int p \<and> map snd env ! p = v)"
proof (induction "stack_depth s - i" arbitrary: i)
  case 0
  have "length env = stack_depth s" using "0.prems"(1) by (metis length_map length_names)
  with 0 have "length env = i" by simp
  then show ?case using 0 by (simp add: stack_loop.simps)
next
  case (Suc n)
  then have i: "i < stack_depth s" by simp
  have len: "length env = stack_depth s" using Suc.prems(1) by (metis length_map length_names)
  have name: "fst (env ! i) = stack_vars s (stack_depth s - 1 - i)"
    using names_nth [OF i] Suc.prems(1) i len by (metis nth_map)
  have split: "drop i env = env ! i # drop (Suc i) env" using i len by (simp add: Cons_nth_drop_Suc)
  obtain x v where xv: "env ! i = (x, v)" by (cases "env ! i")
  show ?case
  proof (cases "name = x")
    case True
    then show ?thesis using i name xv len split by (subst stack_loop.simps) auto
  next
    case False
    then have "stack_loop (stack_vars s) (stack_depth s) name i = stack_loop (stack_vars s) (stack_depth s) name (Suc i)"
      using i name xv by (subst stack_loop.simps) auto
    moreover have "map_of (drop i env) name = map_of (drop (Suc i) env) name"
      using False by (simp add: split xv)
    moreover have "n = stack_depth s - Suc i" "Suc i \<le> stack_depth s" using Suc.hyps(2) i by simp_all
    note ih = Suc.hyps(1) [OF this(1) Suc.prems(1) this(2)]
    ultimately show ?thesis using ih by (cases "map_of (drop (Suc i) env) name") simp_all
  qed
qed

lemma push_var_names:
  assumes "push_var v t s = Inr (u, s')" "stage s = 1"
  shows "names s' = v # names s" "stack_depth s < STACK_LEN" "stack_depth s' = Suc (stack_depth s)" "wrote s s' []"
proof -
  have "core.truncate s' = core.truncate s" using assms(1)
    by (auto simp: push_var_def run_simps core.truncate_def split: if_splits)
  then show "wrote s s' []" using assms(2) by (rule truncate_wrote)
  have "stack_vars s' = (stack_vars s)(stack_depth s := v)"
    and "stack_depth s < STACK_LEN \<and> stack_depth s' = Suc (stack_depth s)"
    using assms(1) by (auto simp: push_var_def run_simps split: if_splits)
  then show "names s' = v # names s" "stack_depth s < STACK_LEN" "stack_depth s' = Suc (stack_depth s)"
    by (simp_all add: names_def)
qed

lemma pop_var_names:
  assumes "pop_var t s = Inr (u, s')"
  shows "names s' = tl (names s)" "stack_depth s = Suc (stack_depth s')"
proof -
  have v: "stack_vars s' = stack_vars s" and d: "stack_depth s = Suc (stack_depth s')"
    using assms by (auto simp: pop_var_def run_simps split: if_splits)
  then show "names s' = tl (names s)" "stack_depth s = Suc (stack_depth s')"
    by (simp_all add: names_def)
qed

lemma pops_names:
  "repeatM n (pop_var True) s = Inr (u, s') \<Longrightarrow> stage s = 1 \<Longrightarrow>
     n \<le> stack_depth s \<and> names s' = drop n (names s) \<and> stack_depth s' = stack_depth s - n \<and> wrote s s' []"
proof (induction n arbitrary: s)
  case 0
  then show ?case by (simp add: wrote_refl)
next
  case (Suc n)
  then obtain t where p: "pop_var True s = Inr ((), t)" and r: "repeatM n (pop_var True) t = Inr (u, s')"
    by (auto simp: thenM_run)
  have w: "wrote s t []" using p Suc.prems(2) by (rule pop_var_wrote)
  then have "stage t = 1" by (simp add: wrote_def)
  from Suc.IH [OF r this] pop_var_names [OF p] wrote_trans [OF w] show ?case
    by (auto simp: drop_Suc)
qed

section \<open>Compiled expressions compute their meaning\<close>

text \<open>\<open>symbols_ok\<close>: every function symbol that occurs among the tokens has code that implements it, and none of the symbols
  that occur has an arity below those of constants. \<open>computes\<close>: the code, run from where it was written on a stack that
  holds the values of \<open>env\<close>, ends behind itself with the values of \<open>env'\<close>; what lies below is
  untouched.\<close>

definition symbols_ok :: "memory \<Rightarrow> (i32 \<Rightarrow> i32 list \<Rightarrow> i32) \<Rightarrow> string list \<Rightarrow> g_state \<Rightarrow> bool" where
  "symbols_ok mem impl toks s \<longleftrightarrow> (\<forall>tok \<in> set toks. \<forall>l a. find_symbol tok s = Some (l, a) \<longrightarrow>
     a = - 1 \<or> a = - 2 \<or> 0 \<le> sint a \<and> implements mem l (nat (sint a)) (impl l))"

definition computes :: "memory \<Rightarrow> i32 \<Rightarrow> byte list \<Rightarrow> env \<Rightarrow> env \<Rightarrow> bool" where
  "computes mem a bs env env' \<longleftrightarrow> computes_values mem a bs (map snd env) (map snd env')"

lemmas computes_unfold = computes_def computes_values_def

lemma computes_Nil: "computes mem a [] env env"
  by (simp add: computes_def values_Nil)

lemma computes_append:
  "computes mem a bs env env' \<Longrightarrow> computes mem (a + of_nat (length bs)) cs env' env'' \<Longrightarrow>
     computes mem a (bs @ cs) env env''"
  unfolding computes_def by (rule values_append)

lemma computes_push_imm: "computes mem a ([0x68] @ bytes32 v) env ((x, v) # env)"
  using values_push_imm by (simp add: computes_def)

lemma computes_push_stack:
  assumes "p < length env" "length env \<le> STACK_LEN"
  shows "computes mem a ([0xff, 0xb4, 0x24] @ bytes32 (4 * of_nat p)) env ((x, map snd env ! p) # env)"
proof -
  have "p < 2 ^ 30" using assms by (simp add: STACK_LEN_def)
  note index_word [OF this]
  then have "exec mem (PushStk (4 * of_nat p)) c = Some (push (map snd env ! p) c)"
    if "stk c = map snd env @ rest" for c rest
    using that assms(1) by (simp add: nth_append)
  from values_instr [of "map snd env" mem "PushStk (4 * of_nat p)" "map snd env ! p # map snd env" a] this
  show ?thesis by (auto simp: push_def computes_def)
qed

lemma computes_push_global:
  "load mem l = Some v \<Longrightarrow> computes mem a ([0xb8] @ bytes32 l @ [0xff, 0x30]) env ((x, v) # env)"
  using values_push_global by (simp add: computes_def)

lemma length_code: "length (encode (CallRel d)) = 5" "length (encode (AddEsp d)) = 6"
  by simp_all

text \<open>The call: arguments are dropped by the caller and the result is pushed.\<close>

lemma computes_call:
  assumes f: "implements mem l n f" and n: "n \<le> length env" "length env \<le> STACK_LEN"
    and rel: "a + 5 + rel = l"
  shows "computes mem a ([0xe8] @ bytes32 rel @ [0x81, 0xc4] @ bytes32 (4 * of_nat n) @ [0x50]) env
    ((x, f (map snd (take n env))) # drop n env)"
  unfolding computes_unfold
proof (intro allI impI)
  fix c :: cpu and rest
  let ?code = "[0xe8] @ bytes32 rel @ [0x81, 0xc4] @ bytes32 (4 * of_nat n) @ [0x50]"
  let ?args = "map snd (take n env)" and ?more = "map snd (drop n env) @ rest"
  assume c: "eip c = a \<and> stk c = map snd env @ rest \<and> code_at mem a ?code"
  then have "code_at mem a (encode (CallRel rel) @ encode (AddEsp (4 * of_nat n)) @ encode PushEax)" by simp
  then have code: "code_at mem a (encode (CallRel rel))" "code_at mem (a + 5) (encode (AddEsp (4 * of_nat n)))"
    "code_at mem (a + 11) (encode PushEax)"
    unfolding code_at_append by (simp_all del: encode.simps add: add.assoc length_code)
  have stk: "stk c = ?args @ ?more" using c by (metis append_assoc append_take_drop_id map_append)
  let ?c1 = "push (a + 5) c\<lparr>eip := l\<rparr>"
  have s1: "step mem c = Some ?c1" using step_code [of mem c "CallRel rel"] code(1) c rel by (simp add: push_def)
  obtain c2 where r1: "runs mem ?c1 c2" and c2: "eip c2 = a + 5" "eax c2 = f ?args" "stk c2 = ?args @ ?more"
  proof -
    have "eip ?c1 = l" "stk ?c1 = (a + 5) # ?args @ ?more" "length ?args = n"
      using stk n by (simp_all add: push_def)
    with f that show ?thesis unfolding implements_def by blast
  qed
  let ?c3 = "c2\<lparr>eip := a + 11, cmp := None, stk := ?more\<rparr>"
  have "n < 2 ^ 30" using n by (simp add: STACK_LEN_def)
  note idx = index_word [OF this]
  have s2: "step mem c2 = Some ?c3"
    using step_code [of mem c2 "AddEsp (4 * of_nat n)"] code(2) c2 n idx by simp
  have s3: "step mem ?c3 = Some (push (f ?args) (?c3\<lparr>eip := a + 12\<rparr>))"
    using step_code [of mem ?c3 PushEax] code(3) c2 by (simp add: push_def)
  have "runs mem c (push (f ?args) (?c3\<lparr>eip := a + 12\<rparr>))"
    by (rule runs_step [OF s1 runs_trans [OF r1 runs_step [OF s2 runs_one [OF s3]]]])
  then show "\<exists>d. runs mem c d \<and> eip d = a + of_nat (length ?code) \<and>
      stk d = map snd ((x, f ?args) # drop n env) @ rest"
    by (intro exI [of _ "push (f ?args) (?c3\<lparr>eip := a + 12\<rparr>)"]) (simp add: push_def)
qed

text \<open>What running one token's code must do, from the compiler state \<open>s\<close> to \<open>s'\<close>.\<close>

definition token_done :: "memory \<Rightarrow> env \<Rightarrow> g_state \<Rightarrow> env \<Rightarrow> g_state \<Rightarrow> bool" where
  "token_done mem env s env' s' \<longleftrightarrow> map fst env' = names s' \<and> stack_depth s' \<le> STACK_LEN \<and>
     (\<exists>bs. wrote s s' bs \<and> computes mem (current_loc s) bs env env')"

lemma token_pushed:
  assumes "push_var TEMP_VAR True s = Inr (u, t)" "stage s = 1" "map fst env = names s"
    and "s' = emit_all bs t" "computes mem (current_loc s) bs env ((TEMP_VAR, v) # env)"
  shows "token_done mem env s ((TEMP_VAR, v) # env) s'"
proof -
  note p = push_var_names [OF assms(1,2)]
  have "stage t = 1" using p(4) by (simp add: wrote_def)
  from wrote_trans [OF p(4) wrote_emit_all [OF this]] have "wrote s s' bs" by (simp add: assms(4))
  moreover have "map fst ((TEMP_VAR, v) # env) = names s'" "stack_depth s' \<le> STACK_LEN"
    using p(1,2,3) assms(3) by (simp_all add: assms(4))
  ultimately show ?thesis using assms(5) unfolding token_done_def by blast
qed

lemma emits_eval: "emit c s = Inr ((), emit_all [c] s)" "emit32 x s = Inr ((), emit_all (bytes32 x) s)"
  "emit_str bs s = Inr ((), emit_all bs s)"
  by (simp_all add: emit_is_emit_all emit32_eval emit_str_eval)

lemma push_expr_symbol:
  assumes "decode_number_or_char tok = Inr (False, val)" "find_in_stack tok s = - 1" "find_symbol tok s = Some (l, a)"
  shows "push_expr tok False s =
    (if a = - 2 then doM [push_var TEMP_VAR True, emit 0x68, emit32 l]
     else if a = - 1 then doM [push_var TEMP_VAR True, emit 0xb8, emit32 l, emit_str [0xff, 0x30]]
     else doM [emit 0xe8, bindM (compute_rel l) emit32, emit_str [0x81, 0xc4], emit32 (4 * a),
                repeatM (nat (sint a)) (pop_var True), push_var TEMP_VAR True, emit 0x50]) s"
  using assms
  by (simp add: push_expr_def bindM_def [of "liftM _"] bindM_def [of "getM _"] bindM_def [of "get_symbol _ _"]
      bindM_def [of "bindM _ _"] get_symbol_def thenM_def [of "whenM _ _"] bindM_def [of "whenM _ _"] whenM_def)

lemma push_expr_number:
  "decode_number_or_char tok = Inr (True, val) \<Longrightarrow>
     push_expr tok False s = doM [push_var TEMP_VAR True, emit 0x68, emit32 val] s"
  by (simp add: push_expr_def bindM_def [of "liftM _"] thenM_def [of "assertM _"] bindM_def [of "assertM _"])

lemma push_expr_local:
  "decode_number_or_char tok = Inr (False, val) \<Longrightarrow> find_in_stack tok s = int p \<Longrightarrow>
     push_expr tok False s =
       doM [push_var TEMP_VAR True, emit_str [0xff, 0xb4, 0x24], emit32 (4 * of_nat p)] s"
  by (simp add: push_expr_def bindM_def [of "liftM _"] bindM_def [of "getM _"])

lemma token_number:
  assumes "stage s = 1" "push_expr tok False s = Inr (u, s')" "map fst env = names s"
    and num: "decode_number_or_char tok = Inr (True, v)"
  shows "token_done mem env s ((TEMP_VAR, v) # env) s'"
proof -
  from assms(2) obtain t where p: "push_var TEMP_VAR True s = Inr ((), t)" and "s' = emit_all ([0x68] @ bytes32 v) t"
    unfolding push_expr_number [OF num] by (auto simp: run_simps emits_eval emit_all_append)
  from token_pushed [OF p assms(1,3) this(2) computes_push_imm] show ?thesis .
qed

lemma token_local:
  assumes "stage s = 1" "push_expr tok False s = Inr (u, s')" "map fst env = names s" "stack_depth s \<le> STACK_LEN"
    and num: "decode_number_or_char tok = Inr (False, n)" and v: "map_of env tok = Some v"
  shows "token_done mem env s ((TEMP_VAR, v) # env) s'"
proof -
  have len: "length env = stack_depth s" using assms(3) by (metis length_map length_names)
  obtain p where p: "p < stack_depth s" "find_in_stack tok s = int p" "map snd env ! p = v"
    using stack_loop_names [OF assms(3), of 0 tok] v by (auto simp: find_in_stack_def)
  from assms(2) obtain t where t: "push_var TEMP_VAR True s = Inr ((), t)"
    and s': "s' = emit_all ([0xff, 0xb4, 0x24] @ bytes32 (4 * of_nat p)) t"
    unfolding push_expr_local [OF num p(2)] by (auto simp: run_simps emits_eval emit_all_append)
  have "computes mem (current_loc s) ([0xff, 0xb4, 0x24] @ bytes32 (4 * of_nat p)) env ((TEMP_VAR, v) # env)"
    using computes_push_stack [of p env mem "current_loc s" TEMP_VAR] p len assms(4) by simp
  from token_pushed [OF t assms(1,3) s' this] show ?thesis .
qed

lemma of_nat_sint:
  assumes "0 \<le> sint (a :: i32)"
  shows "of_nat (nat (sint a)) = a"
proof -
  have "(of_int (int (nat (sint a))) :: i32) = of_nat (nat (sint a))" by (rule of_int_of_nat_eq)
  with assms show ?thesis by simp
qed

lemma token_call:
  assumes st: "stage s = 1" and env: "map fst env = names s" and depth: "stack_depth s \<le> STACK_LEN"
    and f: "0 \<le> sint a" "implements mem l (nat (sint a)) f"
    and run: "doM [emit 0xe8, bindM (compute_rel l) emit32, emit_str [0x81, 0xc4], emit32 (4 * a),
                repeatM (nat (sint a)) (pop_var True), push_var TEMP_VAR True, emit 0x50] s = Inr (u, s')"
  shows "nat (sint a) \<le> length env \<and>
    token_done mem env s ((TEMP_VAR, f (map snd (take (nat (sint a)) env))) # drop (nat (sint a)) env) s'"
proof -
  let ?n = "nat (sint a)" and ?rel = "l - (current_loc s + 1) - 4"
  let ?code = "[0xe8] @ bytes32 ?rel @ [0x81, 0xc4] @ bytes32 (4 * of_nat ?n)"
  have a: "a = of_nat ?n" using of_nat_sint [OF f(1)] by simp
  have len: "length env = stack_depth s" using env by (metis length_map length_names)
  obtain t1 t2 where pops: "repeatM ?n (pop_var True) (emit_all ?code s) = Inr ((), t1)"
    and p: "push_var TEMP_VAR True t1 = Inr ((), t2)" and s': "s' = emit_all [0x50] t2"
    using run by (auto simp: run_simps emits_eval emit_all_append compute_rel_def a [symmetric])
  have "stage (emit_all ?code s) = 1" using st by simp
  from pops_names [OF pops this] have n: "?n \<le> stack_depth s" "names t1 = drop ?n (names s)"
    "stack_depth t1 = stack_depth s - ?n" and w1: "wrote (emit_all ?code s) t1 []" by auto
  have st1: "stage t1 = 1" using w1 by (simp add: wrote_def)
  note pv = push_var_names [OF p st1]
  have "stage t2 = 1" using pv(4) by (simp add: wrote_def)
  note w = wrote_trans [OF wrote_emit_all [OF st] wrote_trans [OF w1 wrote_trans [OF pv(4) wrote_emit_all [OF this]]]]
  have "wrote s s' (?code @ [0x50])" using w by (simp add: s')
  moreover have "computes mem (current_loc s) (?code @ [0x50]) env
      ((TEMP_VAR, f (map snd (take ?n env))) # drop ?n env)"
    using computes_call [OF f(2), of env "current_loc s" ?rel TEMP_VAR] n(1) len depth by simp
  moreover have "map fst ((TEMP_VAR, f (map snd (take ?n env))) # drop ?n env) = names s'"
    using pv(1) n(2) env by (simp add: s' flip: drop_map)
  moreover have "stack_depth s' \<le> STACK_LEN" using pv(2,3) by (simp add: s')
  ultimately show ?thesis using n(1) len unfolding token_done_def by auto
qed

lemma push_expr_correct:
  assumes st: "stage s = 1" and run: "push_expr tok False s = Inr (u, s')"
    and env: "map fst env = names s" and depth: "stack_depth s \<le> STACK_LEN" and ok: "symbols_ok mem impl [tok] s"
  shows "\<exists>env'. sem_token mem impl (\<lambda>n. find_symbol n s) tok env = Some env' \<and> token_done mem env s env' s'"
proof -
  obtain num v where num: "decode_number_or_char tok = Inr (num, v)"
    using run by (cases "decode_number_or_char tok") (auto simp: push_expr_def bindM_run)
  consider (number) "num" | (local) w where "\<not> num" "map_of env tok = Some w"
    | (symbol) "\<not> num" "map_of env tok = None" by (cases "map_of env tok") auto
  then show ?thesis
  proof cases
    case number
    then show ?thesis using token_number [OF st run env] num by (simp add: sem_token_def)
  next
    case local
    then show ?thesis using token_local [OF st run env depth _ local(2)] num by (simp add: sem_token_def)
  next
    case symbol
    then have num': "decode_number_or_char tok = Inr (False, v)" using num by simp
    have pos: "find_in_stack tok s = - 1"
      using stack_loop_names [OF env, of 0 tok] symbol by (simp add: find_in_stack_def)
    obtain l a where sy: "find_symbol tok s = Some (l, a)"
    proof (cases "find_symbol tok s")
      case None
      then have "push_expr tok False s = Inl Panic"
        using num' pos by (simp add: push_expr_def bindM_def get_symbol_def)
      with run show ?thesis by simp
    qed (auto intro: that)
    note body = run [unfolded push_expr_symbol [OF num' pos sy]]
    have sem: "sem_token mem impl (\<lambda>n. find_symbol n s) tok env = sem_symbol mem impl l a env"
      using num' symbol sy by (simp add: sem_token_def)
    consider "a = - 2" | "a = - 1" | (call) "a \<noteq> - 1" "a \<noteq> - 2" by blast
    then show ?thesis
    proof cases
      case 1
      then obtain t where p: "push_var TEMP_VAR True s = Inr ((), t)" and s': "s' = emit_all ([0x68] @ bytes32 l) t"
        using body by (auto simp: run_simps emits_eval emit_all_append)
      from token_pushed [OF p st env s' computes_push_imm] 1 sem show ?thesis by (simp add: sem_symbol_def)
    next
      case 2
      obtain w where w: "load mem l = Some w" using load_total by blast
      from 2 obtain t where p: "push_var TEMP_VAR True s = Inr ((), t)"
        and s': "s' = emit_all ([0xb8] @ bytes32 l @ [0xff, 0x30]) t"
        using body by (auto simp: run_simps emits_eval emit_all_append)
      from token_pushed [OF p st env s' computes_push_global [OF w]] 2 w sem show ?thesis
        by (simp add: sem_symbol_def)
    next
      case call
      then have f: "0 \<le> sint a" "implements mem l (nat (sint a)) (impl l)"
        using ok sy by (auto simp: symbols_ok_def)
      from token_call [OF st env depth f] body call have
        "nat (sint a) \<le> length env \<and>
          token_done mem env s ((TEMP_VAR, impl l (map snd (take (nat (sint a)) env))) # drop (nat (sint a)) env) s'"
        by simp
      with call sem show ?thesis by (simp add: sem_symbol_def Let_def)
    qed
  qed
qed

text \<open>A function that the compiler itself has written, with the frame of \<open>fun\<close> and \<open>ret\<close> around the code of an expression, implements the
  value of the expression; it can be called from another one.\<close>

lemma compiled_function_implements:
  assumes code: "code_at mem l ([0x55, 0x89, 0xe5] @ bs @ [0x58] @ ([0x81, 0xc4] @ bytes32 0) @ [0x5d, 0xc3])"
    and body: "computes mem (l + 3) bs [] [(x, v)]"
  shows "implements mem l n (\<lambda>args. v)"
  unfolding implements_def
proof (intro allI impI)
  fix c :: cpu and args ret rest
  assume "eip c = l \<and> stk c = ret # args @ rest \<and> length args = n"
  then have c: "eip c = l" "stk c = ret # args @ rest" by simp_all
  let ?b = "l + 3 + of_nat (length bs)"
  have at: "code_at mem l (encode PushEbp)" "code_at mem (l + 1) (encode MovEbpEsp)" "code_at mem (l + 3) bs"
    "code_at mem ?b (encode PopEax)" "code_at mem (?b + 1) (encode (AddEsp 0))" "code_at mem (?b + 7) (encode PopEbp)"
    "code_at mem (?b + 8) (encode Ret)"
  proof -
    have "code_at mem l (encode PushEbp @ encode MovEbpEsp @ bs @ encode PopEax @ encode (AddEsp 0) @ encode PopEbp @ encode Ret)"
      using code by simp
    moreover have len: "of_nat (length (encode PushEbp)) = (1 :: i32)" "of_nat (length (encode MovEbpEsp)) = (2 :: i32)"
      "of_nat (length (encode PopEax)) = (1 :: i32)" "of_nat (length (encode (AddEsp 0))) = (6 :: i32)"
      "of_nat (length (encode PopEbp)) = (1 :: i32)" by simp_all
    ultimately show "code_at mem l (encode PushEbp)" "code_at mem (l + 1) (encode MovEbpEsp)" "code_at mem (l + 3) bs"
      "code_at mem ?b (encode PopEax)" "code_at mem (?b + 1) (encode (AddEsp 0))" "code_at mem (?b + 7) (encode PopEbp)"
      "code_at mem (?b + 8) (encode Ret)"
      by (simp_all only: code_at_append len) (simp_all add: algebra_simps del: encode.simps)
  qed
  let ?c1 = "push (ebp c) c\<lparr>eip := l + 1\<rparr>"
  let ?c2 = "?c1\<lparr>eip := l + 3, ebp := esp ?c1\<rparr>"
  have "step mem c = Some ?c1" using step_code [of mem c PushEbp] at(1) c by (simp add: push_def)
  moreover have "step mem ?c1 = Some ?c2" using step_code [of mem ?c1 MovEbpEsp] at(2) by (simp add: esp_def push_def)
  ultimately have r1: "runs mem c ?c2" by (meson runs_step runs_refl)
  obtain d where r2: "runs mem ?c2 d" and d: "eip d = ?b" "stk d = v # ebp c # ret # args @ rest"
  proof -
    have "eip ?c2 = l + 3" "stk ?c2 = ebp c # ret # args @ rest" using c(2) by (simp_all add: push_def)
    then have "\<exists>d. runs mem ?c2 d \<and> eip d = ?b \<and> stk d = map snd [(x, v)] @ ebp c # ret # args @ rest"
      using body at(3) unfolding computes_unfold by (metis append_Nil list.map(1))
    then show ?thesis using that by auto
  qed
  let ?d1 = "d\<lparr>eip := ?b + 1, eax := v, stk := ebp c # ret # args @ rest\<rparr>"
  let ?d2 = "?d1\<lparr>eip := ?b + 7, cmp := None\<rparr>"
  let ?d3 = "?d2\<lparr>eip := ?b + 8, ebp := ebp c, stk := ret # args @ rest\<rparr>"
  let ?d4 = "?d3\<lparr>eip := ret, stk := args @ rest\<rparr>"
  have "step mem d = Some ?d1" using step_code [of mem d PopEax] at(4) d by simp
  moreover have "step mem ?d1 = Some ?d2" using step_code [of mem ?d1 "AddEsp 0"] at(5) by simp
  moreover have "step mem ?d2 = Some ?d3" using step_code [of mem ?d2 PopEbp] at(6) by simp
  moreover have "step mem ?d3 = Some ?d4" using step_code [of mem ?d3 Ret] at(7) by simp
  ultimately have "runs mem d ?d4" by (meson runs_step runs_refl)
  then have "runs mem c ?d4" by (meson r1 r2 runs_trans)
  then show "\<exists>d. runs mem c d \<and> eip d = ret \<and> eax d = v \<and> stk d = args @ rest" by (intro exI [of _ ?d4]) simp
qed

text \<open>C2: expressions are compiled correctly. Take an expression without addresses and string
  literals, as a sequence of tokens, that the second pass compiles in a state whose variable
  stack has the names of \<open>env\<close>, and a memory in which every function that the expression calls has code that
  implements it. Then the expression has a value: \<open>sem_expr\<close>, which knows nothing of code, ends in
  some \<open>env'\<close>; the variable stack of the compiler has exactly its names; and the bytes written,
  run on a machine whose stack holds the values of \<open>env\<close>, end behind the code with the values of
  \<open>env'\<close> on the stack and everything below untouched.\<close>

theorem expression_correct:
  assumes "stage s = 1" "doM (map (\<lambda>tok. push_expr tok False) toks) s = Inr (u, s')"
    and "map fst env = names s" "stack_depth s \<le> STACK_LEN" "symbols_ok mem impl toks s"
  shows "\<exists>env' bs. sem_expr mem impl (\<lambda>n. find_symbol n s) toks env = Some env' \<and> map fst env' = names s' \<and>
    wrote s s' bs \<and> computes mem (current_loc s) bs env env'"
  using assms
proof (induction toks arbitrary: s env)
  case Nil
  then show ?case using wrote_refl computes_Nil by fastforce
next
  case (Cons tok toks)
  obtain t where one: "push_expr tok False s = Inr ((), t)"
    and more: "doM (map (\<lambda>tok. push_expr tok False) toks) t = Inr (u, s')"
    using Cons.prems(2) by (auto simp: thenM_run)
  have ok1: "symbols_ok mem impl [tok] s" using Cons.prems(5) by (simp add: symbols_ok_def)
  obtain env1 where sem: "sem_token mem impl (\<lambda>n. find_symbol n s) tok env = Some env1"
    and done1: "token_done mem env s env1 t"
    using push_expr_correct [OF Cons.prems(1) one Cons.prems(3,4) ok1] by blast
  then obtain bs where names: "map fst env1 = names t" "stack_depth t \<le> STACK_LEN"
    and w: "wrote s t bs" and c: "computes mem (current_loc s) bs env env1"
    by (auto simp: token_done_def)
  have same: "(\<lambda>n. find_symbol n t) = (\<lambda>n. find_symbol n s)" using w by (simp add: wrote_def)
  then have "symbols_ok mem impl toks t" using Cons.prems(5) by (simp add: symbols_ok_def fun_eq_iff)
  moreover have "stage t = 1" using w by (simp add: wrote_def)
  ultimately obtain env' cs where e: "sem_expr mem impl (\<lambda>n. find_symbol n t) toks env1 = Some env'"
    "map fst env' = names s'" "wrote t s' cs" "computes mem (current_loc t) cs env1 env'"
    using Cons.IH [OF _ more names] by blast
  have "current_loc t = current_loc s + of_nat (length bs)" using w by (simp add: wrote_def)
  with computes_append [OF c] e(4) have "computes mem (current_loc s) (bs @ cs) env env'" by simp
  with wrote_trans [OF w e(3)] e(1,2) sem same show ?case by auto
qed

section \<open>A small expression\<close>

definition plus_code :: "byte list" where
  "plus_code = encode LoadArg @ encode AddArg @ encode Ret"

text \<open>\<open>+\<close> at address 100, and a local variable \<open>x\<close>.\<close>

definition plus_memory :: memory where
  "plus_memory a = (if unat a - 100 < length plus_code then plus_code ! (unat a - 100) else 0)"

definition plus_state :: g_state where
  "plus_state = empty_g\<lparr>stage := 1, symbol_num := 1, symbol_names := \<lambda>_. ''+'', symbol_locs := \<lambda>_. 100,
     symbol_arities := \<lambda>_. 2, stack_vars := \<lambda>_. ''x'', stack_depth := 1\<rparr>"

definition plus_impl :: "i32 \<Rightarrow> i32 list \<Rightarrow> i32" where
  "plus_impl l args = args ! 0 + args ! 1"

lemma plus_implements: "implements plus_memory 100 2 (plus_impl 100)"
proof -
  have "code_at plus_memory 100 plus_code" unfolding code_at_def by code_simp
  then have "implements plus_memory 100 2 (\<lambda>args. args ! 0 + args ! 1)"
    unfolding plus_code_def by (rule implements_code) simp
  then show ?thesis by (simp add: plus_impl_def [abs_def])
qed

theorem expression_correct_witness:
  "\<exists>s' bs. wrote plus_state s' bs \<and> computes plus_memory 0 bs [(''x'', 7)] [(TEMP_VAR, 12), (''x'', 7)]"
proof -
  have "returns (doM (map (\<lambda>tok. push_expr tok False) [''5'', ''x'', ''+'']) plus_state)" by code_simp
  then obtain s' where run: "doM (map (\<lambda>tok. push_expr tok False) [''5'', ''x'', ''+'']) plus_state = Inr ((), s')"
    by (rule returnsE)
  have st: "stage plus_state = 1" "current_loc plus_state = 0" "map fst [(''x'', 7)] = names plus_state"
    "stack_depth plus_state \<le> STACK_LEN"
    by (simp_all add: plus_state_def empty_g_def names_def STACK_LEN_def)
  have find: "find_symbol n plus_state = (if n = ''+'' then Some (100, 2) else None)" for n
    by (simp add: find_symbol_def get_symbol_idx_def symbol_idx_loop.simps plus_state_def empty_g_def)
  then have ok: "symbols_ok plus_memory plus_impl [''5'', ''x'', ''+''] plus_state"
    using plus_implements by (simp add: symbols_ok_def)
  have "sem_expr plus_memory plus_impl (\<lambda>n. if n = ''+'' then Some (100, 2) else None) [''5'', ''x'', ''+''] [(''x'', 7)]
      = Some [(TEMP_VAR, 12), (''x'', 7)]"
    by code_simp
  with expression_correct [OF st(1) run st(3,4) ok] show ?thesis by (auto simp: find st(2))
qed

end
