(* ===== verification/CString.thy ===== *)
theory CString
  imports StagingStrings
begin

text \<open>
  The C library of \<open>diskfs/stdlib\<close>: \<open>string.h\<close> and \<open>ctype.h\<close>.

  Memory is one buffer, a pointer is an index into it, so that the arguments of a function may
  overlap as they may in C. A read or write outside the memory is \<open>Undef\<close>. Characters are passed
  as \<open>int\<close>; \<open>char\<close> is signed.
\<close>

section \<open>ctype.h\<close>

definition isspace :: "int \<Rightarrow> bool" where
  "isspace c \<longleftrightarrow> (9 \<le> c \<and> c \<le> 13) \<or> c = 32"

definition isupper :: "int \<Rightarrow> bool" where
  "isupper c \<longleftrightarrow> 65 \<le> c \<and> c \<le> 90"

definition islower :: "int \<Rightarrow> bool" where
  "islower c \<longleftrightarrow> 97 \<le> c \<and> c \<le> 122"

text \<open>The bounds are the letters \<open>a\<close> and \<open>z\<close>, as in the source.\<close>

definition isdigit :: "int \<Rightarrow> bool" where
  "isdigit c \<longleftrightarrow> 97 \<le> c \<and> c \<le> 122"

definition isalpha :: "int \<Rightarrow> bool" where
  "isalpha c \<longleftrightarrow> islower c \<or> isupper c"

definition isalnum :: "int \<Rightarrow> bool" where
  "isalnum c \<longleftrightarrow> isalpha c \<or> isdigit c"

text \<open>The results are converted to \<open>char\<close>, which changes nothing in their range.\<close>

definition tolower :: "int \<Rightarrow> int" where
  "tolower ch = (if 65 \<le> ch \<and> ch \<le> 90 then schar (char_of (ch + 97 - 65)) else ch)"

definition toupper :: "int \<Rightarrow> int" where
  "toupper ch = (if 97 \<le> ch \<and> ch \<le> 122 then schar (char_of (ch + 65 - 97)) else ch)"

section \<open>string.h\<close>

function strcmp :: "buf \<Rightarrow> nat \<Rightarrow> nat \<Rightarrow> err + int" where
  "strcmp m x y =
     bindR (rd m x) (\<lambda>a. bindR (rd m y) (\<lambda>b.
     if uchar a < uchar b then Inr (- 1) else if uchar b < uchar a then Inr 1
     else if a = NUL then Inr 0 else strcmp m (x + 1) (y + 1)))"
  by pat_completeness auto
termination
  by (relation "measure (\<lambda>(m, x, y). length m - x)") (auto dest: rd_InrD)

fun memcpy :: "buf \<Rightarrow> nat \<Rightarrow> nat \<Rightarrow> nat \<Rightarrow> err + buf" where
  "memcpy m dest src 0 = Inr m"
| "memcpy m dest src (Suc n) =
     bindR (rd m src) (\<lambda>c. bindR (wr m dest c) (\<lambda>m. memcpy m (dest + 1) (src + 1) n))"

fun copy_down :: "buf \<Rightarrow> nat \<Rightarrow> nat \<Rightarrow> nat \<Rightarrow> err + buf" where
  "copy_down m dest src 0 = Inr m"
| "copy_down m dest src (Suc n) =
     bindR (rd m (src + n)) (\<lambda>c. bindR (wr m (dest + n) c) (\<lambda>m. copy_down m dest src n))"

definition memmove :: "buf \<Rightarrow> nat \<Rightarrow> nat \<Rightarrow> nat \<Rightarrow> err + buf" where
  "memmove m dest src n = (if dest \<le> src then memcpy m dest src n else copy_down m dest src n)"

fun memset :: "buf \<Rightarrow> nat \<Rightarrow> int \<Rightarrow> nat \<Rightarrow> err + buf" where
  "memset m p c 0 = Inr m"
| "memset m p c (Suc n) = bindR (wr m p (char_of c)) (\<lambda>m. memset m (p + 1) c n)"

fun memcmp :: "buf \<Rightarrow> nat \<Rightarrow> nat \<Rightarrow> nat \<Rightarrow> err + int" where
  "memcmp m p1 p2 0 = Inr 0"
| "memcmp m p1 p2 (Suc n) =
     bindR (rd m p1) (\<lambda>a. bindR (rd m p2) (\<lambda>b.
     if a \<noteq> b then Inr (uchar a - uchar b) else memcmp m (p1 + 1) (p2 + 1) n))"

fun memchr :: "buf \<Rightarrow> nat \<Rightarrow> int \<Rightarrow> nat \<Rightarrow> err + nat option" where
  "memchr m p c 0 = Inr None"
| "memchr m p c (Suc n) =
     bindR (rd m p) (\<lambda>a. if a = char_of c then Inr (Some p) else memchr m (p + 1) c n)"

function strlen :: "buf \<Rightarrow> nat \<Rightarrow> nat \<Rightarrow> err + nat" where
  "strlen m s rc =
     bindR (rd m (s + rc)) (\<lambda>c. if c \<noteq> NUL then strlen m s (rc + 1) else Inr rc)"
  by pat_completeness auto
termination
  by (relation "measure (\<lambda>(m, s, rc). length m - (s + rc))") (auto dest: rd_InrD)

function strchr :: "buf \<Rightarrow> nat \<Rightarrow> int \<Rightarrow> err + nat option" where
  "strchr m s c =
     bindR (rd m s) (\<lambda>a. if a = char_of c then Inr (Some s)
       else if a \<noteq> NUL then strchr m (s + 1) c else Inr None)"
  by pat_completeness auto
termination
  by (relation "measure (\<lambda>(m, s, c). length m - s)") (auto dest: rd_InrD)

fun strncmp :: "buf \<Rightarrow> nat \<Rightarrow> nat \<Rightarrow> nat \<Rightarrow> err + int" where
  "strncmp m s1 s2 0 = Inr 0"
| "strncmp m s1 s2 (Suc n) =
     bindR (rd m s1) (\<lambda>a. bindR (rd m s2) (\<lambda>b.
     if a \<noteq> NUL \<and> a = b then strncmp m (s1 + 1) (s2 + 1) n else Inr (uchar a - uchar b)))"

text \<open>\<open>strrchr\<close>: forward over the terminator, then back over each character down to the first.\<close>

fun strrchr_back :: "buf \<Rightarrow> nat \<Rightarrow> int \<Rightarrow> nat \<Rightarrow> err + nat option" where
  "strrchr_back m s c 0 = Inr None"
| "strrchr_back m s c (Suc i) =
     bindR (rd m (s + i)) (\<lambda>a. if a = char_of c then Inr (Some (s + i)) else strrchr_back m s c i)"

definition strrchr :: "buf \<Rightarrow> nat \<Rightarrow> int \<Rightarrow> err + nat option" where
  "strrchr m s c = bindR (strlen m s 0) (\<lambda>n. strrchr_back m s c (n + 1))"

function strcpy :: "buf \<Rightarrow> nat \<Rightarrow> nat \<Rightarrow> err + buf" where
  "strcpy m s1 s2 =
     bindR (rd m s2) (\<lambda>c. bindR (wr m s1 c) (\<lambda>m'.
     if c \<noteq> NUL then strcpy m' (s1 + 1) (s2 + 1) else Inr m'))"
  by pat_completeness auto
termination
  by (relation "measure (\<lambda>(m, s1, s2). length m - s2)") (auto dest!: rd_InrD wr_InrD)

definition strcat :: "buf \<Rightarrow> nat \<Rightarrow> nat \<Rightarrow> err + buf" where
  "strcat m s1 s2 = bindR (strlen m s1 0) (\<lambda>n. strcpy m (s1 + n) s2)"

text \<open>The allocator is not part of the library: it is a parameter that gives the address of a
  block of the size it is asked for.\<close>

definition strdup :: "(nat \<Rightarrow> nat) \<Rightarrow> buf \<Rightarrow> nat \<Rightarrow> err + (buf \<times> nat)" where
  "strdup malloc m s =
     bindR (strlen m (s + 1) 0) (\<lambda>n.
     let r = malloc n in bindR (strcpy m r s) (\<lambda>m. Inr (m, r)))"

declare strcmp.simps [simp del] strlen.simps [simp del] strchr.simps [simp del] strcpy.simps [simp del]

section \<open>Copying\<close>

text \<open>What a copy of \<open>n\<close> characters must produce, whether or not the areas overlap.\<close>

definition copied :: "buf \<Rightarrow> nat \<Rightarrow> nat \<Rightarrow> nat \<Rightarrow> buf" where
  "copied m d s n = take d m @ take n (drop s m) @ drop (d + n) m"

lemma length_copied: "s + n \<le> length m \<Longrightarrow> d + n \<le> length m \<Longrightarrow> length (copied m d s n) = length m"
  by (simp add: copied_def)

lemma copied_nth:
  assumes "s + n \<le> length m" "d + n \<le> length m" "i < length m"
  shows "copied m d s n ! i = (if d \<le> i \<and> i < d + n then m ! (s + (i - d)) else m ! i)"
proof -
  have "length (take n (drop s m)) = n" "length (take d m) = d" using assms by simp_all
  with assms show ?thesis unfolding copied_def nth_append by (auto simp: add.commute)
qed

lemma memcpy_copied:
  "s + n \<le> length m \<Longrightarrow> d + n \<le> length m \<Longrightarrow> d \<le> s \<or> s + n \<le> d \<Longrightarrow> memcpy m d s n = Inr (copied m d s n)"
proof (induction n arbitrary: m d s)
  case 0
  then show ?case by (simp add: copied_def)
next
  case (Suc n)
  let ?m = "m[d := m ! s]"
  have "memcpy m d s (Suc n) = memcpy ?m (Suc d) (Suc s) n" using Suc.prems by simp
  also have "\<dots> = Inr (copied ?m (Suc d) (Suc s) n)" by (rule Suc.IH) (use Suc.prems in auto)
  also have "copied ?m (Suc d) (Suc s) n = copied m d s (Suc n)"
    by (rule nth_equalityI) (use Suc.prems in \<open>auto simp: length_copied copied_nth nth_list_update Suc_diff_Suc\<close>)
  finally show ?case .
qed

lemma copy_down_copied:
  "s + n \<le> length m \<Longrightarrow> d + n \<le> length m \<Longrightarrow> s \<le> d \<Longrightarrow> copy_down m d s n = Inr (copied m d s n)"
proof (induction n arbitrary: m)
  case 0
  then show ?case by (simp add: copied_def)
next
  case (Suc n)
  let ?m = "m[d + n := m ! (s + n)]"
  have "copy_down m d s (Suc n) = copy_down ?m d s n" using Suc.prems by simp
  also have "\<dots> = Inr (copied ?m d s n)" by (rule Suc.IH) (use Suc.prems in auto)
  also have "copied ?m d s n = copied m d s (Suc n)"
    by (rule nth_equalityI) (use Suc.prems in \<open>auto simp: length_copied copied_nth nth_list_update less_Suc_eq\<close>)
  finally show ?case .
qed

text \<open>C31: \<open>memmove\<close> is a correct move for any two areas inside the memory, overlapping in either
  direction or not: it stays inside them, the destination ends up with the old content of the
  source, and every other byte is unchanged.\<close>

theorem memmove_correct:
  assumes "src + n \<le> length m" "dest + n \<le> length m"
  shows "\<exists>m'. memmove m dest src n = Inr m' \<and> length m' = length m \<and>
    (\<forall>i < length m. m' ! i = (if dest \<le> i \<and> i < dest + n then m ! (src + (i - dest)) else m ! i))"
proof -
  have "memmove m dest src n = Inr (copied m dest src n)"
    using memcpy_copied [OF assms] copy_down_copied [OF assms] by (simp add: memmove_def)
  then show ?thesis using assms by (simp add: length_copied copied_nth)
qed

theorem memmove_correct_witness:
  "\<exists>m'. memmove ''abcdef'' 1 0 4 = Inr m' \<and> m' ! 1 = CHR ''a'' \<and> m' ! 4 = CHR ''d'' \<and> m' ! 5 = CHR ''f''"
  using memmove_correct [of 0 4 "''abcdef''" 1] by auto

section \<open>Strings\<close>

text \<open>\<open>string_at m s n\<close>: the string at \<open>s\<close> has length \<open>n\<close> and ends inside the memory.\<close>

definition string_at :: "buf \<Rightarrow> nat \<Rightarrow> nat \<Rightarrow> bool" where
  "string_at m s n \<longleftrightarrow> s + n < length m \<and> m ! (s + n) = NUL \<and> (\<forall>i < n. m ! (s + i) \<noteq> NUL)"

lemma string_at_Suc:
  "string_at m s (Suc n) \<longleftrightarrow> m ! s \<noteq> NUL \<and> string_at m (Suc s) n \<and> s < length m"
  by (auto simp: string_at_def less_Suc_eq_0_disj)

lemma string_at_0: "string_at m s 0 \<longleftrightarrow> s < length m \<and> m ! s = NUL"
  by (simp add: string_at_def)

lemma strlen_loop_at: "string_at m (s + rc) n \<Longrightarrow> strlen m s rc = Inr (rc + n)"
proof (induction n arbitrary: rc)
  case 0
  then show ?case by (subst strlen.simps) (simp add: string_at_0)
next
  case (Suc n)
  then have "string_at m (s + Suc rc) n" "m ! (s + rc) \<noteq> NUL" "s + rc < length m"
    by (simp_all add: string_at_Suc)
  with Suc.IH [of "Suc rc"] show ?case by (subst strlen.simps) simp
qed

lemma strlen_at: "string_at m s n \<Longrightarrow> strlen m s 0 = Inr n"
  using strlen_loop_at [of m s 0 n] by simp

lemma strcpy_memcpy:
  "string_at m s n \<Longrightarrow> d + n < length m \<Longrightarrow> d \<le> s \<or> s + n < d \<Longrightarrow> strcpy m d s = memcpy m d s (Suc n)"
proof (induction n arbitrary: m d s)
  case 0
  then show ?case by (subst strcpy.simps) (simp add: string_at_0)
next
  case (Suc n)
  let ?m = "m[d := m ! s]"
  have s: "m ! s \<noteq> NUL" "s < length m" and t: "string_at m (Suc s) n"
    using Suc.prems(1) by (simp_all add: string_at_Suc)
  have "string_at ?m (Suc s) n"
    using t Suc.prems(3) by (auto simp: string_at_def nth_list_update)
  then have "strcpy ?m (Suc d) (Suc s) = memcpy ?m (Suc d) (Suc s) (Suc n)"
    by (rule Suc.IH) (use Suc.prems in auto)
  then show ?case using s Suc.prems(2) by (subst strcpy.simps) simp
qed

lemma strcpy_copied:
  "string_at m s n \<Longrightarrow> d + n < length m \<Longrightarrow> d \<le> s \<or> s + n < d \<Longrightarrow> strcpy m d s = Inr (copied m d s (Suc n))"
  using strcpy_memcpy [of m s n d] memcpy_copied [of s "Suc n" m d]
  by (auto simp: string_at_def simp del: memcpy.simps)

text \<open>\<open>strcat\<close> appends. For two strings in memory with room behind the first, and the second
  not overlapping the place where it goes, the first pointer then holds the concatenation, nothing
  else changes, and no access leaves the memory.\<close>

theorem strcat_correct:
  assumes "string_at m s1 k" "string_at m s2 n" "s1 + k + n < length m" "s1 + k \<le> s2 \<or> s2 + n < s1 + k"
    and "s2 + n < s1 \<or> s1 + k + n < s2"
  shows "\<exists>m'. strcat m s1 s2 = Inr m' \<and> string_at m' s1 (k + n) \<and>
    (\<forall>i < k. m' ! (s1 + i) = m ! (s1 + i)) \<and> (\<forall>i < n. m' ! (s1 + k + i) = m ! (s2 + i)) \<and>
    (\<forall>i < length m. i < s1 \<or> s1 + k + n < i \<longrightarrow> m' ! i = m ! i) \<and> length m' = length m"
proof -
  let ?m = "copied m (s1 + k) s2 (Suc n)"
  have b: "s2 + Suc n \<le> length m" "s1 + k + Suc n \<le> length m" using assms(2,3) by (simp_all add: string_at_def)
  have "strcat m s1 s2 = Inr ?m"
    using strlen_at [OF assms(1)] strcpy_copied [OF assms(2,3)] assms(4) by (simp add: strcat_def)
  moreover have "m' ! (s1 + i) = m ! (s1 + i)" if "i < k" "m' = ?m" for i m'
    using that b by (simp add: copied_nth)
  moreover have "m' ! (s1 + k + i) = m ! (s2 + i)" if "i \<le> n" "m' = ?m" for i m'
    using that b by (simp add: copied_nth)
  moreover have "string_at ?m s1 (k + n)"
    unfolding string_at_def
  proof (intro conjI allI impI)
    show "s1 + (k + n) < length ?m" using assms(3) b by (simp add: length_copied)
    show "?m ! (s1 + (k + n)) = NUL"
      using assms(2) b by (simp add: copied_nth string_at_def)
    fix i
    assume "i < k + n"
    then consider "i < k" | j where "i = k + j" "j < n" by (metis add_diff_inverse_nat add_less_cancel_left)
    then show "?m ! (s1 + i) \<noteq> NUL"
      using assms(1,2) b by cases (auto simp: copied_nth string_at_def)
  qed
  ultimately show ?thesis using b by (intro exI [of _ ?m]) (simp add: length_copied copied_nth)
qed

theorem strcat_correct_witness:
  "\<exists>m'. strcat [CHR ''a'', NUL, NUL, CHR ''b'', NUL] 0 3 = Inr m' \<and> string_at m' 0 2 \<and> m' ! 1 = CHR ''b''"
proof -
  let ?m = "[CHR ''a'', NUL, NUL, CHR ''b'', NUL]"
  have "string_at ?m 0 1" "string_at ?m 3 1" by (simp_all add: string_at_def)
  from strcat_correct [OF this] show ?thesis by (auto simp: numeral_2_eq_2)
qed

section \<open>Searching and comparing\<close>

lemma strrchr_back_None: "s + i \<le> length m \<Longrightarrow> \<forall>j < i. m ! (s + j) \<noteq> char_of c \<Longrightarrow> strrchr_back m s c i = Inr None"
  by (induction i) auto

lemma strrchr_back_Some:
  "j < i \<Longrightarrow> s + i \<le> length m \<Longrightarrow> m ! (s + j) = char_of c \<Longrightarrow> \<forall>k < i. j < k \<longrightarrow> m ! (s + k) \<noteq> char_of c
    \<Longrightarrow> strrchr_back m s c i = Inr (Some (s + j))"
  by (induction i) (auto simp: less_Suc_eq)

lemma strchr_at:
  "string_at m s n \<Longrightarrow> strchr m s c =
     Inr (if \<exists>j \<le> n. m ! (s + j) = char_of c then Some (s + (LEAST j. m ! (s + j) = char_of c)) else None)"
proof (induction n arbitrary: s)
  case 0
  then show ?case by (subst strchr.simps) (auto simp: string_at_0)
next
  case (Suc n)
  then have s: "m ! s \<noteq> NUL" "s < length m" and t: "string_at m (Suc s) n" by (simp_all add: string_at_Suc)
  show ?case
  proof (cases "m ! s = char_of c")
    case True
    then have "(LEAST j. m ! (s + j) = char_of c) = 0" by (intro Least_eq_0) simp
    then show ?thesis using True s by (subst strchr.simps) auto
  next
    case False
    have ex: "(\<exists>j \<le> Suc n. m ! (s + j) = char_of c) \<longleftrightarrow> (\<exists>j \<le> n. m ! (Suc s + j) = char_of c)"
    proof
      assume "\<exists>j \<le> Suc n. m ! (s + j) = char_of c"
      then obtain j where "j \<le> Suc n" "m ! (s + j) = char_of c" by blast
      with False show "\<exists>j \<le> n. m ! (Suc s + j) = char_of c" by (cases j) auto
    next
      assume "\<exists>j \<le> n. m ! (Suc s + j) = char_of c"
      then obtain j where "j \<le> n" "m ! (Suc s + j) = char_of c" by blast
      then show "\<exists>j \<le> Suc n. m ! (s + j) = char_of c" by (intro exI [of _ "Suc j"]) simp
    qed
    have least: "(LEAST j. m ! (s + j) = char_of c) = Suc (LEAST j. m ! (Suc s + j) = char_of c)"
      if "m ! (Suc s + j) = char_of c" for j
      using Least_Suc [of "\<lambda>j. m ! (s + j) = char_of c" "Suc j"] False that by simp
    have "strchr m s c = strchr m (Suc s) c" using s False by (subst strchr.simps) simp
    then show ?thesis using Suc.IH [OF t] ex least by auto
  qed
qed

text \<open>C33: \<open>strchr\<close> and \<open>strrchr\<close> find the first and the last place of a character in a string, its
  terminator included; if the character does not occur both return the null pointer, and neither
  reads outside the string.\<close>

theorem strchr_strrchr_correct:
  assumes "string_at m s n"
  shows "if \<exists>j \<le> n. m ! (s + j) = char_of c
    then \<exists>i j. strchr m s c = Inr (Some (s + i)) \<and> strrchr m s c = Inr (Some (s + j)) \<and> i \<le> j \<and> j \<le> n \<and>
      m ! (s + i) = char_of c \<and> m ! (s + j) = char_of c \<and>
      (\<forall>k \<le> n. m ! (s + k) = char_of c \<longrightarrow> i \<le> k \<and> k \<le> j)
    else strchr m s c = Inr None \<and> strrchr m s c = Inr None"
proof (cases "\<exists>j \<le> n. m ! (s + j) = char_of c")
  case True
  let ?P = "\<lambda>j. j \<le> n \<and> m ! (s + j) = char_of c"
  define i where "i = (LEAST j. m ! (s + j) = char_of c)"
  define j where "j = (GREATEST j. ?P j)"
  have i: "m ! (s + i) = char_of c" "\<And>k. m ! (s + k) = char_of c \<Longrightarrow> i \<le> k"
    using True unfolding i_def by (auto intro: LeastI Least_le)
  have j: "?P j" "\<And>k. ?P k \<Longrightarrow> k \<le> j"
    using True GreatestI_nat [of ?P _ n] Greatest_le_nat [of ?P _ n] unfolding j_def by auto
  have "strchr m s c = Inr (Some (s + i))" using strchr_at [OF assms, of c] True by (simp add: i_def)
  moreover have "strrchr m s c = Inr (Some (s + j))"
  proof -
    have "j < Suc n" "s + Suc n \<le> length m" "m ! (s + j) = char_of c"
      using j(1) assms by (simp_all add: string_at_def)
    moreover have "\<forall>k < Suc n. j < k \<longrightarrow> m ! (s + k) \<noteq> char_of c"
      using j(2) by (meson less_Suc_eq_le not_le)
    ultimately have "strrchr_back m s c (Suc n) = Inr (Some (s + j))" by (rule strrchr_back_Some)
    then show ?thesis by (simp add: strrchr_def strlen_at [OF assms])
  qed
  ultimately show ?thesis using True i j by auto
next
  case False
  then have "strrchr_back m s c (Suc n) = Inr None"
    using assms by (intro strrchr_back_None) (auto simp: string_at_def)
  then show ?thesis
    using False strchr_at [OF assms, of c] by (simp add: strrchr_def strlen_at [OF assms])
qed

theorem strchr_strrchr_correct_witness:
  "\<exists>i j. strchr (''abca'' @ [NUL]) 0 97 = Inr (Some i) \<and> strrchr (''abca'' @ [NUL]) 0 97 = Inr (Some j) \<and> i \<le> j"
proof -
  have a: "char_of (97 :: int) = CHR ''a''" by code_simp
  have "string_at (''abca'' @ [NUL]) 0 4" by (auto simp: string_at_def numeral_eq_Suc less_Suc_eq)
  from strchr_strrchr_correct [OF this, of 97] show ?thesis
    by (auto simp: a split: if_splits)
qed

text \<open>The order of strings by their characters as \<open>unsigned char\<close>, as \<open>strcmp\<close> reports it.\<close>

definition uless :: "string \<Rightarrow> string \<Rightarrow> bool" where
  "uless s t \<longleftrightarrow> (map uchar s, map uchar t) \<in> lexord {(a, b). a < b}"

definition order3 :: "string \<Rightarrow> string \<Rightarrow> int" where
  "order3 s t = (if s = t then 0 else if uless s t then - 1 else 1)"

lemma uless_simps [simp]:
  "\<not> uless s []" "uless [] (y # t)"
  "uless (x # s) (y # t) \<longleftrightarrow> uchar x < uchar y \<or> x = y \<and> uless s t"
  by (simp_all add: uless_def)

lemma order3_simps [simp]:
  "order3 [] [] = 0" "order3 [] (y # t) = - 1" "order3 (x # s) [] = 1"
  "order3 (x # s) (y # t) = (if uchar x < uchar y then - 1 else if uchar y < uchar x then 1 else order3 s t)"
  using uchar_inject [of x y] by (auto simp: order3_def simp del: uchar_inject)

lemma cstr_step: "i < length m \<Longrightarrow> cstr m i = (if m ! i = NUL then [] else m ! i # cstr m (Suc i))"
  by (simp add: cstr_def flip: Cons_nth_drop_Suc)

lemma terminated_step: "terminated m i \<Longrightarrow> i < length m \<and> (m ! i \<noteq> NUL \<longrightarrow> terminated m (Suc i))"
  by (cases "i < length m") (auto simp: terminated_def simp flip: Cons_nth_drop_Suc)

lemma uchar_NUL_less: "uchar NUL < uchar c \<longleftrightarrow> c \<noteq> NUL" "\<not> uchar c < uchar NUL"
  using uchar_range(1) [of c] uchar_inject [of c NUL] by (auto simp: uchar_def simp del: uchar_inject)

lemma strcmp_order3:
  "terminated m x \<Longrightarrow> terminated m y \<Longrightarrow> strcmp m x y = Inr (order3 (cstr m x) (cstr m y))"
proof (induction m x y rule: strcmp.induct)
  case (1 m x y)
  note t = terminated_step [OF "1.prems"(1)] terminated_step [OF "1.prems"(2)]
  then have IH: "strcmp m (Suc x) (Suc y) = Inr (order3 (cstr m (Suc x)) (cstr m (Suc y)))"
    if "m ! x = m ! y" "m ! x \<noteq> NUL" using that "1.IH" by simp
  have m: "strcmp m x y = (if uchar (m ! x) < uchar (m ! y) then Inr (- 1)
      else if uchar (m ! y) < uchar (m ! x) then Inr 1
      else if m ! x = NUL then Inr 0 else strcmp m (Suc x) (Suc y))"
    using t by (subst strcmp.simps) simp
  show ?case
  proof (cases "m ! x = m ! y")
    case True
    then show ?thesis using t IH by (simp add: m cstr_step)
  next
    case False
    then have "uchar (m ! x) < uchar (m ! y) \<or> uchar (m ! y) < uchar (m ! x)"
      using uchar_inject [of "m ! x" "m ! y"] by linarith
    then show ?thesis using t False by (auto simp: m cstr_step uchar_NUL_less)
  qed
qed

lemma strncmp_order3:
  "terminated m x \<Longrightarrow> terminated m y \<Longrightarrow>
    \<exists>r. strncmp m x y n = Inr r \<and> sgn r = order3 (take n (cstr m x)) (take n (cstr m y))"
proof (induction n arbitrary: x y)
  case (Suc n)
  note t = terminated_step [OF Suc.prems(1)] terminated_step [OF Suc.prems(2)]
  show ?case
  proof (cases "m ! x = m ! y \<and> m ! x \<noteq> NUL")
    case True
    then show ?thesis using t Suc.IH [of "Suc x" "Suc y"] by (simp add: cstr_step)
  next
    case False
    have "strncmp m x y (Suc n) = Inr (uchar (m ! x) - uchar (m ! y))" using t False by auto
    moreover have "uchar (m ! x) < uchar (m ! y) \<or> uchar (m ! y) < uchar (m ! x) \<or> m ! x = NUL \<and> m ! y = NUL"
      using False uchar_inject [of "m ! x" "m ! y"] by auto
    ultimately show ?thesis using t by (auto simp: cstr_step uchar_NUL_less sgn_if)
  qed
qed simp

text \<open>C32: \<open>strcmp\<close> and \<open>strncmp\<close> order two strings in memory, without reading past their
  terminators, by their characters as \<open>unsigned char\<close>: the sign of the result is the lexicographic
  order of the strings, for \<open>strncmp\<close> of their first \<open>n\<close> characters, and it is 0 only for equal ones.\<close>

theorem strcmp_strncmp_correct:
  assumes "terminated m x" "terminated m y"
  shows "strcmp m x y = Inr (order3 (cstr m x) (cstr m y)) \<and>
    (\<exists>r. strncmp m x y n = Inr r \<and> sgn r = order3 (take n (cstr m x)) (take n (cstr m y)))"
  using strcmp_order3 [OF assms] strncmp_order3 [OF assms] by simp

theorem strcmp_strncmp_correct_witness:
  "strcmp [CHR 0xE9, NUL, CHR ''z'', NUL] 0 2 = Inr 1"
proof -
  let ?m = "[CHR 0xE9, NUL, CHR ''z'', NUL]"
  have "terminated ?m 0" "terminated ?m 2" by (simp_all add: terminated_def)
  from strcmp_strncmp_correct [OF this] show ?thesis by (simp add: cstr_def uchar_def)
qed

section \<open>strdup\<close>

text \<open>C34: \<open>strdup\<close> asks the allocator for two bytes less than the copy takes: for a string of length
  \<open>n + 1\<close> it requests \<open>n\<close> bytes and writes \<open>n + 2\<close>. The two bytes after the block are overwritten
  with the last character and the terminator; the copy itself is right when nothing else uses them.\<close>

theorem strdup_overrun:
  assumes "string_at m s (Suc n)" "malloc n + n + 1 < length m" "s + n + 1 < malloc n"
  shows "\<exists>m'. strdup malloc m s = Inr (m', malloc n) \<and> string_at m' (malloc n) (Suc n) \<and>
    (\<forall>i \<le> n. m' ! (malloc n + i) = m ! (s + i)) \<and>
    m' ! (malloc n + n) = m ! (s + n) \<and> m' ! (malloc n + n + 1) = NUL"
proof -
  let ?r = "malloc n" and ?m = "copied m (malloc n) s (Suc (Suc n))"
  have "string_at m (s + 1) n" using assms(1) by (simp add: string_at_Suc)
  then have "strdup malloc m s = Inr (?m, ?r)"
    using strlen_at [of m "s + 1" n] strcpy_copied [OF assms(1), of ?r] assms(2,3)
    by (simp add: strdup_def Let_def)
  moreover have c: "?m ! (?r + i) = m ! (s + i)" if "i \<le> Suc n" for i
    using that assms by (simp add: copied_nth string_at_def)
  moreover have "length ?m = length m" using assms by (simp add: length_copied string_at_def)
  ultimately show ?thesis
    using assms(1,2) c [of "Suc n"] c [of n] by (intro exI [of _ ?m]) (auto simp: string_at_def)
qed

theorem strdup_overrun_witness:
  "\<exists>m'. strdup (\<lambda>_. 3) (''ab'' @ NUL # ''xyz'') 0 = Inr (m', 3) \<and> m' ! 4 = CHR ''b'' \<and> m' ! 5 = NUL"
proof -
  have "string_at (''ab'' @ NUL # ''xyz'') 0 (Suc 1)" by (auto simp: string_at_def less_Suc_eq)
  from strdup_overrun [OF this, of "\<lambda>_. 3"] show ?thesis by auto
qed

end
