(* ===== verification/QSort.thy ===== *)
theory QSort
  imports CString "HOL-Library.Multiset"
begin

text \<open>
  \<open>qsort\<close> of the C library (\<open>diskfs/stdlib/_qsort.h\<close>).

  \<open>memswp\<close> is modelled on the bytes of the memory; the sorting itself on the array of its elements,
  which a swap of two elements of \<open>size\<close> bytes exchanges (\<open>memswp_elements\<close>). Pointers into the
  array are indices in units of \<open>size\<close>; an access outside the array, like a push on a full stack, is
  \<open>Undef\<close>. The comparison function is a parameter; what the code relies on is the locale
  \<open>comparator\<close>. The two endless loops of the source run on fuel, which \<open>qsort\<close> supplies.
\<close>

section \<open>Swapping\<close>

function memswp :: "buf \<Rightarrow> nat \<Rightarrow> nat \<Rightarrow> nat \<Rightarrow> err + buf" where
  "memswp m i j n =
     bindR (rd m i) (\<lambda>tmp. bindR (rd m j) (\<lambda>c. bindR (wr m i c) (\<lambda>m'. bindR (wr m' j tmp) (\<lambda>m'.
     let n = (if n = 0 then 2 ^ 32 - 1 else n - 1) in
     if n = 0 then Inr m' else memswp m' (i + 1) (j + 1) n))))"
  by pat_completeness auto
termination
  by (relation "measure (\<lambda>(m, i, j, n). length m - i)") (auto dest!: rd_InrD wr_InrD)

declare memswp.simps [simp del]

lemma memswp_bytes:
  "0 < n \<Longrightarrow> i + n \<le> length m \<Longrightarrow> j + n \<le> length m \<Longrightarrow> i = j \<or> i + n \<le> j \<or> j + n \<le> i \<Longrightarrow>
    \<exists>m'. memswp m i j n = Inr m' \<and> length m' = length m \<and>
      (\<forall>k < length m. m' ! k = (if i \<le> k \<and> k < i + n then m ! (j + (k - i))
        else if j \<le> k \<and> k < j + n then m ! (i + (k - j)) else m ! k))"
proof (induction n arbitrary: m i j)
  case (Suc n)
  let ?m = "m[i := m ! j, j := m ! i]"
  have step: "memswp m i j (Suc n) = (if n = 0 then Inr ?m else memswp ?m (Suc i) (Suc j) n)"
    using Suc.prems unfolding memswp.simps [of m i j "Suc n"] by (auto simp: Let_def)
  show ?case
  proof (cases "n = 0")
    case True
    then have "memswp m i j (Suc n) = Inr ?m" using step by simp
    then show ?thesis using Suc.prems True by (intro exI [of _ ?m]) (auto simp: nth_list_update)
  next
    case False
    then obtain m' where m': "memswp ?m (Suc i) (Suc j) n = Inr m'" "length m' = length m"
      and nth: "\<forall>k < length m. m' ! k = (if Suc i \<le> k \<and> k < Suc i + n then ?m ! (Suc j + (k - Suc i))
        else if Suc j \<le> k \<and> k < Suc j + n then ?m ! (Suc i + (k - Suc j)) else ?m ! k)"
      using Suc.IH [of "Suc i" ?m "Suc j"] Suc.prems by fastforce
    have "m' ! k = (if i \<le> k \<and> k < i + Suc n then m ! (j + (k - i))
        else if j \<le> k \<and> k < j + Suc n then m ! (i + (k - j)) else m ! k)" if "k < length m" for k
    proof -
      note at_k = nth [rule_format, OF that]
      have sub: "Suc a + (k - Suc c) = a + (k - c)" if "c < k" for a c using that by simp
      consider "k = i" | "k = j" "k \<noteq> i" | "i < k" "k < i + Suc n" "k \<noteq> j"
        | "j < k" "k < j + Suc n" "k \<noteq> i" "\<not> (i < k \<and> k < i + Suc n)"
        | "k \<noteq> i" "k \<noteq> j" "\<not> (i < k \<and> k < i + Suc n)" "\<not> (j < k \<and> k < j + Suc n)" by linarith
      then show ?thesis
      proof cases
        case 1
        then show ?thesis using at_k Suc.prems by (auto simp: nth_list_update)
      next
        case 2
        then show ?thesis using at_k Suc.prems by auto
      next
        case 3
        then have "m' ! k = ?m ! (j + (k - i))" using at_k sub [of i j] by simp
        moreover have "j + (k - i) \<noteq> j" "j + (k - i) \<noteq> i" using 3 Suc.prems(4) by linarith+
        ultimately show ?thesis using 3 by simp
      next
        case 4
        then have "m' ! k = ?m ! (i + (k - j))" using at_k sub [of j i] by auto
        moreover have "i + (k - j) \<noteq> j" "i + (k - j) \<noteq> i" using 4 Suc.prems(4) by linarith+
        ultimately show ?thesis using 4 by auto
      next
        case 5
        then show ?thesis using at_k by auto
      qed
    qed
    then show ?thesis using m' False by (simp add: step)
  qed
qed simp

section \<open>qsort on the array\<close>

definition elem :: "'a list \<Rightarrow> nat \<Rightarrow> err + 'a" where
  "elem xs i = (if i < length xs then Inr (xs ! i) else Inl Undef)"

definition swap :: "'a list \<Rightarrow> nat \<Rightarrow> nat \<Rightarrow> err + 'a list" where
  "swap xs i j = bindR (elem xs i) (\<lambda>x. bindR (elem xs j) (\<lambda>y. Inr (xs[i := y, j := x])))"

definition compar :: "('a \<Rightarrow> 'a \<Rightarrow> int) \<Rightarrow> 'a list \<Rightarrow> nat \<Rightarrow> nat \<Rightarrow> err + int" where
  "compar cmp xs i j = bindR (elem xs i) (\<lambda>x. bindR (elem xs j) (\<lambda>y. Inr (cmp x y)))"

definition swap_if_greater :: "('a \<Rightarrow> 'a \<Rightarrow> int) \<Rightarrow> 'a list \<Rightarrow> nat \<Rightarrow> nat \<Rightarrow> err + 'a list" where
  "swap_if_greater cmp xs i j = bindR (compar cmp xs i j) (\<lambda>r. if r > 0 then swap xs i j else Inr xs)"

lemma elem_InrD: "elem xs i = Inr x \<Longrightarrow> i < length xs \<and> x = xs ! i"
  by (simp add: elem_def split: if_splits)

lemma compar_InrD: "compar cmp xs i j = Inr r \<Longrightarrow> i < length xs \<and> j < length xs \<and> r = cmp (xs ! i) (xs ! j)"
  by (auto simp: compar_def bindR_Inr dest: elem_InrD)

lemma swap_InrD: "swap xs i j = Inr ys \<Longrightarrow> length ys = length xs \<and> i < length xs \<and> j < length xs"
  by (auto simp: swap_def bindR_Inr dest: elem_InrD)

lemma access [simp]:
  "i < length xs \<Longrightarrow> elem xs i = Inr (xs ! i)"
  "i < length xs \<Longrightarrow> j < length xs \<Longrightarrow> compar cmp xs i j = Inr (cmp (xs ! i) (xs ! j))"
  "i < length xs \<Longrightarrow> j < length xs \<Longrightarrow> swap xs i j = Inr (xs[i := xs ! j, j := xs ! i])"
  by (simp_all add: elem_def compar_def swap_def)

text \<open>The two scans of the main loop: \<open>i\<close> up to the next element that is not below the pivot, \<open>j\<close>
  down to the next that is not above it. The pivot is the element at \<open>b\<close>.\<close>

function scan_up :: "('a \<Rightarrow> 'a \<Rightarrow> int) \<Rightarrow> 'a list \<Rightarrow> nat \<Rightarrow> nat \<Rightarrow> err + nat" where
  "scan_up cmp xs b i =
     bindR (compar cmp xs (i + 1) b) (\<lambda>r. if r < 0 then scan_up cmp xs b (i + 1) else Inr (i + 1))"
  by pat_completeness auto
termination
  by (relation "measure (\<lambda>(cmp, xs, b, i). length xs - i)") (auto dest: compar_InrD)

fun scan_down :: "('a \<Rightarrow> 'a \<Rightarrow> int) \<Rightarrow> 'a list \<Rightarrow> nat \<Rightarrow> nat \<Rightarrow> err + nat" where
  "scan_down cmp xs b 0 = Inl Undef"
| "scan_down cmp xs b (Suc j) =
     bindR (compar cmp xs j b) (\<lambda>r. if r > 0 then scan_down cmp xs b j else Inr j)"

declare scan_up.simps [simp del]

fun part_loop :: "nat \<Rightarrow> ('a \<Rightarrow> 'a \<Rightarrow> int) \<Rightarrow> nat \<Rightarrow> 'a list \<Rightarrow> nat \<Rightarrow> nat \<Rightarrow> err + ('a list \<times> nat \<times> nat)" where
  "part_loop 0 cmp b xs i j = Inl Fuel"
| "part_loop (Suc n) cmp b xs i j =
     bindR (scan_up cmp xs b i) (\<lambda>i. bindR (scan_down cmp xs b j) (\<lambda>j.
     if i > j then Inr (xs, i, j) else bindR (swap xs i j) (\<lambda>xs. part_loop n cmp b xs i j)))"

text \<open>One round of quicksort on \<open>base\<close> to \<open>limit\<close>: median of three to the front, the main loop, the
  pivot to its place.\<close>

definition partition_range :: "('a \<Rightarrow> 'a \<Rightarrow> int) \<Rightarrow> 'a list \<Rightarrow> nat \<Rightarrow> nat \<Rightarrow> err + ('a list \<times> nat \<times> nat)" where
  "partition_range cmp xs base limit =
     (let i = base + 1; j = limit - 1 in
     bindR (swap xs ((limit - base) div 2 + base) base) (\<lambda>xs.
     bindR (swap_if_greater cmp xs i j) (\<lambda>xs.
     bindR (swap_if_greater cmp xs base j) (\<lambda>xs.
     bindR (swap_if_greater cmp xs i base) (\<lambda>xs.
     bindR (part_loop (limit - base) cmp base xs i j) (\<lambda>(xs, i, j).
     bindR (swap xs base j) (\<lambda>xs. Inr (xs, i, j))))))))"

text \<open>Insertion sort.\<close>

fun insert_down :: "('a \<Rightarrow> 'a \<Rightarrow> int) \<Rightarrow> nat \<Rightarrow> 'a list \<Rightarrow> nat \<Rightarrow> err + 'a list" where
  "insert_down cmp base xs j =
     bindR (compar cmp xs j (j + 1)) (\<lambda>r.
     if r > 0 then bindR (swap xs j (j + 1)) (\<lambda>xs.
       if j = base then Inr xs
       else if j = 0 then Inl Undef else insert_down cmp base xs (j - 1))
     else Inr xs)"

declare insert_down.simps [simp del]

function insertion_sort :: "('a \<Rightarrow> 'a \<Rightarrow> int) \<Rightarrow> nat \<Rightarrow> nat \<Rightarrow> 'a list \<Rightarrow> nat \<Rightarrow> err + 'a list" where
  "insertion_sort cmp base limit xs j =
     (let i = j + 1 in
      if i < limit then bindR (insert_down cmp base xs j) (\<lambda>xs. insertion_sort cmp base limit xs i) else Inr xs)"
  by pat_completeness auto
termination
  by (relation "measure (\<lambda>(cmp, base, limit, xs, j). limit - j)") auto

declare insertion_sort.simps [simp del]

text \<open>The stack has room for 32 pairs of pointers.\<close>

definition STACKSIZE :: nat where "STACKSIZE = 64"

definition THRESHOLD :: nat where "THRESHOLD = 7"

type_synonym range = "nat \<times> nat"

definition push_range :: "range list \<Rightarrow> range \<Rightarrow> err + range list" where
  "push_range stack r = (if 2 * length stack + 2 \<le> STACKSIZE then Inr (r # stack) else Inl Undef)"

fun qsort_loop :: "nat \<Rightarrow> ('a \<Rightarrow> 'a \<Rightarrow> int) \<Rightarrow> 'a list \<Rightarrow> nat \<Rightarrow> nat \<Rightarrow> range list \<Rightarrow> err + 'a list" where
  "qsort_loop 0 cmp xs base limit stack = Inl Fuel"
| "qsort_loop (Suc n) cmp xs base limit stack =
     (if limit - base > THRESHOLD then
        bindR (partition_range cmp xs base limit) (\<lambda>(xs, i, j).
        if j - base > limit - i
        then bindR (push_range stack (base, j)) (\<lambda>stack. qsort_loop n cmp xs i limit stack)
        else bindR (push_range stack (i, limit)) (\<lambda>stack. qsort_loop n cmp xs base j stack))
      else
        bindR (insertion_sort cmp base limit xs base) (\<lambda>xs.
        case stack of (b, l) # stack \<Rightarrow> qsort_loop n cmp xs b l stack | [] \<Rightarrow> Inr xs))"

definition qsort :: "('a \<Rightarrow> 'a \<Rightarrow> int) \<Rightarrow> 'a list \<Rightarrow> err + 'a list" where
  "qsort cmp xs = qsort_loop (2 * length xs + 1) cmp xs 0 (length xs) []"

section \<open>Permuting inside a range\<close>

text \<open>\<open>perm_in b l xs ys\<close>: \<open>ys\<close> is \<open>xs\<close> with the elements from \<open>b\<close> to \<open>l\<close> permuted.\<close>

definition perm_in :: "nat \<Rightarrow> nat \<Rightarrow> 'a list \<Rightarrow> 'a list \<Rightarrow> bool" where
  "perm_in b l xs ys \<longleftrightarrow> length ys = length xs \<and> mset ys = mset xs \<and>
     (\<forall>k. k < b \<or> l \<le> k \<longrightarrow> ys ! k = xs ! k) \<and>
     (\<forall>k. b \<le> k \<and> k < l \<longrightarrow> (\<exists>k'. b \<le> k' \<and> k' < l \<and> ys ! k = xs ! k'))"

lemma perm_in_refl [simp]: "perm_in b l xs xs"
  by (auto simp: perm_in_def)

lemma perm_in_trans: "perm_in b l xs ys \<Longrightarrow> perm_in b l ys zs \<Longrightarrow> perm_in b l xs zs"
  unfolding perm_in_def by (metis (no_types, lifting))

lemma perm_in_swap:
  "b \<le> i \<Longrightarrow> i < l \<Longrightarrow> b \<le> j \<Longrightarrow> j < l \<Longrightarrow> l \<le> length xs \<Longrightarrow> perm_in b l xs (xs[i := xs ! j, j := xs ! i])"
  unfolding perm_in_def
  by (intro conjI allI impI) (auto simp: mset_swap nth_list_update)

lemma perm_in_length: "perm_in b l xs ys \<Longrightarrow> length ys = length xs"
  by (simp add: perm_in_def)

lemma perm_in_mono: "perm_in b l xs ys \<Longrightarrow> b' \<le> b \<Longrightarrow> l \<le> l' \<Longrightarrow> perm_in b' l' xs ys"
  unfolding perm_in_def by (metis (no_types, lifting) le_trans linorder_not_le order_less_le_trans)

lemma perm_in_outside: "perm_in b l xs ys \<Longrightarrow> k < b \<or> l \<le> k \<Longrightarrow> ys ! k = xs ! k"
  unfolding perm_in_def by blast

lemma perm_in_inside: "perm_in b l xs ys \<Longrightarrow> b \<le> k \<Longrightarrow> k < l \<Longrightarrow> \<exists>k'. b \<le> k' \<and> k' < l \<and> ys ! k = xs ! k'"
  by (simp add: perm_in_def)

text \<open>What the code relies on of the comparison: it is the comparison of a total preorder.\<close>

locale comparator =
  fixes cmp :: "'a \<Rightarrow> 'a \<Rightarrow> int"
  assumes cmp_flip: "cmp y x < 0 \<longleftrightarrow> 0 < cmp x y"
    and cmp_trans: "cmp x y \<le> 0 \<Longrightarrow> cmp y z \<le> 0 \<Longrightarrow> cmp x z \<le> 0"
begin

lemma cmp_refl [simp]: "cmp x x = 0"
  using cmp_flip [of x x] by linarith

lemma cmp_total: "cmp x y \<le> 0 \<or> cmp y x \<le> 0"
  using cmp_flip [of x y] by linarith

lemma cmp_not: "\<not> cmp x y \<le> 0 \<Longrightarrow> cmp y x \<le> 0"
  using cmp_total by blast

lemma cmp_ge: "0 \<le> cmp x y \<longleftrightarrow> cmp y x \<le> 0"
  using cmp_flip [of x y] cmp_flip [of y x] by linarith

text \<open>Sorted from \<open>b\<close> to \<open>l\<close>, and sorted there but for the element at \<open>h\<close>.\<close>

definition sorted_in :: "nat \<Rightarrow> nat \<Rightarrow> 'a list \<Rightarrow> bool" where
  "sorted_in b l xs \<longleftrightarrow> (\<forall>p q. b \<le> p \<and> p < q \<and> q < l \<longrightarrow> cmp (xs ! p) (xs ! q) \<le> 0)"

definition sorted_but :: "nat \<Rightarrow> nat \<Rightarrow> nat \<Rightarrow> 'a list \<Rightarrow> bool" where
  "sorted_but h b l xs \<longleftrightarrow>
     (\<forall>p q. b \<le> p \<and> p < q \<and> q < l \<and> q \<noteq> h \<and> p \<noteq> h \<longrightarrow> cmp (xs ! p) (xs ! q) \<le> 0) \<and>
     (\<forall>q. h < q \<and> q < l \<longrightarrow> cmp (xs ! h) (xs ! q) \<le> 0)"

lemma sorted_but_done:
  assumes "sorted_but h b l xs" "h = b \<or> cmp (xs ! (h - 1)) (xs ! h) \<le> 0 \<and> b < h"
  shows "sorted_in b l xs"
  unfolding sorted_in_def
proof (intro allI impI)
  fix p q
  assume pq: "b \<le> p \<and> p < q \<and> q < l"
  show "cmp (xs ! p) (xs ! q) \<le> 0"
  proof (cases "q = h")
    case True
    then have h: "cmp (xs ! (h - 1)) (xs ! h) \<le> 0" "b < h" using assms(2) pq by auto
    show ?thesis
    proof (cases "p = h - 1")
      case False
      then have "p < h - 1" "h - 1 < l" "h - 1 \<noteq> h" "p \<noteq> h" using pq True by auto
      then have "cmp (xs ! p) (xs ! (h - 1)) \<le> 0"
        using assms(1) pq unfolding sorted_but_def by blast
      then show ?thesis using cmp_trans h(1) True by blast
    qed (use h True in simp)
  next
    case False
    then show ?thesis using assms(1) pq unfolding sorted_but_def by (cases "p = h") auto
  qed
qed

lemma insert_down_sorts:
  "sorted_but (Suc j) b l xs \<Longrightarrow> b \<le> j \<Longrightarrow> Suc j < l \<Longrightarrow> l \<le> length xs \<Longrightarrow>
    \<exists>ys. insert_down cmp b xs j = Inr ys \<and> perm_in b l xs ys \<and> sorted_in b l ys"
proof (induction j arbitrary: xs)
  case (0 xs)
  note step = insert_down.simps [of cmp b xs 0]
  let ?ys = "xs[0 := xs ! 1, 1 := xs ! 0]"
  have len: "0 < length xs" "1 < length xs" using "0.prems" by linarith+
  show ?case
  proof (cases "cmp (xs ! 0) (xs ! 1) > 0")
    case True
    have "sorted_but 0 b l ?ys"
      using 0 True cmp_flip [of "xs ! 1" "xs ! 0"] len
      unfolding sorted_but_def by (auto simp: nth_list_update less_Suc_eq_le)
    then have "sorted_in b l ?ys" using 0 by (intro sorted_but_done [of 0]) auto
    then show ?thesis using 0 True step len perm_in_swap [of b 0 l 1 xs] by (simp add: Suc_leI)
  next
    case False
    then have "sorted_in b l xs" using 0 by (intro sorted_but_done [of 1]) auto
    then show ?thesis using 0 False step len by simp
  qed
next
  case (Suc j xs)
  note step = insert_down.simps [of cmp b xs "Suc j"]
  let ?ys = "xs[Suc j := xs ! Suc (Suc j), Suc (Suc j) := xs ! Suc j]"
  show ?case
  proof (cases "cmp (xs ! Suc j) (xs ! Suc (Suc j)) > 0")
    case True
    have but: "sorted_but (Suc j) b l ?ys"
      using Suc.prems True cmp_flip [of "xs ! Suc (Suc j)" "xs ! Suc j"] unfolding sorted_but_def
      by (auto simp: nth_list_update)
    have perm: "perm_in b l xs ?ys" using Suc.prems by (intro perm_in_swap) auto
    show ?thesis
    proof (cases "Suc j = b")
      case True
      then have "sorted_in b l ?ys" using but by (intro sorted_but_done [of "Suc j"]) auto
      then show ?thesis using Suc.prems \<open>0 < cmp _ _\<close> True step perm by simp
    next
      case False
      then obtain zs where "insert_down cmp b ?ys j = Inr zs" "perm_in b l ?ys zs" "sorted_in b l zs"
        using Suc.IH [OF but] Suc.prems by auto
      then show ?thesis using Suc.prems True False step perm perm_in_trans by fastforce
    qed
  next
    case False
    then have "sorted_in b l xs" using Suc.prems by (intro sorted_but_done [of "Suc (Suc j)"]) auto
    then show ?thesis using Suc.prems False step by simp
  qed
qed

lemma insertion_sort_sorts:
  "sorted_in b (Suc j) xs \<Longrightarrow> b \<le> j \<Longrightarrow> l \<le> length xs \<Longrightarrow>
    \<exists>ys. insertion_sort cmp b l xs j = Inr ys \<and> perm_in b l xs ys \<and> sorted_in b l ys"
proof (induction "l - j" arbitrary: xs j rule: less_induct)
  case less
  show ?case
  proof (cases "Suc j < l")
    case True
    have "sorted_but (Suc j) b (Suc (Suc j)) xs"
      using less.prems(1) unfolding sorted_but_def sorted_in_def by (metis less_Suc_eq not_less_eq)
    from insert_down_sorts [OF this less.prems(2)] obtain ys where
      ys: "insert_down cmp b xs j = Inr ys" "perm_in b (Suc (Suc j)) xs ys" "sorted_in b (Suc (Suc j)) ys"
      using True less.prems(3) by auto
    have dec: "l - Suc j < l - j" using True by linarith
    from less.hyps [OF dec ys(3)] obtain zs where
      zs: "insertion_sort cmp b l ys (Suc j) = Inr zs" "perm_in b l ys zs" "sorted_in b l zs"
      using True less.prems(2,3) perm_in_length [OF ys(2)] by auto
    have "perm_in b l xs ys" using ys(2) True by (auto intro: perm_in_mono)
    then show ?thesis using True ys(1) zs perm_in_trans
      by (subst insertion_sort.simps) (auto simp: Let_def)
  next
    case False
    then have "sorted_in b l xs" using less.prems(1) by (auto simp: sorted_in_def)
    then show ?thesis using False by (subst insertion_sort.simps) simp
  qed
qed

lemma scan_up_stops:
  assumes "i < k" "k < length xs" "b < length xs" "0 \<le> cmp (xs ! k) (xs ! b)"
  shows "\<exists>i'. scan_up cmp xs b i = Inr i' \<and> i < i' \<and> i' \<le> k \<and> 0 \<le> cmp (xs ! i') (xs ! b) \<and>
    (\<forall>q. i < q \<and> q < i' \<longrightarrow> cmp (xs ! q) (xs ! b) < 0)"
  using assms(1)
proof (induction "k - i" arbitrary: i rule: less_induct)
  case less
  have step: "scan_up cmp xs b i = (if cmp (xs ! Suc i) (xs ! b) < 0 then scan_up cmp xs b (Suc i) else Inr (Suc i))"
    using less.prems assms by (subst scan_up.simps) simp
  show ?case
  proof (cases "cmp (xs ! Suc i) (xs ! b) < 0")
    case True
    then have "Suc i < k" using less.prems assms(4) by (metis Suc_lessI not_less)
    then have dec: "k - Suc i < k - i" by linarith
    from less.hyps [OF dec \<open>Suc i < k\<close>] obtain i' where i': "scan_up cmp xs b (Suc i) = Inr i'" "Suc i < i'" "i' \<le> k"
      "0 \<le> cmp (xs ! i') (xs ! b)" "\<forall>q. Suc i < q \<and> q < i' \<longrightarrow> cmp (xs ! q) (xs ! b) < 0" by auto
    then have "\<forall>q. i < q \<and> q < i' \<longrightarrow> cmp (xs ! q) (xs ! b) < 0" using True by (metis Suc_lessI)
    then show ?thesis using i' step True by auto
  next
    case False
    then show ?thesis using step less.prems by auto
  qed
qed

lemma scan_down_stops:
  "k < j \<Longrightarrow> j \<le> length xs \<Longrightarrow> b < length xs \<Longrightarrow> cmp (xs ! k) (xs ! b) \<le> 0 \<Longrightarrow>
    \<exists>j'. scan_down cmp xs b j = Inr j' \<and> k \<le> j' \<and> j' < j \<and> cmp (xs ! j') (xs ! b) \<le> 0 \<and>
      (\<forall>q. j' < q \<and> q < j \<longrightarrow> 0 < cmp (xs ! q) (xs ! b))"
proof (induction j)
  case (Suc j)
  show ?case
  proof (cases "cmp (xs ! j) (xs ! b) > 0")
    case True
    then have "k < j" using Suc.prems by (metis less_SucE not_less)
    with Suc obtain j' where j': "scan_down cmp xs b j = Inr j'" "k \<le> j'" "j' < j"
      "cmp (xs ! j') (xs ! b) \<le> 0" "\<forall>q. j' < q \<and> q < j \<longrightarrow> 0 < cmp (xs ! q) (xs ! b)" by auto
    then have "\<forall>q. j' < q \<and> q < Suc j \<longrightarrow> 0 < cmp (xs ! q) (xs ! b)" using True less_Suc_eq by auto
    then show ?thesis using j' True Suc.prems by auto
  next
    case False
    then show ?thesis using Suc.prems by auto
  qed
qed simp

text \<open>The main loop of a partition, and what it leaves: nothing above the pivot before \<open>i\<close>, nothing
  below it after \<open>j\<close>.\<close>

definition split_at :: "nat \<Rightarrow> nat \<Rightarrow> 'a list \<Rightarrow> nat \<Rightarrow> nat \<Rightarrow> bool" where
  "split_at b l xs i j \<longleftrightarrow> (\<forall>k. b < k \<and> k < i \<longrightarrow> cmp (xs ! k) (xs ! b) \<le> 0) \<and>
     (\<forall>k. j < k \<and> k < l \<longrightarrow> 0 \<le> cmp (xs ! k) (xs ! b))"

lemma part_loop_splits:
  "split_at b l xs (Suc i) (j - 1) \<Longrightarrow> b < i \<Longrightarrow> i \<le> j \<Longrightarrow> Suc i < l \<Longrightarrow> j < l \<Longrightarrow> l \<le> length xs \<Longrightarrow> j - i < n \<Longrightarrow>
    \<exists>ys i' j'. part_loop n cmp b xs i j = Inr (ys, i', j') \<and> perm_in (Suc b) l xs ys \<and> b \<le> j' \<and> j' < i' \<and> i' < l \<and>
      split_at b l ys i' j' \<and> cmp (ys ! j') (ys ! b) \<le> 0"
proof (induction n arbitrary: xs i j)
  case (Suc n)
  note split = Suc.prems(1)
  define k where "k = max (Suc i) j"
  have "0 \<le> cmp (xs ! k) (xs ! b)" using split Suc.prems unfolding split_at_def k_def by auto
  moreover have "i < k" "k < length xs" "b < length xs" using Suc.prems unfolding k_def by auto
  ultimately obtain i' where i': "scan_up cmp xs b i = Inr i'" "i < i'" "i' \<le> k" "0 \<le> cmp (xs ! i') (xs ! b)"
      "\<forall>q. i < q \<and> q < i' \<longrightarrow> cmp (xs ! q) (xs ! b) < 0"
    using scan_up_stops [of i k xs b] by blast
  obtain j' where j': "scan_down cmp xs b j = Inr j'" "b \<le> j'" "j' < j" "cmp (xs ! j') (xs ! b) \<le> 0"
      "\<forall>q. j' < q \<and> q < j \<longrightarrow> 0 < cmp (xs ! q) (xs ! b)"
    using scan_down_stops [of b j xs b] Suc.prems by auto
  have low: "cmp (xs ! q) (xs ! b) \<le> 0" if "b < q" "q < i'" for q
    using split i'(5) that unfolding split_at_def by (metis less_imp_le not_less_eq)
  have high: "0 \<le> cmp (xs ! q) (xs ! b)" if "j' < q" "q < l" for q
  proof (cases "q < j")
    case True
    then show ?thesis using j'(5) that by (simp add: less_imp_le)
  next
    case False
    then have "j - 1 < q" using j'(3) by simp
    then show ?thesis using split that unfolding split_at_def by blast
  qed
  have l: "i' < l" using i'(3) Suc.prems unfolding k_def by auto
  show ?case
  proof (cases "i' > j'")
    case True
    then have "part_loop (Suc n) cmp b xs i j = Inr (xs, i', j')" using i'(1) j'(1) by simp
    then show ?thesis using True l j' low high unfolding split_at_def by auto
  next
    case False
    let ?ys = "xs[i' := xs ! j', j' := xs ! i']"
    have "split_at b l ?ys (Suc i') (j' - 1)"
      unfolding split_at_def
    proof (intro conjI allI impI)
      fix q
      assume q: "b < q \<and> q < Suc i'"
      then show "cmp (?ys ! q) (?ys ! b) \<le> 0"
        using low [of q] j'(3,4) i'(2,4) Suc.prems l False by (cases "q = i'") (auto simp: nth_list_update)
    next
      fix q
      assume q: "j' - 1 < q \<and> q < l"
      then show "0 \<le> cmp (?ys ! q) (?ys ! b)"
        using high [of q] j'(3,4) i'(2,4) Suc.prems l False by (cases "q = j'") (auto simp: nth_list_update)
    qed
    moreover have "j' - i' < n" "b < i'" "i' \<le> j'" "Suc i' < l" "j' < l" "l \<le> length ?ys"
      using False i'(2) j'(3) Suc.prems by simp_all
    ultimately obtain zs i2 j2 where z: "part_loop n cmp b ?ys i' j' = Inr (zs, i2, j2)"
      "perm_in (Suc b) l ?ys zs" "b \<le> j2" "j2 < i2" "i2 < l" "split_at b l zs i2 j2" "cmp (zs ! j2) (zs ! b) \<le> 0"
      using Suc.IH [of ?ys i' j'] by blast
    moreover have "perm_in (Suc b) l xs ?ys"
      using False i'(2) j'(3) Suc.prems l by (intro perm_in_swap) auto
    moreover have "part_loop (Suc n) cmp b xs i j = Inr (zs, i2, j2)"
      using z(1) i'(1) j'(1,3) l Suc.prems False by simp
    ultimately show ?thesis using perm_in_trans by blast
  qed
qed simp

lemma swap_if_greater_eq:
  "i < length xs \<Longrightarrow> j < length xs \<Longrightarrow>
    swap_if_greater cmp xs i j = Inr (if cmp (xs ! i) (xs ! j) > 0 then xs[i := xs ! j, j := xs ! i] else xs)"
  by (simp add: swap_if_greater_def)

text \<open>One ordering step of the median of three.\<close>

lemma swap_if_greater_orders:
  assumes "b \<le> i" "i < l" "b \<le> j" "j < l" "i \<noteq> j" "l \<le> length xs"
  shows "\<exists>ys. swap_if_greater cmp xs i j = Inr ys \<and> perm_in b l xs ys \<and> cmp (ys ! i) (ys ! j) \<le> 0 \<and>
    (\<forall>k. k \<noteq> i \<and> k \<noteq> j \<longrightarrow> ys ! k = xs ! k) \<and>
    (ys ! i = xs ! i \<and> ys ! j = xs ! j \<or> ys ! i = xs ! j \<and> ys ! j = xs ! i)"
proof (cases "cmp (xs ! i) (xs ! j) > 0")
  case True
  then have "cmp (xs ! j) (xs ! i) \<le> 0" using cmp_not [of "xs ! i" "xs ! j"] by linarith
  then show ?thesis using assms True perm_in_swap [of b i l j xs] by (simp add: swap_if_greater_eq)
qed (use assms in \<open>simp add: swap_if_greater_eq\<close>)

lemma partition_range_splits:
  assumes "b + 7 < l" "l \<le> length xs"
  shows "\<exists>zs i j. partition_range cmp xs b l = Inr (zs, i, j) \<and> perm_in b l xs zs \<and> b \<le> j \<and> j < i \<and> i < l \<and>
    (\<forall>p q. b \<le> p \<and> p < q \<and> q < l \<longrightarrow> cmp (zs ! p) (zs ! q) \<le> 0 \<or> q < j \<or> i \<le> p)"
proof -
  let ?i = "b + 1" and ?j = "l - 1" and ?mid = "(l - b) div 2 + b"
  have mid: "b \<le> ?mid" "?mid < l" using assms(1) by auto
  have ar: "b \<le> b" "b < l" "b \<le> ?i" "?i < l" "b \<le> ?j" "?j < l" "?i \<noteq> ?j" "b \<noteq> ?j" "?i \<noteq> b" using assms(1) by auto
  define x0 where "x0 = xs[?mid := xs ! b, b := xs ! ?mid]"
  have x0: "swap xs ?mid b = Inr x0" "perm_in b l xs x0" "l \<le> length x0"
    using mid assms perm_in_swap [of b ?mid l b xs] by (simp_all add: x0_def)
  obtain x1 where x1: "swap_if_greater cmp x0 ?i ?j = Inr x1" "perm_in b l x0 x1" "cmp (x1 ! ?i) (x1 ! ?j) \<le> 0"
    using swap_if_greater_orders [OF ar(3,4,5,6,7) x0(3)] by blast
  have l1: "l \<le> length x1" using x0(3) perm_in_length [OF x1(2)] by simp
  obtain x2 where x2: "swap_if_greater cmp x1 b ?j = Inr x2" "perm_in b l x1 x2" "cmp (x2 ! b) (x2 ! ?j) \<le> 0"
      "x2 ! ?i = x1 ! ?i" "x2 ! b = x1 ! b \<and> x2 ! ?j = x1 ! ?j \<or> x2 ! b = x1 ! ?j \<and> x2 ! ?j = x1 ! b"
    using swap_if_greater_orders [OF ar(1,2,5,6,8) l1] ar by metis
  have ij: "cmp (x2 ! ?i) (x2 ! ?j) \<le> 0" using x1(3) x2(3,4,5) cmp_trans by metis
  have l2: "l \<le> length x2" using l1 perm_in_length [OF x2(2)] by simp
  obtain x3 where x3: "swap_if_greater cmp x2 ?i b = Inr x3" "perm_in b l x2 x3" "cmp (x3 ! ?i) (x3 ! b) \<le> 0"
      "x3 ! ?j = x2 ! ?j" "x3 ! ?i = x2 ! ?i \<and> x3 ! b = x2 ! b \<or> x3 ! ?i = x2 ! b \<and> x3 ! b = x2 ! ?i"
    using swap_if_greater_orders [OF ar(3,4,1,2,9) l2] ar by metis
  have l3: "l \<le> length x3" using l2 perm_in_length [OF x3(2)] by simp
  have "cmp (x3 ! b) (x3 ! ?j) \<le> 0" using x2(3) ij x3(4,5) by metis
  moreover have "k = ?i" if "b < k" "k < Suc ?i" for k using that by simp
  moreover have "k = ?j" if "?j - 1 < k" "k < l" for k using that ar(6) by simp
  ultimately have "split_at b l x3 (Suc ?i) (?j - 1)"
    using x3(3) cmp_ge unfolding split_at_def by blast
  moreover have "b < ?i" "?i \<le> ?j" "Suc ?i < l" "?j < l" "?j - ?i < l - b" using assms(1) by auto
  ultimately obtain ys i j where ys: "part_loop (l - b) cmp b x3 ?i ?j = Inr (ys, i, j)" "perm_in (Suc b) l x3 ys"
      "b \<le> j" "j < i" "i < l" "split_at b l ys i j" "cmp (ys ! j) (ys ! b) \<le> 0"
    using part_loop_splits [of b l x3 ?i ?j "l - b"] l3 by blast
  define zs where "zs = ys[b := ys ! j, j := ys ! b]"
  have ly: "l \<le> length ys" using l3 perm_in_length [OF ys(2)] by simp
  have z: "swap ys b j = Inr zs" "perm_in b l ys zs"
    using ly ys(3,4,5) perm_in_swap [of b b l j ys] by (simp_all add: zs_def)
  have "partition_range cmp xs b l = Inr (zs, i, j)"
    by (simp add: partition_range_def x0(1) x1(1) [simplified] x2(1) [simplified] x3(1) [simplified] ys(1) [simplified] z(1))
  moreover have "perm_in b l xs zs"
    using x0(2) x1(2) x2(2) x3(2) perm_in_mono [OF ys(2), of b l] z(2) by (simp, meson perm_in_trans)
  moreover have "cmp (zs ! p) (zs ! q) \<le> 0" if "b \<le> p" "p < q" "q < l" "j \<le> q" "p < i" for p q
  proof (rule cmp_trans [of _ "ys ! b"])
    show "cmp (zs ! p) (ys ! b) \<le> 0"
      using that ys(3-7) ly unfolding zs_def split_at_def
      by (cases "p = b"; cases "p = j") (auto simp: nth_list_update)
    show "cmp (ys ! b) (zs ! q) \<le> 0"
      using that ys(3-7) ly unfolding zs_def split_at_def
      by (cases "q = j") (auto simp: nth_list_update simp flip: cmp_ge)
  qed
  ultimately show ?thesis using ys(3,4,5) by (metis linorder_not_le)
qed

text \<open>The work that is left: every pair of elements outside one pending range is in order.\<close>

definition ordered :: "'a list \<Rightarrow> range list \<Rightarrow> bool" where
  "ordered xs rs \<longleftrightarrow> (\<forall>p q. p < q \<and> q < length xs \<longrightarrow>
     cmp (xs ! p) (xs ! q) \<le> 0 \<or> (\<exists>(b, l) \<in> set rs. b \<le> p \<and> q < l))"

lemma orderedD: "ordered xs rs \<Longrightarrow> p < q \<Longrightarrow> q < length xs \<Longrightarrow>
    (\<And>b l. (b, l) \<in> set rs \<Longrightarrow> b \<le> p \<Longrightarrow> q < l \<Longrightarrow> False) \<Longrightarrow> cmp (xs ! p) (xs ! q) \<le> 0"
  unfolding ordered_def by blast

lemma ordered_sorted: "ordered xs [] \<Longrightarrow> sorted_wrt (\<lambda>x y. cmp x y \<le> 0) xs"
  by (simp add: ordered_def sorted_wrt_iff_nth_less)

lemma ordered_refine:
  assumes apart: "\<forall>(b', l') \<in> set rs. l \<le> b' \<or> l' \<le> b" and ord: "ordered xs ((b, l) # rs)"
    and perm: "perm_in b l xs ys" and l: "l \<le> length xs"
    and inside: "\<forall>p q. b \<le> p \<and> p < q \<and> q < l \<longrightarrow>
      cmp (ys ! p) (ys ! q) \<le> 0 \<or> (\<exists>(b', l') \<in> set new. b' \<le> p \<and> q < l')"
  shows "ordered ys (new @ rs)"
  unfolding ordered_def
proof (intro allI impI)
  fix p q
  assume pq: "p < q \<and> q < length ys"
  then have q: "q < length xs" using perm_in_length [OF perm] by simp
  show "cmp (ys ! p) (ys ! q) \<le> 0 \<or> (\<exists>(b', l') \<in> set (new @ rs). b' \<le> p \<and> q < l')"
  proof (rule disjCI)
    assume none: "\<not> (\<exists>(b', l') \<in> set (new @ rs). b' \<le> p \<and> q < l')"
    have hit: False if "(b', l') \<in> set rs" "b' \<le> k" "k < l'" "b \<le> k" "k < l" for b' l' k
      using apart that by force
    show "cmp (ys ! p) (ys ! q) \<le> 0"
    proof (cases "b \<le> p \<and> p < l")
      case p: True
      then obtain p' where p': "b \<le> p'" "p' < l" "ys ! p = xs ! p'" using perm_in_inside [OF perm] by blast
      show ?thesis
      proof (cases "q < l")
        case True
        then show ?thesis using inside p pq none by auto
      next
        case False
        then have "ys ! q = xs ! q" by (intro perm_in_outside [OF perm]) simp
        moreover have "cmp (xs ! p') (xs ! q) \<le> 0"
          by (rule orderedD [OF ord]) (use False p' q hit in \<open>auto, fastforce\<close>)
        ultimately show ?thesis using p'(3) by simp
      qed
    next
      case p: False
      then have yp: "ys ! p = xs ! p" by (intro perm_in_outside [OF perm]) auto
      show ?thesis
      proof (cases "b \<le> q \<and> q < l")
        case True
        then obtain q' where q': "b \<le> q'" "q' < l" "ys ! q = xs ! q'" using perm_in_inside [OF perm] by blast
        have "cmp (xs ! p) (xs ! q') \<le> 0"
          by (rule orderedD [OF ord]) (use True p pq q' l hit in \<open>auto, fastforce\<close>)
        then show ?thesis using yp q'(3) by simp
      next
        case False
        then have "ys ! q = xs ! q" by (intro perm_in_outside [OF perm]) auto
        moreover have "cmp (xs ! p) (xs ! q) \<le> 0"
          by (rule orderedD [OF ord]) (use False p pq q none in auto)
        ultimately show ?thesis using yp by simp
      qed
    qed
  qed
qed

end

text \<open>The pending ranges are inside the array and disjoint; the sizes of the stacked ranges halve
  from each to the next above, since the larger part is pushed.\<close>

fun apart :: "nat \<Rightarrow> range list \<Rightarrow> bool" where
  "apart n [] \<longleftrightarrow> True"
| "apart n ((b, l) # rs) \<longleftrightarrow> b \<le> l \<and> l \<le> n \<and> (\<forall>(b', l') \<in> set rs. l \<le> b' \<or> l' \<le> b) \<and> apart n rs"

fun room :: "nat \<Rightarrow> range list \<Rightarrow> bool" where
  "room n [] \<longleftrightarrow> True"
| "room n ((b, l) # rs) \<longleftrightarrow> (l - b) * 2 ^ length rs \<le> n \<and> room n rs"

definition weight :: "range list \<Rightarrow> nat" where
  "weight rs = sum_list (map (\<lambda>(b, l). 2 * (l - b) + 1) rs)"

lemma weight_simps [simp]: "weight [] = 0" "weight ((b, l) # rs) = 2 * (l - b) + 1 + weight rs"
  by (simp_all add: weight_def)

lemma apart_split:
  "apart n ((b, l) # rs) \<Longrightarrow> b \<le> j \<Longrightarrow> j < i \<Longrightarrow> i < l \<Longrightarrow> apart n ((b, j) # (i, l) # rs) \<and> apart n ((i, l) # (b, j) # rs)"
  by fastforce

lemma room_split:
  assumes "room n ((b, l) # rs)" "c + c \<le> l - b" "d \<le> l - b" "d = l1 - b1" "c = l2 - b2"
  shows "room n ((b2, l2) # (b1, l1) # rs)"
proof -
  have "d * 2 ^ length rs \<le> (l - b) * 2 ^ length rs" "(c + c) * 2 ^ length rs \<le> (l - b) * 2 ^ length rs"
    using assms(2,3) by (simp_all only: mult_le_mono1)
  moreover have "c * 2 ^ length ((b1, l1) # rs) = (c + c) * 2 ^ length rs" by simp
  ultimately show ?thesis using assms(1) unfolding room.simps assms(4,5) by linarith
qed

lemma push_range_room:
  assumes "room n ((b, l) # rs)" "7 < l - b" "n < 2 ^ 32"
  shows "push_range rs r = Inr (r # rs)"
proof -
  have "8 * 2 ^ length rs \<le> (l - b) * 2 ^ length rs" using assms(2) by (intro mult_le_mono1) simp
  also have "\<dots> \<le> n" using assms(1) by simp
  finally have "2 ^ (3 + length rs) < (2 :: nat) ^ 32" using assms(3) by (simp add: power_add)
  then have "3 + length rs < 32" by (rule power_less_imp_less_exp [rotated]) simp
  then show ?thesis by (simp add: push_range_def STACKSIZE_def)
qed

context comparator
begin

lemma qsort_loop_sorts:
  assumes "N < 2 ^ 32"
  shows "apart (length xs) ((b, l) # rs) \<Longrightarrow> room N ((b, l) # rs) \<Longrightarrow> ordered xs ((b, l) # rs) \<Longrightarrow>
    weight ((b, l) # rs) \<le> n \<Longrightarrow> \<exists>ys. qsort_loop n cmp xs b l rs = Inr ys \<and> mset ys = mset xs \<and> ordered ys []"
proof (induction n arbitrary: xs b l rs)
  case (Suc n)
  note ap = Suc.prems(1)
  have l: "b \<le> l" "l \<le> length xs" "\<forall>(b', l') \<in> set rs. l \<le> b' \<or> l' \<le> b" using ap by simp_all
  show ?case
  proof (cases "l - b > 7")
    case True
    then have "b + 7 < l" by simp
    from partition_range_splits [OF this l(2)] obtain zs i j where
      z: "partition_range cmp xs b l = Inr (zs, i, j)" "perm_in b l xs zs" and ij: "b \<le> j" "j < i" "i < l"
      and ord: "\<forall>p q. b \<le> p \<and> p < q \<and> q < l \<longrightarrow> cmp (zs ! p) (zs ! q) \<le> 0 \<or> q < j \<or> i \<le> p" by blast
    have zs: "mset zs = mset xs" "length zs = length xs" using z(2) by (simp_all add: perm_in_def)
    have apart: "apart (length zs) ((b, j) # (i, l) # rs)" "apart (length zs) ((i, l) # (b, j) # rs)"
      using apart_split [OF ap ij] zs(2) by simp_all
    have "ordered zs ([(b, j), (i, l)] @ rs)"
      by (rule ordered_refine [OF l(3) Suc.prems(3) z(2) l(2)]) (use ord in auto)
    moreover have "ordered zs ([(i, l), (b, j)] @ rs)"
      by (rule ordered_refine [OF l(3) Suc.prems(3) z(2) l(2)]) (use ord in auto)
    ultimately have ordered: "ordered zs ((b, j) # (i, l) # rs)" "ordered zs ((i, l) # (b, j) # rs)" by simp_all
    note push = push_range_room [OF Suc.prems(2) True assms]
    show ?thesis
    proof (cases "j - b > l - i")
      case larger: True
      have "room N ((i, l) # (b, j) # rs)"
        by (rule room_split [OF Suc.prems(2), of "l - i" "j - b"]) (use larger ij in auto)
      moreover have "weight ((i, l) # (b, j) # rs) \<le> n" using Suc.prems(4) ij by simp
      ultimately obtain ys where "qsort_loop n cmp zs i l ((b, j) # rs) = Inr ys" "mset ys = mset zs" "ordered ys []"
        using Suc.IH [OF apart(2)] ordered(2) by blast
      then show ?thesis using True larger z(1) push zs by (simp add: THRESHOLD_def)
    next
      case smaller: False
      have "room N ((b, j) # (i, l) # rs)"
        by (rule room_split [OF Suc.prems(2), of "j - b" "l - i"]) (use smaller ij in auto)
      moreover have "weight ((b, j) # (i, l) # rs) \<le> n" using Suc.prems(4) ij by simp
      ultimately obtain ys where "qsort_loop n cmp zs b j ((i, l) # rs) = Inr ys" "mset ys = mset zs" "ordered ys []"
        using Suc.IH [OF apart(1)] ordered(1) by blast
      then show ?thesis using True smaller z(1) push zs by (simp add: THRESHOLD_def)
    qed
  next
    case False
    have "sorted_in b (Suc b) xs" by (simp add: sorted_in_def)
    from insertion_sort_sorts [OF this _ l(2)] obtain zs where
      z: "insertion_sort cmp b l xs b = Inr zs" "perm_in b l xs zs" "sorted_in b l zs" by auto
    have zs: "mset zs = mset xs" "length zs = length xs" using z(2) by (simp_all add: perm_in_def)
    have ord: "ordered zs ([] @ rs)"
      by (rule ordered_refine [OF l(3) Suc.prems(3) z(2) l(2)]) (use z(3) in \<open>auto simp: sorted_in_def\<close>)
    show ?thesis
    proof (cases rs)
      case Nil
      then show ?thesis using False z(1) zs ord by (simp add: THRESHOLD_def)
    next
      case (Cons r rs')
      obtain b' l' where r: "r = (b', l')" by (cases r)
      obtain ys where "qsort_loop n cmp zs b' l' rs' = Inr ys" "mset ys = mset zs" "ordered ys []"
        using Suc.IH [of zs b' l' rs'] Suc.prems ord zs Cons r by auto
      then show ?thesis using False z(1) zs Cons r by (simp add: THRESHOLD_def)
    qed
  qed
qed simp

lemma qsort_sorts:
  assumes "length xs < 2 ^ 32"
  shows "\<exists>ys. qsort cmp xs = Inr ys \<and> mset ys = mset xs \<and> sorted_wrt (\<lambda>x y. cmp x y \<le> 0) ys"
proof -
  have "ordered xs [(0, length xs)]" by (simp add: ordered_def)
  from qsort_loop_sorts [OF assms, of xs 0 "length xs" "[]", OF _ _ this, of "2 * length xs + 1"]
  show ?thesis using ordered_sorted by (auto simp: qsort_def)
qed

end

section \<open>Elements and bytes\<close>

text \<open>An array of elements of \<open>n\<close> bytes is the concatenation of their representations.\<close>

definition blocks :: "nat \<Rightarrow> buf list \<Rightarrow> bool" where
  "blocks n xs \<longleftrightarrow> (\<forall>x \<in> set xs. length x = n)"

lemma length_blocks: "blocks n xs \<Longrightarrow> length (concat xs) = length xs * n"
  by (induction xs) (simp_all add: blocks_def)

lemma nth_blocks: "blocks n xs \<Longrightarrow> q < length xs \<Longrightarrow> r < n \<Longrightarrow> concat xs ! (q * n + r) = xs ! q ! r"
proof (induction xs arbitrary: q)
  case (Cons x xs)
  then have x: "length x = n" "blocks n xs" by (simp_all add: blocks_def)
  show ?case
  proof (cases q)
    case (Suc q')
    then show ?thesis using Cons.IH [OF x(2), of q'] Cons.prems x(1) by (simp add: nth_append add.assoc)
  qed (use Cons.prems x in \<open>simp add: nth_append\<close>)
qed simp

lemma block_index:
  assumes "k < c * n"
  shows "\<exists>q r. k = q * n + r \<and> q < c \<and> r < (n :: nat)"
proof -
  have "0 < n" using assms by (cases n) auto
  moreover have "k div n < c" using assms by (simp add: less_mult_imp_div_less)
  ultimately show ?thesis by (intro exI [of _ "k div n"] exI [of _ "k mod n"]) simp
qed

lemma block_range: "r < n \<Longrightarrow> i * n \<le> q * n + r \<and> q * n + r < i * n + n \<longleftrightarrow> q = (i :: nat)"
proof
  assume r: "r < n" and k: "i * n \<le> q * n + r \<and> q * n + r < i * n + n"
  have "(q * n + r) div n = q" using r by simp
  moreover have "(q * n + r) div n = i"
    using k r by (intro div_nat_eqI) (simp_all add: mult.commute)
  ultimately show "q = i" by simp
qed simp

text \<open>C30: \<open>memswp\<close> exchanges two elements of an array: on the bytes of an array of elements of \<open>n\<close>
  bytes, called with the addresses of the elements \<open>i\<close> and \<open>j\<close>, it makes no access outside the array
  and produces the bytes of the array with these two exchanged.\<close>

theorem memswp_elements:
  assumes "blocks n xs" "0 < n" "i < length xs" "j < length xs"
  shows "memswp (concat xs) (i * n) (j * n) n = Inr (concat (xs[i := xs ! j, j := xs ! i]))"
proof -
  let ?ys = "xs[i := xs ! j, j := xs ! i]"
  have blk: "blocks n ?ys" using assms by (auto simp: blocks_def in_set_conv_nth nth_list_update)
  have fit: "a * n + n \<le> length (concat xs)" if "a < length xs" for a
    using that mult_le_mono1 [of "Suc a" "length xs" n] by (simp add: length_blocks [OF assms(1)])
  have apart: "i * n = j * n \<or> i * n + n \<le> j * n \<or> j * n + n \<le> i * n"
  proof (cases i j rule: linorder_cases)
    case less
    then show ?thesis using mult_le_mono1 [of "Suc i" j n] by simp
  next
    case greater
    then show ?thesis using mult_le_mono1 [of "Suc j" i n] by simp
  qed simp
  obtain m where m: "memswp (concat xs) (i * n) (j * n) n = Inr m" "length m = length (concat xs)"
    and nth: "\<forall>k < length (concat xs). m ! k = (if i * n \<le> k \<and> k < i * n + n then concat xs ! (j * n + (k - i * n))
        else if j * n \<le> k \<and> k < j * n + n then concat xs ! (i * n + (k - j * n)) else concat xs ! k)"
    using memswp_bytes [OF assms(2) fit [OF assms(3)] fit [OF assms(4)] apart] by auto
  have "m = concat ?ys"
  proof (rule nth_equalityI)
    show "length m = length (concat ?ys)" using m(2) length_blocks [OF assms(1)] length_blocks [OF blk] by simp
    fix k
    assume "k < length m"
    then have k: "k < length xs * n" using m(2) length_blocks [OF assms(1)] by simp
    then obtain q r where qr: "k = q * n + r" "q < length xs" "r < n" using block_index by blast
    have "m ! k = (if q = i then xs ! j ! r else if q = j then xs ! i ! r else xs ! q ! r)"
      using nth [rule_format, of k] k qr assms block_range [OF qr(3)]
      by (simp add: length_blocks [OF assms(1)] nth_blocks [OF assms(1)])
    also have "\<dots> = concat ?ys ! k" using qr assms nth_blocks [OF blk] by (simp add: nth_list_update)
    finally show "m ! k = concat ?ys ! k" .
  qed
  then show ?thesis using m(1) by simp
qed

theorem memswp_elements_witness:
  "memswp ''aabbcc'' 0 4 2 = Inr ''ccbbaa''"
  using memswp_elements [of 2 "[''aa'', ''bb'', ''cc'']" 0 2] by (simp add: blocks_def)

section \<open>Sorting\<close>

text \<open>The order that \<open>strcmp\<close> computes is such a comparison.\<close>

lemma order3_flip: "order3 t s = - order3 s t"
  by (induction s arbitrary: t) (case_tac t; auto)+

lemma order3_trans: "order3 s t \<le> 0 \<Longrightarrow> order3 t u \<le> 0 \<Longrightarrow> order3 s u \<le> 0"
proof (induction s arbitrary: t u)
  case Nil
  then show ?case by (cases u) auto
next
  case (Cons a s)
  then obtain b t' c u' where "t = b # t'" "u = c # u'"
    by (cases t; cases u) auto
  with Cons show ?case by (auto split: if_splits)
qed

interpretation strings: comparator order3
proof
  show "order3 t s < 0 \<longleftrightarrow> 0 < order3 s t" for s t
    by (subst order3_flip) simp
qed (rule order3_trans)

text \<open>C14: \<open>qsort\<close> sorts. With the comparison of any total preorder and any array that fits in memory it
  returns (no loop runs on, no access leaves the array, the stack of ranges never overflows), and the
  result is a permutation of the array in ascending order.\<close>

theorem qsort_correct:
  assumes "comparator cmp" "length xs < 2 ^ 32"
  shows "\<exists>ys. qsort cmp xs = Inr ys \<and> mset ys = mset xs \<and> sorted_wrt (\<lambda>x y. cmp x y \<le> 0) ys"
  by (rule comparator.qsort_sorts [OF assms])

theorem qsort_correct_witness:
  "\<exists>ys. qsort order3 [''b'', ''a''] = Inr ys \<and> mset ys = {#''a'', ''b''#} \<and> sorted_wrt (\<lambda>x y. order3 x y \<le> 0) ys"
  using qsort_correct [OF strings.comparator_axioms, of "[''b'', ''a'']"] by (simp add: add_mset_commute)

text \<open>Sorting strings with \<open>strcmp\<close>: the comparison of the library itself meets what \<open>qsort\<close> relies
  on, so the result is a permutation of the strings in their lexicographic order.\<close>

theorem qsort_strings:
  assumes "length ss < 2 ^ 32"
  shows "\<exists>ts. qsort order3 ss = Inr ts \<and> mset ts = mset ss \<and>
    sorted_wrt (\<lambda>s t. s = t \<or> uless s t) ts"
proof -
  have "order3 s t \<le> 0 \<longleftrightarrow> s = t \<or> uless s t" for s t by (simp add: order3_def)
  then show ?thesis using strings.qsort_sorts [OF assms] by simp
qed

theorem qsort_strings_witness:
  "\<exists>ts. qsort order3 [''b'', '''', ''a''] = Inr ts \<and> mset ts = {#'''', ''a'', ''b''#}"
  using qsort_strings [of "[''b'', '''', ''a'']"] by (auto simp: add_mset_commute)

end
