(* ===== verification/StrTo.thy ===== *)
theory StrTo
  imports CString "HOL-Library.Code_Target_Nat" "HOL-Library.Signed_Division"
begin

text \<open>
  The number parsers of the C library: \<open>diskfs/stdlib/_strtox.h\<close> with the digits of \<open>_digits.h\<close>.

  \<open>intmax_t\<close> and \<open>uintmax_t\<close> are 64 bits wide, \<open>long\<close> and \<open>int\<close> 32. A pointer is an index into the
  memory; the pointer a function stores through \<open>endptr\<close> is returned, \<open>None\<close> when it stores none,
  and so is whether it sets \<open>errno\<close> to \<open>ERANGE\<close>. Negating the least \<open>long\<close> wraps around, as the
  machine instruction does.
\<close>

section \<open>The parsers\<close>

definition digits :: buf where
  "digits = ''0123456789abcdefghijklmnopqrstuvwxyz'' @ [NUL]"

definition Xdigits :: buf where
  "Xdigits = ''0123456789ABCDEF'' @ [NUL]"

text \<open>The test that all loops make: the character at \<open>p\<close> is one of the first \<open>base\<close> digits.\<close>

definition find_digit :: "char \<Rightarrow> nat \<Rightarrow> err + nat option" where
  "find_digit c base = memchr digits 0 (tolower (schar c)) base"

function skip_space :: "buf \<Rightarrow> nat \<Rightarrow> err + nat" where
  "skip_space m s = bindR (rd m s) (\<lambda>c. if isspace (schar c) then skip_space m (s + 1) else Inr s)"
  by pat_completeness auto
termination
  by (relation "measure (\<lambda>(m, s). length m - s)") (auto dest: rd_InrD)

function atomax_loop :: "buf \<Rightarrow> nat \<Rightarrow> 64 word \<Rightarrow> err + 64 word" where
  "atomax_loop m s rc =
     bindR (rd m s) (\<lambda>c. bindR (find_digit c 10) (\<lambda>x.
     case x of None \<Rightarrow> Inr rc | Some d \<Rightarrow> atomax_loop m (s + 1) (rc * 10 + of_nat d)))"
  by pat_completeness auto
termination
  by (relation "measure (\<lambda>(m, s, rc). length m - s)") (auto dest: rd_InrD)

definition atomax :: "buf \<Rightarrow> nat \<Rightarrow> err + 64 word" where
  "atomax m s =
     bindR (skip_space m s) (\<lambda>s. bindR (rd m s) (\<lambda>c.
     let sign = (if c = CHR ''-'' then c else CHR ''+'');
         s = (if c = CHR ''+'' \<or> c = CHR ''-'' then s + 1 else s) in
     bindR (atomax_loop m s 0) (\<lambda>rc. Inr (if sign = CHR ''+'' then rc else - rc))))"

definition atoi :: "buf \<Rightarrow> nat \<Rightarrow> err + 32 word" where
  "atoi m s = bindR (atomax m s) (\<lambda>rc. Inr (ucast rc))"

text \<open>The result is the pointer, null if the base is invalid, the sign and the base.\<close>

definition strtox_prelim :: "buf \<Rightarrow> nat \<Rightarrow> int \<Rightarrow> err + (nat option \<times> char \<times> int)" where
  "strtox_prelim m p base =
     bindR (skip_space m p) (\<lambda>p. bindR (rd m p) (\<lambda>c.
     let sign = (if c \<noteq> CHR ''+'' \<and> c \<noteq> CHR ''-'' then CHR ''+'' else c);
         p = (if c \<noteq> CHR ''+'' \<and> c \<noteq> CHR ''-'' then p else p + 1) in
     bindR (rd m p) (\<lambda>c.
     bindR
       (if c = CHR ''0'' then
          (let p = p + 1 in bindR (rd m p) (\<lambda>c.
           if (base = 0 \<or> base = 16) \<and> (c = CHR ''x'' \<or> c = CHR ''X'') then
             (let base = 16; p = p + 1 in bindR (rd m p) (\<lambda>c.
              bindR (find_digit c (nat base)) (\<lambda>x. Inr (if x = None then p - 2 else p, base))))
           else if base = 0 then Inr (p - 1, 8)
           else Inr (p - 1, base)))
        else if base = 0 then Inr (p, 10)
        else Inr (p, base))
       (\<lambda>(p, base). Inr (if 2 \<le> base \<and> base \<le> 36 then Some p else None, sign, base)))))"

function skip_digits :: "buf \<Rightarrow> nat \<Rightarrow> nat \<Rightarrow> err + nat" where
  "skip_digits m p base =
     bindR (rd m p) (\<lambda>c. bindR (find_digit c base) (\<lambda>x.
     if x \<noteq> None then skip_digits m (p + 1) base else Inr p))"
  by pat_completeness auto
termination
  by (relation "measure (\<lambda>(m, p, base). length m - p)") (auto dest: rd_InrD)

text \<open>The state of the loop is \<open>p\<close>, \<open>rc\<close> and \<open>digit\<close>; the result is the value, the pointer, the sign
  and whether \<open>errno\<close> was set.\<close>

function strtox_loop :: "buf \<Rightarrow> nat \<Rightarrow> nat \<Rightarrow> 64 word \<Rightarrow> 64 word \<Rightarrow> int \<Rightarrow> char \<Rightarrow> 64 word \<Rightarrow> int
    \<Rightarrow> err + (64 word \<times> nat option \<times> char \<times> bool)" where
  "strtox_loop m p base error limval limdigit sign rc digit =
     bindR (rd m p) (\<lambda>c. bindR (find_digit c base) (\<lambda>x.
     case x of
       None \<Rightarrow> Inr (if digit = - 1 then (0, None, sign, False) else (rc, Some p, sign, False))
     | Some d \<Rightarrow>
         (let digit = int d in
          if rc < limval \<or> (rc = limval \<and> digit \<le> limdigit)
          then strtox_loop m (p + 1) base error limval limdigit sign (rc * of_nat base + of_int digit) digit
          else bindR (skip_digits m p base) (\<lambda>p. Inr (error, Some p, CHR ''+'', True)))))"
  by pat_completeness auto
termination
  by (relation "measure (\<lambda>(m, p, r). length m - p)") (auto dest: rd_InrD)

definition strtox_main :: "buf \<Rightarrow> nat \<Rightarrow> nat \<Rightarrow> 64 word \<Rightarrow> 64 word \<Rightarrow> int \<Rightarrow> char
    \<Rightarrow> err + (64 word \<times> nat option \<times> char \<times> bool)" where
  "strtox_main m p base error limval limdigit sign =
     strtox_loop m p base error limval limdigit sign 0 (- 1)"

definition LONG_MAX :: int where "LONG_MAX = 2147483647"
definition LONG_MIN :: int where "LONG_MIN = - 2147483647 - 1"
definition ULONG_MAX :: int where "ULONG_MAX = 4294967295"
definition LLONG_MAX :: int where "LLONG_MAX = 9223372036854775807"
definition LLONG_MIN :: int where "LLONG_MIN = - 9223372036854775807 - 1"
definition ULLONG_MAX :: int where "ULLONG_MAX = 18446744073709551615"

declare skip_space.simps [simp del] atomax_loop.simps [simp del] skip_digits.simps [simp del]
  strtox_loop.simps [simp del]

definition strtol :: "buf \<Rightarrow> nat \<Rightarrow> int \<Rightarrow> err + (32 word \<times> nat option \<times> bool)" where
  "strtol m s base =
     bindR (strtox_prelim m s base) (\<lambda>(p, sign, base).
     case p of None \<Rightarrow> Inr (0, None, False)
     | Some p \<Rightarrow>
       bindR (if sign = CHR ''+''
              then strtox_main m p (nat base) (of_int LONG_MAX) (of_int (LONG_MAX sdiv base))
                     (LONG_MAX smod base) sign
              else strtox_main m p (nat base) (of_int LONG_MIN) (of_int (LONG_MIN sdiv - base))
                     (- (LONG_MIN smod base)) sign)
       (\<lambda>(v, p, sign, erange).
         let rc = ucast v :: 32 word in
         Inr (if sign = CHR ''+'' then rc else - rc, Some (case p of Some p \<Rightarrow> p | None \<Rightarrow> s), erange)))"

definition strtoll :: "buf \<Rightarrow> nat \<Rightarrow> int \<Rightarrow> err + (64 word \<times> nat option \<times> bool)" where
  "strtoll m s base =
     bindR (strtox_prelim m s base) (\<lambda>(p, sign, base).
     case p of None \<Rightarrow> Inr (0, None, False)
     | Some p \<Rightarrow>
       bindR (if sign = CHR ''+''
              then strtox_main m p (nat base) (of_int LLONG_MAX) (of_int (LLONG_MAX sdiv base))
                     (LLONG_MAX smod base) sign
              else strtox_main m p (nat base) (of_int LLONG_MIN) (of_int (LLONG_MIN sdiv - base))
                     (- (LLONG_MIN smod base)) sign)
       (\<lambda>(rc, p, sign, erange).
         Inr (if sign = CHR ''+'' then rc else - rc, Some (case p of Some p \<Rightarrow> p | None \<Rightarrow> s), erange)))"

definition strtoul :: "buf \<Rightarrow> nat \<Rightarrow> int \<Rightarrow> err + (32 word \<times> nat option \<times> bool)" where
  "strtoul m s base =
     bindR (strtox_prelim m s base) (\<lambda>(p, sign, base).
     case p of None \<Rightarrow> Inr (0, None, False)
     | Some p \<Rightarrow>
       bindR (strtox_main m p (nat base) (of_int ULONG_MAX) (of_int (ULONG_MAX div base))
                (ULONG_MAX mod base) sign)
       (\<lambda>(v, p, sign, erange).
         let rc = ucast v :: 32 word in
         Inr (if sign = CHR ''+'' then rc else - rc, Some (case p of Some p \<Rightarrow> p | None \<Rightarrow> s), erange)))"

definition strtoull :: "buf \<Rightarrow> nat \<Rightarrow> int \<Rightarrow> err + (64 word \<times> nat option \<times> bool)" where
  "strtoull m s base =
     bindR (strtox_prelim m s base) (\<lambda>(p, sign, base).
     case p of None \<Rightarrow> Inr (0, None, False)
     | Some p \<Rightarrow>
       bindR (strtox_main m p (nat base) (of_int ULLONG_MAX) (of_int (ULLONG_MAX div base))
                (ULLONG_MAX mod base) sign)
       (\<lambda>(rc, p, sign, erange).
         Inr (if sign = CHR ''+'' then rc else - rc, Some (case p of Some p \<Rightarrow> p | None \<Rightarrow> s), erange)))"

text \<open>\<open>abs\<close> of \<open>stdlib.h\<close>, on the \<open>int\<close> of the machine.\<close>

definition abs_int :: "32 word \<Rightarrow> 32 word" where
  "abs_int j = (if 0 \<le>s j then j else - j)"

section \<open>Digits\<close>

definition digit_of :: "char \<Rightarrow> nat option" where
  "digit_of c = (let n = uchar c in
     if 48 \<le> n \<and> n < 58 then Some (nat (n - 48))
     else if 65 \<le> n \<and> n < 91 then Some (nat (n - 55))
     else if 97 \<le> n \<and> n < 123 then Some (nat (n - 87)) else None)"

lemma uchar_char_of [simp]: "uchar (char_of (k :: int)) = k mod 256"
  by (simp add: uchar_def)

lemma uchar_tolower:
  "uchar (char_of (tolower (schar c))) = (if 65 \<le> uchar c \<and> uchar c \<le> 90 then uchar c + 32 else uchar c)"
  using uchar_range [of c] by (auto simp: tolower_def schar_def mod_pos_pos_trivial)

lemma uchar_digits: "i < 36 \<Longrightarrow> uchar (digits ! i) = (if i < 10 then 48 + int i else 87 + int i)"
proof -
  have "\<forall>i \<in> set [0..<36]. uchar (digits ! i) = (if i < 10 then 48 + int i else 87 + int i)"
    by (simp add: upt_conv_Cons digits_def uchar_def)
  then show "i < 36 \<Longrightarrow> ?thesis" by simp
qed

lemma digits_at: 
  assumes "i < 36"
  shows "digits ! i = char_of (tolower (schar c)) \<longleftrightarrow> digit_of c = Some i"
proof -
  have "digits ! i = char_of (tolower (schar c)) \<longleftrightarrow> uchar (digits ! i) = uchar (char_of (tolower (schar c)))"
    by (rule uchar_inject [symmetric])
  also have "\<dots> \<longleftrightarrow> digit_of c = Some i"
    unfolding uchar_digits [OF assms] uchar_tolower digit_of_def Let_def using assms by auto
  finally show ?thesis .
qed

lemma memchr_unique:
  "\<forall>i. p \<le> i \<and> i < p + n \<longrightarrow> (m ! i = char_of c \<longleftrightarrow> x = Some i) \<Longrightarrow> p + n \<le> length m \<Longrightarrow>
    memchr m p c n = Inr (case x of Some i \<Rightarrow> if p \<le> i \<and> i < p + n then Some i else None | None \<Rightarrow> None)"
proof (induction n arbitrary: p)
  case (Suc n)
  have IH: "memchr m (Suc p) c n =
      Inr (case x of Some i \<Rightarrow> if Suc p \<le> i \<and> i < Suc p + n then Some i else None | None \<Rightarrow> None)"
    by (rule Suc.IH) (use Suc.prems in auto)
  have "m ! p = char_of c \<longleftrightarrow> x = Some p" using Suc.prems by simp
  then show ?case using Suc.prems(2) IH by (auto split: option.splits)
qed (auto split: option.splits)

text \<open>The value of a character as a digit of a base.\<close>

definition digit_in :: "nat \<Rightarrow> char \<Rightarrow> nat option" where
  "digit_in b c = (case digit_of c of Some d \<Rightarrow> if d < b then Some d else None | None \<Rightarrow> None)"

lemma find_digit_eq: "b \<le> 36 \<Longrightarrow> find_digit c b = Inr (digit_in b c)"
  using memchr_unique [of 0 b digits "tolower (schar c)" "digit_of c"] digits_at [of _ c]
  by (auto simp: find_digit_def digit_in_def digits_def split: option.splits)

lemma digit_in_NUL [simp]: "digit_in b NUL = None"
  by (simp add: digit_in_def digit_of_def uchar_def)

section \<open>Reading a string\<close>

text \<open>\<open>holds m p s\<close>: the string \<open>s\<close> is at \<open>p\<close>, with its terminator. \<open>peek\<close> reads it, giving the
  terminator at the end.\<close>

definition holds :: "buf \<Rightarrow> nat \<Rightarrow> string \<Rightarrow> bool" where
  "holds m p s \<longleftrightarrow> terminated m p \<and> cstr m p = s"

definition peek :: "string \<Rightarrow> nat \<Rightarrow> char" where
  "peek s i = (if i < length s then s ! i else NUL)"

lemma peek_simps [simp]: "peek [] i = NUL" "peek (c # s) 0 = c" "peek (c # s) (Suc i) = peek s i"
  by (simp_all add: peek_def)

lemma holds_rd: "holds m p s \<Longrightarrow> rd m p = Inr (peek s 0)"
  using terminated_step [of m p] by (auto simp: holds_def cstr_step peek_def split: if_splits)

lemma holds_Suc: "holds m p (c # s) \<Longrightarrow> holds m (Suc p) s"
  using terminated_step [of m p] by (auto simp: holds_def cstr_step split: if_splits)

lemma holds_add: "holds m p s \<Longrightarrow> i \<le> length s \<Longrightarrow> holds m (p + i) (drop i s)"
proof (induction i arbitrary: p s)
  case (Suc i)
  then show ?case by (cases s) (use Suc.IH holds_Suc in fastforce)+
qed simp

lemma holds_rd_add: "holds m p s \<Longrightarrow> i \<le> length s \<Longrightarrow> rd m (p + i) = Inr (peek s i)"
  using holds_rd [OF holds_add] by (fastforce simp: peek_def)

definition is_space :: "char \<Rightarrow> bool" where
  "is_space c \<longleftrightarrow> isspace (schar c)"

definition is_digit :: "nat \<Rightarrow> char \<Rightarrow> bool" where
  "is_digit b c \<longleftrightarrow> digit_in b c \<noteq> None"

lemma is_space_NUL [simp]: "\<not> is_space NUL"
  by (simp add: is_space_def isspace_def)

lemma is_digit_NUL [simp]: "\<not> is_digit b NUL"
  by (simp add: is_digit_def)

lemma skip_space_holds: "holds m p s \<Longrightarrow> skip_space m p = Inr (p + length (takeWhile is_space s))"
proof (induction s arbitrary: p)
  case (Cons c s)
  show ?case using holds_rd [OF Cons.prems] Cons.IH [OF holds_Suc [OF Cons.prems]]
    by (subst skip_space.simps) (simp add: is_space_def [of c])
qed (subst skip_space.simps, use is_space_NUL in \<open>simp add: holds_rd is_space_def\<close>)

lemma skip_digits_holds:
  "b \<le> 36 \<Longrightarrow> holds m p s \<Longrightarrow> skip_digits m p b = Inr (p + length (takeWhile (is_digit b) s))"
proof (induction s arbitrary: p)
  case (Cons c s)
  show ?case using holds_rd [OF Cons.prems(2)] Cons.IH [OF Cons.prems(1) holds_Suc [OF Cons.prems(2)]]
    by (subst skip_digits.simps) (simp add: is_digit_def [of b c] find_digit_eq Cons.prems)
qed (subst skip_digits.simps, simp add: holds_rd is_digit_def find_digit_eq)

text \<open>The value of a row of digits, most significant first, after the value \<open>v\<close>.\<close>

definition value_from :: "nat \<Rightarrow> nat \<Rightarrow> string \<Rightarrow> nat" where
  "value_from b v ds = foldl (\<lambda>v c. v * b + the (digit_in b c)) v ds"

lemma value_from_simps [simp]:
  "value_from b v [] = v" "value_from b v (c # ds) = value_from b (v * b + the (digit_in b c)) ds"
  by (simp_all add: value_from_def)

lemma value_from_ge: "0 < b \<Longrightarrow> v \<le> value_from b v ds"
proof (induction ds arbitrary: v)
  case (Cons c ds)
  have "v \<le> v * b + the (digit_in b c)" using Cons.prems by (simp add: trans_le_add1)
  also have "\<dots> \<le> value_from b (v * b + the (digit_in b c)) ds" by (rule Cons.IH [OF Cons.prems])
  finally show ?case by simp
qed simp

text \<open>The test of the loop, without overflow, is the comparison with the limit.\<close>

lemma limit_test:
  fixes L b v d :: nat
  assumes "d < b" "v \<le> L"
  shows "v < L div b \<or> v = L div b \<and> d \<le> L mod b \<longleftrightarrow> v * b + d \<le> L"
proof -
  have L: "L = L div b * b + L mod b" by (rule div_mult_mod_eq [symmetric])
  consider "v < L div b" | "v = L div b" | "L div b < v" by linarith
  then show ?thesis
  proof cases
    case 1
    then have "Suc v * b \<le> L div b * b" by (intro mult_right_mono) simp_all
    moreover have "v * b + d \<le> Suc v * b" using assms(1) by simp
    ultimately have "v * b + d \<le> L" using L by linarith
    with 1 show ?thesis by simp
  next
    case 2
    have "L div b * b + d \<le> L \<longleftrightarrow> d \<le> L mod b" using L by linarith
    with 2 show ?thesis by simp
  next
    case 3
    then have "Suc (L div b) * b \<le> v * b" by (intro mult_right_mono) simp_all
    moreover have "L < Suc (L div b) * b"
    proof -
      have "L mod b < b" using assms(1) by simp
      then have "L < b + L div b * b" using L by linarith
      then show ?thesis by simp
    qed
    ultimately have "L < v * b + d" by linarith
    with 3 show ?thesis by simp
  qed
qed

lemma strtox_loop_holds:
  assumes "2 \<le> b" "b \<le> 36" "L < 2 ^ 64"
  shows "holds m p s \<Longrightarrow> v \<le> L \<Longrightarrow>
    strtox_loop m p b error (of_nat (L div b)) (int (L mod b)) sign (of_nat v) digit =
    Inr (let ds = takeWhile (is_digit b) s; w = value_from b v ds in
         if digit = - 1 \<and> ds = [] then (0, None, sign, False)
         else if w \<le> L then (of_nat w, Some (p + length ds), sign, False)
         else (error, Some (p + length ds), CHR ''+'', True))"
proof (induction s arbitrary: p v digit)
  case Nil
  then show ?case
    using assms(2) by (subst strtox_loop.simps) (simp add: holds_rd find_digit_eq)
next
  case (Cons c s)
  note step = holds_rd [OF Cons.prems(1)] find_digit_eq [OF assms(2)]
  show ?case
  proof (cases "digit_in b c")
    case None
    then show ?thesis using step Cons.prems(2) by (subst strtox_loop.simps) (simp add: is_digit_def [of b c])
  next
    case (Some d)
    have d: "d < b" using Some by (auto simp: digit_in_def split: option.splits if_splits)
    have lt: "(of_nat v :: 64 word) < of_nat (L div b) \<longleftrightarrow> v < L div b"
      and eq: "(of_nat v :: 64 word) = of_nat (L div b) \<longleftrightarrow> v = L div b"
    proof -
      have "v < 2 ^ 64" "L div b < 2 ^ 64" using Cons.prems(2) assms(3) div_le_dividend [of L b] by linarith+
      then show "(of_nat v :: 64 word) < of_nat (L div b) \<longleftrightarrow> v < L div b"
        and "(of_nat v :: 64 word) = of_nat (L div b) \<longleftrightarrow> v = L div b"
        by (simp_all add: word_less_nat_alt word_unat_eq_iff unat_of_nat)
    qed
    show ?thesis
    proof (cases "v * b + d \<le> L")
      case True
      then show ?thesis
        using step Some limit_test [OF d Cons.prems(2)] Cons.IH [OF holds_Suc [OF Cons.prems(1)] True, of "int d"]
        by (subst strtox_loop.simps) (simp add: is_digit_def [of b c] lt eq Let_def)
    next
      case False
      then have "\<not> value_from b (v * b + d) ds \<le> L" for ds
        using value_from_ge [of b "v * b + d" ds] assms(1) by linarith
      moreover have "\<not> (v = L div b \<and> d \<le> L mod b)" "\<not> v < L div b"
        using False limit_test [OF d Cons.prems(2)] by blast+
      ultimately show ?thesis
        using False step Some skip_digits_holds [OF assms(2) Cons.prems(1)]
        by (subst strtox_loop.simps) (auto simp: is_digit_def [of b c] lt eq Let_def)
    qed
  qed
qed

section \<open>What the parsers compute\<close>

text \<open>How the beginning of a string is read, in the words of the standard: white space, a sign, a
  prefix, digits. \<open>number_start base s\<close> gives whether the number is negative, its base, and how
  many characters come before the digits; a prefix \<open>0x\<close> counts only before a hexadecimal digit.\<close>

definition spaces :: "string \<Rightarrow> nat" where
  "spaces s = length (takeWhile is_space s)"

definition sign_length :: "string \<Rightarrow> nat" where
  "sign_length s = (if peek s (spaces s) = CHR ''+'' \<or> peek s (spaces s) = CHR ''-'' then 1 else 0)"

definition number_start :: "int \<Rightarrow> string \<Rightarrow> bool \<times> int \<times> nat" where
  "number_start base s = (
     let k = spaces s + sign_length s;
         hexa = (base = 0 \<or> base = 16) \<and> peek s k = CHR ''0'' \<and> (peek s (k + 1) = CHR ''x'' \<or> peek s (k + 1) = CHR ''X'') in
     (peek s (spaces s) = CHR ''-'',
      if hexa then 16 else if base \<noteq> 0 then base else if peek s k = CHR ''0'' then 8 else 10,
      if hexa \<and> is_digit 16 (peek s (k + 2)) then k + 2 else k))"

lemma peek_NUL: "length s \<le> i \<Longrightarrow> peek s i = NUL"
  by (simp add: peek_def)

lemma peek_length: "peek s i \<noteq> NUL \<Longrightarrow> Suc i \<le> length s"
  using peek_NUL [of s i] by fastforce

lemma spaces_le: "spaces s \<le> length s"
  by (simp add: spaces_def length_takeWhile_le)

lemma start_le: "spaces s + sign_length s \<le> length s"
  using spaces_le [of s] peek_length [of s "spaces s"] by (auto simp: sign_length_def)

lemma strtox_prelim_holds:
  assumes "holds m p s"
  shows "strtox_prelim m p base = Inr (case number_start base s of (neg, b, k) \<Rightarrow>
    (if 2 \<le> b \<and> b \<le> 36 then Some (p + k) else None, if neg then CHR ''-'' else CHR ''+'', b))"
proof -
  let ?i = "spaces s" and ?k = "spaces s + sign_length s"
  note at = holds_rd_add [OF assms]
  have sp: "skip_space m p = Inr (p + ?i)" using skip_space_holds [OF assms] by (simp add: spaces_def)
  have c: "rd m (p + ?i) = Inr (peek s ?i)" by (rule at [OF spaces_le])
  have k: "(if peek s ?i \<noteq> CHR ''+'' \<and> peek s ?i \<noteq> CHR ''-'' then p + ?i else p + ?i + 1) = p + ?k"
    by (simp add: sign_length_def)
  have d: "rd m (p + ?k) = Inr (peek s ?k)" by (rule at [OF start_le])
  have e: "rd m (p + ?k + 1) = Inr (peek s (?k + 1))" if "peek s ?k = CHR ''0''"
    using at [of "?k + 1"] peek_length [of s ?k] that by (simp add: add.assoc)
  have f: "rd m (p + ?k + 1 + 1) = Inr (peek s (?k + 2))"
    if "peek s (?k + 1) = CHR ''x'' \<or> peek s (?k + 1) = CHR ''X''"
    using at [of "?k + 2"] peek_length [of s "?k + 1"] that by (auto simp: add.assoc)
  have "strtox_prelim m p base = bindR
       (if peek s ?k = CHR ''0'' then
          (let p = p + ?k + 1 in bindR (rd m p) (\<lambda>c.
           if (base = 0 \<or> base = 16) \<and> (c = CHR ''x'' \<or> c = CHR ''X'') then
             (let base = 16; p = p + 1 in bindR (rd m p) (\<lambda>c.
              bindR (find_digit c (nat base)) (\<lambda>x. Inr (if x = None then p - 2 else p, base))))
           else if base = 0 then Inr (p - 1, 8)
           else Inr (p - 1, base)))
        else if base = 0 then Inr (p + ?k, 10)
        else Inr (p + ?k, base))
       (\<lambda>(q, b). Inr (if 2 \<le> b \<and> b \<le> 36 then Some q else None,
          if peek s ?i = CHR ''-'' then CHR ''-'' else CHR ''+'', b))"
    unfolding strtox_prelim_def sp bindR_simps c Let_def k d
    by (intro arg_cong2 [where f = bindR] ext refl) auto
  also have "\<dots> = Inr (case number_start base s of (neg, b, k) \<Rightarrow>
    (if 2 \<le> b \<and> b \<le> 36 then Some (p + k) else None, if neg then CHR ''-'' else CHR ''+'', b))"
    using e f by (auto simp: number_start_def Let_def find_digit_eq is_digit_def)
  finally show ?thesis .
qed

text \<open>The digits that are read, their value, and the length of the number; a string without digits
  has no number, and its length is 0.\<close>

definition number_digits :: "int \<Rightarrow> string \<Rightarrow> string" where
  "number_digits base s = (case number_start base s of (neg, b, k) \<Rightarrow> takeWhile (is_digit (nat b)) (drop k s))"

definition number_value :: "int \<Rightarrow> string \<Rightarrow> int" where
  "number_value base s = (case number_start base s of (neg, b, k) \<Rightarrow>
     (if neg then - 1 else 1) * int (value_from (nat b) 0 (number_digits base s)))"

definition number_length :: "int \<Rightarrow> string \<Rightarrow> nat" where
  "number_length base s = (case number_start base s of (neg, b, k) \<Rightarrow>
     if number_digits base s = [] then 0 else k + length (number_digits base s))"

definition clamp :: "int \<Rightarrow> int \<Rightarrow> int \<Rightarrow> int" where
  "clamp lo hi v = max lo (min hi v)"

definition valid_base :: "int \<Rightarrow> bool" where
  "valid_base base \<longleftrightarrow> base = 0 \<or> 2 \<le> base \<and> base \<le> 36"

lemma clamp_if: "lo \<le> hi \<Longrightarrow> clamp lo hi v = (if v < lo then lo else if hi < v then hi else v)"
  by (auto simp: clamp_def)

lemma start_base:
  "number_start base s = (neg, b, k) \<Longrightarrow> valid_base base \<longleftrightarrow> 2 \<le> b \<and> b \<le> 36"
  by (auto simp: number_start_def Let_def valid_base_def split: if_splits)

lemma start_length: "number_start base s = (neg, b, k) \<Longrightarrow> k \<le> length s"
proof -
  assume "number_start base s = (neg, b, k)"
  moreover have "is_digit 16 (peek s i) \<Longrightarrow> Suc i \<le> length s" for i
    by (rule peek_length) auto
  ultimately show ?thesis
    using start_le [of s] by (fastforce simp: number_start_def Let_def split: if_splits)
qed

lemma strtox_main_holds:
  assumes "holds m p s" "2 \<le> b" "b \<le> 36" "L < 2 ^ 64"
  shows "strtox_main m p b error (of_nat (L div b)) (int (L mod b)) sign =
    Inr (let ds = takeWhile (is_digit b) s; w = value_from b 0 ds in
         if ds = [] then (0, None, sign, False)
         else if w \<le> L then (of_nat w, Some (p + length ds), sign, False)
         else (error, Some (p + length ds), CHR ''+'', True))"
  using strtox_loop_holds [OF assms(2,3,4,1), of 0 error sign "- 1"] by (simp add: strtox_main_def)

lemma ucast_of_nat: "(ucast (of_nat n :: 64 word) :: 32 word) = of_nat n"
  by (transfer fixing: n) (simp add: take_bit_take_bit)

lemma sdiv_nat: "2 \<le> b \<Longrightarrow> int L sdiv b = int (L div nat b)" "2 \<le> b \<Longrightarrow> int L smod b = int (L mod nat b)"
  "2 \<le> b \<Longrightarrow> (- int L) sdiv - b = int (L div nat b)" "2 \<le> b \<Longrightarrow> - ((- int L) smod b) = int (L mod nat b)"
  "2 \<le> b \<Longrightarrow> int L div b = int (L div nat b)" "2 \<le> b \<Longrightarrow> int L mod b = int (L mod nat b)"
  by (auto simp: signed_divide_int_def signed_modulo_int_def zdiv_int zmod_int sgn_if)

text \<open>What the main loop returns for the number at the start of a string.\<close>

lemma strtox_main_number:
  assumes "holds m p s" "number_start base s = (neg, b, k)" "valid_base base" "L < 2 ^ 64"
  shows "strtox_main m (p + k) (nat b) error (of_nat (L div nat b)) (int (L mod nat b)) sign =
    Inr (let w = nat \<bar>number_value base s\<bar>; q = p + number_length base s in
         if number_digits base s = [] then (0, None, sign, False)
         else if w \<le> L then (of_nat w, Some q, sign, False) else (error, Some q, CHR ''+'', True))"
proof -
  have b: "2 \<le> nat b" "nat b \<le> 36" using start_base [OF assms(2)] assms(3) by auto
  have "holds m (p + k) (drop k s)" using holds_add [OF assms(1) start_length [OF assms(2)]] .
  from strtox_main_holds [OF this b assms(4), of error sign] show ?thesis
    using assms(2) by (simp add: number_value_def number_digits_def number_length_def Let_def abs_mult add.assoc)
qed

lemma no_digits: "number_digits base s = [] \<Longrightarrow> number_value base s = 0 \<and> number_length base s = 0"
  by (simp add: number_value_def number_length_def split: prod.splits)

lemma number_sign: "number_start base s = (neg, b, k) \<Longrightarrow>
    number_value base s = (if neg then - \<bar>number_value base s\<bar> else \<bar>number_value base s\<bar>)"
  by (simp add: number_value_def abs_mult)

lemmas limits = LONG_MAX_def LONG_MIN_def ULONG_MAX_def LLONG_MAX_def LLONG_MIN_def ULLONG_MAX_def

text \<open>The four functions differ in the limits and in the width of the result.\<close>

lemma signed_parse:
  fixes conv :: "64 word \<Rightarrow> 'a :: len word"
  assumes at: "holds m p s" and L: "hi = int L" "lo = - int (Suc L)" "Suc L < 2 ^ 64"
    and conv: "\<And>n. conv (of_nat n) = of_nat n" "conv (of_int hi) = of_int hi" "conv (of_int lo) = of_int lo"
  shows "bindR (strtox_prelim m p base) (\<lambda>(q, sign, base).
     case q of None \<Rightarrow> Inr (0, None, False)
     | Some q \<Rightarrow> bindR
         (if sign = CHR ''+''
          then strtox_main m q (nat base) (of_int hi) (of_int (hi sdiv base)) (hi smod base) sign
          else strtox_main m q (nat base) (of_int lo) (of_int (lo sdiv - base)) (- (lo smod base)) sign)
         (\<lambda>(v, q, sign, erange). Inr (if sign = CHR ''+'' then conv v else - conv v,
             Some (case q of Some q \<Rightarrow> q | None \<Rightarrow> p), erange))) =
     Inr (if valid_base base
       then (of_int (clamp lo hi (number_value base s)), Some (p + number_length base s),
             number_value base s < lo \<or> hi < number_value base s)
       else (0, None, False))"
    (is "?l = _")
proof -
  obtain neg b k where st: "number_start base s = (neg, b, k)" by (cases "number_start base s")
  let ?v = "number_value base s" and ?q = "p + number_length base s"
  show ?thesis
  proof (cases "valid_base base")
    case True
    then have b: "2 \<le> b" "b \<le> 36" using start_base [OF st] by auto
    have main: "strtox_main m (p + k) (nat b) e (of_int (hi sdiv b)) (hi smod b) sign = Inr
        (if number_digits base s = [] then (0, None, sign, False)
         else if nat \<bar>?v\<bar> \<le> L then (of_nat (nat \<bar>?v\<bar>), Some ?q, sign, False) else (e, Some ?q, CHR ''+'', True))"
      "strtox_main m (p + k) (nat b) e (of_int (lo sdiv - b)) (- (lo smod b)) sign = Inr
        (if number_digits base s = [] then (0, None, sign, False)
         else if nat \<bar>?v\<bar> \<le> Suc L then (of_nat (nat \<bar>?v\<bar>), Some ?q, sign, False) else (e, Some ?q, CHR ''+'', True))"
      for e sign
      using strtox_main_number [OF at st True, of L e sign] strtox_main_number [OF at st True, of "Suc L" e sign] L(3)
      unfolding L(1,2) sdiv_nat [OF b(1)] of_int_of_nat_eq Let_def by simp_all
    have "?l = bindR
        (if neg then strtox_main m (p + k) (nat b) (of_int lo) (of_int (lo sdiv - b)) (- (lo smod b)) (CHR ''-'')
         else strtox_main m (p + k) (nat b) (of_int hi) (of_int (hi sdiv b)) (hi smod b) (CHR ''+''))
        (\<lambda>(v, q, sign, erange). Inr (if sign = CHR ''+'' then conv v else - conv v,
            Some (case q of Some q \<Rightarrow> q | None \<Rightarrow> p), erange))"
      using b st by (simp add: strtox_prelim_holds [OF at])
    note l = this [unfolded main]
    have cv: "conv (of_int \<bar>?v\<bar>) = of_int \<bar>?v\<bar>" using conv(1) [of "nat \<bar>?v\<bar>"] by simp
    have range: "lo \<le> hi" "nat \<bar>?v\<bar> \<le> L \<longleftrightarrow> \<bar>?v\<bar> \<le> hi" "nat \<bar>?v\<bar> \<le> Suc L \<longleftrightarrow> \<bar>?v\<bar> \<le> - lo"
      using L by auto
    show ?thesis
    proof (cases "number_digits base s = []")
      case True
      then show ?thesis using \<open>valid_base base\<close> conv(1) [of 0] L by (simp add: l no_digits clamp_def)
    next
      case False
      then have "?l = Inr (if neg
          then if \<bar>?v\<bar> \<le> - lo then (- of_int \<bar>?v\<bar>, Some ?q, False) else (of_int lo, Some ?q, True)
          else if \<bar>?v\<bar> \<le> hi then (of_int \<bar>?v\<bar>, Some ?q, False) else (of_int hi, Some ?q, True))"
        unfolding l range(2,3) [symmetric] by (simp add: cv conv)
      then show ?thesis using number_sign [OF st] \<open>valid_base base\<close> range(1) L
        by (cases neg) (auto simp: clamp_if)
    qed
  next
    case False
    then show ?thesis using start_base [OF st] st by (auto simp: strtox_prelim_holds [OF at])
  qed
qed

lemma unsigned_parse:
  fixes conv :: "64 word \<Rightarrow> 'a :: len word"
  assumes at: "holds m p s" and L: "hi = int L" "L < 2 ^ 64"
    and conv: "\<And>n. conv (of_nat n) = of_nat n" "conv (of_int hi) = of_int hi"
  shows "bindR (strtox_prelim m p base) (\<lambda>(q, sign, base).
     case q of None \<Rightarrow> Inr (0, None, False)
     | Some q \<Rightarrow> bindR (strtox_main m q (nat base) (of_int hi) (of_int (hi div base)) (hi mod base) sign)
         (\<lambda>(v, q, sign, erange). Inr (if sign = CHR ''+'' then conv v else - conv v,
             Some (case q of Some q \<Rightarrow> q | None \<Rightarrow> p), erange))) =
     Inr (if valid_base base
       then (of_int (if \<bar>number_value base s\<bar> \<le> hi then number_value base s else hi),
             Some (p + number_length base s), hi < \<bar>number_value base s\<bar>)
       else (0, None, False))"
    (is "?l = _")
proof -
  obtain neg b k where st: "number_start base s = (neg, b, k)" by (cases "number_start base s")
  let ?v = "number_value base s" and ?q = "p + number_length base s"
  show ?thesis
  proof (cases "valid_base base")
    case True
    then have b: "2 \<le> b" "b \<le> 36" using start_base [OF st] by auto
    have main: "strtox_main m (p + k) (nat b) e (of_int (hi div b)) (hi mod b) sign = Inr
        (if number_digits base s = [] then (0, None, sign, False)
         else if nat \<bar>?v\<bar> \<le> L then (of_nat (nat \<bar>?v\<bar>), Some ?q, sign, False) else (e, Some ?q, CHR ''+'', True))"
      for e sign
      using strtox_main_number [OF at st True L(2), of e sign]
      unfolding L(1) sdiv_nat [OF b(1)] of_int_of_nat_eq Let_def by simp
    have "?l = bindR (strtox_main m (p + k) (nat b) (of_int hi) (of_int (hi div b)) (hi mod b)
          (if neg then CHR ''-'' else CHR ''+''))
        (\<lambda>(v, q, sign, erange). Inr (if sign = CHR ''+'' then conv v else - conv v,
            Some (case q of Some q \<Rightarrow> q | None \<Rightarrow> p), erange))"
      using b st by (simp add: strtox_prelim_holds [OF at])
    note l = this [unfolded main]
    have cv: "conv (of_int \<bar>?v\<bar>) = of_int \<bar>?v\<bar>" using conv(1) [of "nat \<bar>?v\<bar>"] by simp
    have range: "nat \<bar>?v\<bar> \<le> L \<longleftrightarrow> \<bar>?v\<bar> \<le> hi" using L by auto
    show ?thesis
    proof (cases "number_digits base s = []")
      case True
      then show ?thesis using \<open>valid_base base\<close> conv(1) [of 0] L by (simp add: l no_digits)
    next
      case False
      then have "?l = Inr (if \<bar>?v\<bar> \<le> hi then (if neg then - of_int \<bar>?v\<bar> else of_int \<bar>?v\<bar>, Some ?q, False)
          else (of_int hi, Some ?q, True))"
        unfolding l range [symmetric] by (simp add: cv conv)
      then show ?thesis using number_sign [OF st] \<open>valid_base base\<close> by (cases neg) auto
    qed
  next
    case False
    then show ?thesis using start_base [OF st] st by (auto simp: strtox_prelim_holds [OF at])
  qed
qed

text \<open>C15: \<open>strtol\<close>, for every string, base and position: with a base of 0 or 2 to 36 it returns the
  number at the start of the string, forced into the range of \<open>long\<close>, stores the pointer after it
  (the beginning if there is none), and sets \<open>errno\<close> exactly when the number is out of range. It
  never reads past the terminator. With another base it returns 0 and stores nothing.\<close>

theorem strtol_correct:
  assumes "holds m p s"
  shows "strtol m p base = Inr (if valid_base base
    then (of_int (clamp LONG_MIN LONG_MAX (number_value base s)), Some (p + number_length base s),
          number_value base s < LONG_MIN \<or> LONG_MAX < number_value base s)
    else (0, None, False))"
  unfolding strtol_def Let_def
  by (rule signed_parse [OF assms, of _ 2147483647]) (simp_all add: limits ucast_of_nat)

theorem strtol_correct_witness:
  "strtol (''  -0x1Fg'' @ [NUL]) 0 0 = Inr (- 31, Some 7, False)"
proof -
  have "holds (''  -0x1Fg'' @ [NUL]) 0 ''  -0x1Fg''" by (simp add: holds_def terminated_def cstr_def)
  moreover have "number_value 0 ''  -0x1Fg'' = - 31" "number_length 0 ''  -0x1Fg'' = 7" by code_simp+
  ultimately show ?thesis
    using strtol_correct [of "''  -0x1Fg'' @ [NUL]" 0 "''  -0x1Fg''" 0] by (simp add: valid_base_def clamp_def limits)
qed

text \<open>C29: The other three: \<open>strtoll\<close> is the same at 64 bits; \<open>strtoul\<close> and \<open>strtoull\<close> return the number,
  negated modulo the width if it has a minus sign, when its magnitude fits, and else the largest value
  with \<open>errno\<close> set.\<close>

theorem strtoll_strtoul_strtoull_correct:
  assumes "holds m p s" "valid_base base"
  shows "strtoll m p base = Inr (of_int (clamp LLONG_MIN LLONG_MAX (number_value base s)), Some (p + number_length base s),
      number_value base s < LLONG_MIN \<or> LLONG_MAX < number_value base s) \<and>
    strtoul m p base = Inr (of_int (if \<bar>number_value base s\<bar> \<le> ULONG_MAX then number_value base s else ULONG_MAX),
      Some (p + number_length base s), ULONG_MAX < \<bar>number_value base s\<bar>) \<and>
    strtoull m p base = Inr (of_int (if \<bar>number_value base s\<bar> \<le> ULLONG_MAX then number_value base s else ULLONG_MAX),
      Some (p + number_length base s), ULLONG_MAX < \<bar>number_value base s\<bar>)"
proof (intro conjI)
  show "strtoll m p base = Inr (of_int (clamp LLONG_MIN LLONG_MAX (number_value base s)), Some (p + number_length base s),
      number_value base s < LLONG_MIN \<or> LLONG_MAX < number_value base s)"
    unfolding strtoll_def Let_def by (subst signed_parse [OF assms(1), of _ 9223372036854775807]) (simp_all add: limits assms(2))
  show "strtoul m p base = Inr (of_int (if \<bar>number_value base s\<bar> \<le> ULONG_MAX then number_value base s else ULONG_MAX),
      Some (p + number_length base s), ULONG_MAX < \<bar>number_value base s\<bar>)"
    unfolding strtoul_def Let_def by (subst unsigned_parse [OF assms(1), of _ 4294967295]) (simp_all add: limits ucast_of_nat assms(2))
  show "strtoull m p base = Inr (of_int (if \<bar>number_value base s\<bar> \<le> ULLONG_MAX then number_value base s else ULLONG_MAX),
      Some (p + number_length base s), ULLONG_MAX < \<bar>number_value base s\<bar>)"
    unfolding strtoull_def Let_def by (subst unsigned_parse [OF assms(1), of _ 18446744073709551615]) (simp_all add: limits assms(2))
qed

theorem strtoll_strtoul_strtoull_correct_witness:
  "strtoul (''-1'' @ [NUL]) 0 10 = Inr (- 1, Some 2, False)"
proof -
  have "holds (''-1'' @ [NUL]) 0 ''-1''" by (simp add: holds_def terminated_def cstr_def)
  moreover have "number_value 10 ''-1'' = - 1" "number_length 10 ''-1'' = 2" by code_simp+
  ultimately show ?thesis
    using strtoll_strtoul_strtoull_correct [of "''-1'' @ [NUL]" 0 "''-1''" 10] by (simp add: valid_base_def limits)
qed

lemma atomax_loop_holds:
  "holds m p s \<Longrightarrow> atomax_loop m p (of_nat v) = Inr (of_nat (value_from 10 v (takeWhile (is_digit 10) s)))"
proof (induction s arbitrary: p v)
  case Nil
  then show ?case by (subst atomax_loop.simps) (simp add: holds_rd find_digit_eq)
next
  case (Cons c s)
  show ?case
  proof (cases "digit_in 10 c")
    case None
    then show ?thesis using holds_rd [OF Cons.prems]
      by (subst atomax_loop.simps) (simp add: find_digit_eq is_digit_def [of 10 c])
  next
    case (Some d)
    then show ?thesis using holds_rd [OF Cons.prems] Cons.IH [OF holds_Suc [OF Cons.prems], of "v * 10 + d"]
      by (subst atomax_loop.simps) (simp add: find_digit_eq is_digit_def [of 10 c])
  qed
qed

text \<open>\<open>atoi\<close> returns the decimal number at the start of a string (0 if there is none) reduced
  modulo \<open>2 ^ 32\<close>, and reads nothing past the terminator.\<close>

lemma atoi_correct:
  assumes "holds m p s"
  shows "atoi m p = Inr (of_int (number_value 10 s))"
proof -
  let ?i = "spaces s" and ?k = "spaces s + sign_length s"
  let ?w = "value_from 10 0 (takeWhile (is_digit 10) (drop ?k s))"
  have st: "number_start 10 s = (peek s ?i = CHR ''-'', 10, ?k)"
    by (simp add: number_start_def)
  have v: "number_value 10 s = (if peek s ?i = CHR ''-'' then - int ?w else int ?w)"
    by (simp add: number_value_def number_digits_def st)
  have "atomax_loop m (p + ?k) 0 = Inr (of_nat ?w)"
    using atomax_loop_holds [OF holds_add [OF assms start_le], of 0] by (simp add: add.assoc)
  then have "atomax m p = Inr (if peek s ?i = CHR ''-'' then - of_nat ?w else of_nat ?w)"
    using skip_space_holds [OF assms] holds_rd_add [OF assms spaces_le]
    by (auto simp: atomax_def Let_def sign_length_def simp flip: spaces_def)
  then have "atoi m p = Inr (if peek s ?i = CHR ''-'' then ucast (- of_nat ?w :: 64 word) else of_nat ?w)"
    by (simp add: atoi_def ucast_of_nat)
  moreover have "(ucast (- of_nat ?w :: 64 word) :: 32 word) = - of_nat ?w"
  proof -
    have "(ucast (- of_nat n :: 64 word) :: 32 word) = - of_nat n" for n
      by (transfer fixing: n) (simp add: take_bit_take_bit take_bit_minus)
    then show ?thesis .
  qed
  ultimately show ?thesis by (simp add: v)
qed

lemma atoi_correct_witness: "atoi ('' -42!'' @ [NUL]) 0 = Inr (- 42)"
proof -
  have "holds ('' -42!'' @ [NUL]) 0 '' -42!''" by (simp add: holds_def terminated_def cstr_def)
  moreover have "number_value 10 '' -42!'' = - 42" by code_simp
  ultimately show ?thesis using atoi_correct [of "'' -42!'' @ [NUL]" 0 "'' -42!''"] by simp
qed

section \<open>The pointers only move forward\<close>

lemma skip_space_ge: "skip_space m p = Inr q \<Longrightarrow> p \<le> q"
proof (induction m p rule: skip_space.induct)
  case (1 m s)
  then show ?case
    by (subst (asm) skip_space.simps) (fastforce simp: bindR_Inr split: if_splits)
qed

lemma skip_digits_ge: "skip_digits m p b = Inr q \<Longrightarrow> p \<le> q"
proof (induction m p b rule: skip_digits.induct)
  case (1 m p b)
  then show ?case
    by (subst (asm) skip_digits.simps) (fastforce simp: bindR_Inr split: if_splits)
qed

lemma strtox_loop_ge: "strtox_loop m p b err lim d sign rc digit = Inr (v, Some q, r) \<Longrightarrow> p \<le> q"
proof (induction m p b err lim d sign rc digit rule: strtox_loop.induct)
  case (1 m p b err lim d sign rc digit)
  show ?case
    using "1.prems" 1
    by (subst (asm) strtox_loop.simps)
      (fastforce simp: bindR_Inr Let_def dest: skip_digits_ge split: if_splits option.splits)
qed

lemma strtox_prelim_ge: "strtox_prelim m p base = Inr (Some q, sign, b) \<Longrightarrow> p \<le> q"
  by (auto simp: strtox_prelim_def bindR_Inr Let_def dest!: skip_space_ge split: if_splits)

lemma strtol_ge:
  assumes "strtol m p base = Inr (v, Some q, e)"
  shows "p \<le> q"
proof -
  obtain p' sign b where pre: "strtox_prelim m p base = Inr (p', sign, b)"
    using assms by (auto simp: strtol_def bindR_Inr)
  with assms obtain p1 where p1: "p' = Some p1" by (cases p') (auto simp: strtol_def)
  let ?main = "if sign = CHR ''+''
    then strtox_main m p1 (nat b) (of_int LONG_MAX) (of_int (LONG_MAX sdiv b)) (LONG_MAX smod b) sign
    else strtox_main m p1 (nat b) (of_int LONG_MIN) (of_int (LONG_MIN sdiv - b)) (- (LONG_MIN smod b)) sign"
  obtain w r s' e' where main: "?main = Inr (w, r, s', e')" and q: "q = (case r of Some q \<Rightarrow> q | None \<Rightarrow> p)"
    using assms unfolding strtol_def pre p1 bindR_simps prod.case option.case bindR_Inr Let_def by auto
  show ?thesis
  proof (cases r)
    case (Some r')
    then have "p1 \<le> r'" using main by (auto simp: strtox_main_def dest: strtox_loop_ge split: if_splits)
    then show ?thesis using strtox_prelim_ge [of m p base p1] pre p1 q Some by simp
  qed (simp add: q)
qed

text \<open>None of them runs on.\<close>

lemma memchr_not_fuel: "memchr m p c n \<noteq> Inl Fuel"
  by (induction n arbitrary: p) (auto simp: bindR_Inl split: if_splits)

lemma find_digit_not_fuel [simp]: "find_digit c b \<noteq> Inl Fuel"
  by (simp add: find_digit_def memchr_not_fuel)

lemma skip_space_not_fuel [simp]: "skip_space m p \<noteq> Inl Fuel"
proof (induction m p rule: skip_space.induct)
  case (1 m s)
  then show ?case by (subst skip_space.simps) (auto simp: bindR_Inl split: if_splits)
qed

lemma skip_digits_not_fuel [simp]: "skip_digits m p b \<noteq> Inl Fuel"
proof (induction m p b rule: skip_digits.induct)
  case (1 m p b)
  then show ?case by (subst skip_digits.simps) (auto simp: bindR_Inl split: if_splits)
qed

lemma strtox_loop_not_fuel [simp]: "strtox_loop m p b err lim d sign rc digit \<noteq> Inl Fuel"
proof (induction m p b err lim d sign rc digit rule: strtox_loop.induct)
  case (1 m p b err lim d sign rc digit)
  show ?case
    using "1.IH" [OF _ _ _ refl]
    by (subst strtox_loop.simps) (force simp: bindR_Inl Let_def split: option.splits if_splits)
qed

lemma strtol_not_fuel: "strtol m p base \<noteq> Inl Fuel"
proof -
  have "strtox_prelim m p base \<noteq> Inl Fuel"
    by (auto simp: strtox_prelim_def Let_def bindR_Inl split: if_splits)
  then show ?thesis
    by (auto simp: strtol_def strtox_main_def Let_def bindR_Inl split: if_splits option.splits)
qed

end
