(* ===== verification/Printf.thy ===== *)
theory Printf
  imports StrTo
begin

text \<open>
  Formatted output: \<open>diskfs/stdlib/_printf.h\<close>.

  The status structure is a record that the functions pass on in the state monad. \<open>size_t\<close> values are
  naturals and the value being printed is an integer in the range of its type; \<open>flags\<close> is the word of
  the source. A stream is the list of the characters written to it, \<open>p_stream = None\<close> is the null
  stream of the functions that print to a buffer. The argument list is a list of machine words and of
  pointers to strings; a conversion that takes an argument that is not there, or of the wrong size, is
  \<open>Undef\<close>. What \<open>%n\<close> stores is recorded as a pair of address and value. Loops whose number of rounds
  is fixed when they start are counted loops.
\<close>

unbundle bit_operations_syntax

section \<open>The status structure\<close>

datatype arg = W32 "32 word" | W64 "64 word" | Str buf nat

record status =
  p_base :: int
  p_flags :: "32 word"
  p_n :: nat
  p_i :: nat
  p_current :: nat
  p_s :: buf
  p_width :: nat
  p_prec :: int
  p_stream :: "string option"
  p_arg :: "arg list"
  p_stores :: "(32 word \<times> nat) list"

definition E_minus :: "32 word" where "E_minus = 1"
definition E_plus :: "32 word" where "E_plus = 2"
definition E_alt :: "32 word" where "E_alt = 4"
definition E_space :: "32 word" where "E_space = 8"
definition E_zero :: "32 word" where "E_zero = 16"
definition E_done :: "32 word" where "E_done = 32"
definition E_char :: "32 word" where "E_char = 64"
definition E_short :: "32 word" where "E_short = 128"
definition E_long :: "32 word" where "E_long = 256"
definition E_llong :: "32 word" where "E_llong = 512"
definition E_intmax :: "32 word" where "E_intmax = 1024"
definition E_size :: "32 word" where "E_size = 2048"
definition E_ptrdiff :: "32 word" where "E_ptrdiff = 4096"
definition E_pointer :: "32 word" where "E_pointer = 8192"
definition E_ldouble :: "32 word" where "E_ldouble = 16384"
definition E_lower :: "32 word" where "E_lower = 32768"
definition E_unsigned :: "32 word" where "E_unsigned = 65536"

lemmas E_defs = E_minus_def E_plus_def E_alt_def E_space_def E_zero_def E_done_def E_char_def E_short_def
  E_long_def E_llong_def E_intmax_def E_size_def E_ptrdiff_def E_pointer_def E_ldouble_def E_lower_def E_unsigned_def

definition has :: "32 word \<Rightarrow> 32 word \<Rightarrow> bool" where
  "has flags e \<longleftrightarrow> flags AND e \<noteq> 0"

text \<open>The macro \<open>PUT\<close>.\<close>

definition PUT :: "char \<Rightarrow> (status, unit) M" where
  "PUT x st =
     bindR (if p_i st < p_n st then
              case p_stream st of
                Some out \<Rightarrow> Inr (st\<lparr>p_stream := Some (out @ [x])\<rparr>)
              | None \<Rightarrow> bindR (wr (p_s st) (p_i st) x) (\<lambda>b. Inr (st\<lparr>p_s := b\<rparr>))
            else Inr st)
       (\<lambda>st. Inr ((), st\<lparr>p_i := p_i st + 1\<rparr>))"

definition current_incr :: "(status, unit) M" where
  "current_incr = modM (\<lambda>st. st\<lparr>p_current := p_current st + 1\<rparr>)"

text \<open>\<open>PUT\<close> followed by the count, as every loop below does it.\<close>

definition PUT_count :: "char \<Rightarrow> (status, unit) M" where
  "PUT_count x = thenM (PUT x) current_incr"

section \<open>Integers\<close>

definition to_intmax :: "int \<Rightarrow> int" where
  "to_intmax v = sint (of_int v :: 64 word)"

text \<open>The characters that go before the digits: at most a base prefix or a sign.\<close>

definition preface :: "int \<Rightarrow> status \<Rightarrow> string" where
  "preface value st = (let fl = p_flags st in
     (if has fl E_alt \<and> (p_base st = 16 \<or> p_base st = 8) \<and> value \<noteq> 0
      then CHR ''0'' # (if p_base st = 16 then [if has fl E_lower then CHR ''x'' else CHR ''X''] else [])
      else []) @
     (if value < 0 then ''-''
      else if \<not> has fl E_unsigned
      then (if has fl E_plus then ''+'' else if has fl E_space then '' '' else [])
      else []))"

definition intformat :: "int \<Rightarrow> (status, unit) M" where
  "intformat value = doM [
     modM (\<lambda>st. if p_prec st < 0 then st\<lparr>p_prec := 1\<rparr> else st),
     bindM (getM (\<lambda>st. (preface value st, nat (p_prec st) - p_current st))) (\<lambda>(pre, prec_pads). doM [
       bindM (getM (\<lambda>st. st)) (\<lambda>st.
         whenM (\<not> has (p_flags st) (E_minus OR E_zero))
           (let characters = length pre + (if p_current st > nat (p_prec st) then p_current st else nat (p_prec st)) in
            repeatM (p_width st - characters) (PUT_count (CHR '' '')))),
       doM (map PUT_count pre),
       repeatM prec_pads (PUT_count (CHR ''0'')),
       bindM (getM (\<lambda>st. st)) (\<lambda>st.
         whenM (\<not> has (p_flags st) E_minus \<and> has (p_flags st) E_zero)
           (repeatM (p_width st - p_current st) (PUT_count (CHR ''0''))))])]"

text \<open>The macro \<open>INT2BASE\<close>, with the recursive function \<open>int2base\<close>: 64 rounds are enough.\<close>

definition put_digit :: "int \<Rightarrow> (status, unit) M" where
  "put_digit value = bindM (getM (\<lambda>st. st)) (\<lambda>st.
     let digit = value smod p_base st;
         digit = (if digit < 0 then digit * - 1 else digit) in
     bindM (liftM (rd (if has (p_flags st) E_lower then digits else Xdigits) (nat digit))) PUT)"

fun INT2BASE :: "nat \<Rightarrow> int \<Rightarrow> (status, unit) M" where
  "INT2BASE 0 value = failM Fuel"
| "INT2BASE (Suc k) value = bindM (getM (\<lambda>st. st)) (\<lambda>st.
     if p_current st = 0 \<and> value = 0 \<and> p_prec st = 0 then intformat value
     else doM [current_incr,
       if value sdiv p_base st \<noteq> 0 then INT2BASE k (to_intmax (value sdiv p_base st))
       else intformat (to_intmax value),
       put_digit value])"

section \<open>Strings\<close>

text \<open>The precision of a string conversion with precision \<open>prec\<close>: the loop stops at the terminator.\<close>

fun limit_prec :: "buf \<Rightarrow> nat \<Rightarrow> nat \<Rightarrow> nat \<Rightarrow> err + nat" where
  "limit_prec m s i 0 = Inr i"
| "limit_prec m s i (Suc k) =
     bindR (rd m (s + i)) (\<lambda>c. if c = NUL then Inr i else limit_prec m s (i + 1) k)"

fun put_chars :: "buf \<Rightarrow> nat \<Rightarrow> nat \<Rightarrow> (status, unit) M" where
  "put_chars m s 0 = retM ()"
| "put_chars m s (Suc k) = bindM (liftM (rd m s)) (\<lambda>c. thenM (PUT_count c) (put_chars m (s + 1) k))"

text \<open>The loop that writes the characters counts \<open>prec\<close> down to 0.\<close>

definition stringformat :: "buf \<Rightarrow> nat \<Rightarrow> (status, unit) M" where
  "stringformat m s = doM [
     bindM (getM (\<lambda>st. st)) (\<lambda>st.
       if has (p_flags st) E_char then modM (\<lambda>st. st\<lparr>p_prec := 1\<rparr>)
       else if p_prec st < 0
       then bindM (liftM (strlen m s 0)) (\<lambda>n. modM (\<lambda>st. st\<lparr>p_prec := int n\<rparr>))
       else bindM (liftM (limit_prec m s 0 (nat (p_prec st)))) (\<lambda>n. modM (\<lambda>st. st\<lparr>p_prec := int n\<rparr>))),
     bindM (getM (\<lambda>st. st)) (\<lambda>st.
       whenM (\<not> has (p_flags st) E_minus \<and> p_width st > nat (p_prec st))
         (repeatM (p_width st - nat (p_prec st) - p_current st) (PUT_count (CHR '' '')))),
     bindM (getM p_prec) (\<lambda>prec. put_chars m s (nat prec)),
     modM (\<lambda>st. st\<lparr>p_prec := 0\<rparr>),
     bindM (getM (\<lambda>st. st)) (\<lambda>st.
       whenM (has (p_flags st) E_minus) (repeatM (p_width st - p_current st) (PUT_count (CHR '' ''))))]"

section \<open>A conversion specification\<close>

text \<open>Arguments.\<close>

definition va_arg :: "(status, arg) M" where
  "va_arg = bindM (getM p_arg) (\<lambda>args. case args of
     [] \<Rightarrow> failM Undef
   | a # args \<Rightarrow> thenM (modM (\<lambda>st. st\<lparr>p_arg := args\<rparr>)) (retM a))"

definition va_32 :: "(status, 32 word) M" where
  "va_32 = bindM va_arg (\<lambda>a. case a of W32 w \<Rightarrow> retM w | _ \<Rightarrow> failM Undef)"

definition va_64 :: "(status, 64 word) M" where
  "va_64 = bindM va_arg (\<lambda>a. case a of W64 w \<Rightarrow> retM w | _ \<Rightarrow> failM Undef)"

definition va_str :: "(status, buf \<times> nat) M" where
  "va_str = bindM va_arg (\<lambda>a. case a of Str m p \<Rightarrow> retM (m, p) | _ \<Rightarrow> failM Undef)"

definition set_flag :: "32 word \<Rightarrow> (status, unit) M" where
  "set_flag e = modM (\<lambda>st. st\<lparr>p_flags := p_flags st OR e\<rparr>)"

text \<open>The flags: the loop adds them to \<open>flags\<close> until another character comes.\<close>

function scan_flags :: "buf \<Rightarrow> nat \<Rightarrow> 32 word \<Rightarrow> err + (nat \<times> 32 word)" where
  "scan_flags m spec fl = bindR (rd m spec) (\<lambda>c.
     if c = CHR ''-'' then scan_flags m (spec + 1) (fl OR E_minus)
     else if c = CHR ''+'' then scan_flags m (spec + 1) (fl OR E_plus)
     else if c = CHR ''#'' then scan_flags m (spec + 1) (fl OR E_alt)
     else if c = CHR '' '' then scan_flags m (spec + 1) (fl OR E_space)
     else if c = CHR ''0'' then scan_flags m (spec + 1) (fl OR E_zero)
     else Inr (spec, fl OR E_done))"
  by pat_completeness auto
termination
  by (relation "measure (\<lambda>(m, spec, fl). length m - spec)") (auto dest: rd_InrD)

declare scan_flags.simps [simp del]

definition parse_flags :: "buf \<Rightarrow> nat \<Rightarrow> (status, nat) M" where
  "parse_flags m spec = bindM (getM p_flags) (\<lambda>fl. bindM (liftM (scan_flags m spec fl)) (\<lambda>(spec, fl).
     thenM (modM (\<lambda>st. st\<lparr>p_flags := fl\<rparr>)) (retM spec)))"

text \<open>\<open>strtol\<close> with base 10, and the pointer after the number.\<close>

definition scan_number :: "buf \<Rightarrow> nat \<Rightarrow> err + (32 word \<times> nat)" where
  "scan_number m spec = bindR (strtol m spec 10) (\<lambda>(v, p, erange).
     Inr (v, case p of Some p \<Rightarrow> p | None \<Rightarrow> spec))"

definition parse_width :: "buf \<Rightarrow> nat \<Rightarrow> (status, nat) M" where
  "parse_width m spec = bindM (liftM (rd m spec)) (\<lambda>c.
     if c = CHR ''*'' then
       bindM va_32 (\<lambda>width. thenM
         (if width <s 0
          then thenM (set_flag E_minus) (modM (\<lambda>st. st\<lparr>p_width := unat (abs_int width)\<rparr>))
          else modM (\<lambda>st. st\<lparr>p_width := unat width\<rparr>))
         (retM (spec + 1)))
     else bindM (liftM (scan_number m spec)) (\<lambda>(width, spec).
       thenM (modM (\<lambda>st. st\<lparr>p_width := unat width\<rparr>)) (retM spec)))"

definition parse_prec :: "buf \<Rightarrow> nat \<Rightarrow> (status, nat) M" where
  "parse_prec m spec = bindM (liftM (rd m spec)) (\<lambda>c.
     if c \<noteq> CHR ''.'' then retM spec
     else bindM (let spec = spec + 1 in bindM (liftM (rd m spec)) (\<lambda>c.
       if c = CHR ''*''
       then bindM va_32 (\<lambda>prec. thenM (modM (\<lambda>st. st\<lparr>p_prec := sint prec\<rparr>)) (retM (spec + 1)))
       else bindM (liftM (scan_number m spec)) (\<lambda>(prec, endptr).
         thenM (modM (\<lambda>st. st\<lparr>p_prec := if spec = endptr then 0 else sint prec\<rparr>)) (retM endptr))))
       (\<lambda>spec. thenM (modM (\<lambda>st. st\<lparr>p_flags := p_flags st AND NOT E_zero\<rparr>)) (retM spec)))"

definition parse_length :: "buf \<Rightarrow> nat \<Rightarrow> (status, nat) M" where
  "parse_length m spec = bindM (liftM (rd m spec)) (\<lambda>c.
     if c = CHR ''h'' then bindM (liftM (rd m (spec + 1))) (\<lambda>c.
       if c = CHR ''h'' then thenM (set_flag E_char) (retM (spec + 2)) else thenM (set_flag E_short) (retM (spec + 1)))
     else if c = CHR ''l'' then bindM (liftM (rd m (spec + 1))) (\<lambda>c.
       if c = CHR ''l'' then thenM (set_flag E_llong) (retM (spec + 2)) else thenM (set_flag E_long) (retM (spec + 1)))
     else if c = CHR ''j'' then thenM (set_flag E_intmax) (retM (spec + 1))
     else if c = CHR ''z'' then thenM (set_flag E_size) (retM (spec + 1))
     else if c = CHR ''t'' then thenM (set_flag E_ptrdiff) (retM (spec + 1))
     else if c = CHR ''L'' then thenM (set_flag E_ldouble) (retM (spec + 1))
     else retM spec)"

text \<open>The value of an integer conversion, by its length modifier; \<open>None\<close> if the combination of flags
  is not supported.\<close>

definition unsigned_value :: "(status, int option) M" where
  "unsigned_value = bindM (getM p_flags) (\<lambda>flags.
     let f = flags AND (E_char OR E_short OR E_long OR E_llong OR E_size OR E_pointer OR E_intmax) in
     if f = E_char then bindM va_32 (\<lambda>w. retM (Some (uint (ucast w :: 8 word))))
     else if f = E_short then bindM va_32 (\<lambda>w. retM (Some (uint (ucast w :: 16 word))))
     else if f = 0 then bindM va_32 (\<lambda>w. retM (Some (uint w)))
     else if f = E_long then bindM va_32 (\<lambda>w. retM (Some (uint w)))
     else if f = E_llong then bindM va_64 (\<lambda>w. retM (Some (uint w)))
     else if f = E_size then bindM va_32 (\<lambda>w. retM (Some (uint w)))
     else if f = E_pointer then bindM va_32 (\<lambda>w. retM (Some (uint w)))
     else if f = E_intmax then bindM va_64 (\<lambda>w. retM (Some (uint w)))
     else retM None)"

text \<open>\<open>E_ptrdiff\<close> is not among the flags that are tested, so its case is never taken.\<close>

definition signed_value :: "(status, int option) M" where
  "signed_value = bindM (getM p_flags) (\<lambda>flags.
     let f = flags AND (E_char OR E_short OR E_long OR E_llong OR E_intmax) in
     if f = E_char then bindM va_32 (\<lambda>w. retM (Some (sint (ucast w :: 8 word))))
     else if f = E_short then bindM va_32 (\<lambda>w. retM (Some (sint (ucast w :: 16 word))))
     else if f = 0 then bindM va_32 (\<lambda>w. retM (Some (sint w)))
     else if f = E_long then bindM va_32 (\<lambda>w. retM (Some (sint w)))
     else if f = E_llong then bindM va_64 (\<lambda>w. retM (Some (sint w)))
     else if f = E_ptrdiff then bindM va_32 (\<lambda>w. retM (Some (sint w)))
     else if f = E_intmax then bindM va_64 (\<lambda>w. retM (Some (sint w)))
     else retM None)"

text \<open>The output of an integer conversion; the result is false if its flags are not supported. The
  last step cuts the string off if the buffer is full.\<close>

definition cut_string :: "(status, unit) M" where
  "cut_string = bindM (getM (\<lambda>st. st)) (\<lambda>st.
     whenM (p_i st \<ge> p_n st \<and> p_n st > 0)
       (bindM (liftM (wr (p_s st) (p_n st - 1) NUL)) (\<lambda>b. modM (\<lambda>st. st\<lparr>p_s := b\<rparr>))))"

definition pad_right :: "(status, unit) M" where
  "pad_right = bindM (getM (\<lambda>st. st)) (\<lambda>st.
     whenM (has (p_flags st) E_minus) (repeatM (p_width st - p_current st) (PUT_count (CHR '' ''))))"

definition int_output :: "(status, bool) M" where
  "int_output = bindM (getM (\<lambda>st. st)) (\<lambda>st.
     if p_base st = 0 then retM True
     else bindM (if has (p_flags st) E_unsigned then unsigned_value else signed_value) (\<lambda>v.
       case v of None \<Rightarrow> retM False
       | Some value \<Rightarrow> thenM (doM [INT2BASE 65 value, pad_right, cut_string]) (retM True)))"

definition set_base :: "int \<Rightarrow> (status, unit) M" where
  "set_base b = modM (\<lambda>st. st\<lparr>p_base := b\<rparr>)"

text \<open>The conversion specifier at \<open>spec\<close>; \<open>orig_spec\<close> is returned for a bad one.\<close>

definition convert :: "buf \<Rightarrow> nat \<Rightarrow> nat \<Rightarrow> (status, nat option) M" where
  "convert m orig_spec spec = bindM (liftM (rd m spec)) (\<lambda>c.
     let output = bindM int_output (\<lambda>ok. retM (if ok then Some (spec + 1) else None)) in
     if c = CHR ''d'' \<or> c = CHR ''i'' then thenM (set_base 10) output
     else if c = CHR ''o'' then thenM (doM [set_base 8, set_flag E_unsigned]) output
     else if c = CHR ''u'' then thenM (doM [set_base 10, set_flag E_unsigned]) output
     else if c = CHR ''x'' then thenM (doM [set_base 16, set_flag (E_lower OR E_unsigned)]) output
     else if c = CHR ''X'' then thenM (doM [set_base 16, set_flag E_unsigned]) output
     else if c \<in> {CHR ''f'', CHR ''F'', CHR ''e'', CHR ''E'', CHR ''g'', CHR ''G'', CHR ''a'', CHR ''A''} then output
     else if c = CHR ''c'' then bindM va_32 (\<lambda>w.
       thenM (doM [set_flag E_char, stringformat [char_of (uint w)] 0]) (retM (Some (spec + 1))))
     else if c = CHR ''s'' then bindM va_str (\<lambda>(t, p). thenM (stringformat t p) (retM (Some (spec + 1))))
     else if c = CHR ''p''
     then thenM (doM [set_base 16, set_flag (E_lower OR E_unsigned OR E_alt OR E_pointer)]) output
     else if c = CHR ''n'' then bindM va_32 (\<lambda>val.
       thenM (modM (\<lambda>st. st\<lparr>p_stores := p_stores st @ [(val, p_i st)]\<rparr>)) (retM (Some (spec + 1))))
     else retM (Some orig_spec))"

definition init_status :: "(status, unit) M" where
  "init_status = modM (\<lambda>st. st\<lparr>p_flags := 0, p_base := 0, p_current := 0, p_width := 0, p_prec := - 1\<rparr>)"

definition print_spec :: "buf \<Rightarrow> nat \<Rightarrow> (status, nat option) M" where
  "print_spec m spec = bindM (liftM (rd m (spec + 1))) (\<lambda>c.
     if c = CHR ''%'' then thenM (PUT c) (retM (Some (spec + 2)))
     else thenM init_status
       (bindM (parse_flags m (spec + 1)) (\<lambda>q. bindM (parse_width m q) (\<lambda>q. bindM (parse_prec m q) (\<lambda>q.
        bindM (parse_length m q) (\<lambda>q. convert m spec q))))))"

section \<open>The functions of the library\<close>

text \<open>The loop over the format. A null pointer from \<open>print_spec\<close> is the format in the next round,
  which reads it. The fuel counts the rounds.\<close>

definition print_verbatim :: "char \<Rightarrow> (status, unit) M" where
  "print_verbatim c st =
     bindR (case p_stream st of
         Some out \<Rightarrow> Inr (st\<lparr>p_stream := Some (out @ [c])\<rparr>)
       | None \<Rightarrow> if p_i st < p_n st then bindR (wr (p_s st) (p_i st) c) (\<lambda>b. Inr (st\<lparr>p_s := b\<rparr>)) else Inr st)
       (\<lambda>st. Inr ((), st\<lparr>p_i := p_i st + 1\<rparr>))"

fun print_loop :: "nat \<Rightarrow> buf \<Rightarrow> nat option \<Rightarrow> (status, unit) M" where
  "print_loop 0 m format = failM Fuel"
| "print_loop (Suc k) m format = (case format of None \<Rightarrow> failM Undef | Some format \<Rightarrow>
     bindM (liftM (rd m format)) (\<lambda>c.
     if c = NUL then retM ()
     else if c \<noteq> CHR ''%'' then thenM (print_verbatim c) (print_loop k m (Some (format + 1)))
     else bindM (print_spec m format) (\<lambda>rc.
       if rc = Some format then thenM (print_verbatim c) (print_loop k m (Some (format + 1)))
       else print_loop k m rc)))"

definition new_status :: "nat \<Rightarrow> buf \<Rightarrow> string option \<Rightarrow> arg list \<Rightarrow> status" where
  "new_status n s stream args = \<lparr>p_base = 0, p_flags = 0, p_n = n, p_i = 0, p_current = 0, p_s = s, p_width = 0,
     p_prec = - 1, p_stream = stream, p_arg = args, p_stores = []\<rparr>"

definition SIZE_MAX :: nat where "SIZE_MAX = 4294967295"

text \<open>The result is the number of characters, what was written, and the stores of \<open>%n\<close>.\<close>

definition vfprintf :: "string \<Rightarrow> buf \<Rightarrow> nat \<Rightarrow> arg list \<Rightarrow> err + (nat \<times> string \<times> (32 word \<times> nat) list)" where
  "vfprintf stream m format args =
     bindR (print_loop (length m + 1) m (Some format) (new_status SIZE_MAX [] (Some stream) args)) (\<lambda>(u, st).
       Inr (p_i st, case p_stream st of Some out \<Rightarrow> out | None \<Rightarrow> [], p_stores st))"

definition vsnprintf :: "buf \<Rightarrow> nat \<Rightarrow> buf \<Rightarrow> nat \<Rightarrow> arg list \<Rightarrow> err + (nat \<times> buf \<times> (32 word \<times> nat) list)" where
  "vsnprintf s n m format args =
     bindR (print_loop (length m + 1) m (Some format) (new_status n s None args)) (\<lambda>(u, st).
     bindR (if p_i st < n then wr (p_s st) (p_i st) NUL else Inr (p_s st)) (\<lambda>b.
       Inr (p_i st, b, p_stores st)))"

definition vsprintf :: "buf \<Rightarrow> buf \<Rightarrow> nat \<Rightarrow> arg list \<Rightarrow> err + (nat \<times> buf \<times> (32 word \<times> nat) list)" where
  "vsprintf s = vsnprintf s SIZE_MAX"

text \<open>The variadic functions pass their arguments on.\<close>

definition fprintf :: "string \<Rightarrow> buf \<Rightarrow> nat \<Rightarrow> arg list \<Rightarrow> err + (nat \<times> string \<times> (32 word \<times> nat) list)" where
  "fprintf stream m format args = vfprintf stream m format args"

definition printf :: "string \<Rightarrow> buf \<Rightarrow> nat \<Rightarrow> arg list \<Rightarrow> err + (nat \<times> string \<times> (32 word \<times> nat) list)" where
  "printf stdout m format args = vfprintf stdout m format args"

definition snprintf :: "buf \<Rightarrow> nat \<Rightarrow> buf \<Rightarrow> nat \<Rightarrow> arg list \<Rightarrow> err + (nat \<times> buf \<times> (32 word \<times> nat) list)" where
  "snprintf s n m format args = vsnprintf s n m format args"

definition sprintf :: "buf \<Rightarrow> buf \<Rightarrow> nat \<Rightarrow> arg list \<Rightarrow> err + (nat \<times> buf \<times> (32 word \<times> nat) list)" where
  "sprintf s m format args = vsnprintf s SIZE_MAX m format args"

section \<open>Output\<close>

text \<open>What a \<open>PUT\<close> does when the buffer has the size the caller says, and what printing a string
  with the loops above does: the characters beyond the limit are counted but not stored.\<close>

definition put1 :: "char \<Rightarrow> status \<Rightarrow> status" where
  "put1 x st = (if p_i st < p_n st then
       case p_stream st of Some out \<Rightarrow> st\<lparr>p_stream := Some (out @ [x]), p_i := p_i st + 1\<rparr>
       | None \<Rightarrow> st\<lparr>p_s := (p_s st)[p_i st := x], p_i := p_i st + 1\<rparr>
     else st\<lparr>p_i := p_i st + 1\<rparr>)"

definition emit :: "string \<Rightarrow> status \<Rightarrow> status" where
  "emit w st = (fold put1 w st)\<lparr>p_current := p_current st + length w\<rparr>"

definition sound :: "status \<Rightarrow> bool" where
  "sound st \<longleftrightarrow> p_stream st = None \<longrightarrow> p_n st \<le> length (p_s st)"

lemma put1_fields [simp]:
  "p_base (put1 x st) = p_base st" "p_flags (put1 x st) = p_flags st" "p_n (put1 x st) = p_n st"
  "p_i (put1 x st) = p_i st + 1" "p_current (put1 x st) = p_current st" "p_width (put1 x st) = p_width st"
  "p_prec (put1 x st) = p_prec st" "p_arg (put1 x st) = p_arg st" "p_stores (put1 x st) = p_stores st"
  "length (p_s (put1 x st)) = length (p_s st)" "p_stream (put1 x st) = None \<longleftrightarrow> p_stream st = None"
  "sound (put1 x st) = sound st"
  by (simp_all add: put1_def sound_def split: option.splits)

lemma fold_put1_fields [simp]:
  "p_base (fold put1 w st) = p_base st" "p_flags (fold put1 w st) = p_flags st" "p_n (fold put1 w st) = p_n st"
  "p_i (fold put1 w st) = p_i st + length w" "p_current (fold put1 w st) = p_current st"
  "p_width (fold put1 w st) = p_width st" "p_prec (fold put1 w st) = p_prec st"
  "p_arg (fold put1 w st) = p_arg st" "p_stores (fold put1 w st) = p_stores st"
  "length (p_s (fold put1 w st)) = length (p_s st)" "p_stream (fold put1 w st) = None \<longleftrightarrow> p_stream st = None"
  "sound (fold put1 w st) = sound st"
  by (induction w arbitrary: st) simp_all

lemma sound_fields [simp]:
  "sound (st\<lparr>p_base := b\<rparr>) = sound st" "sound (st\<lparr>p_flags := fl\<rparr>) = sound st" "sound (st\<lparr>p_current := c\<rparr>) = sound st"
  "sound (st\<lparr>p_width := wd\<rparr>) = sound st" "sound (st\<lparr>p_prec := pr\<rparr>) = sound st"
  "sound (st\<lparr>p_arg := ar\<rparr>) = sound st" "sound (st\<lparr>p_stores := stores\<rparr>) = sound st"
  by (simp_all add: sound_def)

lemma emit_fields [simp]:
  "p_base (emit w st) = p_base st" "p_flags (emit w st) = p_flags st" "p_n (emit w st) = p_n st"
  "p_i (emit w st) = p_i st + length w" "p_current (emit w st) = p_current st + length w"
  "p_width (emit w st) = p_width st" "p_prec (emit w st) = p_prec st"
  "p_arg (emit w st) = p_arg st" "p_stores (emit w st) = p_stores st"
  "length (p_s (emit w st)) = length (p_s st)" "p_stream (emit w st) = None \<longleftrightarrow> p_stream st = None"
  "sound (emit w st) = sound st"
  by (simp_all add: emit_def)

lemma put1_current: "put1 x (st\<lparr>p_current := c\<rparr>) = (put1 x st)\<lparr>p_current := c\<rparr>"
  by (simp add: put1_def split: option.splits)

lemma fold_put1_current: "fold put1 w (st\<lparr>p_current := c\<rparr>) = (fold put1 w st)\<lparr>p_current := c\<rparr>"
  by (induction w arbitrary: st) (simp_all add: put1_current)

lemma emit_Nil [simp]: "emit [] st = st"
  by (simp add: emit_def)

lemma emit_append: "emit (v @ w) st = emit w (emit v st)"
  by (simp add: emit_def fold_put1_current)

lemma PUT_sound: "sound st \<Longrightarrow> PUT x st = Inr ((), put1 x st)"
  by (auto simp: PUT_def put1_def sound_def split: option.splits)

lemma PUT_count_sound: "sound st \<Longrightarrow> PUT_count x st = Inr ((), emit [x] st)"
  by (simp add: PUT_count_def current_incr_def thenM_def bindM_eval PUT_sound emit_def)

lemma repeat_PUT_count: "sound st \<Longrightarrow> repeatM k (PUT_count x) st = Inr ((), emit (replicate k x) st)"
proof (induction k arbitrary: st)
  case (Suc k)
  then show ?case using emit_append [of "[x]" "replicate k x" st]
    by (simp add: thenM_def bindM_eval PUT_count_sound del: replicate.simps) simp
qed simp

lemma list_PUT_count: "sound st \<Longrightarrow> doM (map PUT_count w) st = Inr ((), emit w st)"
proof (induction w arbitrary: st)
  case (Cons c w)
  then show ?case using emit_append [of "[c]" w st] by (simp add: thenM_def bindM_eval PUT_count_sound)
qed simp

lemma put_digit_emit: "put1 x (emit w (st\<lparr>p_current := p_current st + 1\<rparr>)) = emit (w @ [x]) st"
  by (simp add: emit_def fold_put1_current put1_current)

section \<open>Integer conversions\<close>

text \<open>The text that the code puts out for an integer: the digits, at least \<open>prec\<close> of them, after \<open>preface\<close>, in a field of at
  least \<open>width\<close> characters. (Theory \<open>PrintField\<close> compares it with what the C standard asks for.)\<close>

definition digit_char :: "bool \<Rightarrow> nat \<Rightarrow> char" where
  "digit_char lower d = (if lower then digits else Xdigits) ! d"

function num_text :: "nat \<Rightarrow> bool \<Rightarrow> nat \<Rightarrow> string" where
  "num_text b lower v = (if b < 2 \<or> v < b then [digit_char lower v]
     else num_text b lower (v div b) @ [digit_char lower (v mod b)])"
  by pat_completeness auto
termination
  by (relation "measure (\<lambda>(b, lower, v). v)") auto

declare num_text.simps [simp del]

definition int_text :: "status \<Rightarrow> int \<Rightarrow> string" where
  "int_text st v = (
     let fl = p_flags st;
         prec = (if p_prec st < 0 then 1 else nat (p_prec st));
         ds = (if v = 0 \<and> prec = 0 then [] else num_text (nat (p_base st)) (has fl E_lower) (nat \<bar>v\<bar>));
         zeros = replicate (prec - length ds) (CHR ''0'');
         pre = preface v st;
         pad = p_width st - length (pre @ zeros @ ds) in
     if has fl E_minus then pre @ zeros @ ds @ replicate pad (CHR '' '')
     else if has fl E_zero then pre @ zeros @ replicate pad (CHR ''0'') @ ds
     else replicate pad (CHR '' '') @ pre @ zeros @ ds)"

text \<open>The part before the digits, when \<open>c\<close> digits will follow.\<close>

definition lead_text :: "status \<Rightarrow> int \<Rightarrow> nat \<Rightarrow> string" where
  "lead_text st v c = (
     let fl = p_flags st;
         prec = (if p_prec st < 0 then 1 else nat (p_prec st));
         zeros = replicate (prec - c) (CHR ''0'');
         pre = preface v st in
     if has fl E_minus then pre @ zeros
     else if has fl E_zero then pre @ zeros @ replicate (p_width st - (length pre + max c prec)) (CHR ''0'')
     else replicate (p_width st - (length pre + max c prec)) (CHR '' '') @ pre @ zeros)"

definition fix_prec :: "status \<Rightarrow> status" where
  "fix_prec st = (if p_prec st < 0 then st\<lparr>p_prec := 1\<rparr> else st)"

lemma fix_prec_fields [simp]:
  "p_base (fix_prec st) = p_base st" "p_flags (fix_prec st) = p_flags st" "p_n (fix_prec st) = p_n st"
  "p_i (fix_prec st) = p_i st" "p_current (fix_prec st) = p_current st" "p_s (fix_prec st) = p_s st"
  "p_width (fix_prec st) = p_width st" "nat (p_prec (fix_prec st)) = (if p_prec st < 0 then 1 else nat (p_prec st))"
  "sound (fix_prec st) = sound st" "preface v (fix_prec st) = preface v st"
  "fix_prec (st\<lparr>p_current := k\<rparr>) = (fix_prec st)\<lparr>p_current := k\<rparr>"
  by (simp_all add: fix_prec_def preface_def cong: if_cong)

lemma lead_text_current [simp]:
  "preface v (st\<lparr>p_current := c\<rparr>) = preface v st" "lead_text (st\<lparr>p_current := c\<rparr>) v k = lead_text st v k"
proof -
  show "preface v (st\<lparr>p_current := c\<rparr>) = preface v st" by (simp add: preface_def cong: if_cong)
  then show "lead_text (st\<lparr>p_current := c\<rparr>) v k = lead_text st v k"
    by (simp add: lead_text_def Let_def cong: if_cong)
qed

lemma lead_text_cong: "preface w st = preface v st \<Longrightarrow> lead_text st w k = lead_text st v k"
  by (simp add: lead_text_def)

lemma has_OR: "has fl (a OR b) \<longleftrightarrow> has fl a \<or> has fl b"
proof -
  have "fl AND (a OR b) = (fl AND a) OR (fl AND b)" by (rule bit_eqI) (auto simp: bit_simps)
  then show ?thesis by (simp add: has_def or_eq_0_iff)
qed

lemma intformat_text:
  assumes "sound st"
  shows "intformat v st = Inr ((), emit (lead_text st v (p_current st)) (fix_prec st))"
proof -
  let ?st = "fix_prec st" and ?c = "p_current st" and ?pre = "preface v st"
  let ?prec = "if p_prec st < 0 then 1 else nat (p_prec st)" and ?fl = "p_flags st"
  let ?sp = "if has ?fl E_minus \<or> has ?fl E_zero then []
    else replicate (p_width st - (length ?pre + (if ?c > ?prec then ?c else ?prec))) (CHR '' '')"
  let ?zp = "replicate (?prec - ?c) (CHR ''0'')"
  let ?st3 = "emit ?zp (emit ?pre (emit ?sp ?st))"
  let ?z = "if \<not> has ?fl E_minus \<and> has ?fl E_zero then replicate (p_width st - p_current ?st3) (CHR ''0'') else []"
  let ?spaces = "bindM (getM (\<lambda>st. st)) (\<lambda>st. whenM (\<not> has (p_flags st) (E_minus OR E_zero))
           (let characters = length ?pre + (if p_current st > nat (p_prec st) then p_current st else nat (p_prec st)) in
            repeatM (p_width st - characters) (PUT_count (CHR '' ''))))"
  let ?zeros = "bindM (getM (\<lambda>st. st)) (\<lambda>st. whenM (\<not> has (p_flags st) E_minus \<and> has (p_flags st) E_zero)
             (repeatM (p_width st - p_current st) (PUT_count (CHR ''0''))))"
  have "modM (\<lambda>st. if p_prec st < 0 then st\<lparr>p_prec := 1\<rparr> else st) st = Inr ((), ?st)"
    by (simp add: fix_prec_def)
  note start = this
  have "intformat v st = doM [?spaces, doM (map PUT_count ?pre), repeatM (?prec - ?c) (PUT_count (CHR ''0'')), ?zeros] ?st"
    unfolding intformat_def by (simp only: doM_step start doM_single bindM_step getM_eval prod.case fix_prec_fields)
  also have "\<dots> = Inr ((), emit ?z ?st3)"
  proof -
    have "?spaces ?st = Inr ((), emit ?sp ?st)"
      using assms by (simp add: bindM_eval whenM_def has_OR repeat_PUT_count Let_def)
    moreover have "doM (map PUT_count ?pre) (emit ?sp ?st) = Inr ((), emit ?pre (emit ?sp ?st))"
      using assms by (intro list_PUT_count) simp
    moreover have "repeatM (?prec - ?c) (PUT_count (CHR ''0'')) (emit ?pre (emit ?sp ?st)) = Inr ((), ?st3)"
      using assms by (intro repeat_PUT_count) simp
    moreover have "?zeros ?st3 = Inr ((), emit ?z ?st3)"
      using assms by (simp add: bindM_eval whenM_def repeat_PUT_count)
    ultimately show ?thesis by (simp only: doM_step doM_single)
  qed
  also have "emit ?z ?st3 = emit (?sp @ ?pre @ ?zp @ ?z) ?st" by (simp only: emit_append)
  also have "?sp @ ?pre @ ?zp @ ?z = lead_text st v ?c"
    by (simp add: lead_text_def Let_def max_def ac_simps)
  finally show ?thesis .
qed

lemma num_text_length: "0 < length (num_text b lower v)"
  by (subst num_text.simps) simp

lemma to_intmax_id: "- (2 ^ 63) \<le> v \<Longrightarrow> v < 2 ^ 63 \<Longrightarrow> to_intmax v = v"
  by (simp add: to_intmax_def signed_take_bit_int_eq_self sint_sbintrunc')

text \<open>The digits of a value; the bases of the conversions.\<close>

lemma put_digit_char:
  assumes "sound st" "p_base st = int b" "2 \<le> b" "b \<le> 16"
  shows "put_digit v st = Inr ((), put1 (digit_char (has (p_flags st) E_lower) (nat \<bar>v\<bar> mod b)) st)"
proof -
  let ?d = "nat \<bar>v\<bar> mod b"
  have "v smod int b = sgn v * int ?d" using assms(3) by (simp add: signed_modulo_int_def zmod_int)
  then have "nat (if v smod p_base st < 0 then v smod p_base st * - 1 else v smod p_base st) = ?d"
    using assms(2) by (cases "v < 0") (auto simp: sgn_if)
  then have "put_digit v st =
      bindM (liftM (rd (if has (p_flags st) E_lower then digits else Xdigits) ?d)) PUT st"
    unfolding put_digit_def Let_def by (simp only: bindM_step getM_eval)
  moreover have "?d < 16"
  proof -
    have "?d < b" using assms(3) by simp
    then show ?thesis using assms(4) by linarith
  qed
  ultimately show ?thesis using assms(1)
    by (simp add: bindM_step digits_def Xdigits_def digit_char_def PUT_sound)
qed

lemma INT2BASE_text:
  assumes "2 \<le> b" "b \<le> 16"
  shows "sound st \<Longrightarrow> p_base st = int b \<Longrightarrow> nat \<bar>v\<bar> < b ^ k \<Longrightarrow> \<bar>v\<bar> < 2 ^ 64 \<Longrightarrow> 0 < k \<Longrightarrow>
    \<not> (p_current st = 0 \<and> v = 0 \<and> p_prec st = 0) \<Longrightarrow>
    (let ds = num_text b (has (p_flags st) E_lower) (nat \<bar>v\<bar>) in
     INT2BASE k v st = Inr ((), emit (lead_text st v (p_current st + length ds) @ ds) (fix_prec st)))"
proof (induction k arbitrary: v st)
  case (Suc k)
  let ?low = "has (p_flags st) E_lower" and ?st = "st\<lparr>p_current := p_current st + 1\<rparr>"
  let ?n = "nat \<bar>v\<bar>" and ?q = "v sdiv int b"
  have q: "?q = sgn v * int (?n div b)"
    using assms(1) by (simp add: signed_divide_int_def zdiv_int)
  have pre: "preface ?q st = preface v st" if "?q \<noteq> 0" "p_base st = int b" for st
    using that q by (cases "v < 0") (auto simp: preface_def Let_def sgn_if mult_less_0_iff)
  have "INT2BASE (Suc k) v st =
      doM [current_incr, if ?q \<noteq> 0 then INT2BASE k (to_intmax ?q) else intformat (to_intmax v), put_digit v] st"
    unfolding INT2BASE.simps using Suc.prems(6) by (simp only: bindM_step getM_eval Suc.prems(2) if_False)
  moreover have "current_incr st = Inr ((), ?st)" by (simp add: current_incr_def)
  ultimately have start: "INT2BASE (Suc k) v st =
      doM [if ?q \<noteq> 0 then INT2BASE k (to_intmax ?q) else intformat (to_intmax v), put_digit v] ?st"
    by (simp only: doM_step)
  have step: "INT2BASE (Suc k) v st = put_digit v s1"
    if "(if ?q \<noteq> 0 then INT2BASE k (to_intmax ?q) else intformat (to_intmax v)) ?st = Inr ((), s1)" for s1
    using that unfolding start by (simp only: doM_step doM_single)
  have nz: "?q = 0 \<longleftrightarrow> ?n < b" using q assms(1) by (auto simp: sgn_if div_eq_0_iff)
  show ?case
  proof (cases "?q = 0")
    case True
    then have small: "?n < b" using nz by simp
    then have "to_intmax v = v" using assms(2) by (intro to_intmax_id) auto
    then have "intformat (to_intmax v) ?st = Inr ((), emit (lead_text st v (p_current st + 1)) (fix_prec ?st))"
      using Suc.prems(1) intformat_text [of ?st v] by simp
    then have "INT2BASE (Suc k) v st = put_digit v (emit (lead_text st v (p_current st + 1)) (fix_prec ?st))"
      by (intro step) (simp only: True if_False simp_thms)
    also have "\<dots> = Inr ((), put1 (digit_char ?low (?n mod b)) (emit (lead_text st v (p_current st + 1)) (fix_prec ?st)))"
      using Suc.prems(1,2) assms by (subst put_digit_char [of _ b]) simp_all
    also have "put1 (digit_char ?low (?n mod b)) (emit (lead_text st v (p_current st + 1)) (fix_prec ?st)) =
        emit (lead_text st v (p_current st + 1) @ [digit_char ?low (?n mod b)]) (fix_prec st)"
      using put_digit_emit [of _ _ "fix_prec st"] by simp
    finally show ?thesis using small by (simp add: num_text.simps [of b ?low ?n] Let_def)
  next
    case False
    then have big: "b \<le> ?n" using nz by simp
    have "nat \<bar>?q\<bar> = ?n div b" using q False by (auto simp: abs_mult sgn_if)
    have "?n div b < b ^ k" using Suc.prems(3) assms(1) by (simp add: less_mult_imp_div_less mult.commute)
    have "?n < 2 ^ 64" using Suc.prems(4) by simp
    then have "?n div b < 2 ^ 63" using assms(1) div_le_mono2 [of 2 b ?n] by simp
    then have absq: "\<bar>?q\<bar> < 2 ^ 63" using \<open>nat \<bar>?q\<bar> = ?n div b\<close> nat_less_iff [of "\<bar>?q\<bar>" "2 ^ 63"] by simp
    then have "to_intmax ?q = ?q" by (intro to_intmax_id) auto
    moreover have "0 < k" using \<open>?n div b < b ^ k\<close> False \<open>nat \<bar>?q\<bar> = ?n div b\<close> by (cases k) auto
    ultimately have "INT2BASE k (to_intmax ?q) ?st = Inr ((),
        emit (lead_text ?st ?q (p_current ?st + length (num_text b ?low (?n div b))) @ num_text b ?low (?n div b)) (fix_prec ?st))"
      using Suc.IH [of ?st ?q] Suc.prems(1,2) \<open>?n div b < b ^ k\<close> absq \<open>nat \<bar>?q\<bar> = ?n div b\<close> by (simp add: Let_def)
    moreover have "lead_text ?st ?q c = lead_text st v c" for c
      using lead_text_cong [OF pre [OF False Suc.prems(2)]] by simp
    ultimately have "INT2BASE k (to_intmax ?q) ?st = Inr ((),
        emit (lead_text st v (p_current st + length (num_text b ?low ?n)) @ num_text b ?low (?n div b)) (fix_prec ?st))"
      using big assms(1) by (simp add: num_text.simps [of b ?low ?n])
    then have "INT2BASE (Suc k) v st = put_digit v
        (emit (lead_text st v (p_current st + length (num_text b ?low ?n)) @ num_text b ?low (?n div b)) (fix_prec ?st))"
      by (intro step) (simp only: False if_True simp_thms)
    also have "\<dots> = Inr ((), put1 (digit_char ?low (?n mod b))
        (emit (lead_text st v (p_current st + length (num_text b ?low ?n)) @ num_text b ?low (?n div b)) (fix_prec ?st)))"
      using Suc.prems(1,2) assms by (subst put_digit_char [of _ b]) simp_all
    also have "put1 (digit_char ?low (?n mod b))
        (emit (lead_text st v (p_current st + length (num_text b ?low ?n)) @ num_text b ?low (?n div b)) (fix_prec ?st)) =
      emit ((lead_text st v (p_current st + length (num_text b ?low ?n)) @ num_text b ?low (?n div b))
        @ [digit_char ?low (?n mod b)]) (fix_prec st)"
      using put_digit_emit [of _ _ "fix_prec st"] by simp
    finally show ?thesis using big assms(1) by (simp add: num_text.simps [of b ?low ?n] Let_def)
  qed
qed simp

lemma int_text_lead:
  assumes "ds = (if v = 0 \<and> (if p_prec st < 0 then 1 else nat (p_prec st)) = 0 then []
    else num_text (nat (p_base st)) (has (p_flags st) E_lower) (nat \<bar>v\<bar>))"
  shows "int_text st v = lead_text st v (length ds) @ ds @
    (if has (p_flags st) E_minus
     then replicate (p_width st - length (lead_text st v (length ds) @ ds)) (CHR '' '') else [])"
proof -
  have len: "length pre + (k - d + d) = length pre + max d k" for pre :: string and k d :: nat by simp
  show ?thesis
    unfolding int_text_def lead_text_def Let_def assms [symmetric]
    by (simp add: max_def split: nat_diff_split)
qed

lemma int_conversion_text:
  assumes "sound st" "p_current st = 0" "p_base st \<in> {8, 10, 16}" "\<bar>v\<bar> < 2 ^ 64"
  shows "doM [INT2BASE 65 v, pad_right] st = Inr ((), emit (int_text st v) (fix_prec st))"
proof -
  let ?prec = "if p_prec st < 0 then 1 else nat (p_prec st)"
  let ?ds = "if v = 0 \<and> ?prec = 0 then [] else num_text (nat (p_base st)) (has (p_flags st) E_lower) (nat \<bar>v\<bar>)"
  let ?t = "lead_text st v (length ?ds) @ ?ds"
  have "INT2BASE 65 v st = Inr ((), emit ?t (fix_prec st))"
  proof (cases "v = 0 \<and> p_prec st = 0")
    case True
    then have "INT2BASE 65 v st = intformat v st"
      using assms(2) by (simp add: numeral_eq_Suc bindM_eval)
    then show ?thesis using True assms(1,2) by (simp add: intformat_text)
  next
    case False
    then have ne: "\<not> (v = 0 \<and> ?prec = 0)" by auto
    obtain b where b: "p_base st = int b" "2 \<le> b" "b \<le> 16"
      using assms(3) that [of 8] that [of 10] that [of 16] by auto
    have "nat \<bar>v\<bar> < 2 ^ 64" using assms(4) nat_less_iff [of "\<bar>v\<bar>" "2 ^ 64"] by simp
    also have "\<dots> \<le> b ^ 64" using b(2) by (rule power_mono) simp
    also have "\<dots> \<le> b ^ 65" using b(2) by (intro power_increasing) simp_all
    finally have "nat \<bar>v\<bar> < b ^ 65" .
    then have "INT2BASE 65 v st = Inr ((), emit (lead_text st v (p_current st +
          length (num_text b (has (p_flags st) E_lower) (nat \<bar>v\<bar>))) @ num_text b (has (p_flags st) E_lower) (nat \<bar>v\<bar>)) (fix_prec st))"
      using INT2BASE_text [OF b(2,3) assms(1) b(1) _ assms(4) zero_less_numeral] False unfolding Let_def by blast
    then show ?thesis using assms(2) ne b(1) by (simp only: if_False nat_int add_0)
  qed
  moreover have "pad_right (emit ?t (fix_prec st)) = Inr ((), emit (if has (p_flags st) E_minus
      then replicate (p_width st - length ?t) (CHR '' '') else []) (emit ?t (fix_prec st)))"
    using assms(1,2) by (simp add: pad_right_def bindM_step whenM_def repeat_PUT_count)
  ultimately have "doM [INT2BASE 65 v, pad_right] st = Inr ((), emit (if has (p_flags st) E_minus
      then replicate (p_width st - length ?t) (CHR '' '') else []) (emit ?t (fix_prec st)))"
    by (simp only: doM_step doM_single)
  then show ?thesis by (simp only: int_text_lead [OF refl] emit_append append_assoc [symmetric])
qed

text \<open>Reading the digits back.\<close>

lemma digit_of_char: "d < 16 \<Longrightarrow> digit_of (digit_char lower d) = Some d"
proof -
  have "\<forall>d \<in> set [0..<16]. digit_of (digit_char lower d) = Some d"
    by (cases lower) (simp_all add: upt_conv_Cons digit_char_def digits_def Xdigits_def digit_of_def uchar_def)
  then show "d < 16 \<Longrightarrow> ?thesis" by simp
qed

lemma digit_in_char: "d < b \<Longrightarrow> b \<le> 16 \<Longrightarrow> digit_in b (digit_char lower d) = Some d"
  by (simp add: digit_in_def digit_of_char)

lemma value_from_append: "value_from b v (xs @ ys) = value_from b (value_from b v xs) ys"
  by (simp add: value_from_def)

lemma num_text_value:
  "2 \<le> b \<Longrightarrow> b \<le> 16 \<Longrightarrow> value_from b 0 (num_text b lower v) = v \<and> (\<forall>c \<in> set (num_text b lower v). is_digit b c)"
proof (induction b lower v rule: num_text.induct)
  case (1 b lower v)
  show ?case
  proof (cases "v < b")
    case True
    then show ?thesis using "1.prems" digit_in_char [of v b lower]
      by (subst (1 2) num_text.simps) (simp add: is_digit_def)
  next
    case False
    then have "v mod b < b" using "1.prems" by simp
    then show ?thesis using False "1.prems" "1.IH" digit_in_char [of "v mod b" b lower]
      by (subst (1 2) num_text.simps) (auto simp: is_digit_def value_from_append)
  qed
qed

lemma is_digit_char: "is_digit b c \<Longrightarrow> c \<noteq> NUL \<and> c \<noteq> CHR ''+'' \<and> c \<noteq> CHR ''-'' \<and> \<not> is_space c"
  unfolding is_digit_def digit_in_def digit_of_def Let_def is_space_def isspace_def schar_def
  by (auto simp: uchar_def split: if_splits)

lemma is_digit_16: "is_digit 16 c \<Longrightarrow> c \<noteq> CHR ''x'' \<and> c \<noteq> CHR ''X''"
  unfolding is_digit_def digit_in_def digit_of_def Let_def by (auto simp: uchar_def split: if_splits)

text \<open>A sign and digits are a whole number for the parsers of the library.\<close>

lemma number_of_digits:
  assumes ds: "ds \<noteq> []" "\<forall>c \<in> set ds. is_digit b c" and b: "2 \<le> b" "b = 10 \<or> b = 16"
    and t: "t = (if neg then CHR ''-'' # ds else ds)"
  shows "number_value (int b) t = (if neg then - 1 else 1) * int (value_from b 0 ds)"
    and "number_length (int b) t = length t" and "NUL \<notin> set t"
proof -
  obtain c cs where c: "ds = c # cs" using ds(1) by (cases ds) auto
  note digit = is_digit_char [of b c]
  have "\<not> is_space (CHR ''-'')" by (simp add: is_space_def isspace_def schar_def uchar_def)
  then have sp: "spaces t = 0" using digit ds(2) c t by (simp add: spaces_def)
  have peek0: "peek t 0 = (if neg then CHR ''-'' else c)" using c t by simp
  then have sl: "sign_length t = (if neg then 1 else 0)" using sp digit ds(2) c by (simp add: sign_length_def)
  have next_: "peek t (sign_length t + 1) \<noteq> CHR ''x'' \<and> peek t (sign_length t + 1) \<noteq> CHR ''X''" if "b = 16"
    using is_digit_16 ds(2) that c t sl by (cases cs) (auto split: if_splits)
  have start: "number_start (int b) t = (neg, int b, sign_length t)"
    using next_ b sp peek0 digit ds(2) c by (auto simp: number_start_def Let_def)
  have "drop (sign_length t) t = ds" using sl t by simp
  then have "number_digits (int b) t = ds"
    using ds(2) start by (simp add: number_digits_def takeWhile_eq_all_conv)
  then show "number_value (int b) t = (if neg then - 1 else 1) * int (value_from b 0 ds)"
    "number_length (int b) t = length t"
    using start ds(1) sl t by (simp_all add: number_value_def number_length_def)
  show "NUL \<notin> set t" using ds(2) t is_digit_char by (auto split: if_splits)
qed

section \<open>Printing and reading back\<close>

lemma num_text_length_le: "2 \<le> b \<Longrightarrow> v < b ^ k \<Longrightarrow> 0 < k \<Longrightarrow> length (num_text b lower v) \<le> k"
proof (induction k arbitrary: v)
  case (Suc k)
  show ?case
  proof (cases "v < b")
    case True
    then show ?thesis by (subst num_text.simps) simp
  next
    case False
    then have "v div b < b ^ k" "0 < k"
      using Suc.prems by (simp_all add: less_mult_imp_div_less mult.commute, cases k) auto
    then show ?thesis using False Suc by (subst num_text.simps) simp
  qed
qed simp

lemma fold_put1_buffer:
  "p_stream st = None \<Longrightarrow> p_i st + length w \<le> p_n st \<Longrightarrow> p_n st \<le> length (p_s st) \<Longrightarrow>
    p_s (fold put1 w st) = take (p_i st) (p_s st) @ w @ drop (p_i st + length w) (p_s st)"
proof (induction w arbitrary: st)
  case (Cons c w)
  have p: "put1 c st = st\<lparr>p_s := (p_s st)[p_i st := c], p_i := p_i st + 1\<rparr>" using Cons.prems by (simp add: put1_def)
  then have "p_s (fold put1 (c # w) st) =
      take (p_i st + 1) ((p_s st)[p_i st := c]) @ w @ drop (p_i st + 1 + length w) ((p_s st)[p_i st := c])"
    using Cons.IH [of "put1 c st"] Cons.prems by simp
  then show ?case using Cons.prems by (simp add: take_Suc_conv_app_nth)
qed simp

text \<open>A conversion without flags, width, precision and length modifier.\<close>

lemma print_plain:
  assumes m: "m = [CHR ''%'', c, NUL]" and "scan_flags m 1 0 = Inr (1, E_done)" "scan_number m 1 = Inr (0, 1)"
    and "c \<notin> {CHR ''%'', CHR ''*'', CHR ''.'', CHR ''h'', CHR ''l'', CHR ''j'', CHR ''z'', CHR ''t'', CHR ''L''}"
  shows "print_spec m 0 st = convert m 0 1
    (st\<lparr>p_flags := E_done, p_base := 0, p_current := 0, p_width := 0, p_prec := - 1\<rparr>)"
proof -
  let ?st = "st\<lparr>p_flags := E_done, p_base := 0, p_current := 0, p_width := 0, p_prec := - 1\<rparr>"
  have r: "rd m 1 = Inr c" using m by simp
  let ?init = "st\<lparr>p_flags := 0, p_base := 0, p_current := 0, p_width := 0, p_prec := - 1\<rparr>"
  have "init_status st = Inr ((), ?init)" by (simp add: init_status_def)
  moreover have "parse_flags m 1 ?init = Inr (1, ?st)"
  proof -
    have "liftM (scan_flags m 1 (p_flags ?init)) ?init = Inr ((1, E_done), ?init)" using assms(2) by simp
    moreover have "modM (\<lambda>st. st\<lparr>p_flags := E_done\<rparr>) ?init = Inr ((), ?st)" by simp
    ultimately show ?thesis
      unfolding parse_flags_def by (simp only: bindM_step getM_eval prod.case thenM_step retM_eval)
  qed
  moreover have "parse_width m 1 ?st = Inr (1, ?st)"
    using r assms(3,4) by (simp add: parse_width_def bindM_step thenM_step)
  moreover have "parse_prec m 1 ?st = Inr (1, ?st)"
    using r assms(4) by (simp add: parse_prec_def bindM_step)
  moreover have "parse_length m 1 ?st = Inr (1, ?st)"
    using r assms(4) by (simp add: parse_length_def bindM_step)
  moreover have "liftM (rd m (0 + 1)) st = Inr (c, st)" using r by simp
  ultimately show ?thesis using assms(4)
    unfolding print_spec_def by (simp only: bindM_step thenM_step add_0 if_False insert_iff de_Morgan_disj simp_thms)
qed

text \<open>What \<open>snprintf\<close> leaves in the buffer after one such conversion.\<close>

lemma snprintf_number:
  assumes "m = [CHR ''%'', c, NUL]" "scan_flags m 1 0 = Inr (1, E_done)" "scan_number m 1 = Inr (0, 1)"
    and "c \<notin> {CHR ''%'', CHR ''*'', CHR ''.'', CHR ''h'', CHR ''l'', CHR ''j'', CHR ''z'', CHR ''t'', CHR ''L''}"
    and conv: "\<And>st. convert m 0 1 st = thenM (doM [set_base (int b), set_flag fl]) (bindM int_output
      (\<lambda>ok. retM (if ok then Some 2 else None))) st"
    and b: "b = 10 \<or> b = 16"
    and val_eq: "\<And>st. (if has (E_done OR fl) E_unsigned then unsigned_value else signed_value)
      (st\<lparr>p_flags := E_done OR fl, p_arg := [W32 w]\<rparr>) = Inr (Some v, st\<lparr>p_flags := E_done OR fl, p_arg := []\<rparr>)"
    and v: "\<bar>v\<bar> < 2 ^ 64"
    and fl: "\<not> has (E_done OR fl) E_alt" "\<not> has (E_done OR fl) E_minus" "\<not> has (E_done OR fl) E_zero"
      "has (E_done OR fl) E_unsigned \<or> \<not> has (E_done OR fl) E_plus \<and> \<not> has (E_done OR fl) E_space"
    and t: "t = (if v < 0 then ''-'' else []) @ num_text b (has (E_done OR fl) E_lower) (nat \<bar>v\<bar>)"
    and n: "length t < n" "n \<le> length s"
  shows "snprintf s n m 0 [W32 w] = Inr (length t, t @ NUL # drop (length t + 1) s, [])"
proof -
  let ?init = "new_status n s None [W32 w]"
  let ?st = "?init\<lparr>p_flags := E_done OR fl, p_base := int b, p_current := 0, p_width := 0, p_prec := - 1\<rparr>"
  let ?st1 = "?st\<lparr>p_arg := []\<rparr>" and ?st2 = "emit t (fix_prec (?st\<lparr>p_arg := []\<rparr>))"
  have "0 < length (num_text b (has (E_done OR fl) E_lower) (nat \<bar>v\<bar>))" by (rule num_text_length)
  then have "int_text ?st1 v = t"
    using fl b unfolding t int_text_def preface_def Let_def by (auto simp: Suc_leI)
  moreover have "sound ?st1" using n by (simp add: sound_def new_status_def)
  ultimately have out: "doM [INT2BASE 65 v, pad_right] ?st1 = Inr ((), ?st2)"
    using int_conversion_text [of ?st1 v] b v by auto
  have cut: "cut_string ?st2 = Inr ((), ?st2)"
    using n(1) by (simp add: cut_string_def bindM_step whenM_def new_status_def)
  have val: "(if has (E_done OR fl) E_unsigned then unsigned_value else signed_value) ?st = Inr (Some v, ?st1)"
    using val_eq [of ?st] by (simp add: new_status_def)
  have "doM [INT2BASE 65 v, pad_right, cut_string] ?st1 = Inr ((), ?st2)"
    using out cut by (auto simp: thenM_def bindM_eval split: sum.splits)
  then have "int_output ?st = Inr (True, ?st2)"
    unfolding int_output_def using val b by (auto simp: bindM_step thenM_step)
  moreover have "doM [set_base (int b), set_flag fl] (?init\<lparr>p_flags := E_done, p_base := 0, p_current := 0, p_width := 0,
      p_prec := - 1\<rparr>) = Inr ((), ?st)"
    by (simp add: set_base_def set_flag_def thenM_step)
  ultimately have spec: "print_spec m 0 ?init = Inr (Some 2, ?st2)"
    unfolding print_plain [OF assms(1-4)] conv by (simp add: bindM_step thenM_step)
  have "print_loop (length m + 1) m (Some 0) ?init = Inr ((), ?st2)"
    using spec assms(1,4) by (simp add: bindM_step numeral_eq_Suc)
  moreover have "p_i ?st2 = length t" "p_stores ?st2 = []" "p_s ?st2 = t @ drop (length t) s"
    using n fold_put1_buffer [of "fix_prec ?st1" t] by (simp_all add: new_status_def emit_def fix_prec_def)
  moreover have "drop (length t) s = s ! length t # drop (length t + 1) s"
    using n by (simp add: Cons_nth_drop_Suc)
  then have "(t @ drop (length t) s)[length t := NUL] = t @ NUL # drop (length t + 1) s" by simp
  ultimately show ?thesis using n by (auto simp only: snprintf_def vsnprintf_def bindR_simps prod.case wr_in
        length_append length_drop if_True)
qed

lemma holds_front: "NUL \<notin> set t \<Longrightarrow> holds (t @ NUL # r) 0 t"
  using cstr_split [of t 0 "[]" r] terminated_split [of 0 "[]" t r] by (simp add: holds_def)

text \<open>C16: Round trip of numbers through \<open>snprintf\<close> and \<open>strtol\<close> or \<open>strtoul\<close>: in a buffer of at least 12
  characters \<open>snprintf\<close> with \<open>%d\<close> leaves a string from which \<open>strtol\<close> reads back exactly the argument,
  to the end of the string, for every \<open>int\<close>, the least one included; the same holds of \<open>%x\<close> and
  \<open>strtoul\<close> with base 16. The number returned is the length of the string.\<close>

theorem printf_strtol_roundtrip:
  assumes "12 \<le> n" "n \<le> length s"
  shows "(\<exists>k s'. snprintf s n (''%d'' @ [NUL]) 0 [W32 w] = Inr (k, s', []) \<and> strtol s' 0 10 = Inr (w, Some k, False)) \<and>
    (\<exists>k s'. snprintf s n (''%x'' @ [NUL]) 0 [W32 w] = Inr (k, s', []) \<and> strtoul s' 0 16 = Inr (w, Some k, False))"
proof
  let ?m = "[CHR ''%'', CHR ''d'', NUL]" and ?v = "sint w"
  let ?ds = "num_text 10 False (nat \<bar>?v\<bar>)"
  let ?t = "if ?v < 0 then CHR ''-'' # ?ds else ?ds"
  have v: "- (2 ^ 31) \<le> ?v" "?v < 2 ^ 31" using sint_ge [of w] sint_lt [of w] by simp_all
  have "length ?ds \<le> 10"
    by (rule num_text_length_le) (use v in \<open>auto simp: nat_less_iff abs_less_iff\<close>)
  then have len: "length ?t < n" using assms(1) by auto
  have "snprintf s n ?m 0 [W32 w] = Inr (length ?t, ?t @ NUL # drop (length ?t + 1) s, [])"
  proof (rule snprintf_number [OF refl, of _ 10 0 _ ?v])
    show "scan_flags ?m 1 0 = Inr (1, E_done)" "scan_number ?m 1 = Inr (0, 1)" by code_simp+
    show "convert ?m 0 1 st = thenM (doM [set_base (int 10), set_flag 0])
        (bindM int_output (\<lambda>ok. retM (if ok then Some 2 else None))) st" for st
      unfolding convert_def one_add_one by (simp add: bindM_step set_base_def set_flag_def thenM_step)
    show "(if has (E_done OR 0) E_unsigned then unsigned_value else signed_value)
        (st\<lparr>p_flags := E_done OR 0, p_arg := [W32 w]\<rparr>) = Inr (Some ?v, st\<lparr>p_flags := E_done OR 0, p_arg := []\<rparr>)" for st
      by (simp add: has_def E_defs signed_value_def va_32_def va_arg_def bindM_eval thenM_step Let_def)
    show "\<bar>?v\<bar> < 2 ^ 64" using v by auto
  qed (use len assms(2) in \<open>auto simp: has_def E_defs\<close>)
  moreover have "strtol (?t @ NUL # r) 0 10 = Inr (w, Some (length ?t), False)" for r
  proof -
    have ds: "\<forall>c \<in> set ?ds. is_digit 10 c" "value_from 10 0 ?ds = nat \<bar>?v\<bar>" "?ds \<noteq> []"
      using num_text_value [of 10 False "nat \<bar>?v\<bar>"] num_text_length [of 10 False "nat \<bar>?v\<bar>"] by auto
    note number = number_of_digits [of ?ds 10 ?t "?v < 0", OF ds(3,1) _ _ refl]
    have "number_value 10 ?t = ?v" "number_length 10 ?t = length ?t" "NUL \<notin> set ?t"
      using number ds(2) by auto
    then show ?thesis
      using v unfolding strtol_def Let_def
      by (subst signed_parse [OF holds_front, of _ _ 2147483647])
        (simp_all add: limits ucast_of_nat valid_base_def clamp_if)
  qed
  ultimately show "\<exists>k s'. snprintf s n (''%d'' @ [NUL]) 0 [W32 w] = Inr (k, s', []) \<and> strtol s' 0 10 = Inr (w, Some k, False)"
    by simp
next
  let ?m = "[CHR ''%'', CHR ''x'', NUL]" and ?v = "uint w"
  let ?t = "num_text 16 True (nat ?v)"
  have v: "0 \<le> ?v" "?v < 2 ^ 32" using uint_range_size [of w] by (simp_all add: word_size)
  have "nat ?v < 16 ^ 8" using v by (subst nat_less_iff) simp_all
  then have "length ?t \<le> 8" by (intro num_text_length_le) simp_all
  then have len: "length ?t < n" using assms(1) by auto
  let ?fl = "E_lower OR E_unsigned"
  have "snprintf s n ?m 0 [W32 w] = Inr (length ?t, ?t @ NUL # drop (length ?t + 1) s, [])"
  proof (rule snprintf_number [OF refl, of _ 16 ?fl _ ?v])
    show "scan_flags ?m 1 0 = Inr (1, E_done)" "scan_number ?m 1 = Inr (0, 1)" by code_simp+
    show "convert ?m 0 1 st = thenM (doM [set_base (int 16), set_flag ?fl])
        (bindM int_output (\<lambda>ok. retM (if ok then Some 2 else None))) st" for st
      unfolding convert_def one_add_one by (simp add: bindM_step)
    show "(if has (E_done OR ?fl) E_unsigned then unsigned_value else signed_value)
        (st\<lparr>p_flags := E_done OR ?fl, p_arg := [W32 w]\<rparr>) = Inr (Some ?v, st\<lparr>p_flags := E_done OR ?fl, p_arg := []\<rparr>)" for st
      by (simp add: has_def E_defs unsigned_value_def va_32_def va_arg_def bindM_eval thenM_step Let_def)
    show "\<bar>?v\<bar> < 2 ^ 64" using v by auto
  qed (use len assms(2) in \<open>auto simp: has_def E_defs\<close>)
  moreover have "strtoul (?t @ NUL # r) 0 16 = Inr (w, Some (length ?t), False)" for r
  proof -
    have ds: "\<forall>c \<in> set ?t. is_digit 16 c" "value_from 16 0 ?t = nat ?v" "?t \<noteq> []"
      using num_text_value [of 16 True "nat ?v"] num_text_length [of 16 True "nat ?v"] by auto
    have "number_value 16 ?t = ?v" "number_length 16 ?t = length ?t" "NUL \<notin> set ?t"
      using number_of_digits [of ?t 16 ?t False, OF ds(3,1)] ds(2) by auto
    then show ?thesis
      using v unfolding strtoul_def Let_def
      by (subst unsigned_parse [OF holds_front, of _ _ 4294967295])
        (simp_all add: limits ucast_of_nat valid_base_def)
  qed
  ultimately show "\<exists>k s'. snprintf s n (''%x'' @ [NUL]) 0 [W32 w] = Inr (k, s', []) \<and> strtoul s' 0 16 = Inr (w, Some k, False)"
    by simp
qed

theorem printf_strtol_roundtrip_witness:
  "\<exists>k s'. snprintf (replicate 16 (CHR ''?'')) 16 (''%d'' @ [NUL]) 0 [W32 2147483648] = Inr (k, s', []) \<and>
    strtol s' 0 10 = Inr (2147483648, Some k, False)"
  using printf_strtol_roundtrip [of 16 "replicate 16 (CHR ''?'')" 2147483648] by simp

section \<open>The bounds of the buffer\<close>

text \<open>What every step keeps: nothing at or after the limit changes, the count only grows.\<close>

definition within :: "status \<Rightarrow> status \<Rightarrow> bool" where
  "within st st' \<longleftrightarrow> p_n st' = p_n st \<and> length (p_s st') = length (p_s st) \<and> p_i st \<le> p_i st' \<and>
     (\<forall>k. p_n st \<le> k \<longrightarrow> p_s st' ! k = p_s st ! k)"

interpretation within: effect within
  by unfold_locales (auto simp: within_def)

lemma PUT_within: "steps within (PUT x)"
  by (rule stepsI) (auto simp: PUT_def within_def bindR_Inr dest!: wr_InrD split: if_splits option.splits)

lemma verbatim_within: "steps within (print_verbatim x)"
  by (rule stepsI) (auto simp: print_verbatim_def within_def bindR_Inr dest!: wr_InrD split: if_splits option.splits)

lemma cut_within: "steps within cut_string"
  by (rule stepsI) (auto simp: cut_string_def within_def run_simps dest!: wr_InrD split: if_splits)

text \<open>Assignments to the other fields.\<close>

lemma mod_within: "(\<And>st. p_n (f st) = p_n st \<and> p_s (f st) = p_s st \<and> p_i (f st) = p_i st) \<Longrightarrow> steps within (modM f)"
  by (rule stepsI) (auto simp: within_def)

lemmas within_rules = within.eff_rules PUT_within verbatim_within cut_within

lemma current_within: "steps within current_incr"
  unfolding current_incr_def by (rule mod_within) simp

lemma PUT_count_within: "steps within (PUT_count x)"
  unfolding PUT_count_def by (intro within_rules current_within)

lemma set_within: "steps within (set_flag e)" "steps within (set_base b)" "steps within init_status"
  unfolding set_flag_def set_base_def init_status_def by (rule mod_within; simp)+

lemma intformat_within: "steps within (intformat v)"
proof -
  have "steps within (doM (map PUT_count w))" for w
    by (rule within.eff_do) (auto intro: PUT_count_within)
  then show ?thesis
    unfolding intformat_def Let_def by (intro within_rules PUT_count_within mod_within) simp_all
qed

lemma put_digit_within: "steps within (put_digit v)"
  unfolding put_digit_def Let_def by (intro within_rules)

lemma INT2BASE_within: "steps within (INT2BASE k v)"
  by (induction k arbitrary: v) (auto simp del: doM.simps intro!: within_rules intformat_within put_digit_within current_within)

lemma put_chars_within: "steps within (put_chars m p k)"
  by (induction k arbitrary: p) (auto intro!: within_rules PUT_count_within)

lemma stringformat_within: "steps within (stringformat m p)"
  unfolding stringformat_def
  by (intro within_rules PUT_count_within put_chars_within mod_within) simp_all

lemma va_within: "steps within va_arg" "steps within va_32" "steps within va_64" "steps within va_str"
proof -
  show va: "steps within va_arg"
    by (rule stepsI) (auto simp: va_arg_def run_simps within_def split: list.splits)
  show "steps within va_32" "steps within va_64" "steps within va_str"
    unfolding va_32_def va_64_def va_str_def
    by (rule within.eff_bind [OF va], auto split: arg.splits intro: within_rules)+
qed

lemma parse_within:
  "steps within (parse_flags m p)" "steps within (parse_width m p)" "steps within (parse_prec m p)"
  "steps within (parse_length m p)"
  unfolding parse_flags_def parse_width_def parse_prec_def parse_length_def Let_def
  by (intro within_rules va_within set_within mod_within; simp)+

lemma int_output_within: "steps within int_output"
  unfolding int_output_def unsigned_value_def signed_value_def pad_right_def Let_def
  by (intro within_rules va_within INT2BASE_within PUT_count_within)

lemma print_spec_within: "steps within (print_spec m p)"
  unfolding print_spec_def convert_def Let_def
  by (intro within_rules parse_within set_within va_within int_output_within stringformat_within mod_within) simp_all

lemma print_loop_within: "steps within (print_loop k m p)"
  by (induction k arbitrary: p) (auto intro!: within_rules print_spec_within split: option.splits)

text \<open>C19: \<open>vsnprintf\<close> stays inside the buffer it is given: whatever the format and the arguments, if it
  returns it has written nothing at or after the limit \<open>n\<close>.\<close>

theorem vsnprintf_within:
  assumes "vsnprintf s n m format args = Inr (k, s', stores)"
  shows "length s' = length s \<and> (\<forall>i. n \<le> i \<longrightarrow> s' ! i = s ! i)"
proof -
  obtain st where st: "print_loop (length m + 1) m (Some format) (new_status n s None args) = Inr ((), st)"
    and r: "(if p_i st < n then wr (p_s st) (p_i st) NUL else Inr (p_s st)) = Inr s'"
    using assms by (auto simp: vsnprintf_def bindR_Inr simp del: print_loop.simps)
  have "within (new_status n s None args) st" using stepsD [OF print_loop_within st] .
  then show ?thesis using r by (auto simp: within_def new_status_def dest!: wr_InrD split: if_splits)
qed

theorem vsnprintf_within_witness:
  "\<exists>k s' stores. vsnprintf ''abc'' 1 (''%d'' @ [NUL]) 0 [W32 42] = Inr (k, s', stores) \<and> s' ! 2 = CHR ''c''"
proof -
  have "vsnprintf ''abc'' 1 (''%d'' @ [NUL]) 0 [W32 42] = Inr (2, [NUL] @ ''bc'', [])" by code_simp
  then show ?thesis using vsnprintf_within [of "''abc''" 1 "''%d'' @ [NUL]" 0 "[W32 42]"] by force
qed

section \<open>Text without conversions\<close>

lemma fold_put1_full: "p_n st \<le> p_i st \<Longrightarrow> p_s (fold put1 w st) = p_s st"
  by (induction w arbitrary: st) (simp_all add: put1_def)

lemma print_loop_text:
  "holds m p t \<Longrightarrow> CHR ''%'' \<notin> set t \<Longrightarrow> sound st \<Longrightarrow> p_stream st = None \<Longrightarrow> length t < k \<Longrightarrow>
    print_loop k m (Some p) st = Inr ((), fold put1 t st)"
proof (induction t arbitrary: p st k)
  case Nil
  then obtain k' where "k = Suc k'" by (cases k) auto
  then show ?case using Nil by (simp add: holds_rd bindM_step)
next
  case (Cons c t)
  then obtain k' where k: "k = Suc k'" by (cases k) auto
  have "NUL \<notin> set (c # t)" using Cons.prems(1) cstr_no_NUL [of m p] unfolding holds_def by metis
  then have c: "rd m p = Inr c" "c \<noteq> NUL" using holds_rd [OF Cons.prems(1)] by auto
  have "print_verbatim c st = Inr ((), put1 c st)"
    using Cons.prems(3,4) by (auto simp: print_verbatim_def put1_def sound_def)
  moreover have "print_loop k' m (Some (p + 1)) (put1 c st) = Inr ((), fold put1 t (put1 c st))"
    using Cons.prems k holds_Suc [OF Cons.prems(1)] by (intro Cons.IH) auto
  moreover have "c \<noteq> CHR ''%''" using Cons.prems(2) by auto
  ultimately show ?case using c k by (simp add: bindM_step thenM_step)
qed

text \<open>C18: \<open>vsnprintf\<close> on a format without conversions returns its length. If the text is shorter than the
  limit, the buffer holds the text and its terminator; if it is not, the buffer is filled with text and
  has no terminator at all (the C standard asks for one whenever the limit is not 0).\<close>

theorem vsnprintf_text:
  assumes "holds m p t" "CHR ''%'' \<notin> set t" "n \<le> length s"
  shows "if length t < n
    then vsnprintf s n m p args = Inr (length t, t @ NUL # drop (length t + 1) s, [])
    else vsnprintf s n m p args = Inr (length t, take n t @ drop n s, []) \<and> NUL \<notin> set (take n t)"
proof -
  let ?init = "new_status n s None args" and ?st = "fold put1 t (new_status n s None args)"
  have "length t < length m" using assms(1) terminated_less [of m p] by (auto simp: holds_def)
  then have loop: "print_loop (length m + 1) m (Some p) ?init = Inr ((), ?st)"
    using assms by (intro print_loop_text) (simp_all add: new_status_def sound_def)
  have st: "p_i ?st = length t" "p_stores ?st = []" "length (p_s ?st) = length s" by (simp_all add: new_status_def)
  show ?thesis
  proof (cases "length t < n")
    case True
    then have "p_s ?st = t @ drop (length t) s"
      using fold_put1_buffer [of ?init t] assms(3) by (simp add: new_status_def)
    moreover have "drop (length t) s = s ! length t # drop (length t + 1) s"
      using True assms(3) by (simp add: Cons_nth_drop_Suc)
    ultimately show ?thesis using True st assms(3) loop by (simp add: vsnprintf_def del: print_loop.simps)
  next
    case False
    have "?st = fold put1 (drop n t) (fold put1 (take n t) ?init)"
      by (simp flip: fold_append [THEN fun_cong, unfolded comp_def])
    moreover have "p_s (fold put1 (take n t) ?init) = take n t @ drop n s"
      using fold_put1_buffer [of ?init "take n t"] False assms(3) by (simp add: new_status_def)
    ultimately have "p_s ?st = take n t @ drop n s"
      using False fold_put1_full [of "fold put1 (take n t) ?init"] by (simp add: new_status_def)
    moreover have "NUL \<notin> set t" using assms(1) by (auto simp: holds_def)
    ultimately show ?thesis using False st loop by (auto simp: vsnprintf_def dest: in_set_takeD simp del: print_loop.simps)
  qed
qed

theorem vsnprintf_text_witness:
  "vsnprintf ''????'' 3 (''abcdef'' @ [NUL]) 0 [] = Inr (6, ''abc?'', [])"
proof -
  have "holds (''abcdef'' @ NUL # []) 0 ''abcdef''" by (rule holds_front) simp
  then show ?thesis using vsnprintf_text [of "''abcdef'' @ [NUL]" 0 "''abcdef''" 3 "''????''"] by simp
qed

section \<open>Termination\<close>

text \<open>Nothing but the recursion of \<open>INT2BASE\<close> and the loop over the format runs on fuel.\<close>

lemma strlen_not_fuel: "strlen m s n \<noteq> Inl Fuel"
proof (induction m s n rule: strlen.induct)
  case (1 m s n)
  then show ?case by (subst strlen.simps) (auto simp: bindR_Inl split: if_splits)
qed

lemma limit_prec_not_fuel: "limit_prec m s i k \<noteq> Inl Fuel"
  by (induction k arbitrary: i) (auto simp: bindR_Inl split: if_splits)

lemma scan_flags_not_fuel: "scan_flags m p fl \<noteq> Inl Fuel"
proof (induction m p fl rule: scan_flags.induct)
  case (1 m p fl)
  then show ?case by (subst scan_flags.simps) (auto simp: bindR_Inl split: if_splits)
qed

lemma scan_number_not_fuel: "scan_number m p \<noteq> Inl Fuel"
  by (auto simp: scan_number_def bindR_Inl strtol_not_fuel)

lemma never_PUT: "never Fuel (PUT x)" "never Fuel (print_verbatim x)"
  by (auto simp: never_def PUT_def print_verbatim_def bindR_Inl wr_not_fuel split: option.splits if_splits)

lemma never_PUT_count: "never Fuel (PUT_count x)"
  unfolding PUT_count_def current_incr_def by (intro never_intros never_PUT)

lemma never_do: "(\<And>m. m \<in> set ms \<Longrightarrow> never e m) \<Longrightarrow> never e (doM ms)"
  by (induction ms) (auto intro: never_intros)

lemma never_put_list: "never Fuel (doM (map PUT_count w))"
  by (rule never_do) (auto intro: never_PUT_count)

lemma never_put_chars: "never Fuel (put_chars m p k)"
  by (induction k arbitrary: p) (auto intro!: never_intros never_PUT_count)

lemma never_va: "never Fuel va_arg" "never Fuel va_32" "never Fuel va_64" "never Fuel va_str"
proof -
  show va: "never Fuel va_arg" unfolding va_arg_def by (intro never_intros) auto
  show "never Fuel va_32" "never Fuel va_64" "never Fuel va_str"
    unfolding va_32_def va_64_def va_str_def
    by (rule never_bind [OF va], auto split: arg.splits intro: never_intros)+
qed

lemma never_set: "never Fuel (set_flag e)" "never Fuel (set_base b)" "never Fuel init_status"
  unfolding set_flag_def set_base_def init_status_def by (rule never_mod)+

lemma never_intformat: "never Fuel (intformat v)"
  unfolding intformat_def Let_def doM.simps
  by (intro never_intros never_PUT_count never_put_list)

lemma never_put_digit: "never Fuel (put_digit v)"
  unfolding put_digit_def Let_def by (intro never_intros never_PUT rd_not_fuel)

lemma never_stringformat: "never Fuel (stringformat m p)"
  unfolding stringformat_def doM.simps
  by (intro never_intros never_PUT_count never_put_chars strlen_not_fuel limit_prec_not_fuel)

lemma never_output: "never Fuel cut_string" "never Fuel pad_right" "never Fuel unsigned_value" "never Fuel signed_value"
  unfolding cut_string_def pad_right_def unsigned_value_def signed_value_def Let_def
  by (intro never_intros never_PUT_count never_va wr_not_fuel)+

lemma never_parse:
  "never Fuel (parse_flags m p)" "never Fuel (parse_width m p)" "never Fuel (parse_prec m p)" "never Fuel (parse_length m p)"
  unfolding parse_flags_def parse_width_def parse_prec_def parse_length_def Let_def
  by (intro never_intros never_va never_set rd_not_fuel scan_flags_not_fuel scan_number_not_fuel)+

text \<open>64 digits are enough for every value in every base.\<close>

lemma INT2BASE_not_fuel:
  "2 \<le> b \<Longrightarrow> p_base st = int b \<Longrightarrow> nat \<bar>v\<bar> < b ^ k \<Longrightarrow> \<bar>v\<bar> < 2 ^ 64 \<Longrightarrow> 0 < k \<Longrightarrow> INT2BASE k v st \<noteq> Inl Fuel"
proof (induction k arbitrary: v st)
  case (Suc k)
  let ?st = "st\<lparr>p_current := p_current st + 1\<rparr>" and ?n = "nat \<bar>v\<bar>" and ?q = "v sdiv int b"
  have "?q = sgn v * int (?n div b)" using Suc.prems(1) by (simp add: signed_divide_int_def zdiv_int)
  then have q: "nat \<bar>?q\<bar> = ?n div b" by (cases "v = 0") (simp_all add: abs_mult sgn_if)
  have "INT2BASE k (to_intmax ?q) ?st \<noteq> Inl Fuel" if "?q \<noteq> 0"
  proof -
    have k: "?n div b < b ^ k" using Suc.prems(1,3) by (simp add: less_mult_imp_div_less mult.commute)
    have "?n < 2 ^ 64" using Suc.prems(4) by simp
    then have "?n div b < 2 ^ 63" using Suc.prems(1) div_le_mono2 [of 2 b ?n] by simp
    then have absq: "\<bar>?q\<bar> < 2 ^ 63" using q nat_less_iff [of "\<bar>?q\<bar>" "2 ^ 63"] by simp
    then have "to_intmax ?q = ?q" by (intro to_intmax_id) auto
    moreover have "0 < k" using k that q by (cases k) auto
    ultimately show ?thesis using Suc.IH [of ?st ?q] Suc.prems(1,2) k absq q by simp
  qed
  moreover have "intformat w s \<noteq> Inl Fuel" "put_digit w s \<noteq> Inl Fuel" for w s
    using never_intformat never_put_digit by (simp_all add: never_def)
  ultimately show ?case
    using Suc.prems(2) by (auto simp: bindM_eval thenM_def current_incr_def split: sum.splits if_splits)
qed simp

lemma uint_64:
  fixes w :: "'a :: len word"
  assumes "LENGTH('a) \<le> 64"
  shows "uint w < 2 ^ 64"
proof -
  have "uint w < 2 ^ LENGTH('a)" by simp
  also have "\<dots> \<le> 2 ^ 64" using assms by (rule power_increasing) simp
  finally show ?thesis .
qed

lemma sint_64:
  fixes w :: "'a :: len word"
  assumes "LENGTH('a) \<le> 64"
  shows "\<bar>sint w\<bar> < 2 ^ 64"
proof -
  have "2 ^ (LENGTH('a) - 1) \<le> (2 :: int) ^ 63" using assms by (intro power_increasing) auto
  then show ?thesis using sint_ge [of w] sint_lt [of w] by simp
qed

lemma value_range:
  "unsigned_value st = Inr (Some v, st') \<Longrightarrow> \<bar>v\<bar> < 2 ^ 64 \<and> p_base st' = p_base st"
  "signed_value st = Inr (Some v, st') \<Longrightarrow> \<bar>v\<bar> < 2 ^ 64 \<and> p_base st' = p_base st"
proof -
  note ranges = uint_64 [where 'a = 8] uint_64 [where 'a = 16] uint_64 [where 'a = 32] uint_64 [where 'a = 64]
    sint_64 [where 'a = 8] sint_64 [where 'a = 16] sint_64 [where 'a = 32] sint_64 [where 'a = 64]
  note ranges = ranges [simplified]
  have va: "va_32 st = Inr (w, st') \<Longrightarrow> p_base st' = p_base st" "va_64 st = Inr (w', st') \<Longrightarrow> p_base st' = p_base st"
    for w w' by (auto simp: va_32_def va_64_def va_arg_def run_simps split: list.splits arg.splits)
  show "unsigned_value st = Inr (Some v, st') \<Longrightarrow> \<bar>v\<bar> < 2 ^ 64 \<and> p_base st' = p_base st"
    by (auto simp: unsigned_value_def Let_def run_simps ranges dest: va split: if_splits)
  show "signed_value st = Inr (Some v, st') \<Longrightarrow> \<bar>v\<bar> < 2 ^ 64 \<and> p_base st' = p_base st"
    by (auto simp: signed_value_def Let_def run_simps ranges dest: va split: if_splits)
qed

lemma int_output_not_fuel:
  assumes "p_base st \<in> {0, 8, 10, 16}"
  shows "int_output st \<noteq> Inl Fuel"
proof (cases "p_base st = 0")
  case False
  let ?val = "if has (p_flags st) E_unsigned then unsigned_value else signed_value"
  have never: "never Fuel ?val" using never_output(3,4) by simp
  have "INT2BASE 65 v st' \<noteq> Inl Fuel" if v: "?val st = Inr (Some v, st')" for v st'
  proof -
    have r: "\<bar>v\<bar> < 2 ^ 64" "p_base st' = p_base st" using v value_range by (auto split: if_splits)
    obtain b where b: "p_base st' = int b" "2 \<le> b"
      using assms False r(2) that [of 8] by (metis (no_types, lifting) insert_iff empty_iff numeral_le_iff
          of_nat_numeral semiring_norm(69) semiring_norm(71) semiring_norm(68) semiring_norm(72) order_refl)
    have "nat \<bar>v\<bar> < 2 ^ 64" using r(1) nat_less_iff [of "\<bar>v\<bar>" "2 ^ 64"] by simp
    also have "\<dots> \<le> b ^ 64" using b(2) by (rule power_mono) simp
    also have "\<dots> \<le> b ^ 65" using b(2) by (intro power_increasing) simp_all
    finally show ?thesis using INT2BASE_not_fuel [OF b(2,1) _ r(1) zero_less_numeral] by blast
  qed
  then show ?thesis
    using False never never_output(1,2) unfolding int_output_def never_def doM.simps thenM_def
    by (auto simp: bindM_eval split: sum.splits option.splits simp del: INT2BASE.simps)
qed (simp add: int_output_def bindM_eval)

lemma bindM_not:
  "m st \<noteq> Inl e \<Longrightarrow> (\<And>a st'. m st = Inr (a, st') \<Longrightarrow> f a st' \<noteq> Inl e) \<Longrightarrow> bindM m f st \<noteq> Inl e"
  by (auto simp: bindM_eval split: sum.splits)

lemma thenM_not: "m st \<noteq> Inl e \<Longrightarrow> (\<And>a st'. m st = Inr (a, st') \<Longrightarrow> n st' \<noteq> Inl e) \<Longrightarrow> thenM m n st \<noteq> Inl e"
  unfolding thenM_def by (rule bindM_not)

lemma ifM_not: "(b \<Longrightarrow> m st \<noteq> Inl e) \<Longrightarrow> (\<not> b \<Longrightarrow> n st \<noteq> Inl e) \<Longrightarrow> (if b then m else n) st \<noteq> Inl e"
  by simp

lemma never_not: "never e m \<Longrightarrow> m st \<noteq> Inl e"
  by (simp add: never_def)

lemma convert_not_fuel:
  assumes "p_base st = 0"
  shows "convert m o_spec p st \<noteq> Inl Fuel"
proof -
  let ?out = "bindM int_output (\<lambda>ok. retM (if ok then Some (p + 1) else None))"
  have out: "?out st' \<noteq> Inl Fuel" if "p_base st' \<in> {0, 8, 10, 16}" for st'
    by (intro bindM_not int_output_not_fuel that) simp
  have set: "thenM (set_base b) ?out st' \<noteq> Inl Fuel" "thenM (doM [set_base b, set_flag fl]) ?out st' \<noteq> Inl Fuel"
    if "b \<in> {8, 10, 16}" for b fl st'
    using out [of "st'\<lparr>p_base := b\<rparr>"] out [of "st'\<lparr>p_base := b, p_flags := p_flags st' OR fl\<rparr>"] that
    by (auto simp: thenM_def bindM_eval set_base_def set_flag_def)
  have conv: "never Fuel (bindM va_32 (\<lambda>w. thenM (doM [set_flag E_char, stringformat [char_of (uint w)] 0]) (retM (Some (p + 1)))))"
    "never Fuel (bindM va_str (\<lambda>(t, q). thenM (stringformat t q) (retM (Some (p + 1)))))"
    "never Fuel (bindM va_32 (\<lambda>val. thenM (modM (\<lambda>st. st\<lparr>p_stores := p_stores st @ [(val, p_i st)]\<rparr>)) (retM (Some (p + 1)))))"
    unfolding doM.simps by (intro never_intros never_va never_stringformat never_set)+
  show ?thesis
  proof (cases "rd m p")
    case (Inl e)
    then show ?thesis using rd_not_fuel [of m p] by (auto simp: convert_def bindM_eval)
  next
    case (Inr c)
    then have c: "liftM (rd m p) st = Inr (c, st)" by simp
    show ?thesis
      unfolding convert_def Let_def
      by (subst bindM_step [where m = "liftM (rd m p)", OF c],
          intro ifM_not set never_not [OF conv(1)] never_not [OF conv(2)] never_not [OF conv(3)] out never_not [OF never_ret])
        (simp_all add: assms)
  qed
qed

text \<open>The pointer to the format never moves back.\<close>

lemma scan_flags_ge: "scan_flags m p fl = Inr (q, fl') \<Longrightarrow> p \<le> q"
proof (induction "length m - p" arbitrary: p fl rule: less_induct)
  case less
  have "p < length m" using less.prems by (subst (asm) scan_flags.simps) (auto simp: bindR_Inr dest: rd_InrD)
  then have dec: "length m - Suc p < length m - p" by linarith
  have "q = p \<or> (\<exists>fl''. scan_flags m (Suc p) fl'' = Inr (q, fl'))"
    using less.prems by (subst (asm) scan_flags.simps) (auto simp: bindR_Inr split: if_splits)
  then show ?case using less.hyps [OF dec] by (meson Suc_leD order_refl)
qed

lemma scan_number_ge: "scan_number m p = Inr (v, q) \<Longrightarrow> p \<le> q"
  by (auto simp: scan_number_def bindR_Inr dest: strtol_ge split: option.splits)

lemma parse_ge:
  "parse_flags m p st = Inr (q, st') \<Longrightarrow> p \<le> q \<and> p_base st' = p_base st"
  "parse_width m p st = Inr (q, st') \<Longrightarrow> p \<le> q \<and> p_base st' = p_base st"
  "parse_prec m p st = Inr (q, st') \<Longrightarrow> p \<le> q \<and> p_base st' = p_base st"
  "parse_length m p st = Inr (q, st') \<Longrightarrow> p \<le> q \<and> p_base st' = p_base st"
proof -
  have va: "va_32 st = Inr (w, st') \<Longrightarrow> p_base st' = p_base st" for w st st'
    by (auto simp: va_32_def va_arg_def run_simps split: list.splits arg.splits)
  show "parse_flags m p st = Inr (q, st') \<Longrightarrow> p \<le> q \<and> p_base st' = p_base st"
    by (auto simp: parse_flags_def run_simps dest: scan_flags_ge)
  show "parse_width m p st = Inr (q, st') \<Longrightarrow> p \<le> q \<and> p_base st' = p_base st"
    by (auto simp: parse_width_def set_flag_def run_simps dest: va scan_number_ge split: if_splits)
  show "parse_prec m p st = Inr (q, st') \<Longrightarrow> p \<le> q \<and> p_base st' = p_base st"
    by (auto simp: parse_prec_def run_simps Let_def dest!: va scan_number_ge split: if_splits)
  show "parse_length m p st = Inr (q, st') \<Longrightarrow> p \<le> q \<and> p_base st' = p_base st"
    by (auto simp: parse_length_def set_flag_def run_simps split: if_splits)
qed

lemma convert_ge: "convert m o_spec p st = Inr (Some q, st') \<Longrightarrow> q = o_spec \<or> q = p + 1"
  by (auto simp: convert_def Let_def run_simps simp del: doM.simps split: if_splits)

lemma print_spec_ge:
  assumes "print_spec m p st = Inr (Some q, st')"
  shows "q = p \<or> p < q"
proof -
  consider "q = p + 2" | q1 q2 q3 q4 s1 s2 s3 s4 s5 where "parse_flags m (p + 1) s1 = Inr (q1, s2)"
      "parse_width m q1 s2 = Inr (q2, s3)" "parse_prec m q2 s3 = Inr (q3, s4)" "parse_length m q3 s4 = Inr (q4, s5)"
      "convert m p q4 s5 = Inr (Some q, st')"
    using assms unfolding print_spec_def run_simps by (force simp: run_simps split: if_splits)
  then show ?thesis
  proof cases
    case 2
    then show ?thesis using convert_ge [OF 2(5)] parse_ge(1) [OF 2(1)] parse_ge(2) [OF 2(2)] parse_ge(3) [OF 2(3)]
        parse_ge(4) [OF 2(4)] by linarith
  qed simp
qed

lemma print_spec_not_fuel: "print_spec m p st \<noteq> Inl Fuel"
proof -
  have "convert m p q4 s5 \<noteq> Inl Fuel" if "init_status st = Inr (u, s1)" "parse_flags m (p + 1) s1 = Inr (q1, s2)"
      "parse_width m q1 s2 = Inr (q2, s3)" "parse_prec m q2 s3 = Inr (q3, s4)" "parse_length m q3 s4 = Inr (q4, s5)"
    for u q1 q2 q3 q4 s1 s2 s3 s4 s5
    by (rule convert_not_fuel)
      (use that parse_ge(1) [OF that(2)] parse_ge(2) [OF that(3)] parse_ge(3) [OF that(4)] parse_ge(4) [OF that(5)]
        in \<open>auto simp: init_status_def\<close>)
  then show ?thesis
    unfolding print_spec_def
    by (intro bindM_not thenM_not ifM_not never_not [OF never_parse(1)] never_not [OF never_parse(2)]
        never_not [OF never_parse(3)] never_not [OF never_parse(4)] never_not [OF never_PUT(1)]
        never_not [OF never_set(3)] never_not [OF never_lift] rd_not_fuel) auto
qed

lemma print_loop_not_fuel: "length m - p < k \<Longrightarrow> print_loop k m (Some p) st \<noteq> Inl Fuel"
proof (induction k arbitrary: p st)
  case (Suc k)
  have lift: "liftM (rd m p) s \<noteq> Inl Fuel" for s :: status
    by (rule never_not) (intro never_intros rd_not_fuel)
  have in_m: "p < length m" if "rd m p = Inr c" for c using that by (auto dest: rd_InrD)
  have next_round: "print_loop k m (Some q) s \<noteq> Inl Fuel" if "p < q" "rd m p = Inr c" for q s c
    using Suc.prems in_m [OF that(2)] that(1) by (intro Suc.IH) linarith
  have jump: "print_loop k m r s \<noteq> Inl Fuel"
    if r: "rd m p = Inr c" "print_spec m p st = Inr (r, st')" "r \<noteq> Some p" for r s c st'
  proof (cases r)
    case None
    obtain k' where "k = Suc k'" using Suc.prems in_m [OF r(1)] by (cases k) auto
    then show ?thesis using None by simp
  next
    case (Some q)
    then show ?thesis using print_spec_ge r next_round by blast
  qed
  show ?case
    unfolding print_loop.simps option.case
    by (rule bindM_not [OF lift], intro ifM_not thenM_not bindM_not never_not [OF never_PUT(2)] print_spec_not_fuel)
      (auto dest: next_round [rotated] jump [rotated])
qed simp

text \<open>C20: Formatted output terminates on every format, even one that is not terminated or not well formed,
  and for all arguments: neither the loop over the format, which gets one round for every character of
  the format's memory, nor the conversion of an integer, which gets 65 digits, runs out of steps.\<close>

theorem printf_terminates:
  "vsnprintf s n m format args \<noteq> Inl Fuel \<and> vfprintf stream m format args \<noteq> Inl Fuel"
proof -
  have "print_loop (length m + 1) m (Some format) st \<noteq> Inl Fuel" for st
    by (rule print_loop_not_fuel) simp
  then show ?thesis
    by (auto simp: vsnprintf_def vfprintf_def bindR_Inl wr_not_fuel simp del: print_loop.simps split: if_splits)
qed

end
