(* ===== verification/Scanf.thy ===== *)
theory Scanf
  imports Printf
begin

text \<open>
  Formatted input: \<open>diskfs/stdlib/_scanf.h\<close>.

  The library reads only from strings (\<open>sscanf\<close>, \<open>vsscanf\<close>), so the stream of the status structure is
  null and left out. The format, the source and the memory that the arguments point to are three
  memories, which the conversions do not mix; an argument is an address in the third. \<open>n\<close> is the
  machine word that is returned; the other \<open>size_t\<close> fields are naturals. The variable \<open>rc\<close> is an
  option, \<open>None\<close> until it is first assigned, and reading it then is \<open>Undef\<close>.
\<close>

unbundle bit_operations_syntax

section \<open>The status structure\<close>

record scan =
  sc_base :: int
  sc_flags :: "32 word"
  sc_n :: "32 word"
  sc_i :: nat
  sc_current :: nat
  sc_s :: nat
  sc_width :: nat
  sc_arg :: "nat list"
  sc_mem :: buf

definition E_suppressed :: "32 word" where "E_suppressed = 1"

definition EOF :: int where "EOF = - 1"

text \<open>\<open>src\<close> is the source string.\<close>

definition GET :: "buf \<Rightarrow> (scan, int) M" where
  "GET src = bindM (getM sc_s) (\<lambda>s. bindM (liftM (rd src s)) (\<lambda>c.
     if c = NUL then retM EOF
     else thenM (modM (\<lambda>st. st\<lparr>sc_s := s + 1, sc_i := sc_i st + 1, sc_current := sc_current st + 1\<rparr>)) (retM (uchar c))))"

definition UNGET :: "(scan, unit) M" where
  "UNGET = modM (\<lambda>st. st\<lparr>sc_s := sc_s st - 1, sc_i := sc_i st - 1, sc_current := sc_current st - 1\<rparr>)"

section \<open>Scan sets\<close>

text \<open>The loop over a group like \<open>a-z\<close>: \<open>previous\<close> runs up to the last character of the group.\<close>

function in_group :: "int \<Rightarrow> int \<Rightarrow> int \<Rightarrow> bool" where
  "in_group previous upper rc =
     (let previous = previous + 1 in
      if previous \<le> upper then (if previous = rc then True else in_group previous upper rc) else False)"
  by pat_completeness auto
termination
  by (relation "measure (\<lambda>(previous, upper, rc). nat (upper - previous))") auto

function in_scanset :: "buf \<Rightarrow> nat \<Rightarrow> nat \<Rightarrow> int \<Rightarrow> int \<Rightarrow> err + bool" where
  "in_scanset m scanlist end_scanlist previous rc =
     (if scanlist = end_scanlist then Inr False
      else bindR (rd m scanlist) (\<lambda>c.
        if c = CHR ''-'' \<and> previous \<noteq> - 1 then
          (if scanlist + 1 = end_scanlist then Inr (rc = uchar (CHR ''-''))
           else bindR (rd m (scanlist + 1)) (\<lambda>e.
             if in_group previous (uchar e) rc then Inr True
             else in_scanset m (scanlist + 1) end_scanlist (- 1) rc))
        else if rc = uchar c then Inr True
        else in_scanset m (scanlist + 1) end_scanlist (uchar c) rc))"
  by pat_completeness auto
termination
  by (relation "measure (\<lambda>(m, scanlist, r). length m - scanlist)") (auto dest: rd_InrD)

definition IN_SCANSET :: "buf \<Rightarrow> nat \<Rightarrow> nat \<Rightarrow> int \<Rightarrow> err + bool" where
  "IN_SCANSET m scanlist end_scanlist rc = in_scanset m scanlist end_scanlist (- 1) rc"

function find_close :: "buf \<Rightarrow> nat \<Rightarrow> err + nat" where
  "find_close m endspec = (let endspec = endspec + 1 in
     bindR (rd m endspec) (\<lambda>c. if c \<noteq> CHR '']'' then find_close m endspec else Inr endspec))"
  by pat_completeness auto
termination
  by (relation "measure (\<lambda>(m, p). length m - p)") (auto dest: rd_InrD)

declare in_group.simps [simp del] in_scanset.simps [simp del] find_close.simps [simp del]

section \<open>Conversions to characters\<close>

definition va_ptr :: "(scan, nat) M" where
  "va_ptr = bindM (getM sc_arg) (\<lambda>args. case args of
     [] \<Rightarrow> failM Undef
   | a # args \<Rightarrow> thenM (modM (\<lambda>st. st\<lparr>sc_arg := args\<rparr>)) (retM a))"

definition put_mem :: "nat \<Rightarrow> char \<Rightarrow> (scan, unit) M" where
  "put_mem a x = bindM (getM sc_mem) (\<lambda>b. bindM (liftM (wr b a x)) (\<lambda>b. modM (\<lambda>st. st\<lparr>sc_mem := b\<rparr>)))"

definition n_incr :: "(scan, unit) M" where
  "n_incr = modM (\<lambda>st. st\<lparr>sc_n := sc_n st + 1\<rparr>)"

text \<open>An input error before the first conversion.\<close>

definition input_error :: "(scan, unit) M" where
  "input_error = modM (\<lambda>st. if sc_n st = 0 then st\<lparr>sc_n := - 1\<rparr> else st)"

text \<open>The loop of \<open>%c\<close>; the result is whether a character was stored. It ends with the source, whose
  length bounds the rounds.\<close>

fun read_chars :: "nat \<Rightarrow> buf \<Rightarrow> nat \<Rightarrow> bool \<Rightarrow> (scan, bool) M" where
  "read_chars 0 src c parsed = failM Fuel"
| "read_chars (Suc k) src c parsed = bindM (getM (\<lambda>st. sc_current st < sc_width st)) (\<lambda>more_width.
     if \<not> more_width then retM parsed
     else bindM (GET src) (\<lambda>rc.
       if rc = EOF then retM parsed
       else thenM (put_mem c (char_of rc)) (read_chars k src (c + 1) True)))"

definition scan_chars :: "buf \<Rightarrow> nat \<Rightarrow> (scan, nat option) M" where
  "scan_chars src spec = bindM va_ptr (\<lambda>c.
     thenM (modM (\<lambda>st. if sc_width st = SIZE_MAX then st\<lparr>sc_width := 1\<rparr> else st))
       (bindM (read_chars (length src + 1) src c False) (\<lambda>parsed.
          if parsed then thenM n_incr (retM (Some (spec + 1))) else thenM input_error (retM None))))"

text \<open>\<open>%s\<close>: the results of the loop are the four ways it ends.\<close>

datatype string_end = Matched | No_match | Ended bool nat

fun read_string :: "nat \<Rightarrow> buf \<Rightarrow> nat \<Rightarrow> bool \<Rightarrow> (scan, string_end) M" where
  "read_string 0 src c parsed = failM Fuel"
| "read_string (Suc k) src c parsed = bindM (getM (\<lambda>st. sc_current st < sc_width st)) (\<lambda>more_width.
     if \<not> more_width then retM (Ended parsed c)
     else bindM (GET src) (\<lambda>rc.
       if rc = EOF then retM (Ended parsed c)
       else if isspace rc then
         thenM UNGET (if parsed then thenM (doM [put_mem c NUL, n_incr]) (retM Matched) else retM No_match)
       else thenM (put_mem c (char_of rc)) (read_string k src (c + 1) True)))"

definition scan_string :: "buf \<Rightarrow> nat \<Rightarrow> (scan, nat option) M" where
  "scan_string src spec = bindM va_ptr (\<lambda>c.
     bindM (read_string (length src + 1) src c False) (\<lambda>r. case r of
       Matched \<Rightarrow> retM (Some (spec + 1))
     | No_match \<Rightarrow> retM None
     | Ended parsed c \<Rightarrow>
         if parsed then thenM (doM [put_mem c NUL, n_incr]) (retM (Some (spec + 1)))
         else thenM input_error (retM None)))"

text \<open>\<open>%[\<close>: the result is whether something was read, the next address, and the last \<open>rc\<close>.\<close>

fun read_set :: "nat \<Rightarrow> buf \<Rightarrow> buf \<Rightarrow> nat \<Rightarrow> nat \<Rightarrow> bool \<Rightarrow> nat \<Rightarrow> bool \<Rightarrow> int option
    \<Rightarrow> (scan, bool \<times> nat \<times> int option) M" where
  "read_set 0 src m spec endspec negative c parsed rc = failM Fuel"
| "read_set (Suc k) src m spec endspec negative c parsed rc = bindM (getM (\<lambda>st. sc_current st < sc_width st)) (\<lambda>more_width.
     if \<not> more_width then retM (parsed, c, rc)
     else bindM (GET src) (\<lambda>rc.
       if rc = EOF then retM (parsed, c, Some rc)
       else bindM (liftM (IN_SCANSET m spec endspec rc)) (\<lambda>found.
         if found = negative then thenM UNGET (retM (parsed, c, Some rc))
         else thenM (put_mem c (char_of rc)) (read_set k src m spec endspec negative (c + 1) True (Some rc)))))"

definition scan_set :: "buf \<Rightarrow> buf \<Rightarrow> nat \<Rightarrow> (scan, nat option) M" where
  "scan_set src m spec = bindM (liftM (rd m (spec + 1))) (\<lambda>x.
     let negative = (x = CHR ''^''); endspec = (if negative then spec + 2 else spec + 1); spec = endspec in
     bindM (liftM (find_close m endspec)) (\<lambda>endspec.
     bindM va_ptr (\<lambda>c.
     bindM (read_set (length src + 1) src m spec endspec negative c False None) (\<lambda>(parsed, c, rc).
       if parsed then thenM (doM [put_mem c NUL, n_incr]) (retM (Some (endspec + 1)))
       else case rc of
         None \<Rightarrow> failM Undef
       | Some rc \<Rightarrow> thenM (whenM (rc = EOF) (modM (\<lambda>st. st\<lparr>sc_n := - 1\<rparr>))) (retM None)))))"

section \<open>Integer conversions\<close>

definition scan_set_base :: "int \<Rightarrow> (scan, unit) M" where
  "scan_set_base b = modM (\<lambda>st. st\<lparr>sc_base := b\<rparr>)"

text \<open>The loop of an integer conversion, one round for each \<open>GET\<close> of its head. The locals are
  \<open>value\<close>, \<open>prefix_parsed\<close>, \<open>sign\<close>, \<open>value_parsed\<close> and \<open>rc\<close>; the result is the value, the sign,
  whether a value was parsed, and the last \<open>rc\<close>.\<close>

fun int_loop :: "nat \<Rightarrow> buf \<Rightarrow> 64 word \<Rightarrow> bool \<Rightarrow> int \<Rightarrow> bool \<Rightarrow> int option
    \<Rightarrow> (scan, 64 word \<times> int \<times> bool \<times> int option) M" where
  "int_loop 0 src val prefixed sign parsed rc = failM Fuel"
| "int_loop (Suc k) src val prefixed sign parsed rc = bindM (getM (\<lambda>st. sc_current st < sc_width st)) (\<lambda>more_width.
     if \<not> more_width then retM (val, sign, parsed, rc)
     else bindM (GET src) (\<lambda>rc.
       if rc = EOF then retM (val, sign, parsed, Some rc)
       else if isspace rc then
         (if sign \<noteq> 0 then thenM UNGET (retM (val, sign, parsed, Some rc))
          else thenM (modM (\<lambda>st. st\<lparr>sc_current := sc_current st - 1\<rparr>)) (int_loop k src val prefixed sign parsed (Some rc)))
       else if sign = 0 then
         (if rc = uchar (CHR ''-'') then int_loop k src val prefixed (- 1) parsed (Some rc)
          else if rc = uchar (CHR ''+'') then int_loop k src val prefixed 1 parsed (Some rc)
          else thenM UNGET (int_loop k src val prefixed 1 parsed (Some rc)))
       else if \<not> prefixed then
         (if rc \<noteq> uchar (CHR ''0'') then
            bindM (getM sc_base) (\<lambda>b. thenM (whenM (b = 0) (scan_set_base 10))
              (thenM UNGET (int_loop k src val True sign parsed (Some rc))))
          else bindM (getM (\<lambda>st. sc_current st < sc_width st)) (\<lambda>more_width.
            if \<not> more_width then retM (val, sign, True, Some rc)
            else bindM (GET src) (\<lambda>rc.
              if rc = EOF then retM (val, sign, True, Some rc)
              else bindM (getM sc_base) (\<lambda>b.
                if tolower rc = uchar (CHR ''x'') then
                  (if b = 0 \<or> b = 16
                   then thenM (scan_set_base 16) (int_loop k src val True sign parsed (Some rc))
                   else thenM UNGET (int_loop k src val True sign True (Some rc)))
                else thenM UNGET (thenM (whenM (b = 0) (scan_set_base 8)) (int_loop k src val True sign True (Some rc)))))))
       else bindM (getM sc_base) (\<lambda>b. bindM (liftM (memchr digits 0 (tolower rc) (nat b))) (\<lambda>x.
         case x of
           None \<Rightarrow> thenM UNGET (retM (val, sign, parsed, Some rc))
         | Some d \<Rightarrow> int_loop k src (val * of_int b + of_nat d) True sign True (Some rc)))))"

text \<open>The number of bytes that the value is stored in, by the flags; \<open>None\<close> if they are not supported.\<close>

definition store_size :: "32 word \<Rightarrow> nat option" where
  "store_size flags = (
     let f = flags AND (E_char OR E_short OR E_long OR E_llong OR E_intmax OR E_size OR E_ptrdiff OR E_pointer OR E_unsigned) in
     if f = E_char then Some 1 else if f = E_char OR E_unsigned then Some 1
     else if f = E_short then Some 2 else if f = E_short OR E_unsigned then Some 2
     else if f = 0 then Some 4 else if f = E_unsigned then Some 4
     else if f = E_long then Some 4 else if f = E_long OR E_unsigned then Some 4
     else if f = E_llong then Some 8 else if f = E_llong OR E_unsigned then Some 8
     else if f = E_intmax then Some 8 else if f = E_intmax OR E_unsigned then Some 8
     else if f = E_size then Some 4
     else if f = E_ptrdiff then Some 4
     else if f = E_pointer then Some 4
     else None)"

text \<open>The value is stored least significant byte first.\<close>

fun store_bytes :: "nat \<Rightarrow> 64 word \<Rightarrow> nat \<Rightarrow> (scan, unit) M" where
  "store_bytes a w 0 = retM ()"
| "store_bytes a w (Suc k) = thenM (put_mem a (char_of (uint w))) (store_bytes (a + 1) (drop_bit 8 w) k)"

definition scan_integer :: "buf \<Rightarrow> nat \<Rightarrow> int option \<Rightarrow> (scan, nat option) M" where
  "scan_integer src spec rc =
     bindM (int_loop (length src + 3) src 0 False 0 False rc) (\<lambda>(val, sign, parsed, rc).
     if \<not> parsed then
       bindM (getM sc_n) (\<lambda>n.
         if n = 0 then
           (case rc of None \<Rightarrow> failM Undef
            | Some rc \<Rightarrow> thenM (whenM (rc = EOF) (modM (\<lambda>st. st\<lparr>sc_n := - 1\<rparr>))) (retM None))
         else retM None)
     else bindM (getM sc_flags) (\<lambda>flags.
       if \<not> has flags E_suppressed then
         (case store_size flags of
            None \<Rightarrow> retM None
          | Some k \<Rightarrow> bindM va_ptr (\<lambda>a. thenM (doM [store_bytes a (val * of_int sign) k, n_incr]) (retM (Some (spec + 1)))))
       else retM (Some (spec + 1))))"

section \<open>A conversion specification\<close>

definition scan_set_flag :: "32 word \<Rightarrow> (scan, unit) M" where
  "scan_set_flag e = modM (\<lambda>st. st\<lparr>sc_flags := sc_flags st OR e\<rparr>)"

definition scan_width :: "buf \<Rightarrow> nat \<Rightarrow> (scan, nat) M" where
  "scan_width m spec = bindM (liftM (scan_number m spec)) (\<lambda>(width, p).
     thenM (modM (\<lambda>st. st\<lparr>sc_width := if p = spec then SIZE_MAX else unat width\<rparr>)) (retM p))"

definition scan_length :: "buf \<Rightarrow> nat \<Rightarrow> (scan, nat) M" where
  "scan_length m spec = bindM (liftM (rd m spec)) (\<lambda>c.
     if c = CHR ''h'' then bindM (liftM (rd m (spec + 1))) (\<lambda>c.
       if c = CHR ''h'' then thenM (scan_set_flag E_char) (retM (spec + 2)) else thenM (scan_set_flag E_short) (retM (spec + 1)))
     else if c = CHR ''l'' then bindM (liftM (rd m (spec + 1))) (\<lambda>c.
       if c = CHR ''l'' then thenM (scan_set_flag E_llong) (retM (spec + 2)) else thenM (scan_set_flag E_long) (retM (spec + 1)))
     else if c = CHR ''j'' then thenM (scan_set_flag E_intmax) (retM (spec + 1))
     else if c = CHR ''z'' then thenM (scan_set_flag E_size) (retM (spec + 1))
     else if c = CHR ''t'' then thenM (scan_set_flag E_ptrdiff) (retM (spec + 1))
     else if c = CHR ''L'' then thenM (scan_set_flag E_ldouble) (retM (spec + 1))
     else retM spec)"

definition scan_convert :: "buf \<Rightarrow> buf \<Rightarrow> nat \<Rightarrow> nat \<Rightarrow> int option \<Rightarrow> (scan, nat option) M" where
  "scan_convert src m orig_spec spec rc = bindM (liftM (rd m spec)) (\<lambda>c.
     let integer = scan_integer src spec rc in
     if c = CHR ''d'' then thenM (scan_set_base 10) integer
     else if c = CHR ''i'' then thenM (scan_set_base 0) integer
     else if c = CHR ''o'' then thenM (doM [scan_set_base 8, scan_set_flag E_unsigned]) integer
     else if c = CHR ''u'' then thenM (doM [scan_set_base 10, scan_set_flag E_unsigned]) integer
     else if c = CHR ''x'' then thenM (doM [scan_set_base 16, scan_set_flag E_unsigned]) integer
     else if c \<in> {CHR ''f'', CHR ''F'', CHR ''e'', CHR ''E'', CHR ''g'', CHR ''G'', CHR ''a'', CHR ''A''} then retM None
     else if c = CHR ''c'' then scan_chars src spec
     else if c = CHR ''s'' then scan_string src spec
     else if c = CHR ''['' then scan_set src m spec
     else if c = CHR ''p'' then thenM (doM [scan_set_base 16, scan_set_flag E_pointer]) integer
     else if c = CHR ''n'' then bindM va_ptr (\<lambda>val. bindM (getM sc_i) (\<lambda>i.
       thenM (store_bytes val (of_nat i) 4) (retM (Some (spec + 1)))))
     else retM (Some orig_spec))"

definition scan_init :: "(scan, unit) M" where
  "scan_init = modM (\<lambda>st. st\<lparr>sc_flags := 0, sc_base := - 1, sc_current := 0, sc_width := 0\<rparr>)"

text \<open>The part of \<open>_scan\<close> after the test for \<open>%%\<close>; \<open>rc\<close> is what that test left.\<close>

definition scan_fields :: "buf \<Rightarrow> buf \<Rightarrow> nat \<Rightarrow> int option \<Rightarrow> (scan, nat option) M" where
  "scan_fields src m orig_spec rc = thenM scan_init
     (let spec = orig_spec + 1 in bindM (liftM (rd m spec)) (\<lambda>c.
      bindM (if c = CHR ''*'' then thenM (scan_set_flag E_suppressed) (retM (spec + 1)) else retM spec) (\<lambda>spec.
      bindM (scan_width m spec) (\<lambda>spec. bindM (scan_length m spec) (\<lambda>spec.
      scan_convert src m orig_spec spec rc)))))"

definition scan_spec :: "buf \<Rightarrow> buf \<Rightarrow> nat \<Rightarrow> (scan, nat option) M" where
  "scan_spec src m spec = bindM (liftM (rd m (spec + 1))) (\<lambda>c.
     if c = CHR ''%'' then bindM (GET src) (\<lambda>rc.
       if rc = EOF then thenM input_error (retM None)
       else if rc = uchar (CHR ''%'') then retM (Some (spec + 2))
       else thenM UNGET (scan_fields src m spec (Some rc)))
     else scan_fields src m spec None)"

section \<open>The functions of the library\<close>

text \<open>White space in the format.\<close>

function skip_source :: "buf \<Rightarrow> nat \<Rightarrow> nat \<Rightarrow> err + (nat \<times> nat)" where
  "skip_source src s i = bindR (rd src s) (\<lambda>c.
     if isspace (schar c) then skip_source src (s + 1) (i + 1) else Inr (s, i))"
  by pat_completeness auto
termination
  by (relation "measure (\<lambda>(src, s, i). length src - s)") (auto dest: rd_InrD)

declare skip_source.simps [simp del]

text \<open>The result is the number that \<open>vsscanf\<close> returns; the two early returns of the source end the loop.\<close>

fun scan_loop :: "nat \<Rightarrow> buf \<Rightarrow> buf \<Rightarrow> nat \<Rightarrow> (scan, 32 word) M" where
  "scan_loop 0 src m format = failM Fuel"
| "scan_loop (Suc k) src m format = bindM (liftM (rd m format)) (\<lambda>f.
     if f = NUL then getM sc_n
     else bindM (if f \<noteq> CHR ''%'' then retM (Some format) else scan_spec src m format) (\<lambda>rc.
       if rc = Some format then
         (if isspace (schar f) then
            bindM (getM (\<lambda>st. (sc_s st, sc_i st))) (\<lambda>(s, i). bindM (liftM (skip_source src s i)) (\<lambda>(s, i).
              thenM (modM (\<lambda>st. st\<lparr>sc_s := s, sc_i := i\<rparr>)) (scan_loop k src m (format + 1))))
          else bindM (getM sc_s) (\<lambda>s. bindM (liftM (rd src s)) (\<lambda>c. bindM (getM sc_n) (\<lambda>n.
            if c \<noteq> f then retM (if c = NUL \<and> n = 0 then of_int EOF else n)
            else thenM (modM (\<lambda>st. st\<lparr>sc_s := sc_s st + 1, sc_i := sc_i st + 1\<rparr>)) (scan_loop k src m (format + 1))))))
       else case rc of
         None \<Rightarrow> bindM (getM sc_s) (\<lambda>s. bindM (liftM (rd src s)) (\<lambda>c. bindM (getM sc_n) (\<lambda>n.
           retM (if c = CHR 0x0A \<and> n = 0 then of_int EOF else n))))
       | Some p \<Rightarrow> scan_loop k src m p))"

definition new_scan :: "nat \<Rightarrow> nat list \<Rightarrow> buf \<Rightarrow> scan" where
  "new_scan s args mem = \<lparr>sc_base = 0, sc_flags = 0, sc_n = 0, sc_i = 0, sc_current = 0, sc_s = s, sc_width = 0,
     sc_arg = args, sc_mem = mem\<rparr>"

definition vsscanf :: "buf \<Rightarrow> nat \<Rightarrow> buf \<Rightarrow> nat \<Rightarrow> nat list \<Rightarrow> buf \<Rightarrow> err + (32 word \<times> buf)" where
  "vsscanf src s m format args mem =
     bindR (scan_loop (length m + 1) src m format (new_scan s args mem)) (\<lambda>(n, st). Inr (n, sc_mem st))"

definition sscanf :: "buf \<Rightarrow> nat \<Rightarrow> buf \<Rightarrow> nat \<Rightarrow> nat list \<Rightarrow> buf \<Rightarrow> err + (32 word \<times> buf)" where
  "sscanf src s m format args mem = vsscanf src s m format args mem"

section \<open>Reading the source\<close>

lemma isspace_uchar: "isspace (uchar c) \<longleftrightarrow> is_space c"
  using uchar_range [of c] by (auto simp: is_space_def isspace_def schar_def)

lemma uchar_not_EOF [simp]: "uchar c \<noteq> EOF"
  using uchar_range(1) [of c] by (simp add: EOF_def)

lemma tolower_uchar: "char_of (tolower (uchar c)) = char_of (tolower (schar c))"
proof -
  have "uchar (char_of (tolower (uchar c))) = (if 65 \<le> uchar c \<and> uchar c \<le> 90 then uchar c + 32 else uchar c)"
    using uchar_range [of c] by (auto simp: tolower_def schar_def mod_pos_pos_trivial)
  then show ?thesis using uchar_tolower [of c] by (metis uchar_inject)
qed

lemma memchr_cong: "char_of c = (char_of c' :: char) \<Longrightarrow> memchr m p c n = memchr m p c' n"
  by (induction n arbitrary: p) (simp_all only: memchr.simps)

lemma memchr_digit: "b \<le> 36 \<Longrightarrow> memchr digits 0 (tolower (uchar c)) b = Inr (digit_in b c)"
  using find_digit_eq [of b c] memchr_cong [OF tolower_uchar] by (simp add: find_digit_def)

text \<open>What the integer loop does not touch.\<close>

definition same :: "scan \<Rightarrow> scan \<Rightarrow> bool" where
  "same st st' \<longleftrightarrow> sc_mem st' = sc_mem st \<and> sc_n st' = sc_n st \<and> sc_flags st' = sc_flags st \<and> sc_arg st' = sc_arg st"

lemma same_simps [simp]:
  "same st st" "same st (st'\<lparr>sc_s := a\<rparr>) = same st st'" "same st (st'\<lparr>sc_i := b\<rparr>) = same st st'"
  "same st (st'\<lparr>sc_current := c\<rparr>) = same st st'" "same st (st'\<lparr>sc_base := d\<rparr>) = same st st'"
  by (simp_all add: same_def)

lemma same_trans: "same st st' \<Longrightarrow> same st' st'' \<Longrightarrow> same st st''"
  by (simp add: same_def)

definition got :: "scan \<Rightarrow> scan" where
  "got st = st\<lparr>sc_s := sc_s st + 1, sc_i := sc_i st + 1, sc_current := sc_current st + 1\<rparr>"

lemma GET_end: "holds src (sc_s st) [] \<Longrightarrow> GET src st = Inr (EOF, st)"
  by (simp add: GET_def holds_rd bindM_step)

lemma holds_not_NUL: "holds m p (c # t) \<Longrightarrow> c \<noteq> NUL"
  using cstr_no_NUL [of m p] by (auto simp: holds_def)

lemma GET_char: "holds src (sc_s st) (c # t) \<Longrightarrow> GET src st = Inr (uchar c, got st)"
  using holds_not_NUL [of src "sc_s st" c t] holds_rd [of src "sc_s st" "c # t"]
  by (simp add: GET_def bindM_step thenM_step got_def)

lemma UNGET_got: "UNGET (got st) = Inr ((), st)"
  by (cases st) (simp add: UNGET_def got_def)

lemma got_fields [simp]:
  "sc_s (got st) = Suc (sc_s st)" "sc_current (got st) = Suc (sc_current st)" "sc_width (got st) = sc_width st"
  "sc_base (got st) = sc_base st" "same st' (got st) = same st' st"
  by (simp_all add: got_def)

text \<open>The phases of the integer loop for \<open>%d\<close>, last to first: digits, a leading zero, the sign, space.\<close>

lemma int_loop_digits:
  "holds src (sc_s st) t \<Longrightarrow> sc_base st = 10 \<Longrightarrow> sc_current st + length t < sc_width st \<Longrightarrow> sign \<noteq> 0 \<Longrightarrow> length t < k \<Longrightarrow>
    \<exists>rc' st'. int_loop k src (of_nat v) True sign parsed rc st = Inr ((of_nat (value_from 10 v (takeWhile (is_digit 10) t)),
      sign, parsed \<or> takeWhile (is_digit 10) t \<noteq> [], Some rc'), st') \<and> same st st'"
proof (induction t arbitrary: st v k parsed rc)
  case Nil
  then obtain k' where "k = Suc k'" by (cases k) auto
  then show ?case using Nil GET_end [OF Nil(1)] by (simp add: bindM_step)
next
  case (Cons c t)
  then obtain k' where k: "k = Suc k'" by (cases k) auto
  note G = GET_char [OF Cons.prems(1)]
  have in_width: "sc_current st < sc_width st" using Cons.prems(3) by simp
  show ?case
  proof (cases "digit_in 10 c")
    case None
    then show ?thesis
      using G in_width Cons.prems(2,4) k UNGET_got [of st] memchr_digit [of 10 c]
      by (auto simp: bindM_step thenM_step is_digit_def)
  next
    case (Some d)
    then have dig: "is_digit 10 c" by (simp add: is_digit_def)
    then have "\<not> isspace (uchar c)" using is_digit_char [of 10 c] by (simp add: isspace_uchar)
    then have "int_loop k src (of_nat v) True sign parsed rc st =
        int_loop k' src (of_nat (v * 10 + d)) True sign True (Some (uchar c)) (got st)"
      using G in_width Cons.prems(2,4) k memchr_digit [of 10 c] Some by (simp add: bindM_step)
    moreover have "\<exists>rc' st'. int_loop k' src (of_nat (v * 10 + d)) True sign True (Some (uchar c)) (got st) =
        Inr ((of_nat (value_from 10 (v * 10 + d) (takeWhile (is_digit 10) t)), sign,
          True \<or> takeWhile (is_digit 10) t \<noteq> [], Some rc'), st') \<and> same (got st) st'"
      by (rule Cons.IH) (use Cons.prems k holds_Suc [OF Cons.prems(1)] in auto)
    ultimately show ?thesis using dig Some same_trans [of st "got st"] by auto
  qed
qed

lemma int_loop_prefix:
  assumes "holds src (sc_s st) t" "sc_base st = 10" "sc_current st + length t < sc_width st" "sign \<noteq> 0" "length t + 1 < k"
  shows "\<exists>rc' st'. int_loop k src 0 False sign False rc st = Inr ((of_nat (value_from 10 0 (takeWhile (is_digit 10) t)),
      sign, takeWhile (is_digit 10) t \<noteq> [], Some rc'), st') \<and> same st st'"
proof -
  obtain k' where k: "k = Suc k'" using assms(5) by (cases k) auto
  have zero: "digit_in 10 (CHR ''0'') = Some 0" by (simp add: digit_in_def digit_of_def uchar_def)
  show ?thesis
  proof (cases t)
    case Nil
    then show ?thesis using assms k GET_end [of src st] by (simp add: bindM_step)
  next
    case (Cons c t')
    have at: "holds src (sc_s st) (c # t')" and width: "sc_current st < sc_width st" using assms(1,3) Cons by simp_all
    note G = GET_char [OF at] and at' = holds_Suc [OF at]
    show ?thesis
    proof (cases "c = CHR ''0''")
      case True
      then have c: "\<not> isspace (uchar c)" by (simp add: isspace_def uchar_def)
      have width': "sc_current (got st) < sc_width (got st)" using assms(3) Cons by simp
      have digits: "\<exists>rc' st'. int_loop k' src 0 True sign True r (got st) = Inr ((of_nat (value_from 10 0 (takeWhile (is_digit 10) t')),
          sign, True, Some rc'), st') \<and> same (got st) st'" for r
        using int_loop_digits [of src "got st" t' sign k' 0 True r] at' assms Cons k by auto
      have ds: "takeWhile (is_digit 10) t = c # takeWhile (is_digit 10) t'" "value_from 10 0 (c # ds) = value_from 10 0 ds" for ds
        using Cons True zero by (simp_all add: is_digit_def)
      show ?thesis
      proof (cases t')
        case Nil
        then have "GET src (got st) = Inr (EOF, got st)" using at' by (intro GET_end) simp
        then show ?thesis using G k width width' True c assms(4) ds Nil zero by (simp add: bindM_step)
      next
        case (Cons d t'')
        then have "GET src (got st) = Inr (uchar d, got (got st))" using at' by (intro GET_char) simp
        then have "\<exists>r. int_loop k src 0 False sign False rc st = int_loop k' src 0 True sign True r (got st)"
          using G k width width' True c assms(2,4) UNGET_got [of "got st"]
          by (auto simp: bindM_step thenM_step whenM_def)
        then show ?thesis using digits ds same_trans [of st "got st"] by fastforce
      qed
    next
      case False
      then have nz: "uchar c \<noteq> uchar (CHR ''0'')" by simp
      show ?thesis
      proof (cases "isspace (uchar c)")
        case True
        then have "\<not> is_digit 10 c" using is_digit_char [of 10 c] by (auto simp: isspace_uchar)
        then show ?thesis using G k width True assms(4) Cons UNGET_got [of st] by (simp add: bindM_step thenM_step)
      next
        case sp: False
        have "int_loop k src 0 False sign False rc st = int_loop k' src 0 True sign False (Some (uchar c)) st"
          using G k width sp nz assms(2,4) UNGET_got [of st] by (simp add: bindM_step thenM_step whenM_def)
        then show ?thesis using int_loop_digits [OF assms(1,2,3,4), of k' 0 False "Some (uchar c)"] assms(5) k Cons by simp
      qed
    qed
  qed
qed

lemma number_start_10: "number_start 10 t = (peek t (spaces t) = CHR ''-'', 10, spaces t + sign_length t)"
  by (simp add: number_start_def)

lemma number_digits_10: "number_digits 10 t = takeWhile (is_digit 10) (drop (spaces t + sign_length t) t)"
  by (simp add: number_digits_def number_start_10)

lemma spaces_Cons: "spaces (c # t) = (if is_space c then Suc (spaces t) else 0)"
  by (simp add: spaces_def)

lemma skip_first_space:
  assumes "is_space c"
  shows "number_digits 10 (c # t) = number_digits 10 t" "peek (c # t) (spaces (c # t)) = peek t (spaces t)"
  using assms by (simp_all add: number_digits_10 spaces_Cons sign_length_def)

definition sign_of :: "string \<Rightarrow> int" where
  "sign_of t = (if peek t (spaces t) = CHR ''-'' then - 1 else 1)"

lemma int_loop_sign:
  assumes "holds src (sc_s st) t" "sc_base st = 10" "sc_current st + length t < sc_width st" "length t + 2 < k"
    and "spaces t = 0"
  shows "\<exists>rc' sg st'. int_loop k src 0 False 0 False rc st =
      Inr ((of_nat (value_from 10 0 (number_digits 10 t)), sg, number_digits 10 t \<noteq> [], Some rc'), st') \<and>
      same st st' \<and> (number_digits 10 t \<noteq> [] \<longrightarrow> sg = sign_of t)"
proof -
  obtain k' where k: "k = Suc k'" using assms(4) by (cases k) auto
  show ?thesis
  proof (cases t)
    case Nil
    then show ?thesis
      using assms k GET_end [of src st] by (simp add: bindM_step number_digits_10 sign_length_def)
  next
    case (Cons c t')
    have at: "holds src (sc_s st) (c # t')" and width: "sc_current st < sc_width st" using assms(1,3) Cons by simp_all
    note G = GET_char [OF at]
    have sp: "\<not> isspace (uchar c)" using assms(5) Cons by (auto simp: isspace_uchar spaces_Cons split: if_splits)
    have pk: "peek t (spaces t) = c" using assms(5) Cons by simp
    let ?sg = "if c = CHR ''-'' then - 1 else 1 :: int"
    have sg: "sign_of t = ?sg" by (simp add: sign_of_def pk)
    have sg0: "?sg \<noteq> 0" by simp
    show ?thesis
    proof (cases "c = CHR ''-'' \<or> c = CHR ''+''")
      case True
      then have "number_digits 10 t = takeWhile (is_digit 10) t'"
        using assms(5) Cons pk by (auto simp: number_digits_10 sign_length_def)
      moreover have "int_loop k src 0 False 0 False rc st = int_loop k' src 0 False ?sg False (Some (uchar c)) (got st)"
        using G k width sp True by (auto simp: bindM_step)
      moreover obtain rc' st' where "int_loop k' src 0 False ?sg False (Some (uchar c)) (got st) =
          Inr ((of_nat (value_from 10 0 (takeWhile (is_digit 10) t')), ?sg, takeWhile (is_digit 10) t' \<noteq> [], Some rc'), st')"
          "same (got st) st'"
        using int_loop_prefix [of src "got st" t' ?sg k' "Some (uchar c)", OF _ _ _ sg0] holds_Suc [OF at] assms k Cons by auto
      ultimately show ?thesis
        using sg same_trans [of st "got st" st'] by (intro exI [of _ rc'] exI [of _ ?sg] exI [of _ st']) simp
    next
      case False
      then have "number_digits 10 t = takeWhile (is_digit 10) t"
        using assms(5) Cons pk by (auto simp: number_digits_10 sign_length_def)
      moreover have "int_loop k src 0 False 0 False rc st = int_loop k' src 0 False 1 False (Some (uchar c)) st"
        using G k width sp False UNGET_got [of st] by (auto simp: bindM_step thenM_step)
      ultimately show ?thesis
        using int_loop_prefix [OF assms(1,2,3), of 1 k' "Some (uchar c)"] assms(4) k sg False by auto
    qed
  qed
qed

lemma int_loop_number:
  "holds src (sc_s st) t \<Longrightarrow> sc_base st = 10 \<Longrightarrow> sc_current st + length t < sc_width st \<Longrightarrow> length t + 2 < k \<Longrightarrow>
    \<exists>rc' sg st'. int_loop k src 0 False 0 False rc st =
      Inr ((of_nat (value_from 10 0 (number_digits 10 t)), sg, number_digits 10 t \<noteq> [], Some rc'), st') \<and>
      same st st' \<and> (number_digits 10 t \<noteq> [] \<longrightarrow> sg = sign_of t)"
proof (induction t arbitrary: st k rc)
  case Nil
  then show ?case by (intro int_loop_sign) (simp_all add: spaces_def)
next
  case (Cons c t)
  show ?case
  proof (cases "is_space c")
    case False
    then show ?thesis using Cons.prems by (intro int_loop_sign) (simp_all add: spaces_Cons)
  next
    case True
    obtain k' where k: "k = Suc k'" using Cons.prems(4) by (cases k) auto
    let ?st = "(got st)\<lparr>sc_current := sc_current st\<rparr>"
    have step: "int_loop k src 0 False 0 False rc st = int_loop k' src 0 False 0 False (Some (uchar c)) ?st"
      using GET_char [OF Cons.prems(1)] k True Cons.prems(3) by (simp add: bindM_step thenM_step isspace_uchar)
    have "\<exists>rc' sg st'. int_loop k' src 0 False 0 False (Some (uchar c)) ?st =
        Inr ((of_nat (value_from 10 0 (number_digits 10 t)), sg, number_digits 10 t \<noteq> [], Some rc'), st') \<and>
        same ?st st' \<and> (number_digits 10 t \<noteq> [] \<longrightarrow> sg = sign_of t)"
      by (rule Cons.IH) (use Cons.prems k holds_Suc [OF Cons.prems(1)] in auto)
    then obtain rc' sg st' where "int_loop k' src 0 False 0 False (Some (uchar c)) ?st =
        Inr ((of_nat (value_from 10 0 (number_digits 10 t)), sg, number_digits 10 t \<noteq> [], Some rc'), st')"
        "same ?st st'" "number_digits 10 t \<noteq> [] \<longrightarrow> sg = sign_of t" by blast
    then show ?thesis
      using step skip_first_space [OF True, of t] same_trans [of st ?st st']
      by (intro exI [of _ rc'] exI [of _ sg] exI [of _ st']) (simp add: sign_of_def)
  qed
qed

section \<open>Storing a value\<close>

definition word_at :: "buf \<Rightarrow> nat \<Rightarrow> 32 word" where
  "word_at m a = of_int (uchar (m ! a) + 256 * uchar (m ! (a + 1)) + 65536 * uchar (m ! (a + 2)) + 16777216 * uchar (m ! (a + 3)))"

text \<open>\<open>stored a w m m'\<close>: \<open>m'\<close> is \<open>m\<close> with the word \<open>w\<close> at \<open>a\<close>.\<close>

definition stored :: "nat \<Rightarrow> 32 word \<Rightarrow> buf \<Rightarrow> buf \<Rightarrow> bool" where
  "stored a w m m' \<longleftrightarrow> word_at m' a = w \<and> length m' = length m \<and> (\<forall>i. i < a \<or> a + 4 \<le> i \<longrightarrow> m' ! i = m ! i)"

lemma put_mem_step: "a < length (sc_mem st) \<Longrightarrow> put_mem a x st = Inr ((), st\<lparr>sc_mem := (sc_mem st)[a := x]\<rparr>)"
  by (simp add: put_mem_def bindM_step)

lemma four_digits:
  fixes n b :: int
  assumes "0 \<le> b"
  shows "n mod (b * (b * (b * b))) =
    n mod b + b * (n div b mod b) + b * b * (n div b div b mod b) + b * b * b * (n div b div b div b mod b)"
proof -
  have "n mod (b * (b * (b * b))) = b * (n div b mod (b * (b * b))) + n mod b"
    "n div b mod (b * (b * b)) = b * (n div b div b mod (b * b)) + n div b mod b"
    "n div b div b mod (b * b) = b * (n div b div b div b mod b) + n div b div b mod b"
    using assms by (simp_all only: zmod_zmult2_eq mult_nonneg_nonneg)
  then show ?thesis by (simp only: distrib_left mult.assoc add_ac mult_ac)
qed

lemma bytes_of_word:
  "n mod 256 + 256 * (n div 256 mod 256) + 65536 * (n div 65536 mod 256) + 16777216 * (n div 16777216 mod 256)
    = n mod (4294967296 :: int)"
proof -
  have "n div 256 div 256 = n div 65536" "n div 65536 div 256 = n div 16777216"
    using zdiv_zmult2_eq [of 256 n 256] zdiv_zmult2_eq [of 256 n 65536] by linarith+
  then show ?thesis using four_digits [of 256 n] by (simp only: mult_numeral_1_right) simp
qed

lemma uint_drop_bit: "uint (drop_bit k w) = uint w div 2 ^ k" for w :: "64 word"
proof -
  have "uint (drop_bit k w) = drop_bit k (uint w)" by (rule bit_eqI) (simp add: bit_simps)
  then show ?thesis by (simp only: drop_bit_eq_div)
qed

lemma store_bytes_word:
  assumes "a + 4 \<le> length (sc_mem st)"
  shows "\<exists>m'. store_bytes a (of_int v) 4 st = Inr ((), st\<lparr>sc_mem := m'\<rparr>) \<and> stored a (of_int v) (sc_mem st) m'"
proof -
  let ?w = "of_int v :: 64 word" and ?m = "sc_mem st"
  let ?m' = "?m[a := char_of (uint ?w), a + 1 := char_of (uint (drop_bit 8 ?w)),
    a + 2 := char_of (uint (drop_bit 16 ?w)), a + 3 := char_of (uint (drop_bit 24 ?w))]"
  have "store_bytes a ?w 4 st = Inr ((), st\<lparr>sc_mem := ?m'\<rparr>)"
    using assms by (simp add: numeral_eq_Suc thenM_step put_mem_step)
  moreover have "word_at ?m' a = of_int v"
  proof -
    let ?n = "uint ?w"
    have "word_at ?m' a = of_int (?n mod 256 + 256 * (?n div 256 mod 256) + 65536 * (?n div 65536 mod 256) + 16777216 * (?n div 16777216 mod 256))"
      using assms by (simp add: word_at_def nth_list_update uint_drop_bit)
    also have "\<dots> = of_int (?n mod 4294967296)" by (subst bytes_of_word) simp_all
    also have "\<dots> = (of_int v :: 32 word)"
      by (rule word_uint_eqI) (simp add: uint_word_of_int mod_mod_cancel)
    finally show ?thesis .
  qed
  ultimately show ?thesis by (auto simp: stored_def)
qed

section \<open>Reading a number\<close>

text \<open>The conversion state of a plain integer conversion, and what precedes it.\<close>

lemma scan_plain:
  assumes m: "m = CHR ''%'' # w" and at: "rd m 1 = Inr c" "c \<noteq> CHR ''%''" "c \<noteq> CHR ''*''"
    and num: "scan_number m 1 = Inr (0, 1)"
  shows "scan_spec src m 0 st = bindM (scan_length m 1) (\<lambda>spec. scan_convert src m 0 spec None)
    (st\<lparr>sc_flags := 0, sc_base := - 1, sc_current := 0, sc_width := SIZE_MAX\<rparr>)"
proof -
  let ?init = "st\<lparr>sc_flags := 0, sc_base := - 1, sc_current := 0, sc_width := 0\<rparr>"
  let ?st = "st\<lparr>sc_flags := 0, sc_base := - 1, sc_current := 0, sc_width := SIZE_MAX\<rparr>"
  have "scan_init st = Inr ((), ?init)" by (simp add: scan_init_def)
  moreover have "scan_width m 1 ?init = Inr (1, ?st)"
    using num by (simp add: scan_width_def bindM_step thenM_step)
  ultimately show ?thesis
    using at by (simp add: scan_spec_def scan_fields_def bindM_step thenM_step)
qed

lemma store_size_int: "store_size 0 = Some 4"
  by (simp add: store_size_def Let_def E_defs)

lemma store_size_zu: "store_size (E_size OR E_unsigned) = None"
  by (simp add: store_size_def Let_def E_defs)

lemma number_value_10: "number_value 10 t = sign_of t * int (value_from 10 0 (number_digits 10 t))"
  by (simp add: number_value_def number_start_10 sign_of_def)

text \<open>C21: \<open>sscanf\<close> with \<open>%d\<close> reads what \<open>strtol\<close> reads: if the source starts, after white space, with a
  signed decimal number, the conversion counts one match and stores that number modulo \<open>2 ^ 32\<close> at the
  address it is given, least byte first, and changes no other byte.\<close>

theorem sscanf_int_correct:
  assumes "holds src s t" "length t < SIZE_MAX" "number_digits 10 t \<noteq> []" "a + 4 \<le> length mem"
  shows "\<exists>mem'. sscanf src s (''%d'' @ [NUL]) 0 [a] mem = Inr (1, mem') \<and> stored a (of_int (number_value 10 t)) mem mem'"
proof -
  let ?m = "[CHR ''%'', CHR ''d'', NUL]" and ?init = "new_scan s [a] mem"
  let ?st = "?init\<lparr>sc_flags := 0, sc_current := 0, sc_width := SIZE_MAX, sc_base := 10\<rparr>"
  have len: "s + length t < length src" using terminated_less [of src s] assms(1) by (simp add: holds_def)
  then obtain rc' sg st' where loop: "int_loop (length src + 3) src 0 False 0 False None ?st =
      Inr ((of_nat (value_from 10 0 (number_digits 10 t)), sg, True, Some rc'), st')" and same: "same ?st st'"
      and sg: "sg = sign_of t"
    using int_loop_number [of src ?st t "length src + 3" None] assms(1,2,3) by (auto simp: new_scan_def)
  have st': "sc_mem st' = mem" "sc_n st' = 0" "sc_flags st' = 0" "sc_arg st' = [a]"
    using same by (simp_all add: same_def new_scan_def)
  have w: "of_nat (value_from 10 0 (number_digits 10 t)) * of_int sg = (of_int (number_value 10 t) :: 64 word)"
    by (simp add: number_value_10 sg mult.commute)
  obtain mem' where mem': "store_bytes a (of_int (number_value 10 t)) 4 (st'\<lparr>sc_arg := []\<rparr>) =
      Inr ((), st'\<lparr>sc_arg := [], sc_mem := mem'\<rparr>)" "stored a (of_int (number_value 10 t)) mem mem'"
    using store_bytes_word [of a "st'\<lparr>sc_arg := []\<rparr>" "number_value 10 t"] assms(4) st'(1) by auto
  let ?fin = "st'\<lparr>sc_arg := [], sc_mem := mem', sc_n := 1\<rparr>"
  have "va_ptr st' = Inr (a, st'\<lparr>sc_arg := []\<rparr>)" using st' by (simp add: va_ptr_def bindM_step thenM_step)
  then have "scan_integer src 1 None ?st = Inr (Some 2, ?fin)"
    using loop st' mem'(1) w
    by (simp add: scan_integer_def bindM_step thenM_step has_def store_size_int n_incr_def)
  then have "scan_convert src ?m 0 1 None (?init\<lparr>sc_flags := 0, sc_base := - 1, sc_current := 0, sc_width := SIZE_MAX\<rparr>)
      = Inr (Some 2, ?fin)"
    by (simp add: scan_convert_def bindM_step thenM_step scan_set_base_def)
  moreover have "scan_length ?m 1 st0 = Inr (1, st0)" for st0 by (simp add: scan_length_def bindM_step)
  moreover have "scan_number ?m 1 = Inr (0, 1)" by code_simp
  ultimately have "scan_spec src ?m 0 ?init = Inr (Some 2, ?fin)"
    using scan_plain [OF refl, of "[CHR ''d'', NUL]" "CHR ''d''" src ?init] by (simp add: bindM_step)
  then have "scan_loop (length ?m + 1) src ?m 0 ?init = Inr (1, ?fin)"
    by (simp add: bindM_step numeral_eq_Suc)
  then show ?thesis using mem'(2) by (simp add: sscanf_def vsscanf_def del: scan_loop.simps)
qed

theorem sscanf_int_correct_witness:
  "\<exists>mem'. sscanf (''  -42;'' @ [NUL]) 0 (''%d'' @ [NUL]) 0 [1] ''??????'' = Inr (1, mem') \<and> word_at mem' 1 = - 42"
proof -
  have "holds (''  -42;'' @ NUL # []) 0 ''  -42;''" by (rule holds_front) simp
  moreover have "number_digits 10 ''  -42;'' = ''42''" "number_value 10 ''  -42;'' = - 42" by code_simp+
  ultimately show ?thesis
    using sscanf_int_correct [of "''  -42;'' @ [NUL]" 0 "''  -42;''" 1 "''??????''"]
    by (auto simp: stored_def SIZE_MAX_def)
qed

section \<open>The width bounds what a string conversion writes\<close>

lemma GET_cases:
  obtains "GET src st = Inl Undef" | "GET src st = Inr (EOF, st)"
    | c where "sc_s st < length src" "GET src st = Inr (uchar c, got st)"
proof (cases "rd src (sc_s st)")
  case (Inl e)
  then have "e = Undef" by (simp add: rd_def split: if_splits)
  then show ?thesis using Inl that(1) by (simp add: GET_def bindM_eval)
next
  case (Inr c)
  then have "sc_s st < length src" by (auto dest: rd_InrD)
  then show ?thesis
    using Inr that(2,3) by (cases "c = NUL") (auto simp: GET_def bindM_step thenM_step got_def)
qed

lemma put_mem_run: "put_mem a x st = Inr (u, st') \<longleftrightarrow> a < length (sc_mem st) \<and> st' = st\<lparr>sc_mem := (sc_mem st)[a := x]\<rparr>"
  by (auto simp: put_mem_def run_simps wr_def)

text \<open>\<open>writes a w m m'\<close>: \<open>m'\<close> differs from \<open>m\<close> at most from \<open>a\<close> to \<open>a + w\<close>.\<close>

definition writes :: "nat \<Rightarrow> nat \<Rightarrow> buf \<Rightarrow> buf \<Rightarrow> bool" where
  "writes a w m m' \<longleftrightarrow> length m' = length m \<and> (\<forall>i. i < a \<or> a + w < i \<longrightarrow> m' ! i = m ! i)"

lemma writes_refl [simp]: "writes a w m m"
  by (simp add: writes_def)

lemma writes_update: "writes a w m m' \<Longrightarrow> a \<le> b \<Longrightarrow> b \<le> a + w \<Longrightarrow> writes a w m (m'[b := x])"
  by (auto simp: writes_def)

lemma writes_step: "writes (Suc a) w (m[a := x]) m' \<Longrightarrow> writes a (Suc w) m m'"
  by (auto simp: writes_def)

lemma got_mem [simp]: "sc_mem (got st) = sc_mem st"
  by (simp add: got_def)

lemma read_string_writes:
  "read_string k src c parsed st = Inr (r, st') \<Longrightarrow> writes c (sc_width st - sc_current st) (sc_mem st) (sc_mem st') \<and>
    (\<forall>p c'. r = Ended p c' \<longrightarrow> c \<le> c' \<and> c' \<le> c + (sc_width st - sc_current st))"
proof (induction k arbitrary: c parsed st)
  case (Suc k)
  show ?case
  proof (cases "sc_current st < sc_width st")
    case False
    then show ?thesis using Suc.prems by (auto simp: run_simps)
  next
    case True
    then obtain w where w: "sc_width st - sc_current st = Suc w" by (cases "sc_width st - sc_current st") auto
    show ?thesis
    proof (rule GET_cases [of src st])
      assume "GET src st = Inr (EOF, st)"
      then show ?thesis using Suc.prems True by (auto simp: bindM_step)
    next
      fix ch
      assume G: "GET src st = Inr (uchar ch, got st)"
      show ?thesis
      proof (cases "isspace (uchar ch)")
        case True
        then show ?thesis
          using Suc.prems G \<open>sc_current st < sc_width st\<close> UNGET_got [of st]
          by (auto simp: bindM_step thenM_step run_simps put_mem_run n_incr_def writes_def split: if_splits)
      next
        case False
        let ?st = "(got st)\<lparr>sc_mem := (sc_mem st)[c := char_of (uchar ch)]\<rparr>"
        have run: "read_string k src (c + 1) True ?st = Inr (r, st')"
          using Suc.prems G True False by (auto simp: bindM_step run_simps put_mem_run)
        have "sc_width st - Suc (sc_current st) = w" using w by simp
        then have tail: "writes (Suc c) w ((sc_mem st)[c := char_of (uchar ch)]) (sc_mem st')"
            "\<forall>p c'. r = Ended p c' \<longrightarrow> Suc c \<le> c' \<and> c' \<le> Suc c + w"
          using Suc.IH [OF run] by simp_all
        show ?thesis using writes_step [OF tail(1)] tail(2) unfolding w by auto
      qed
    qed (use Suc.prems True in \<open>simp add: bindM_eval\<close>)
  qed
qed simp

text \<open>C23: The width of a \<open>%s\<close> conversion bounds what it writes: whatever the source, if the conversion
  returns then it has changed at most \<open>width + 1\<close> bytes from the address of its argument, the last for
  the terminator.\<close>

theorem scan_string_width:
  assumes "scan_string src spec st = Inr (r, st')" "sc_current st = 0" "sc_arg st = a # args"
  shows "length (sc_mem st') = length (sc_mem st) \<and>
    (\<forall>i. i < a \<or> a + sc_width st < i \<longrightarrow> sc_mem st' ! i = sc_mem st ! i)"
proof -
  let ?st = "st\<lparr>sc_arg := args\<rparr>"
  have "va_ptr st = Inr (a, ?st)" using assms(3) by (simp add: va_ptr_def bindM_step thenM_step)
  then have tail: "bindM (read_string (length src + 1) src a False) (\<lambda>r. case r of
       Matched \<Rightarrow> retM (Some (spec + 1)) | No_match \<Rightarrow> retM None
     | Ended parsed c \<Rightarrow> if parsed then thenM (doM [put_mem c NUL, n_incr]) (retM (Some (spec + 1)))
         else thenM input_error (retM None)) ?st = Inr (r, st')"
    using assms(1) unfolding scan_string_def by (simp only: bindM_step)
  obtain e s1 where e: "read_string (length src + 1) src a False ?st = Inr (e, s1)"
    and rest: "(case e of Matched \<Rightarrow> retM (Some (spec + 1)) | No_match \<Rightarrow> retM None
      | Ended parsed c \<Rightarrow> if parsed then thenM (doM [put_mem c NUL, n_incr]) (retM (Some (spec + 1)))
         else thenM input_error (retM None)) s1 = Inr (r, st')"
    using tail by (auto simp only: bindM_run)
  from read_string_writes [OF e] have w: "writes a (sc_width st) (sc_mem st) (sc_mem s1)"
    and c: "e = Ended p c' \<Longrightarrow> a \<le> c' \<and> c' \<le> a + sc_width st" for p c'
    using assms(2) by auto
  have "writes a (sc_width st) (sc_mem st) (sc_mem st')"
    using rest w c by (auto simp: run_simps put_mem_run n_incr_def input_error_def intro: writes_update
        split: string_end.splits if_splits)
  then show ?thesis by (auto simp: writes_def)
qed

theorem scan_string_width_witness:
  "\<exists>r st'. scan_string (''abcdef'' @ [NUL]) 0 ((new_scan 0 [1] ''??????'')\<lparr>sc_width := 2\<rparr>) = Inr (r, st') \<and>
    sc_mem st' ! 0 = CHR ''?'' \<and> sc_mem st' ! 4 = CHR ''?''"
proof -
  let ?st = "(new_scan 0 [1] ''??????'')\<lparr>sc_width := 2\<rparr>"
  have "\<not> isl (scan_string (''abcdef'' @ [NUL]) 0 ?st)" by code_simp
  then obtain r st' where run: "scan_string (''abcdef'' @ [NUL]) 0 ?st = Inr (r, st')"
    by (metis isl_def old.prod.exhaust sum.exhaust)
  from scan_string_width [OF this, of 1 "[]"] show ?thesis using run by (simp add: new_scan_def)
qed

section \<open>The pointer into the source stays on the string\<close>

definition on_string :: "buf \<Rightarrow> scan \<Rightarrow> scan \<Rightarrow> bool" where
  "on_string src st st' \<longleftrightarrow> terminated src (sc_s st) \<longrightarrow> terminated src (sc_s st')"

interpretation on_string: effect "on_string src" for src
  by unfold_locales (auto simp: on_string_def)

lemma terminated_back: "terminated m p \<Longrightarrow> terminated m (p - 1)"
proof (cases p)
  case (Suc q)
  assume t: "terminated m p"
  then have "q < length m" using terminated_less [OF t] Suc by simp
  then show ?thesis using t Suc by (simp add: terminated_def flip: Cons_nth_drop_Suc)
qed simp

lemma GET_on_string: "steps (on_string src) (GET src)"
proof (rule stepsI)
  fix st a st'
  assume run: "GET src st = Inr (a, st')"
  show "on_string src st st'"
    unfolding on_string_def
  proof
    assume t: "terminated src (sc_s st)"
    from terminated_step [OF t] run show "terminated src (sc_s st')"
      using t by (auto simp: GET_def run_simps dest!: rd_InrD split: if_splits)
  qed
qed

lemma UNGET_on_string: "steps (on_string src) UNGET"
  by (rule stepsI) (auto simp: UNGET_def on_string_def dest: terminated_back)

lemma mod_on_string: "(\<And>st. sc_s (f st) = sc_s st) \<Longrightarrow> steps (on_string src) (modM f)"
  by (rule stepsI) (auto simp: on_string_def)

lemma base_on_string: "steps (on_string src) (scan_set_base b)"
  unfolding scan_set_base_def by (rule mod_on_string) simp

lemma int_loop_on_string: "steps (on_string src) (int_loop k src v p sign parsed rc)"
proof (induction k arbitrary: v p sign parsed rc)
  case (Suc k)
  show ?case
    unfolding int_loop.simps
    by (intro on_string.eff_rules GET_on_string UNGET_on_string base_on_string Suc mod_on_string) simp_all
qed (simp add: on_string.eff_fail)

text \<open>C24: The conversion \<open>%zu\<close> never stores: with a number in the source and a place to put it the
  conversion counts no match and leaves the memory as it was, because \<open>z\<close> and \<open>u\<close> together are taken
  for an unsupported combination of flags.\<close>

theorem sscanf_zu_fails:
  assumes "holds src s t" "length t < SIZE_MAX" "number_digits 10 t \<noteq> []"
  shows "\<exists>r. sscanf src s (''%zu'' @ [NUL]) 0 (a # args) mem = Inr (r, mem) \<and> (r = 0 \<or> r = of_int EOF)"
proof -
  let ?m = "[CHR ''%'', CHR ''z'', CHR ''u'', NUL]" and ?init = "new_scan s (a # args) mem"
  let ?fl = "E_size OR E_unsigned"
  let ?st = "?init\<lparr>sc_current := 0, sc_width := SIZE_MAX, sc_base := 10, sc_flags := ?fl\<rparr>"
  have len: "s + length t < length src" using terminated_less [of src s] assms(1) by (simp add: holds_def)
  then obtain rc' sg st' where loop: "int_loop (length src + 3) src 0 False 0 False None ?st =
      Inr ((of_nat (value_from 10 0 (number_digits 10 t)), sg, True, Some rc'), st')" and same: "same ?st st'"
    using int_loop_number [of src ?st t "length src + 3" None] assms by (auto simp: new_scan_def)
  have st': "sc_mem st' = mem" "sc_n st' = 0" "sc_flags st' = ?fl"
    using same by (simp_all add: same_def new_scan_def)
  have "on_string src ?st st'" using stepsD [OF int_loop_on_string loop] .
  then have "terminated src (sc_s st')" using assms(1) by (simp add: on_string_def new_scan_def holds_def)
  then obtain c where c: "rd src (sc_s st') = Inr c" using terminated_step by fastforce
  have no_star: "\<not> has ?fl E_suppressed" by (simp add: has_def E_suppressed_def E_defs)
  have "scan_integer src 2 None ?st = Inr (None, st')"
    using loop st' no_star by (simp add: scan_integer_def bindM_step store_size_zu)
  then have "scan_convert src ?m 0 2 None (?init\<lparr>sc_flags := E_size, sc_base := - 1, sc_current := 0, sc_width := SIZE_MAX\<rparr>)
      = Inr (None, st')"
    by (simp add: scan_convert_def bindM_step thenM_step scan_set_base_def scan_set_flag_def)
  moreover have "scan_length ?m 1 (?init\<lparr>sc_flags := 0, sc_base := - 1, sc_current := 0, sc_width := SIZE_MAX\<rparr>) =
      Inr (2, ?init\<lparr>sc_flags := E_size, sc_base := - 1, sc_current := 0, sc_width := SIZE_MAX\<rparr>)"
    by (simp add: scan_length_def bindM_step thenM_step scan_set_flag_def)
  moreover have "scan_number ?m 1 = Inr (0, 1)" by code_simp
  ultimately have "scan_spec src ?m 0 ?init = Inr (None, st')"
    using scan_plain [OF refl, of "[CHR ''z'', CHR ''u'', NUL]" "CHR ''z''" src ?init] by (simp add: bindM_step)
  then have "scan_loop (length ?m + 1) src ?m 0 ?init = Inr (if c = CHR 0x0A then of_int EOF else 0, st')"
    using c st' by (simp add: bindM_step numeral_eq_Suc)
  then show ?thesis using st' by (simp add: sscanf_def vsscanf_def del: scan_loop.simps)
qed

theorem sscanf_zu_fails_witness:
  "\<exists>r. sscanf (''12'' @ [NUL]) 0 (''%zu'' @ [NUL]) 0 [0] ''????'' = Inr (r, ''????'') \<and> r \<noteq> 1"
proof -
  have "holds (''12'' @ NUL # []) 0 ''12''" by (rule holds_front) simp
  moreover have "number_digits 10 ''12'' = ''12''" by code_simp
  ultimately show ?thesis
    using sscanf_zu_fails [of "''12'' @ [NUL]" 0 "''12''" 0 "[]" "''????''"] by (auto simp: EOF_def SIZE_MAX_def)
qed

section \<open>Termination\<close>

lemma GET_not_fuel [simp]: "GET src st \<noteq> Inl Fuel"
  by (rule GET_cases [of src st]) auto

lemma lasts_scan [lasts_intros]: "lasts va_ptr st" "lasts (put_mem a x) st" "lasts UNGET st" "lasts n_incr st"
    "lasts input_error st" "lasts (scan_set_base b) st" "lasts (scan_set_flag e) st" "lasts scan_init st"
  by (auto simp: lasts_def va_ptr_def put_mem_def wr_def UNGET_def n_incr_def input_error_def scan_set_base_def
      scan_set_flag_def scan_init_def bindM_eval thenM_def split: list.splits)

text \<open>A round that reads a character goes on from the next one; one that puts it back, from the same.\<close>

lemma lasts_GET:
  assumes "lasts (f EOF) st" "\<And>c. sc_s st < length src \<Longrightarrow> lasts (f (uchar c)) (got st)"
  shows "lasts (bindM (GET src) f) st"
  by (rule GET_cases [of src st]) (use assms in \<open>auto simp: lasts_def bindM_eval\<close>)

lemma lasts_UNGET: "lasts m st \<Longrightarrow> lasts (thenM UNGET m) (got st)"
  using UNGET_got [of st] by (simp add: lasts_def thenM_def bindM_eval)

lemma lasts_put:
  assumes "\<And>mem. lasts m (st\<lparr>sc_mem := mem\<rparr>)"
  shows "lasts (thenM (put_mem a x) m) st"
  by (rule lasts_then) (use assms in \<open>auto simp: put_mem_run intro: lasts_scan\<close>)

lemma read_chars_lasts: "length src - sc_s st < k \<Longrightarrow> lasts (read_chars k src c parsed) st"
proof (induction k arbitrary: c parsed st)
  case (Suc k)
  then show ?case
    unfolding read_chars.simps by (intro lasts_get lasts_intros lasts_GET lasts_put Suc.IH) auto
qed simp

lemma read_string_lasts: "length src - sc_s st < k \<Longrightarrow> lasts (read_string k src c parsed) st"
proof (induction k arbitrary: c parsed st)
  case (Suc k)
  then show ?case
    unfolding read_string.simps doM.simps
    by (intro lasts_get lasts_if lasts_basic lasts_GET lasts_put lasts_UNGET lasts_then [of n_incr] lasts_then [of "put_mem _ _"]
        lasts_then [of "thenM _ _"] lasts_scan Suc.IH) auto
qed simp

lemma in_scanset_not_fuel: "in_scanset m p e prev rc \<noteq> Inl Fuel"
proof (induction m p e prev rc rule: in_scanset.induct)
  case (1 m p e prev rc)
  show ?case
    by (subst in_scanset.simps) (use 1 in \<open>auto simp: bindR_Inl split: if_splits\<close>)
qed

lemma find_close_not_fuel: "find_close m p \<noteq> Inl Fuel"
proof (induction m p rule: find_close.induct)
  case (1 m p)
  then show ?case by (subst find_close.simps) (auto simp: bindR_Inl Let_def split: if_splits)
qed

lemma skip_source_not_fuel: "skip_source m p i \<noteq> Inl Fuel"
proof (induction m p i rule: skip_source.induct)
  case (1 m p i)
  then show ?case by (subst skip_source.simps) (auto simp: bindR_Inl split: if_splits)
qed

lemma read_set_lasts: "length src - sc_s st < k \<Longrightarrow> lasts (read_set k src m sp e neg c parsed rc) st"
proof (induction k arbitrary: c parsed rc st)
  case (Suc k)
  then show ?case
    unfolding read_set.simps IN_SCANSET_def
    by (intro lasts_get lasts_if lasts_basic lasts_GET lasts_lift in_scanset_not_fuel lasts_put lasts_UNGET Suc.IH) auto
qed simp

lemma lasts_base:
  "lasts m st \<Longrightarrow> (\<And>c. lasts m (st\<lparr>sc_base := c\<rparr>)) \<Longrightarrow> lasts (thenM (whenM b (scan_set_base x)) m) st"
  by (rule lasts_then) (auto simp: whenM_def scan_set_base_def lasts_basic split: if_splits)

text \<open>The rounds that the integer conversion needs: a round takes a character, or the sign or the
  prefix is behind it.\<close>

definition int_rounds :: "buf \<Rightarrow> int \<Rightarrow> bool \<Rightarrow> scan \<Rightarrow> nat" where
  "int_rounds src sign prefixed st = length src - sc_s st + (if sign = 0 then 1 else 0) + (if prefixed then 0 else 1)"

lemma lasts_UNGET_base: "lasts m (st\<lparr>sc_base := b\<rparr>) \<Longrightarrow> lasts (thenM UNGET m) ((got st)\<lparr>sc_base := b\<rparr>)"
  by (cases st) (use lasts_UNGET [of m "st\<lparr>sc_base := b\<rparr>"] in \<open>simp add: got_def\<close>)

lemma int_loop_lasts: "int_rounds src sign prefixed st < k \<Longrightarrow> lasts (int_loop k src v prefixed sign parsed rc) st"
proof (induction k arbitrary: v prefixed sign parsed rc st)
  case (Suc k)
  have IH: "lasts (int_loop k src v' prefixed' sign' parsed' rc') st'"
    if "int_rounds src sign' prefixed' st' < int_rounds src sign prefixed st" for v' prefixed' sign' parsed' rc' st'
    using Suc that by force
  show ?case
    unfolding int_loop.simps
    by (intro lasts_get lasts_if lasts_basic lasts_GET lasts_lift memchr_not_fuel lasts_UNGET lasts_mod lasts_base
        lasts_then [of "scan_set_base _"])
      (auto intro!: IH lasts_scan lasts_basic lasts_UNGET lasts_UNGET_base simp: int_rounds_def scan_set_base_def
        split: option.splits)
qed simp

lemma store_bytes_lasts: "lasts (store_bytes a w k) st"
  by (induction k arbitrary: a w st) (auto intro!: lasts_put lasts_basic)

lemma scan_convert_lasts: "lasts (scan_convert src m orig_spec spec rc) st"
proof -
  have int: "lasts (scan_integer src spec rc) st" for st
  proof -
    have "lasts (int_loop (length src + 3) src 0 False 0 False rc) st"
      by (rule int_loop_lasts) (simp add: int_rounds_def)
    then show ?thesis
      unfolding scan_integer_def
      by (auto intro!: lasts_bind [where m = "int_loop _ _ _ _ _ _ _"] lasts_get lasts_if lasts_basic lasts_then lasts_when
          lasts_bind [where m = va_ptr] lasts_scan store_bytes_lasts simp del: int_loop.simps split: option.split)
  qed
  have chars: "lasts (scan_chars src spec) st" for st
    unfolding scan_chars_def
    by (intro lasts_bind [where m = va_ptr] lasts_mod lasts_bind [where m = "read_chars _ _ _ _"] read_chars_lasts lasts_if
        lasts_then lasts_scan lasts_basic) auto
  have str: "lasts (scan_string src spec) st" for st
    unfolding scan_string_def
    by (auto intro!: lasts_bind [where m = va_ptr] lasts_bind [where m = "read_string _ _ _ _"] read_string_lasts
        lasts_then lasts_scan lasts_basic simp del: read_string.simps split: string_end.split)
  have set: "lasts (scan_set src m spec) st" for st
    unfolding scan_set_def Let_def
    by (auto intro!: lasts_bind [where m = va_ptr] lasts_bind [where m = "read_set _ _ _ _ _ _ _ _ _"] read_set_lasts lasts_lift
        find_close_not_fuel lasts_then lasts_when lasts_scan lasts_basic simp del: read_set.simps split: option.split)
  show ?thesis
    unfolding scan_convert_def Let_def doM.simps
    by (intro lasts_lift rd_not_fuel lasts_if lasts_then [of "scan_set_base _"] lasts_then [of "thenM _ _"]
        lasts_then [of "scan_set_flag _"] lasts_then [of "store_bytes _ _ _"] lasts_bind [where m = va_ptr] lasts_get
        store_bytes_lasts int chars str set lasts_scan lasts_basic)
qed

lemma scan_spec_lasts: "lasts (scan_spec src m spec) st"
proof -
  have width: "lasts (scan_width m p) st" and length: "lasts (scan_length m p) st" for p st
    unfolding scan_width_def scan_length_def
    by (auto intro!: lasts_lift scan_number_not_fuel lasts_if lasts_then lasts_scan lasts_basic)
  have fields: "lasts (scan_fields src m spec rc) st" for rc st
    unfolding scan_fields_def Let_def
    by (intro lasts_then lasts_lift rd_not_fuel lasts_if lasts_bind width length scan_convert_lasts lasts_scan lasts_basic)
  show ?thesis
    unfolding scan_spec_def
    by (intro lasts_lift rd_not_fuel lasts_if lasts_GET lasts_UNGET fields lasts_then [of input_error] lasts_scan lasts_basic) auto
qed

text \<open>The pointer to the format never moves back.\<close>

lemma find_close_ge: "find_close m p = Inr q \<Longrightarrow> p < q"
proof (induction m p rule: find_close.induct)
  case (1 m p)
  then show ?case
    by (subst (asm) (2) find_close.simps) (fastforce simp: bindR_Inr Let_def split: if_splits)
qed

text \<open>\<open>yields P m\<close>: whenever the action returns, its result satisfies \<open>P\<close>.\<close>

definition yields :: "('a \<Rightarrow> bool) \<Rightarrow> (scan, 'a) M \<Rightarrow> bool" where
  "yields P m \<longleftrightarrow> (\<forall>st a st'. m st = Inr (a, st') \<longrightarrow> P a)"

lemma yields_bind: "(\<And>a. yields P (f a)) \<Longrightarrow> yields P (bindM m f)"
  by (fastforce simp: yields_def bindM_run)

lemma yields_bind_val: "yields Q m \<Longrightarrow> (\<And>a. Q a \<Longrightarrow> yields P (f a)) \<Longrightarrow> yields P (bindM m f)"
  by (fastforce simp: yields_def bindM_run)

lemma yields_lift: "(\<And>x. r = Inr x \<Longrightarrow> yields P (f x)) \<Longrightarrow> yields P (bindM (liftM r) f)"
  by (fastforce simp: yields_def bindM_run)

lemma yields_then: "yields P n \<Longrightarrow> yields P (thenM m n)"
  by (fastforce simp: yields_def thenM_run)

lemma yields_if: "(b \<Longrightarrow> yields P m) \<Longrightarrow> (\<not> b \<Longrightarrow> yields P n) \<Longrightarrow> yields P (if b then m else n)"
  by simp

lemma yields_ret: "P a \<Longrightarrow> yields P (retM a)" "yields P (failM e)"
  by (simp_all add: yields_def)

lemma scan_convert_ge: "yields (\<lambda>r. \<forall>q. r = Some q \<longrightarrow> q = orig_spec \<or> spec < q) (scan_convert src m orig_spec spec rc)"
proof -
  let ?P = "\<lambda>r. \<forall>q. r = Some q \<longrightarrow> q = orig_spec \<or> spec < q"
  have int: "yields ?P (scan_integer src spec rc)"
    unfolding scan_integer_def
    by (intro yields_bind) (auto intro!: yields_if yields_bind yields_then yields_ret split: option.split prod.split)
  have chars: "yields ?P (scan_chars src spec)" and str: "yields ?P (scan_string src spec)"
    unfolding scan_chars_def scan_string_def
    by (intro yields_bind yields_then; auto intro!: yields_if yields_then yields_ret split: string_end.split)+
  have set: "yields ?P (scan_set src m spec)"
    unfolding scan_set_def Let_def
    by (intro yields_lift yields_bind; drule find_close_ge)
      (auto intro!: yields_if yields_then yields_ret split: option.split prod.split if_splits)
  show ?thesis
    unfolding scan_convert_def Let_def
    by (intro yields_bind yields_if yields_then int chars str set yields_ret) auto
qed

lemma scan_spec_ge: "yields (\<lambda>r. \<forall>q. r = Some q \<longrightarrow> p \<le> q) (scan_spec src m p)"
proof -
  have width: "yields (\<lambda>q. p \<le> q) (scan_width m p)" for p
    unfolding scan_width_def by (rule yields_lift) (auto intro!: yields_then yields_ret dest: scan_number_ge)
  have length: "yields (\<lambda>q. p \<le> q) (scan_length m p)" for p
    unfolding scan_length_def by (intro yields_bind yields_if yields_then yields_ret) simp_all
  have star: "yields (\<lambda>q. p \<le> q) (if b then thenM (scan_set_flag E_suppressed) (retM (p + 1)) else retM p)" for b and p :: nat
    by (intro yields_if yields_then yields_ret) simp_all
  have "yields (\<lambda>r. \<forall>q. r = Some q \<longrightarrow> p \<le> q) (scan_convert src m p spec rc)" if "p \<le> spec" for spec rc
    using scan_convert_ge [of p spec src m rc] that unfolding yields_def by fastforce
  then have fields: "yields (\<lambda>r. \<forall>q. r = Some q \<longrightarrow> p \<le> q) (scan_fields src m p rc)" for rc
    unfolding scan_fields_def Let_def
    by (intro yields_then yields_bind yields_bind_val [OF star] yields_bind_val [OF width] yields_bind_val [OF length]) simp
  show ?thesis
    unfolding scan_spec_def by (intro yields_bind yields_if yields_then yields_ret fields) simp_all
qed

lemma scan_loop_not_fuel: "length m - p < k \<Longrightarrow> lasts (scan_loop k src m p) st"
proof (induction k arbitrary: p st)
  case (Suc k)
  have next_round: "lasts (scan_loop k src m q) s" if "p < q" "rd m p = Inr c" for q s c
    using Suc.prems that by (intro Suc.IH) (auto dest!: rd_InrD)
  have ahead: "p < q" if "scan_spec src m p s = Inr (Some q, s')" "Some q \<noteq> Some p" for q s s'
    using scan_spec_ge [of p src m] that unfolding yields_def by fastforce
  show ?case
    unfolding scan_loop.simps
    by (intro lasts_lift rd_not_fuel lasts_if lasts_bind lasts_get lasts_mod lasts_basic scan_spec_lasts)
      (auto intro!: lasts_lift lasts_get lasts_mod lasts_basic rd_not_fuel skip_source_not_fuel next_round
        dest: ahead split: option.split if_splits)
qed simp

text \<open>C22: Formatted input terminates on every format and source, even ones that are not terminated: neither the
  loop over the format, which gets one round for every character of the format's memory, nor the loops
  of the conversions, which get one for every character of the source and the sign and prefix of a
  number, run out of steps.\<close>

theorem scanf_terminates: "vsscanf src s m format args mem \<noteq> Inl Fuel"
proof -
  have "lasts (scan_loop (length m + 1) src m format) st" for st
    by (rule scan_loop_not_fuel) simp
  then show ?thesis
    by (auto simp: vsscanf_def bindR_Inl lasts_def simp del: scan_loop.simps)
qed

end
