(* ===== verification/PrintField.thy ===== *)
theory PrintField
  imports Printf
begin

text \<open>
  Integer conversions of \<open>printf\<close> against the C standard. \<open>standard_text\<close> is the text that the standard asks for, given the
  flags, the width, the precision and the conversion character of a specification, and the value; nothing of the model goes into it.
  The theorem of this theory takes a specification from its characters to the characters that go out.
\<close>

section \<open>What the standard asks for\<close>

text \<open>The numeral of a number: \<open>0\<close> to \<open>9\<close>, then letters.\<close>

definition numeral_char :: "bool \<Rightarrow> nat \<Rightarrow> char" where
  "numeral_char upper d = char_of (if d < 10 then 48 + d else if upper then 55 + d else 87 + d)"

function written :: "nat \<Rightarrow> bool \<Rightarrow> nat \<Rightarrow> string" where
  "written b upper v = (if b < 2 \<or> v < b then [numeral_char upper v]
     else written b upper (v div b) @ [numeral_char upper (v mod b)])"
  by pat_completeness auto
termination
  by (relation "measure (\<lambda>(b, upper, v). v)") auto

declare written.simps [simp del]

text \<open>The value that is converted, by the length modifier and whether the conversion is signed: the argument is as wide as the modifier says,
  and narrower than its word for \<open>hh\<close> and \<open>h\<close>. The other types have 32 bits.\<close>

definition argument_value :: "string \<Rightarrow> bool \<Rightarrow> arg \<Rightarrow> int option" where
  "argument_value ls sgn_conv a = (case a of
     W32 w \<Rightarrow>
       if ls = ''hh'' then Some (if sgn_conv then sint (ucast w :: 8 word) else uint (ucast w :: 8 word))
       else if ls = ''h'' then Some (if sgn_conv then sint (ucast w :: 16 word) else uint (ucast w :: 16 word))
       else if ls \<in> {[], ''l'', ''z'', ''t''} then Some (if sgn_conv then sint w else uint w)
       else None
   | W64 w \<Rightarrow> if ls \<in> {''ll'', ''j''} then Some (if sgn_conv then sint w else uint w) else None
   | Str m p \<Rightarrow> None)"

definition signed_conversion :: "char \<Rightarrow> bool" where
  "signed_conversion c \<longleftrightarrow> c = CHR ''d'' \<or> c = CHR ''i''"

definition conversion_base :: "char \<Rightarrow> nat" where
  "conversion_base c = (if c = CHR ''o'' then 8 else if c = CHR ''x'' \<or> c = CHR ''X'' then 16 else 10)"

text \<open>A signed conversion begins with a minus sign, or with a plus sign or a space if the flags ask for one. The precision is the least
  number of digits; without one it is 1. With \<open>#\<close> an octal numeral begins with a 0, and \<open>0x\<close> or \<open>0X\<close> precedes a hexadecimal one that is
  not zero. The field is filled up with blanks, on the right with \<open>-\<close>; or with zeros after the sign and prefix, with \<open>0\<close> and
  neither \<open>-\<close> nor a precision.\<close>

definition standard_text :: "string \<Rightarrow> nat \<Rightarrow> nat option \<Rightarrow> char \<Rightarrow> int \<Rightarrow> string" where
  "standard_text flags width prec c v = (
     let flag = (\<lambda>f. f \<in> set flags);
         sign = (if \<not> signed_conversion c then [] else if v < 0 then ''-'' else if flag (CHR ''+'') then ''+''
           else if flag (CHR '' '') then '' '' else []);
         number = (if v = 0 \<and> prec = Some 0 then [] else written (conversion_base c) (c = CHR ''X'') (nat \<bar>v\<bar>));
         number = replicate ((case prec of None \<Rightarrow> 1 | Some k \<Rightarrow> k) - length number) (CHR ''0'') @ number;
         number = (if flag (CHR ''#'') \<and> c = CHR ''o'' \<and> (number = [] \<or> hd number \<noteq> CHR ''0'') then CHR ''0'' # number else number);
         front = sign @ (if flag (CHR ''#'') \<and> v \<noteq> 0 \<and> (c = CHR ''x'' \<or> c = CHR ''X'') then [CHR ''0'', c] else []);
         pad = width - length (front @ number) in
     if flag (CHR ''-'') then front @ number @ replicate pad (CHR '' '')
     else if flag (CHR ''0'') \<and> prec = None then front @ replicate pad (CHR ''0'') @ number
     else replicate pad (CHR '' '') @ front @ number)"

text \<open>The specifications for which the code is wrong: it puts the octal 0 before the zeros of the precision, and prints nothing for a
  zero with precision 0.\<close>

definition octal_clash :: "string \<Rightarrow> nat option \<Rightarrow> char \<Rightarrow> int \<Rightarrow> bool" where
  "octal_clash flags prec c v \<longleftrightarrow> CHR ''#'' \<in> set flags \<and> c = CHR ''o'' \<and> (case prec of None \<Rightarrow> False
     | Some k \<Rightarrow> if v = 0 then k = 0 else length (written 8 False (nat v)) < k)"

section \<open>The text of the code is that of the standard\<close>

lemma digit_char_numeral: "d < 16 \<Longrightarrow> digit_char (\<not> upper) d = numeral_char upper d"
proof -
  have "\<forall>d \<in> set [0..<16]. digit_char (\<not> upper) d = numeral_char upper d"
    by (cases upper) (simp only:, code_simp)+
  then show "d < 16 \<Longrightarrow> ?thesis" by simp
qed

lemma numeral_char_zero: "numeral_char upper 0 = CHR ''0''"
  by (cases upper) (simp only:, code_simp)+

lemma num_text_written: "2 \<le> b \<Longrightarrow> b \<le> 16 \<Longrightarrow> num_text b (\<not> upper) v = written b upper v"
proof (induction b upper v rule: written.induct)
  case (1 b upper v)
  have "v mod b < b" using "1.prems" by simp
  then have "v mod b < 16" using "1.prems" by linarith
  with 1 show ?case
    by (subst num_text.simps, subst written.simps) (auto simp: digit_char_numeral)
qed

lemma written_decimal: "b \<le> 10 \<Longrightarrow> 2 \<le> b \<Longrightarrow> written b upper v = written b upper' v"
proof (induction b upper v rule: written.induct)
  case (1 b upper v)
  have "v mod b < b" using "1.prems" by simp
  then have "v mod b < 10" using "1.prems" by linarith
  with 1 show ?case
    by (subst (1 2) written.simps) (auto simp: numeral_char_def)
qed

lemma written_front: "0 < v \<Longrightarrow> 2 \<le> b \<Longrightarrow> b \<le> 16 \<Longrightarrow> written b upper v \<noteq> [] \<and> hd (written b upper v) \<noteq> CHR ''0''"
proof (induction b upper v rule: written.induct)
  case (1 b upper v)
  show ?case
  proof (cases "v < b")
    case True
    then have v: "v < 16" using "1.prems" by simp
    have "\<forall>d \<in> set [1..<16]. numeral_char upper d \<noteq> CHR ''0''" by (cases upper) (simp only:, code_simp)+
    then have "numeral_char upper v \<noteq> CHR ''0''" using v "1.prems"(1) by simp
    with True show ?thesis by (subst (1 2) written.simps) simp
  next
    case False
    then have "0 < v div b" using "1.prems" by (simp add: div_greater_zero_iff)
    with 1 False show ?thesis by (subst (1 2) written.simps) auto
  qed
qed

text \<open>The state that a specification sets up.\<close>

definition set_up :: "status \<Rightarrow> string \<Rightarrow> nat option \<Rightarrow> char \<Rightarrow> bool" where
  "set_up st flags prec c \<longleftrightarrow>
     (let fl = p_flags st in
      (has fl E_minus \<longleftrightarrow> CHR ''-'' \<in> set flags) \<and> (has fl E_plus \<longleftrightarrow> CHR ''+'' \<in> set flags) \<and>
      (has fl E_space \<longleftrightarrow> CHR '' '' \<in> set flags) \<and> (has fl E_alt \<longleftrightarrow> CHR ''#'' \<in> set flags) \<and>
      (has fl E_zero \<longleftrightarrow> CHR ''0'' \<in> set flags \<and> prec = None) \<and> (has fl E_lower \<longleftrightarrow> c = CHR ''x'') \<and>
      (has fl E_unsigned \<longleftrightarrow> \<not> signed_conversion c)) \<and>
     p_base st = int (conversion_base c) \<and> p_prec st = (case prec of None \<Rightarrow> - 1 | Some k \<Rightarrow> int k)"

lemma conversion_base_cases: "conversion_base c = 8 \<and> c = CHR ''o'' \<or> conversion_base c = 16 \<and> (c = CHR ''x'' \<or> c = CHR ''X'') \<or>
    conversion_base c = 10 \<and> c \<noteq> CHR ''o'' \<and> c \<noteq> CHR ''x'' \<and> c \<noteq> CHR ''X''"
  by (simp add: conversion_base_def)

lemma set_up_preface:
  assumes "set_up st flags prec c" "\<not> signed_conversion c \<longrightarrow> 0 \<le> v"
  shows "preface v st =
    (if CHR ''#'' \<in> set flags \<and> v \<noteq> 0 \<and> c = CHR ''o'' then ''0'' else []) @
    (if \<not> signed_conversion c then [] else if v < 0 then ''-'' else if CHR ''+'' \<in> set flags then ''+''
      else if CHR '' '' \<in> set flags then '' '' else []) @
    (if CHR ''#'' \<in> set flags \<and> v \<noteq> 0 \<and> (c = CHR ''x'' \<or> c = CHR ''X'') then [CHR ''0'', c] else [])"
proof -
  let ?fl = "p_flags st"
  have st: "has ?fl E_plus = (CHR ''+'' \<in> set flags)" "has ?fl E_space = (CHR '' '' \<in> set flags)"
    "has ?fl E_alt = (CHR ''#'' \<in> set flags)" "has ?fl E_lower = (c = CHR ''x'')" "has ?fl E_unsigned = (\<not> signed_conversion c)"
    "p_base st = int (conversion_base c)"
    using assms(1) by (simp_all add: set_up_def Let_def)
  consider "signed_conversion c" "conversion_base c = 10" "c \<noteq> CHR ''o''" "c \<noteq> CHR ''x''" "c \<noteq> CHR ''X''"
    | "\<not> signed_conversion c" "c = CHR ''o''" "conversion_base c = 8"
    | "\<not> signed_conversion c" "c = CHR ''x'' \<or> c = CHR ''X''" "conversion_base c = 16"
    | "\<not> signed_conversion c" "c \<noteq> CHR ''o''" "c \<noteq> CHR ''x''" "c \<noteq> CHR ''X''" "conversion_base c = 10"
  proof (cases "signed_conversion c")
    case True
    moreover from this have "c \<noteq> CHR ''o''" "c \<noteq> CHR ''x''" "c \<noteq> CHR ''X''" by (auto simp: signed_conversion_def)
    ultimately show ?thesis using that(1) conversion_base_cases [of c] by simp
  next
    case False
    then show ?thesis using that(2-4) conversion_base_cases [of c] by fast
  qed
  then show ?thesis
  proof cases
    case 1
    then show ?thesis unfolding preface_def Let_def st by simp
  next
    case 2
    moreover have "0 \<le> v" using 2(1) assms(2) by simp
    ultimately show ?thesis unfolding preface_def Let_def st by simp
  next
    case 3
    moreover have "0 \<le> v" using 3(1) assms(2) by simp
    ultimately show ?thesis unfolding preface_def Let_def st by auto
  next
    case 4
    moreover have "0 \<le> v" using 4(1) assms(2) by simp
    ultimately show ?thesis unfolding preface_def Let_def st by simp
  qed
qed

lemma set_up_digits:
  assumes "set_up st flags prec c"
  shows "num_text (nat (p_base st)) (has (p_flags st) E_lower) n = written (conversion_base c) (c = CHR ''X'') n"
proof -
  let ?low = "has (p_flags st) E_lower"
  have st: "?low = (c = CHR ''x'')" "nat (p_base st) = conversion_base c" using assms by (simp_all add: set_up_def Let_def)
  have "num_text (conversion_base c) ?low n = written (conversion_base c) (\<not> ?low) n"
    using num_text_written [of "conversion_base c" "\<not> ?low" n] by (simp add: conversion_base_def)
  also have "\<dots> = written (conversion_base c) (c = CHR ''X'') n"
    using conversion_base_cases [of c]
  proof (elim disjE conjE)
    assume "c = CHR ''x''"
    then show ?thesis using st(1) by simp
  next
    assume "c = CHR ''X''"
    then show ?thesis using st(1) by simp
  qed (rule written_decimal; simp)+
  finally show ?thesis using st(2) by simp
qed

lemma field_cong:
  "body = body' \<Longrightarrow> l = l' \<Longrightarrow> z = z' \<Longrightarrow> (\<And>k. z \<Longrightarrow> zeros k = zeros' k) \<Longrightarrow>
    (let pad = w - length body in if l then body @ replicate pad x else if z then zeros pad else replicate pad x @ body) =
    (let pad = w - length body' in if l' then body' @ replicate pad x else if z' then zeros' pad else replicate pad x @ body')"
  by (simp add: Let_def)

lemma int_text_standard:
  assumes up: "set_up st flags prec c" "\<not> signed_conversion c \<longrightarrow> 0 \<le> v" and no: "\<not> octal_clash flags prec c v"
  shows "int_text st v = standard_text flags (p_width st) prec c v"
proof -
  let ?P = "case prec of None \<Rightarrow> 1 | Some k \<Rightarrow> k" and ?fl = "p_flags st" and ?b = "conversion_base c"
  let ?ds = "if v = 0 \<and> prec = Some 0 then [] else written ?b (c = CHR ''X'') (nat \<bar>v\<bar>)"
  let ?zeros = "replicate (?P - length ?ds) (CHR ''0'')"
  let ?pre = "preface v st" and ?alt = "CHR ''#'' \<in> set flags \<and> c = CHR ''o''"
  let ?number = "if ?alt \<and> (?zeros @ ?ds = [] \<or> hd (?zeros @ ?ds) \<noteq> CHR ''0'') then CHR ''0'' # ?zeros @ ?ds else ?zeros @ ?ds"
  let ?sign = "if \<not> signed_conversion c then [] else if v < 0 then ''-'' else if CHR ''+'' \<in> set flags then ''+''
      else if CHR '' '' \<in> set flags then '' '' else []"
  let ?front = "?sign @ (if CHR ''#'' \<in> set flags \<and> v \<noteq> 0 \<and> (c = CHR ''x'' \<or> c = CHR ''X'') then [CHR ''0'', c] else [])"
  have prec: "(if p_prec st < 0 then 1 else nat (p_prec st)) = ?P"
    using up(1) by (auto simp: set_up_def Let_def split: option.splits)
  have "v = 0 \<and> ?P = 0 \<longleftrightarrow> v = 0 \<and> prec = Some 0" by (auto split: option.splits)
  then have ds: "(if v = 0 \<and> ?P = 0 then [] else num_text (nat (p_base st)) (has ?fl E_lower) (nat \<bar>v\<bar>)) = ?ds"
    by (simp only: set_up_digits [OF up(1)])
  have some: "0 < length (written b u n)" for b u n by (subst written.simps) simp
  have zero: "written b u 0 = ''0''" if "2 \<le> b" for b u using that by (subst written.simps) (simp add: numeral_char_zero)
  note pre = set_up_preface [OF up]
  have front: "?pre @ replicate k (CHR ''0'') @ ?zeros @ ?ds = ?front @ replicate k (CHR ''0'') @ ?number" if "k = 0 \<or> prec = None" for k
  proof (cases ?alt)
    case False
    then have "(if CHR ''#'' \<in> set flags \<and> v \<noteq> 0 \<and> c = CHR ''o'' then ''0'' else []) = ([] :: string)" by auto
    then have "?pre = ?front" unfolding pre by (simp only: append.simps)
    moreover have "?number = ?zeros @ ?ds" using False by (simp only: simp_thms if_False)
    ultimately show ?thesis by (simp only: append_assoc)
  next
    case True
    then have c: "?b = 8" "\<not> signed_conversion c" "c \<noteq> CHR ''x''" "c \<noteq> CHR ''X''" by (simp_all add: conversion_base_def signed_conversion_def)
    show ?thesis
    proof (cases "v = 0")
      case zv: True
      then have "prec \<noteq> Some 0" using no True by (auto simp: octal_clash_def)
      then have ds0: "?ds = ''0''" using zv c zero by simp
      moreover have "?pre = []" "?front = []" unfolding pre using True zv c by simp_all
      moreover have "?number = ?zeros @ ?ds" unfolding ds0 by (cases "?P - length ''0''") simp_all
      ultimately show ?thesis by (simp only: append.simps)
    next
      case False
      then have v: "0 < nat \<bar>v\<bar>" "nat v = nat \<bar>v\<bar>" using up(2) c(2) by simp_all
      have "?P \<le> length (written 8 False (nat v))"
      proof (cases prec)
        case None
        then show ?thesis using some [of 8 False "nat v"] by (simp only: option.case Suc_le_eq One_nat_def)
      next
        case (Some k)
        then show ?thesis using no True False unfolding octal_clash_def by (simp only: option.case if_False simp_thms not_less)
      qed
      then have "?P \<le> length (written ?b (c = CHR ''X'') (nat \<bar>v\<bar>))"
        unfolding c(1) v(2) using c(4) by (simp only: simp_thms)
      then have "?zeros = []" using False by simp
      moreover have "?ds \<noteq> [] \<and> hd ?ds \<noteq> CHR ''0''" using written_front [OF v(1), of 8] False c by simp
      ultimately have n: "?number = CHR ''0'' # ?ds" "?zeros @ ?ds = ?ds" using True by simp_all
      have shift: "replicate k (CHR ''0'') @ CHR ''0'' # ?ds = CHR ''0'' # replicate k (CHR ''0'') @ ?ds"
        by (metis append_Cons replicate_app_Cons_same)
      have e: "?pre = ''0''" "?front = []" unfolding pre using True False c by simp_all
      have "?pre @ replicate k (CHR ''0'') @ ?zeros @ ?ds = replicate k (CHR ''0'') @ CHR ''0'' # ?ds"
        by (simp only: n(2) e(1) shift append.simps)
      also have "\<dots> = ?front @ replicate k (CHR ''0'') @ ?number" by (simp only: n(1) e(2) append.simps)
      finally show ?thesis .
    qed
  qed
  have f0: "?pre @ ?zeros @ ?ds = ?front @ ?number"
    using front [of 0] by (simp only: replicate_0 append.simps disj_not1 simp_thms)
  have none: "?pre @ ?zeros @ replicate k (CHR ''0'') @ ?ds = ?front @ replicate k (CHR ''0'') @ ?number" if "prec = None" for k
  proof -
    have "1 \<le> length ?ds" using that some [of ?b "c = CHR ''X''" "nat \<bar>v\<bar>"] by (simp only: option.distinct simp_thms if_False Suc_le_eq One_nat_def)
    then have "?zeros = []" using that by (simp only: option.case replicate_empty diff_is_0_eq)
    then show ?thesis using front [of k] that by (simp only: append.simps simp_thms)
  qed
  have fl: "has ?fl E_minus = (CHR ''-'' \<in> set flags)" "has ?fl E_zero = (CHR ''0'' \<in> set flags \<and> prec = None)"
    using up(1) by (simp_all add: set_up_def Let_def)
  have code: "int_text st v = (
     let pad = p_width st - length (?pre @ ?zeros @ ?ds) in
     if has ?fl E_minus then (?pre @ ?zeros @ ?ds) @ replicate pad (CHR '' '')
     else if has ?fl E_zero then ?pre @ ?zeros @ replicate pad (CHR ''0'') @ ?ds
     else replicate pad (CHR '' '') @ ?pre @ ?zeros @ ?ds)"
    unfolding int_text_def Let_def prec ds by (simp only: append_assoc)
  have standard: "standard_text flags (p_width st) prec c v = (
     let pad = p_width st - length (?front @ ?number) in
     if CHR ''-'' \<in> set flags then (?front @ ?number) @ replicate pad (CHR '' '')
     else if CHR ''0'' \<in> set flags \<and> prec = None then ?front @ replicate pad (CHR ''0'') @ ?number
     else replicate pad (CHR '' '') @ ?front @ ?number)"
    unfolding standard_text_def Let_def by (simp only: append_assoc conj_assoc)
  show ?thesis
    unfolding code standard by (rule field_cong [OF f0 fl]) (rule none, simp only: fl simp_thms)
qed


section \<open>Reading a specification\<close>

text \<open>The flags are collected in a word.\<close>

definition flag_chars :: string where
  "flag_chars = ''-+# 0''"

definition flag_of :: "char \<Rightarrow> 32 word" where
  "flag_of c = (if c = CHR ''-'' then E_minus else if c = CHR ''+'' then E_plus else if c = CHR ''#'' then E_alt
     else if c = CHR '' '' then E_space else E_zero)"

definition flags_word :: "string \<Rightarrow> 32 word \<Rightarrow> 32 word" where
  "flags_word fs fl = foldl (\<lambda>fl c. fl OR flag_of c) fl fs"

lemma flags_word_simps [simp]: "flags_word [] fl = fl" "flags_word (c # fs) fl = flags_word fs (fl OR flag_of c)"
  by (simp_all add: flags_word_def)

lemma has_OR_left: "has (a OR b) e \<longleftrightarrow> has a e \<or> has b e"
proof -
  have "(a OR b) AND e = (a AND e) OR (b AND e)" by (rule bit_eqI) (auto simp: bit_simps)
  then show ?thesis by (simp add: has_def or_eq_0_iff)
qed

lemma has_flags_word: "has (flags_word fs fl) e \<longleftrightarrow> has fl e \<or> (\<exists>c \<in> set fs. has (flag_of c) e)"
  by (induction fs arbitrary: fl) (auto simp: has_OR_left)

lemma flags_word_mask: "fl AND e = 0 \<Longrightarrow> \<forall>c \<in> set fs. flag_of c AND e = 0 \<Longrightarrow> flags_word fs fl AND e = 0"
  by (induction fs arbitrary: fl) (simp_all add: bit.conj_disj_distrib2 or_eq_0_iff)

lemma scan_flags_holds:
  "holds m p (fs @ r) \<Longrightarrow> set fs \<subseteq> set flag_chars \<Longrightarrow> peek r 0 \<notin> set flag_chars \<Longrightarrow>
    scan_flags m p fl = Inr (p + length fs, flags_word fs fl OR E_done)"
proof (induction fs arbitrary: p fl)
  case Nil
  then have "rd m p = Inr (peek r 0)" using holds_rd [of m p r] by simp
  then show ?case using Nil.prems(3) by (subst scan_flags.simps) (simp add: flag_chars_def)
next
  case (Cons c fs)
  have c: "rd m p = Inr c" using holds_rd [OF Cons.prems(1)] by simp
  have "scan_flags m (Suc p) (fl OR flag_of c) = Inr (p + length (c # fs), flags_word (c # fs) fl OR E_done)"
    using Cons.IH [of "Suc p" "fl OR flag_of c"] holds_Suc [of m p c "fs @ r"] Cons.prems by simp
  moreover have "c \<in> set flag_chars" using Cons.prems(2) by simp
  ultimately show ?case using c by (subst scan_flags.simps) (auto simp: flag_chars_def flag_of_def)
qed

text \<open>A number in a specification has no sign and no white space before it.\<close>

definition no_number :: "char \<Rightarrow> bool" where
  "no_number c \<longleftrightarrow> \<not> is_space c \<and> \<not> is_digit 10 c \<and> c \<noteq> CHR ''+'' \<and> c \<noteq> CHR ''-''"

lemma scan_number_holds:
  assumes at: "holds m p (ds @ r)" and ds: "\<forall>c \<in> set ds. is_digit 10 c" and r: "no_number (peek r 0)"
    and small: "value_from 10 0 ds < 2 ^ 31"
  shows "scan_number m p = Inr (of_nat (value_from 10 0 ds), p + length ds)"
proof -
  let ?s = "ds @ r"
  have first: "\<not> is_space (peek ?s 0) \<and> peek ?s 0 \<noteq> CHR ''+'' \<and> peek ?s 0 \<noteq> CHR ''-''"
    using ds r is_digit_char [of 10 "peek ?s 0"] by (cases ds) (auto simp: no_number_def)
  then have sp: "spaces ?s = 0"
    by (cases ?s) (auto simp: spaces_def)
  then have "number_start 10 ?s = (False, 10, 0)"
    using first by (simp add: number_start_def sign_length_def Let_def)
  moreover have "takeWhile (is_digit 10) ?s = ds"
    using ds r by (cases r) (simp_all add: no_number_def takeWhile_tail)
  ultimately have n: "number_value 10 ?s = int (value_from 10 0 ds)" "number_length 10 ?s = length ds"
    by (auto simp: number_value_def number_length_def number_digits_def)
  have "strtol m p 10 = Inr (of_nat (value_from 10 0 ds), Some (p + length ds), False)"
    using small unfolding strtol_def Let_def
    by (subst signed_parse [OF at, of _ 2147483647]) (simp_all add: limits ucast_of_nat valid_base_def clamp_if n)
  then show ?thesis by (simp add: scan_number_def)
qed


lemma sint_small: "v < 2 ^ 31 \<Longrightarrow> sint (of_nat v :: 32 word) = int v"
  by (simp add: sint_uint uint_nat unat_of_nat signed_take_bit_int_eq_self take_bit_int_eq_self)

lemma parse_flags_holds:
  assumes "holds m p (fs @ r)" "set fs \<subseteq> set flag_chars" "peek r 0 \<notin> set flag_chars"
  shows "parse_flags m p st = Inr (p + length fs, st\<lparr>p_flags := flags_word fs (p_flags st) OR E_done\<rparr>)"
  unfolding parse_flags_def by (simp add: bindM_step thenM_step scan_flags_holds [OF assms])

lemma parse_width_holds:
  assumes at: "holds m p (ws @ r)" and ws: "\<forall>c \<in> set ws. is_digit 10 c" "value_from 10 0 ws < 2 ^ 31"
    and r: "no_number (peek r 0)" "peek r 0 \<noteq> CHR ''*''"
  shows "parse_width m p st = Inr (p + length ws, st\<lparr>p_width := value_from 10 0 ws\<rparr>)"
proof -
  have "\<not> is_digit 10 (CHR ''*'')" by code_simp
  then have c: "peek (ws @ r) 0 \<noteq> CHR ''*''" using ws(1) r(2) by (cases ws) auto
  show ?thesis
    unfolding parse_width_def using c ws(2)
    by (simp add: bindM_step thenM_step holds_rd [OF at] scan_number_holds [OF at ws(1) r(1) ws(2)] unat_of_nat)
qed

lemma parse_prec_none:
  assumes "holds m p r" "peek r 0 \<noteq> CHR ''.''"
  shows "parse_prec m p st = Inr (p, st)"
  unfolding parse_prec_def using assms(2) by (simp add: bindM_step holds_rd [OF assms(1)])

lemma parse_prec_some:
  assumes at: "holds m p (CHR ''.'' # ds @ r)" and ds: "\<forall>c \<in> set ds. is_digit 10 c" "value_from 10 0 ds < 2 ^ 31"
    and r: "no_number (peek r 0)" "peek r 0 \<noteq> CHR ''*''"
  shows "parse_prec m p st =
    Inr (p + 1 + length ds, st\<lparr>p_prec := int (value_from 10 0 ds), p_flags := p_flags st AND NOT E_zero\<rparr>)"
proof -
  have at': "holds m (p + 1) (ds @ r)" using holds_Suc [OF at] by simp
  have "\<not> is_digit 10 (CHR ''*'')" by code_simp
  then have c: "peek (ds @ r) 0 \<noteq> CHR ''*''" using ds(1) r(2) by (cases ds) auto
  have "rd m p = Inr (CHR ''.'')" "rd m (p + 1) = Inr (peek (ds @ r) 0)"
    using holds_rd [OF at] holds_rd [OF at'] by simp_all
  note rd = this scan_number_holds [OF at' ds(1) r(1) ds(2)]
  show ?thesis
    unfolding parse_prec_def Let_def using c rd sint_small [OF ds(2)]
    by (cases ds) (simp_all add: bindM_step thenM_step)
qed

text \<open>The length modifiers of integers.\<close>

definition length_flag :: "string \<Rightarrow> 32 word" where
  "length_flag ls = (if ls = ''hh'' then E_char else if ls = ''h'' then E_short else if ls = ''l'' then E_long
     else if ls = ''ll'' then E_llong else if ls = ''j'' then E_intmax else if ls = ''z'' then E_size
     else if ls = ''t'' then E_ptrdiff else 0)"

definition length_modifiers :: "string set" where
  "length_modifiers = {[], ''hh'', ''h'', ''l'', ''ll'', ''j'', ''z'', ''t''}"

definition int_conversions :: string where
  "int_conversions = ''dioxXu''"

lemma parse_length_holds:
  assumes at: "holds m p (ls @ [c])" and ls: "ls \<in> length_modifiers" and c: "c \<in> set int_conversions"
  shows "parse_length m p st = Inr (p + length ls, st\<lparr>p_flags := p_flags st OR length_flag ls\<rparr>)"
proof -
  have rd: "rd m (p + i) = Inr (peek (ls @ [c]) i)" if "i \<le> length ls" for i
    using holds_rd_add [OF at] that by simp
  have "c \<notin> {CHR ''h'', CHR ''l'', CHR ''j'', CHR ''z'', CHR ''t'', CHR ''L''}" using c by (auto simp: int_conversions_def)
  then show ?thesis
    using ls rd [of 0] rd [of 1] unfolding length_modifiers_def parse_length_def
    by (elim insertE) (auto simp: bindM_step thenM_step set_flag_def length_flag_def peek_def)
qed


text \<open>The argument is fetched with the width that the modifier asks for.\<close>

definition unsigned_mask :: "32 word" where
  "unsigned_mask = E_char OR E_short OR E_long OR E_llong OR E_size OR E_pointer OR E_intmax"

definition signed_mask :: "32 word" where
  "signed_mask = E_char OR E_short OR E_long OR E_llong OR E_intmax"

lemma va_first:
  "p_arg st = W32 w # args \<Longrightarrow> va_32 st = Inr (w, st\<lparr>p_arg := args\<rparr>)"
  "p_arg st = W64 w' # args \<Longrightarrow> va_64 st = Inr (w', st\<lparr>p_arg := args\<rparr>)"
  by (simp_all add: va_32_def va_64_def va_arg_def bindM_step thenM_step)

lemma unsigned_argument:
  assumes ls: "ls \<in> length_modifiers" and fl: "p_flags st AND unsigned_mask = length_flag ls AND unsigned_mask"
    and a: "p_arg st = a # args" "argument_value ls False a = Some v"
  shows "unsigned_value st = Inr (Some v, st\<lparr>p_arg := args\<rparr>)"
proof -
  obtain w w' where w: "a = W32 w \<or> a = W64 w'" using a(2) by (cases a) (auto simp: argument_value_def)
  then have va: "a = W32 w \<Longrightarrow> va_32 st = Inr (w, st\<lparr>p_arg := args\<rparr>)" "a = W64 w' \<Longrightarrow> va_64 st = Inr (w', st\<lparr>p_arg := args\<rparr>)"
    using va_first a(1) by auto
  show ?thesis
    using ls fl a(2) w va unfolding length_modifiers_def unsigned_value_def unsigned_mask_def Let_def
    by (elim insertE disjE) (auto simp: bindM_step length_flag_def E_defs argument_value_def)
qed

lemma signed_argument:
  assumes ls: "ls \<in> length_modifiers" and fl: "p_flags st AND signed_mask = length_flag ls AND signed_mask"
    and a: "p_arg st = a # args" "argument_value ls True a = Some v"
  shows "signed_value st = Inr (Some v, st\<lparr>p_arg := args\<rparr>)"
proof -
  obtain w w' where w: "a = W32 w \<or> a = W64 w'" using a(2) by (cases a) (auto simp: argument_value_def)
  then have va: "a = W32 w \<Longrightarrow> va_32 st = Inr (w, st\<lparr>p_arg := args\<rparr>)" "a = W64 w' \<Longrightarrow> va_64 st = Inr (w', st\<lparr>p_arg := args\<rparr>)"
    using va_first a(1) by auto
  show ?thesis
    using ls fl a(2) w va unfolding length_modifiers_def signed_value_def signed_mask_def Let_def
    by (elim insertE disjE) (auto simp: bindM_step length_flag_def E_defs argument_value_def)
qed

lemma argument_range: "argument_value ls sgn_conv a = Some v \<Longrightarrow> \<bar>v\<bar> < 2 ^ 64 \<and> (\<not> sgn_conv \<longrightarrow> 0 \<le> v)"
proof -
  note ranges = uint_64 [where 'a = 8] uint_64 [where 'a = 16] uint_64 [where 'a = 32] uint_64 [where 'a = 64]
    sint_64 [where 'a = 8] sint_64 [where 'a = 16] sint_64 [where 'a = 32] sint_64 [where 'a = 64]
  note ranges = ranges [simplified]
  assume "argument_value ls sgn_conv a = Some v"
  then show ?thesis by (auto simp: argument_value_def ranges split: arg.splits if_splits)
qed

text \<open>The conversion character adds its flags.\<close>

definition conversion_flag :: "char \<Rightarrow> 32 word" where
  "conversion_flag c = (if signed_conversion c then 0 else if c = CHR ''x'' then E_lower OR E_unsigned else E_unsigned)"

lemma convert_int:
  assumes "rd m q = Inr c" "c \<in> set int_conversions"
    and "int_output (st\<lparr>p_base := int (conversion_base c), p_flags := p_flags st OR conversion_flag c\<rparr>) = Inr (True, st')"
  shows "convert m p q st = Inr (Some (q + 1), st')"
proof -
  have rd: "liftM (rd m q) st = Inr (c, st)" using assms(1) by simp
  let ?out = "bindM int_output (\<lambda>ok. retM (if ok then Some (q + 1) else None))"
  let ?b = "int (conversion_base c)" and ?fl = "conversion_flag c"
  have out: "?out (st\<lparr>p_base := ?b, p_flags := p_flags st OR ?fl\<rparr>) = Inr (Some (q + 1), st')"
    by (rule trans, rule bindM_step, rule assms(3)) simp
  have set: "thenM (set_base b) ?out st = ?out (st\<lparr>p_base := b\<rparr>)"
    "thenM (doM [set_base b, set_flag fl]) ?out st = ?out (st\<lparr>p_base := b, p_flags := p_flags st OR fl\<rparr>)" for b fl
    by (simp_all add: thenM_def bindM_eval set_base_def set_flag_def)
  have "c \<in> {CHR ''d'', CHR ''i'', CHR ''o'', CHR ''u'', CHR ''x'', CHR ''X''}"
    using assms(2) by (auto simp: int_conversions_def)
  then have "convert m p q st = ?out (st\<lparr>p_base := ?b, p_flags := p_flags st OR ?fl\<rparr>)"
    unfolding convert_def Let_def
    by (elim insertE emptyE) (rule trans, rule bindM_step, rule rd, simp add: set conversion_base_def conversion_flag_def signed_conversion_def del: doM.simps)+
  then show ?thesis using out by simp
qed

text \<open>The flags when the number is printed.\<close>

definition final_flags :: "string \<Rightarrow> nat option \<Rightarrow> string \<Rightarrow> char \<Rightarrow> 32 word" where
  "final_flags fs prec ls c =
     (if prec = None then flags_word fs 0 OR E_done else (flags_word fs 0 OR E_done) AND NOT E_zero)
     OR length_flag ls OR conversion_flag c"

lemma has_flag_of:
  "c \<in> set flag_chars \<Longrightarrow> has (flag_of c) E_minus \<longleftrightarrow> c = CHR ''-''"
  "c \<in> set flag_chars \<Longrightarrow> has (flag_of c) E_plus \<longleftrightarrow> c = CHR ''+''"
  "c \<in> set flag_chars \<Longrightarrow> has (flag_of c) E_alt \<longleftrightarrow> c = CHR ''#''"
  "c \<in> set flag_chars \<Longrightarrow> has (flag_of c) E_space \<longleftrightarrow> c = CHR '' ''"
  "c \<in> set flag_chars \<Longrightarrow> has (flag_of c) E_zero \<longleftrightarrow> c = CHR ''0''"
  "\<not> has (flag_of c) E_lower" "\<not> has (flag_of c) E_unsigned"
  by (auto simp: flag_chars_def flag_of_def has_def E_defs split: if_splits)

lemma flag_in: "(\<And>c. c \<in> set flag_chars \<Longrightarrow> P c \<longleftrightarrow> c = x) \<Longrightarrow> set fs \<subseteq> set flag_chars \<Longrightarrow> (\<exists>c \<in> set fs. P c) \<longleftrightarrow> x \<in> set fs"
  by (induction fs) auto

lemmas flag_set = flag_in [OF has_flag_of(1)] flag_in [OF has_flag_of(2)] flag_in [OF has_flag_of(3)]
  flag_in [OF has_flag_of(4)] flag_in [OF has_flag_of(5)]

lemma has_without:
  "has (w AND NOT E_zero) e \<longleftrightarrow> has w e" if "e \<in> {E_minus, E_plus, E_alt, E_space, E_lower, E_unsigned}"
proof -
  have "NOT E_zero AND e = e" using that by (auto simp: E_defs)
  then show ?thesis by (simp add: has_def and.assoc)
qed

lemma final_flags_has:
  assumes fs: "set fs \<subseteq> set flag_chars" and ls: "ls \<in> length_modifiers"
  shows "has (final_flags fs prec ls c) E_minus \<longleftrightarrow> CHR ''-'' \<in> set fs"
    and "has (final_flags fs prec ls c) E_plus \<longleftrightarrow> CHR ''+'' \<in> set fs"
    and "has (final_flags fs prec ls c) E_space \<longleftrightarrow> CHR '' '' \<in> set fs"
    and "has (final_flags fs prec ls c) E_alt \<longleftrightarrow> CHR ''#'' \<in> set fs"
    and "has (final_flags fs prec ls c) E_zero \<longleftrightarrow> CHR ''0'' \<in> set fs \<and> prec = None"
    and "has (final_flags fs prec ls c) E_lower \<longleftrightarrow> \<not> signed_conversion c \<and> c = CHR ''x''"
    and "has (final_flags fs prec ls c) E_unsigned \<longleftrightarrow> \<not> signed_conversion c"
proof -
  have "length_flag ls \<in> {E_char, E_short, E_long, E_llong, E_intmax, E_size, E_ptrdiff, 0}" by (simp add: length_flag_def)
  moreover have "\<forall>e \<in> {E_minus, E_plus, E_alt, E_space, E_zero, E_lower, E_unsigned}.
      \<forall>l \<in> {E_char, E_short, E_long, E_llong, E_intmax, E_size, E_ptrdiff, 0, E_done}. \<not> has l e"
    by (simp add: has_def E_defs)
  ultimately have rest: "\<not> has (length_flag ls) e \<and> \<not> has E_done e \<and> \<not> has 0 e"
    if "e \<in> {E_minus, E_plus, E_alt, E_space, E_zero, E_lower, E_unsigned}" for e using that by blast
  have conv: "\<not> has (conversion_flag c) e" if "e \<in> {E_minus, E_plus, E_alt, E_space, E_zero}" for e
    using that by (auto simp: conversion_flag_def has_def E_defs)
  have conv2: "has (conversion_flag c) E_lower \<longleftrightarrow> \<not> signed_conversion c \<and> c = CHR ''x''"
    "has (conversion_flag c) E_unsigned \<longleftrightarrow> \<not> signed_conversion c"
    by (auto simp: conversion_flag_def has_def E_defs)
  have word: "has (final_flags fs prec ls c) e \<longleftrightarrow> (\<exists>x \<in> set fs. has (flag_of x) e) \<or> has (conversion_flag c) e"
    if "e \<in> {E_minus, E_plus, E_alt, E_space, E_lower, E_unsigned}" for e
    using that rest [of e] has_without [of e] by (auto simp: final_flags_def has_OR_left has_flags_word)
  show "has (final_flags fs prec ls c) E_zero \<longleftrightarrow> CHR ''0'' \<in> set fs \<and> prec = None"
  proof -
    have "\<not> has (w AND NOT E_zero) E_zero" for w by (simp add: has_def and.assoc E_defs)
    then show ?thesis using rest [of E_zero] conv [of E_zero]
      by (simp add: final_flags_def has_OR_left has_flags_word flag_set fs)
  qed
  show "has (final_flags fs prec ls c) E_minus \<longleftrightarrow> CHR ''-'' \<in> set fs"
    "has (final_flags fs prec ls c) E_plus \<longleftrightarrow> CHR ''+'' \<in> set fs"
    "has (final_flags fs prec ls c) E_space \<longleftrightarrow> CHR '' '' \<in> set fs"
    "has (final_flags fs prec ls c) E_alt \<longleftrightarrow> CHR ''#'' \<in> set fs"
    "has (final_flags fs prec ls c) E_lower \<longleftrightarrow> \<not> signed_conversion c \<and> c = CHR ''x''"
    "has (final_flags fs prec ls c) E_unsigned \<longleftrightarrow> \<not> signed_conversion c"
    using conv [of E_minus] conv [of E_plus] conv [of E_space] conv [of E_alt]
    by (simp_all add: word flag_set fs conv2 has_flag_of(6,7))
qed

lemma final_flags_mask:
  assumes fs: "set fs \<subseteq> set flag_chars" and e: "e \<in> {signed_mask, unsigned_mask}"
  shows "final_flags fs prec ls c AND e = length_flag ls AND e"
proof -
  have "flag_of x AND e = 0" for x using e by (auto simp: flag_of_def signed_mask_def unsigned_mask_def E_defs)
  then have "flags_word fs 0 AND e = 0" by (intro flags_word_mask) simp_all
  moreover have "E_done AND e = 0" "NOT E_zero AND e = e" "conversion_flag c AND e = 0"
    using e by (auto simp: conversion_flag_def signed_mask_def unsigned_mask_def E_defs)
  ultimately show ?thesis by (simp add: final_flags_def bit.conj_disj_distrib2 and.assoc)
qed


section \<open>From the characters of a specification to the text\<close>

text \<open>A specification: flags, width, precision, length modifier, conversion character. The digits of the width do not begin with 0,
  which is a flag; a precision without digits is 0.\<close>

definition spec_text :: "string \<Rightarrow> string \<Rightarrow> string option \<Rightarrow> string \<Rightarrow> char \<Rightarrow> string" where
  "spec_text fs ws ps ls c = CHR ''%'' # fs @ ws @ (case ps of None \<Rightarrow> [] | Some ds \<Rightarrow> CHR ''.'' # ds) @ ls @ [c]"

definition int_spec :: "string \<Rightarrow> string \<Rightarrow> string option \<Rightarrow> string \<Rightarrow> char \<Rightarrow> bool" where
  "int_spec fs ws ps ls c \<longleftrightarrow> set fs \<subseteq> set flag_chars \<and> (ws \<noteq> [] \<longrightarrow> hd ws \<noteq> CHR ''0'') \<and> ls \<in> length_modifiers \<and>
     c \<in> set int_conversions \<and>
     (\<forall>ds \<in> insert ws (set_option ps). (\<forall>d \<in> set ds. is_digit 10 d) \<and> value_from 10 0 ds < 2 ^ 31)"

definition spec_tail :: string where
  "spec_tail = ''.hljzt'' @ int_conversions"

lemma spec_tail_chars: "d \<in> set spec_tail \<Longrightarrow> no_number d \<and> d \<notin> set flag_chars \<and> d \<noteq> CHR ''*'' \<and> d \<noteq> CHR ''%''"
proof -
  have "\<forall>d \<in> set spec_tail. no_number d \<and> d \<notin> set flag_chars \<and> d \<noteq> CHR ''*'' \<and> d \<noteq> CHR ''%''" by code_simp
  then show "d \<in> set spec_tail \<Longrightarrow> ?thesis" by blast
qed

lemma digit_flag: "is_digit 10 d \<Longrightarrow> d \<noteq> CHR ''0'' \<Longrightarrow> d \<notin> set flag_chars \<and> d \<noteq> CHR ''%''"
proof -
  have "\<forall>d \<in> set (''-+# %''). \<not> is_digit 10 d" by code_simp
  then show "is_digit 10 d \<Longrightarrow> d \<noteq> CHR ''0'' \<Longrightarrow> ?thesis" by (auto simp: flag_chars_def)
qed

lemma modifier_tail: "ls \<in> length_modifiers \<Longrightarrow> c \<in> set int_conversions \<Longrightarrow> peek (ls @ [c]) 0 \<in> set spec_tail \<and> peek (ls @ [c]) 0 \<noteq> CHR ''.''"
  unfolding length_modifiers_def by (elim insertE) (auto simp: spec_tail_def int_conversions_def)

lemma int_output_text:
  assumes st: "sound st" "p_current st = 0" "p_arg st = a # args" "p_flags st = final_flags fs prec ls c" "p_base st = int (conversion_base c)"
      "p_prec st = (case prec of None \<Rightarrow> - 1 | Some k \<Rightarrow> int k)"
    and fs: "set fs \<subseteq> set flag_chars" and ls: "ls \<in> length_modifiers" and c: "c \<in> set int_conversions"
    and v: "argument_value ls (signed_conversion c) a = Some v" "\<not> octal_clash fs prec c v"
    and fits: "p_i st + length (standard_text fs (p_width st) prec c v) < p_n st"
  shows "int_output st = Inr (True, emit (standard_text fs (p_width st) prec c v) (fix_prec (st\<lparr>p_arg := args\<rparr>)))"
proof -
  let ?st = "st\<lparr>p_arg := args\<rparr>" and ?t = "standard_text fs (p_width st) prec c v"
  have lower: "\<not> signed_conversion c \<and> c = CHR ''x'' \<longleftrightarrow> c = CHR ''x''" by (auto simp: signed_conversion_def)
  note has = final_flags_has [OF fs ls, of prec c, unfolded lower]
  have up: "set_up ?st fs prec c" using st by (simp add: set_up_def Let_def has)
  note range = argument_range [OF v(1)]
  have t: "int_text ?st v = ?t" using int_text_standard [OF up _ v(2)] range by simp
  have "(if has (p_flags st) E_unsigned then unsigned_value else signed_value) st = Inr (Some v, ?st)"
  proof (cases "signed_conversion c")
    case True
    then show ?thesis
      using signed_argument [OF ls _ st(3)] v(1) has(7) final_flags_mask [OF fs, of signed_mask] st(4) by simp
  next
    case False
    then show ?thesis
      using unsigned_argument [OF ls _ st(3)] v(1) has(7) final_flags_mask [OF fs, of unsigned_mask] st(4) by simp
  qed
  moreover have base: "p_base st \<in> {8, 10, 16}" "p_base st \<noteq> 0" using st(5) by (auto simp: conversion_base_def)
  moreover have "doM [INT2BASE 65 v, pad_right, cut_string] ?st = Inr ((), emit ?t (fix_prec ?st))"
  proof -
    have "doM [INT2BASE 65 v, pad_right] ?st = Inr ((), emit ?t (fix_prec ?st))"
      using int_conversion_text [of ?st v] st(1,2) base range t by simp
    moreover have "cut_string (emit ?t (fix_prec ?st)) = Inr ((), emit ?t (fix_prec ?st))"
      using fits by (simp add: cut_string_def bindM_step whenM_def)
    ultimately show ?thesis by (auto simp: thenM_def bindM_eval split: sum.splits)
  qed
  ultimately show ?thesis
    unfolding int_output_def by (simp add: bindM_step thenM_step del: doM.simps)
qed


lemma print_spec_int:
  assumes at: "holds m p (spec_text fs ws ps ls c)" and sp: "int_spec fs ws ps ls c"
    and st: "sound st" "p_arg st = a # args"
    and v: "argument_value ls (signed_conversion c) a = Some v" "\<not> octal_clash fs (map_option (value_from 10 0) ps) c v"
    and t: "t = standard_text fs (value_from 10 0 ws) (map_option (value_from 10 0) ps) c v" "p_i st + length t < p_n st"
  shows "\<exists>st'. print_spec m p st = Inr (Some (p + length (spec_text fs ws ps ls c)), emit t st') \<and>
    st' = st\<lparr>p_base := p_base st', p_flags := p_flags st', p_current := 0, p_width := p_width st', p_prec := p_prec st', p_arg := args\<rparr>"
proof -
  let ?pt = "case ps of None \<Rightarrow> [] | Some ds \<Rightarrow> CHR ''.'' # ds" and ?prec = "map_option (value_from 10 0) ps"
  let ?r3 = "ls @ [c]" and ?r2 = "?pt @ ls @ [c]" and ?r1 = "ws @ ?pt @ ls @ [c]"
  have fs: "set fs \<subseteq> set flag_chars" and ws: "\<forall>d \<in> set ws. is_digit 10 d" "value_from 10 0 ws < 2 ^ 31" "ws \<noteq> [] \<longrightarrow> hd ws \<noteq> CHR ''0''"
    and ls: "ls \<in> length_modifiers" and c: "c \<in> set int_conversions"
    and ds: "ps = Some ds \<Longrightarrow> (\<forall>d \<in> set ds. is_digit 10 d) \<and> value_from 10 0 ds < 2 ^ 31" for ds
    using sp by (auto simp: int_spec_def)
  have r3: "peek ?r3 0 \<in> set spec_tail" "peek ?r3 0 \<noteq> CHR ''.''" using modifier_tail [OF ls c] by simp_all
  have r2: "peek ?r2 0 \<in> set spec_tail" using r3(1) by (cases ps) (simp_all add: spec_tail_def)
  have r1: "peek ?r1 0 \<notin> set flag_chars \<and> peek ?r1 0 \<noteq> CHR ''%''"
  proof (cases ws)
    case Nil
    then show ?thesis using spec_tail_chars [OF r2] by simp
  next
    case (Cons d ds)
    then show ?thesis using digit_flag ws by simp
  qed
  have q1: "holds m (p + 1) (fs @ ?r1)" using at holds_Suc by (simp add: spec_text_def)
  have q2: "holds m (p + 1 + length fs) ?r1" using holds_add [OF q1, of "length fs"] by simp
  have q3: "holds m (p + 1 + length fs + length ws) ?r2" using holds_add [OF q2, of "length ws"] by simp
  have q4: "holds m (p + 1 + length fs + length ws + length ?pt) ?r3" using holds_add [OF q3, of "length ?pt"] by simp
  let ?q5 = "p + 1 + length fs + length ws + length ?pt + length ls"
  have q5: "rd m ?q5 = Inr c" using holds_rd_add [OF q4, of "length ls"] by (simp add: peek_def)
  have first: "rd m (p + 1) = Inr (peek (fs @ ?r1) 0)" by (rule holds_rd [OF q1])
  have nopercent: "peek (fs @ ?r1) 0 \<noteq> CHR ''%''" using r1 fs by (cases fs) (auto simp: flag_chars_def)
  let ?s1 = "st\<lparr>p_flags := 0, p_base := 0, p_current := 0, p_width := 0, p_prec := - 1\<rparr>"
  let ?s2 = "?s1\<lparr>p_flags := flags_word fs 0 OR E_done\<rparr>"
  let ?s3 = "?s2\<lparr>p_width := value_from 10 0 ws\<rparr>"
  let ?s4 = "?s3\<lparr>p_prec := (case ?prec of None \<Rightarrow> - 1 | Some k \<Rightarrow> int k),
      p_flags := if ?prec = None then flags_word fs 0 OR E_done else (flags_word fs 0 OR E_done) AND NOT E_zero\<rparr>"
  let ?s5 = "?s4\<lparr>p_flags := p_flags ?s4 OR length_flag ls\<rparr>"
  let ?s6 = "?s5\<lparr>p_base := int (conversion_base c), p_flags := final_flags fs ?prec ls c\<rparr>"
  have init: "init_status st = Inr ((), ?s1)" by (simp add: init_status_def)
  have e1: "parse_flags m (p + 1) ?s1 = Inr (p + 1 + length fs, ?s2)"
    using parse_flags_holds [OF q1 fs, of ?s1] r1 by simp
  have e2: "parse_width m (p + 1 + length fs) ?s2 = Inr (p + 1 + length fs + length ws, ?s3)"
    using spec_tail_chars [OF r2] by (intro parse_width_holds [OF q2 ws(1,2)]) simp_all
  have e3: "parse_prec m (p + 1 + length fs + length ws) ?s3 = Inr (p + 1 + length fs + length ws + length ?pt, ?s4)"
  proof (cases ps)
    case None
    then show ?thesis using parse_prec_none [of m _ ?r3 ?s3] q3 r3(2) by simp
  next
    case (Some ds)
    then show ?thesis using parse_prec_some [of m _ ds ?r3 ?s3] q3 ds [OF Some] spec_tail_chars [OF r3(1)] by simp
  qed
  have e4: "parse_length m (p + 1 + length fs + length ws + length ?pt) ?s4 = Inr (?q5, ?s5)"
    by (rule parse_length_holds [OF q4 ls c])
  have s6: "?s5\<lparr>p_base := int (conversion_base c), p_flags := p_flags ?s5 OR conversion_flag c\<rparr> = ?s6"
    by (simp add: final_flags_def or.assoc)
  have "int_output ?s6 = Inr (True, emit t (fix_prec (?s6\<lparr>p_arg := args\<rparr>)))"
    using int_output_text [of ?s6 a args fs ?prec ls c v] st fs ls c v t by simp
  then have e5: "convert m p ?q5 ?s5 = Inr (Some (?q5 + 1), emit t (fix_prec (?s6\<lparr>p_arg := args\<rparr>)))"
    by (intro convert_int [OF q5 c]) (simp only: s6)
  have "print_spec m p st = Inr (Some (?q5 + 1), emit t (fix_prec (?s6\<lparr>p_arg := args\<rparr>)))"
    unfolding print_spec_def
    by (simp only: bindM_step thenM_step first liftM_eval nopercent if_False init e1 e2 e3 e4 e5)
  moreover have "?q5 + 1 = p + length (spec_text fs ws ps ls c)" by (simp add: spec_text_def)
  ultimately show ?thesis by (intro exI [of _ "fix_prec (?s6\<lparr>p_arg := args\<rparr>)"]) (simp add: fix_prec_def)
qed


lemma fold_put1_stream:
  "p_stream st = Some out \<Longrightarrow> p_i st + length w \<le> p_n st \<Longrightarrow> p_stream (fold put1 w st) = Some (out @ w)"
proof (induction w arbitrary: st out)
  case (Cons x w)
  have "p_stream (put1 x st) = Some (out @ [x])" using Cons.prems by (simp add: put1_def)
  then show ?case using Cons.IH [of "put1 x st" "out @ [x]"] Cons.prems(2) by simp
qed simp

lemma fold_put1_same:
  "p_s st = p_s st' \<Longrightarrow> p_stream st = p_stream st' \<Longrightarrow> p_i st = p_i st' \<Longrightarrow> p_n st = p_n st' \<Longrightarrow>
    p_s (fold put1 t st) = p_s (fold put1 t st') \<and> p_stream (fold put1 t st) = p_stream (fold put1 t st')"
proof (induction t arbitrary: st st')
  case (Cons x t)
  have "p_s (put1 x st) = p_s (put1 x st')" "p_stream (put1 x st) = p_stream (put1 x st')"
    using Cons.prems by (simp_all add: put1_def split: option.split)
  then show ?case unfolding fold.simps comp_apply using Cons.prems(3,4) by (intro Cons.IH) simp_all
qed simp

lemma print_loop_int:
  assumes at: "holds m p (spec_text fs ws ps ls c)" and sp: "int_spec fs ws ps ls c"
    and v: "argument_value ls (signed_conversion c) a = Some v" "\<not> octal_clash fs (map_option (value_from 10 0) ps) c v"
    and t: "t = standard_text fs (value_from 10 0 ws) (map_option (value_from 10 0) ps) c v" "length t < n"
    and sound: "sound (new_status n s stream [a])"
  shows "\<exists>st. print_loop (length m + 1) m (Some p) (new_status n s stream [a]) = Inr ((), st) \<and>
    p_i st = length t \<and> p_s st = p_s (fold put1 t (new_status n s stream [])) \<and>
    p_stream st = p_stream (fold put1 t (new_status n s stream [])) \<and> p_stores st = []"
proof -
  let ?spec = "spec_text fs ws ps ls c" and ?st = "new_status n s stream [a]" and ?new = "new_status n s stream []"
  have new: "p_arg ?st = [a]" by (simp add: new_status_def)
  have new2: "p_i ?st + length t < p_n ?st" using t(2) by (simp add: new_status_def)
  obtain st' where step: "print_spec m p ?st = Inr (Some (p + length ?spec), emit t st')"
    and st': "st' = ?st\<lparr>p_base := p_base st', p_flags := p_flags st', p_current := 0, p_width := p_width st', p_prec := p_prec st', p_arg := []\<rparr>"
    using print_spec_int [OF at sp sound new v t(1) new2] by (elim exE conjE) (rule that, assumption+)
  have two: "2 \<le> length ?spec" by (simp add: spec_text_def)
  have "length ?spec < length m" using at terminated_less [of m p] by (auto simp: holds_def)
  then obtain k where k: "length m + 1 = Suc (Suc k)" using two by (metis Suc_eq_plus1 not_less_zero less_nat_zero_code old.nat.exhaust)
  have first: "rd m p = Inr (CHR ''%'')" using holds_rd [OF at] by (simp add: spec_text_def)
  have last: "rd m (p + length ?spec) = Inr NUL" using holds_rd_add [OF at order_refl] by (simp add: peek_def)
  have "print_loop (Suc k) m (Some (p + length ?spec)) (emit t st') = Inr ((), emit t st')"
    using last by (simp add: bindM_step)
  then have "print_loop (length m + 1) m (Some p) ?st = Inr ((), emit t st')"
    unfolding k using first step two by (auto simp: bindM_step print_loop.simps(2) [of "Suc k"] simp del: print_loop.simps)
  moreover have st'_eq: "p_i st' = 0" "p_stores st' = []" "p_s st' = s" "p_stream st' = stream" "p_n st' = n"
    by (subst st', simp add: new_status_def)+
  have "p_i (emit t st') = length t" "p_stores (emit t st') = []" using st'_eq(1,2) by simp_all
  moreover have "p_s (emit t st') = p_s (fold put1 t ?new)" "p_stream (emit t st') = p_stream (fold put1 t ?new)"
    using fold_put1_same [of st' ?new t] st'_eq by (simp_all add: emit_def new_status_def)
  ultimately show ?thesis by (intro exI [of _ "emit t st'"] conjI)
qed

text \<open>C17: An integer conversion of \<open>printf\<close> and \<open>snprintf\<close>, from the characters of the format to what goes out, is what the C standard
  asks for (\<open>standard_text\<close>, which is stated without the model): for every combination of the flags \<open>-\<close>, \<open>+\<close>, space, \<open>#\<close> and \<open>0\<close>, every
  width and precision, the length modifiers of integers, the conversions \<open>d i o x X u\<close>, and every argument of the width that the modifier
  asks for. The number returned is the length of the text, nothing behind the terminator changes. The one exception is what
  \<open>octal_clash\<close> describes: \<open>#o\<close> with a precision that is longer than the number, or 0 for the value 0.\<close>

theorem int_conversion_correct:
  assumes "holds m p (spec_text fs ws ps ls c)" "int_spec fs ws ps ls c"
    and "argument_value ls (signed_conversion c) a = Some v"
    and "prec = map_option (value_from 10 0) ps" "\<not> octal_clash fs prec c v"
    and "t = standard_text fs (value_from 10 0 ws) prec c v"
  shows "(length t < n \<and> n \<le> length s \<longrightarrow> snprintf s n m p [a] = Inr (length t, t @ NUL # drop (length t + 1) s, [])) \<and>
    (length t < SIZE_MAX \<longrightarrow> printf out m p [a] = Inr (length t, out @ t, []))"
proof (intro conjI impI)
  assume n: "length t < n \<and> n \<le> length s"
  then obtain st where st: "print_loop (length m + 1) m (Some p) (new_status n s None [a]) = Inr ((), st)" "p_i st = length t"
      "p_stores st = []" "p_s st = p_s (fold put1 t (new_status n s None []))"
    using print_loop_int [OF assms(1-3), of t n s None] assms(4-6) by (auto simp: sound_def new_status_def)
  have "p_s st = t @ drop (length t) s" using st(4) n fold_put1_buffer [of "new_status n s None []" t] by (simp add: new_status_def)
  moreover have "drop (length t) s = s ! length t # drop (length t + 1) s" using n by (simp add: Cons_nth_drop_Suc)
  ultimately show "snprintf s n m p [a] = Inr (length t, t @ NUL # drop (length t + 1) s, [])"
    using n st(1-3) by (simp add: snprintf_def vsnprintf_def del: print_loop.simps)
next
  assume n: "length t < SIZE_MAX"
  then obtain st where st: "print_loop (length m + 1) m (Some p) (new_status SIZE_MAX [] (Some out) [a]) = Inr ((), st)" "p_i st = length t"
      "p_stores st = []" "p_stream st = p_stream (fold put1 t (new_status SIZE_MAX [] (Some out) []))"
    using print_loop_int [OF assms(1-3), of t SIZE_MAX "[]" "Some out"] assms(4-6) by (auto simp: sound_def new_status_def)
  have "p_stream st = Some (out @ t)"
    using st(4) n fold_put1_stream [of "new_status SIZE_MAX [] (Some out) []" out t] by (simp add: new_status_def)
  then show "printf out m p [a] = Inr (length t, out @ t, [])"
    using st(1-3) by (simp add: printf_def vfprintf_def del: print_loop.simps)
qed

text \<open>\<open>%+08d\<close> with 42, \<open>%#-6x|\<close> without the bar, and an octal number with precision 3.\<close>

theorem int_conversion_correct_witness:
  "snprintf (replicate 12 (CHR ''?'')) 12 (''%+08d'' @ [NUL]) 0 [W32 (- 42)] = Inr (8, ''-0000042'' @ NUL # ''???'', []) \<and>
    printf ''>'' (''%#-6x'' @ [NUL]) 0 [W32 255] = Inr (6, ''>0xff  '', []) \<and>
    printf [] (''%+6.4lld'' @ [NUL]) 0 [W64 7] = Inr (6, '' +0007'', [])"
proof -
  have 1: "holds (''%+08d'' @ [NUL]) 0 (spec_text ''+0'' ''8'' None [] (CHR ''d''))"
    "holds (''%#-6x'' @ [NUL]) 0 (spec_text ''#-'' ''6'' None [] (CHR ''x''))"
    "holds (''%+6.4lld'' @ [NUL]) 0 (spec_text ''+'' ''6'' (Some ''4'') ''ll'' (CHR ''d''))"
    using holds_front [of "''%+08d''" "[]"] holds_front [of "''%#-6x''" "[]"] holds_front [of "''%+6.4lld''" "[]"]
    by (simp_all add: spec_text_def)
  have 2: "int_spec ''+0'' ''8'' None [] (CHR ''d'')" "int_spec ''#-'' ''6'' None [] (CHR ''x'')"
    "int_spec ''+'' ''6'' (Some ''4'') ''ll'' (CHR ''d'')"
    by code_simp+
  have 3: "argument_value [] (signed_conversion (CHR ''d'')) (W32 (- 42)) = Some (- 42)"
    "argument_value [] (signed_conversion (CHR ''x'')) (W32 255) = Some 255"
    "argument_value ''ll'' (signed_conversion (CHR ''d'')) (W64 7) = Some 7"
    by code_simp+
  have 4: "None = map_option (value_from 10 0) None" "Some 4 = map_option (value_from 10 0) (Some ''4'')" by code_simp+
  have 5: "\<not> octal_clash ''+0'' None (CHR ''d'') (- 42)" "\<not> octal_clash ''#-'' None (CHR ''x'') 255"
    "\<not> octal_clash ''+'' (Some 4) (CHR ''d'') 7" by (simp_all add: octal_clash_def)
  have 6: "''-0000042'' = standard_text ''+0'' (value_from 10 0 ''8'') None (CHR ''d'') (- 42)"
    "''0xff  '' = standard_text ''#-'' (value_from 10 0 ''6'') None (CHR ''x'') 255"
    "'' +0007'' = standard_text ''+'' (value_from 10 0 ''6'') (Some 4) (CHR ''d'') 7"
    by code_simp+
  note a = int_conversion_correct [OF 1(1) 2(1) 3(1) 4(1) 5(1) 6(1), THEN conjunct1, THEN mp]
    and b = int_conversion_correct [OF 1(2) 2(2) 3(2) 4(1) 5(2) 6(2), THEN conjunct2, THEN mp]
    and c = int_conversion_correct [OF 1(3) 2(3) 3(3) 4(2) 5(3) 6(3), THEN conjunct2, THEN mp]
  have "snprintf (replicate 12 (CHR ''?'')) 12 (''%+08d'' @ [NUL]) 0 [W32 (- 42)] = Inr (8, ''-0000042'' @ NUL # ''???'', [])"
    by (rule trans, rule a) (simp_all add: eval_nat_numeral)
  moreover have "printf ''>'' (''%#-6x'' @ [NUL]) 0 [W32 255] = Inr (6, ''>0xff  '', [])"
    by (rule trans, rule b) (simp_all add: SIZE_MAX_def)
  moreover have "printf [] (''%+6.4lld'' @ [NUL]) 0 [W64 7] = Inr (6, '' +0007'', [])"
    by (rule trans, rule c) (simp_all add: SIZE_MAX_def)
  ultimately show ?thesis by (intro conjI)
qed


text \<open>A specification that is excluded: \<open>%#.3o\<close> with 8 has a zero too many, \<open>%#.0o\<close> with 0 prints nothing.\<close>

lemma octal_prefix_wrong:
  "printf [] (''%#.3o'' @ [NUL]) 0 [W32 8] = Inr (4, ''0010'', []) \<and> standard_text ''#'' 0 (Some 3) (CHR ''o'') 8 = ''010''"
  "printf [] (''%#.0o'' @ [NUL]) 0 [W32 0] = Inr (0, [], []) \<and> standard_text ''#'' 0 (Some 0) (CHR ''o'') 0 = ''0''"
  by code_simp+

end
