(* ===== verification/CcText.thy ===== *)
theory CcText
  imports CBuffer
begin

text \<open>
  The text routines of the C compiler \<open>cc/cc.c\<close>: they search and rewrite, in place, the mapped
  source file, which is one buffer. A pointer is an index, a null pointer is \<open>None\<close>; a routine that
  returns an offset of its first argument, or \<open>-1\<close>, returns an option. The compiler replaces
  operators of two characters, calls, dereferences and addresses by single characters above
  \<open>0x7f\<close>, and moves the characters of literals above \<open>0x7f\<close> as well.
\<close>

definition TOK_CALL_OPEN :: char where "TOK_CALL_OPEN = CHR 0x80"
definition TOK_CALL_CLOSED :: char where "TOK_CALL_CLOSED = CHR 0x81"
definition TOK_SHL :: char where "TOK_SHL = CHR 0x82"
definition TOK_SHR :: char where "TOK_SHR = CHR 0x83"
definition TOK_LE :: char where "TOK_LE = CHR 0x84"
definition TOK_GE :: char where "TOK_GE = CHR 0x85"
definition TOK_EQ :: char where "TOK_EQ = CHR 0x86"
definition TOK_NE :: char where "TOK_NE = CHR 0x87"
definition TOK_AND :: char where "TOK_AND = CHR 0x88"
definition TOK_OR :: char where "TOK_OR = CHR 0x89"
definition TOK_DEREF :: char where "TOK_DEREF = CHR 0x8A"
definition TOK_ADDR :: char where "TOK_ADDR = CHR 0x8B"

lemmas TOK_defs = TOK_CALL_OPEN_def TOK_CALL_CLOSED_def TOK_SHL_def TOK_SHR_def TOK_LE_def TOK_GE_def
  TOK_EQ_def TOK_NE_def TOK_AND_def TOK_OR_def TOK_DEREF_def TOK_ADDR_def

section \<open>Characters and names\<close>

definition is_whitespace_c :: "char \<Rightarrow> bool" where
  "is_whitespace_c x \<longleftrightarrow> x = CHR '' '' \<or> x = CHR 0x09 \<or> x = CHR 0x0A"

definition is_id :: "char \<Rightarrow> bool" where
  "is_id x \<longleftrightarrow> schar (CHR ''a'') \<le> schar x \<and> schar x \<le> schar (CHR ''z'') \<or>
     schar (CHR ''A'') \<le> schar x \<and> schar x \<le> schar (CHR ''Z'') \<or>
     schar (CHR ''0'') \<le> schar x \<and> schar x \<le> schar (CHR ''9'') \<or> x = CHR ''_''"

definition escaped_c :: "char \<Rightarrow> char" where
  "escaped_c x =
     (if x = CHR ''n'' then CHR 0x0A else if x = CHR ''t'' then CHR 0x09 else if x = CHR ''0'' then NUL
      else if x = CHR 0x5C then CHR 0x5C else if x = CHR 0x27 then CHR 0x27 else NUL)"

definition is_in :: "char \<Rightarrow> string \<Rightarrow> bool" where
  "is_in x chars \<longleftrightarrow> x \<in> set chars"

text \<open>The second string of \<open>strncmp2\<close>, like the first of \<open>isstrpref\<close>, is a literal or the name in a
  slot of a table.\<close>

fun prefix_at :: "buf \<Rightarrow> nat \<Rightarrow> string \<Rightarrow> err + bool" where
  "prefix_at m p [] = Inr True"
| "prefix_at m p (x # xs) = bindR (rd m p) (\<lambda>c. if c \<noteq> x then Inr False else prefix_at m (p + 1) xs)"

definition strncmp2 :: "buf \<Rightarrow> nat \<Rightarrow> nat \<Rightarrow> string \<Rightarrow> err + bool" where
  "strncmp2 m b1 e1 b2 = (if int e1 - int b1 = int (length b2) then prefix_at m b1 b2 else Inr False)"

fun isstrpref :: "string \<Rightarrow> buf \<Rightarrow> nat \<Rightarrow> err + nat option" where
  "isstrpref [] m s2 = Inr (Some s2)"
| "isstrpref (x # s1) m s2 = bindR (rd m s2) (\<lambda>c. if x \<noteq> c then Inr None else isstrpref s1 m (s2 + 1))"

section \<open>Searching\<close>

text \<open>The first argument of the loop is \<open>end\<close>, which is decreased before each read.\<close>

fun matching_rev_loop :: "nat \<Rightarrow> char \<Rightarrow> char \<Rightarrow> buf \<Rightarrow> nat \<Rightarrow> int \<Rightarrow> err + nat option" where
  "matching_rev_loop 0 opener closed m begin depth = Inl Undef"
| "matching_rev_loop (Suc e) opener closed m begin depth =
     (if begin \<ge> e then
        bindR (rd m e) (\<lambda>c.
          (let depth = (if c = closed then depth + 1 else if c = opener then depth - 1 else depth) in
           if depth = 0 then Inr (Some e) else matching_rev_loop e opener closed m begin depth))
      else Inr None)"

definition find_matching_rev :: "char \<Rightarrow> char \<Rightarrow> buf \<Rightarrow> nat \<Rightarrow> nat \<Rightarrow> err + nat option" where
  "find_matching_rev opener closed m begin e = matching_rev_loop e opener closed m begin 0"

function matching_loop :: "char \<Rightarrow> char \<Rightarrow> buf \<Rightarrow> nat \<Rightarrow> nat \<Rightarrow> int \<Rightarrow> err + nat option" where
  "matching_loop opener closed m begin e depth =
     (if begin < e then
        bindR (rd m begin) (\<lambda>c.
          (let depth = (if c = opener then depth + 1 else if c = closed then depth - 1 else depth) in
           if depth = 0 then Inr (Some begin) else matching_loop opener closed m (begin + 1) e depth))
      else Inr None)"
  by pat_completeness auto
termination
  by (relation "measure (\<lambda>(opener, closed, m, begin, e, depth). e - begin)") auto

definition find_matching :: "char \<Rightarrow> char \<Rightarrow> buf \<Rightarrow> nat \<Rightarrow> nat \<Rightarrow> err + nat option" where
  "find_matching opener closed m begin e = matching_loop opener closed m begin e 0"

text \<open>An end that lies before \<open>s\<close> is never met.\<close>

function find_char_c_loop :: "buf \<Rightarrow> nat \<Rightarrow> nat \<Rightarrow> char \<Rightarrow> nat \<Rightarrow> err + nat option" where
  "find_char_c_loop m s e c s2 =
     (if s2 = e then Inr None
      else bindR (rd m s2) (\<lambda>x. if x = c then Inr (Some (s2 - s)) else if x = NUL then Inr None
        else find_char_c_loop m s e c (s2 + 1)))"
  by pat_completeness auto
termination
  by (relation "measure (\<lambda>(m, s, e, c, s2). length m - s2)") (auto dest: rd_InrD)

definition find_char_c :: "buf \<Rightarrow> nat \<Rightarrow> nat \<Rightarrow> char \<Rightarrow> err + nat option" where
  "find_char_c m s e c = find_char_c_loop m s e c s"

text \<open>The result is the place that was found, not its offset; the callers only add the offset to \<open>s\<close>
  again.\<close>

fun find_char_back :: "buf \<Rightarrow> nat \<Rightarrow> nat \<Rightarrow> char \<Rightarrow> err + nat option" where
  "find_char_back m s 0 c = Inl Undef"
| "find_char_back m s (Suc s2) c =
     bindR (rd m s2) (\<lambda>x. if x = c then Inr (Some s2) else if s2 = s then Inr None else find_char_back m s s2 c)"

section \<open>Rewriting\<close>

text \<open>\<open>remove_spaces\<close> goes on to the terminator when its end is null.\<close>

function spaces_loop :: "buf \<Rightarrow> nat \<Rightarrow> nat option \<Rightarrow> nat \<Rightarrow> err + buf" where
  "spaces_loop m begin e r =
     (if Some r = e then (if Some begin \<noteq> e then wr m begin NUL else Inr m)
      else bindR (rd m r) (\<lambda>c.
        if c = NUL then wr m begin NUL
        else if is_whitespace_c c then spaces_loop m begin e (r + 1)
        else bindR (wr m begin c) (\<lambda>m'. spaces_loop m' (begin + 1) e (r + 1))))"
  by pat_completeness auto
termination
  by (relation "measure (\<lambda>(m, begin, e, r). length m - r)") (auto dest!: rd_InrD wr_InrD)

definition remove_spaces_c :: "buf \<Rightarrow> nat \<Rightarrow> nat option \<Rightarrow> err + buf" where
  "remove_spaces_c m begin e = spaces_loop m begin e begin"

function skip_blanks :: "buf \<Rightarrow> nat \<Rightarrow> err + nat" where
  "skip_blanks m r = bindR (rd m r) (\<lambda>c. if is_whitespace_c c then skip_blanks m (r + 1) else Inr r)"
  by pat_completeness auto
termination
  by (relation "measure (\<lambda>(m, r). length m - r)") (auto dest!: rd_InrD)

function move_back :: "buf \<Rightarrow> nat \<Rightarrow> nat \<Rightarrow> err + buf \<times> nat" where
  "move_back m w r =
     bindR (rd m r) (\<lambda>c. if c \<noteq> NUL then bindR (wr m w c) (\<lambda>m'. move_back m' (w + 1) (r + 1)) else Inr (m, w))"
  by pat_completeness auto
termination
  by (relation "measure (\<lambda>(m, w, r). length m - r)") (auto dest!: rd_InrD wr_InrD)

text \<open>The last loop runs \<open>write_buf\<close> down; the third argument is \<open>write_buf + 1\<close>.\<close>

fun cut_blanks :: "buf \<Rightarrow> nat \<Rightarrow> nat \<Rightarrow> err + buf" where
  "cut_blanks m p 0 = Inr m"
| "cut_blanks m p (Suc w) =
     (if p < Suc w
      then bindR (rd m w) (\<lambda>c. if is_whitespace_c c then bindR (wr m w NUL) (\<lambda>m'. cut_blanks m' p w) else Inr m)
      else Inr m)"

definition trimstr_c :: "buf \<Rightarrow> nat \<Rightarrow> err + buf" where
  "trimstr_c m p = bindR (skip_blanks m p) (\<lambda>r. bindR (move_back m p r) (\<lambda>(m, w).
     bindR (wr m w NUL) (\<lambda>m. cut_blanks m p w)))"

declare matching_loop.simps [simp del] find_char_c_loop.simps [simp del] spaces_loop.simps [simp del]
  skip_blanks.simps [simp del] move_back.simps [simp del]

section \<open>Operators\<close>

definition two_chars :: "char \<Rightarrow> char \<Rightarrow> char option" where
  "two_chars x y =
     (if x = CHR ''<'' \<and> y = CHR ''<'' then Some TOK_SHL
      else if x = CHR ''>'' \<and> y = CHR ''>'' then Some TOK_SHR
      else if x = CHR ''<'' \<and> y = CHR ''='' then Some TOK_LE
      else if x = CHR ''>'' \<and> y = CHR ''='' then Some TOK_GE
      else if x = CHR ''='' \<and> y = CHR ''='' then Some TOK_EQ
      else if x = CHR ''!'' \<and> y = CHR ''='' then Some TOK_NE
      else if x = CHR ''&'' \<and> y = CHR ''&'' then Some TOK_AND
      else if x = CHR ''|'' \<and> y = CHR ''|'' then Some TOK_OR
      else None)"

definition fuse_at :: "buf \<Rightarrow> nat \<Rightarrow> char \<Rightarrow> err + buf" where
  "fuse_at m p x = bindR (rd m (p + 1)) (\<lambda>y. case two_chars x y of
     None \<Rightarrow> Inr m
   | Some t \<Rightarrow> bindR (wr m p t) (\<lambda>m. wr m (p + 1) (CHR '' '')))"

lemma fuse_at_length: "fuse_at m p x = Inr m' \<Longrightarrow> length m' = length m"
  by (auto simp: fuse_at_def bindR_Inr dest!: wr_InrD split: option.splits)

function fix_operations :: "buf \<Rightarrow> nat \<Rightarrow> err + buf" where
  "fix_operations m p =
     bindR (rd m p) (\<lambda>x. if x = NUL then Inr m
       else bindR (fuse_at m p x) (\<lambda>m'. fix_operations m' (p + 1)))"
  by pat_completeness auto
termination
  by (relation "measure (\<lambda>(m, p). length m - p)") (auto dest!: rd_InrD fuse_at_length)

text \<open>\<open>exp + strlen(exp)\<close>, the end of the search for the closing parenthesis.\<close>

function string_end_at :: "buf \<Rightarrow> nat \<Rightarrow> err + nat" where
  "string_end_at m p = bindR (rd m p) (\<lambda>c. if c \<noteq> NUL then string_end_at m (p + 1) else Inr p)"
  by pat_completeness auto
termination
  by (relation "measure (\<lambda>(m, p). length m - p)") (auto dest!: rd_InrD)

declare string_end_at.simps [simp del] fix_operations.simps [simp del]

definition fix_char :: "buf \<Rightarrow> nat \<Rightarrow> bool \<Rightarrow> char \<Rightarrow> err + buf" where
  "fix_char m p prev_is_id x =
     (if \<not> prev_is_id then
        (if x = CHR ''*'' then wr m p TOK_DEREF else if x = CHR ''&'' then wr m p TOK_ADDR else Inr m)
      else if x = CHR ''('' then
        bindR (string_end_at m p) (\<lambda>e. bindR (find_matching (CHR ''('') (CHR '')'') m p e) (\<lambda>match.
        case match of
          None \<Rightarrow> Inl Panic
        | Some q \<Rightarrow> bindR (wr m p TOK_CALL_OPEN) (\<lambda>m. wr m q TOK_CALL_CLOSED)))
      else Inr m)"

lemma wr_length: "wr m p c = Inr m' \<Longrightarrow> length m' = length m"
  by (auto dest: wr_InrD)

lemma fix_char_length: "fix_char m p b x = Inr m' \<Longrightarrow> length m' = length m"
  by (auto simp: fix_char_def bindR_Inr dest!: wr_length split: if_splits option.splits)

function fix_operations2 :: "buf \<Rightarrow> nat \<Rightarrow> bool \<Rightarrow> err + buf" where
  "fix_operations2 m p prev_is_id =
     bindR (rd m p) (\<lambda>x. if x = NUL then Inr m
       else bindR (fix_char m p prev_is_id x) (\<lambda>m'. bindR (rd m' p) (\<lambda>x.
         fix_operations2 m' (p + 1) (is_id x \<or> x = CHR '')''))))"
  by pat_completeness auto
termination
  by (relation "measure (\<lambda>(m, p, b). length m - p)") (auto dest!: rd_InrD fix_char_length)

section \<open>Literals and comments\<close>

definition above :: "char \<Rightarrow> char" where
  "above c = char_of (uchar c + 128)"

text \<open>One round of \<open>fix_strings\<close>: the new mode and the characters written at \<open>begin\<close>.\<close>

definition fix_literal :: "buf \<Rightarrow> nat \<Rightarrow> nat \<Rightarrow> char \<Rightarrow> nat \<Rightarrow> char \<Rightarrow> err + (nat \<times> string)" where
  "fix_literal m begin e x mode quote =
     (if x = quote then Inr (0, [x])
      else if x = CHR 0x5C then
        (if begin + 1 < e then bindR (rd m (begin + 1)) (\<lambda>y. Inr (mode, [above x, above y])) else Inl Panic)
      else if schar x \<ge> 0x20 then Inr (mode, [above x]) else Inl Panic)"

definition fix_round :: "buf \<Rightarrow> nat \<Rightarrow> nat \<Rightarrow> nat \<Rightarrow> err + (nat \<times> string)" where
  "fix_round m begin e mode =
     bindR (rd m begin) (\<lambda>x. if \<not> uchar x < 128 then Inl Panic
     else bindR (if begin + 1 < e then rd m (begin + 1) else Inr NUL) (\<lambda>y.
       if mode = 0 then
         (if x = CHR 0x27 then Inr (1, [x])
          else if x = CHR 0x22 then Inr (2, [x])
          else if begin + 1 < e \<and> x = CHR ''/'' \<and> y = CHR ''/'' then Inr (3, ''  '')
          else if begin + 1 < e \<and> x = CHR ''/'' \<and> y = CHR ''*'' then Inr (4, ''  '')
          else if x = CHR ''#'' then Inr (3, '' '')
          else Inr (0, [if is_whitespace_c x then CHR '' '' else x]))
       else if mode = 1 then fix_literal m begin e x 1 (CHR 0x27)
       else if mode = 2 then fix_literal m begin e x 2 (CHR 0x22)
       else if mode = 3 then Inr (if x = CHR 0x0A then 0 else 3, '' '')
       else if mode = 4 then
         (if begin + 1 < e \<and> x = CHR ''*'' \<and> y = CHR ''/'' then Inr (0, ''  '') else Inr (4, '' ''))
       else Inr (mode, [x])))"

fun wr_all :: "buf \<Rightarrow> nat \<Rightarrow> string \<Rightarrow> err + buf" where
  "wr_all m p [] = Inr m"
| "wr_all m p (c # s) = bindR (wr m p c) (\<lambda>m. wr_all m (p + 1) s)"

lemma fix_round_some: "fix_round m begin e mode = Inr (mode', s) \<Longrightarrow> 0 < length s"
  by (auto simp: fix_round_def fix_literal_def bindR_Inr split: if_splits)

function fix_strings :: "buf \<Rightarrow> nat \<Rightarrow> nat \<Rightarrow> nat \<Rightarrow> err + buf" where
  "fix_strings m begin e mode =
     (if begin < e then
        bindR (fix_round m begin e mode) (\<lambda>(mode', s).
        bindR (wr_all m begin s) (\<lambda>m'. fix_strings m' (begin + length s) e mode'))
      else Inr m)"
  by pat_completeness auto
termination
  by (relation "measure (\<lambda>(m, begin, e, mode). e - begin)") (auto dest!: fix_round_some simp flip: length_greater_0_conv)

declare fix_operations2.simps [simp del] fix_strings.simps [simp del]

section \<open>Numbers\<close>

text \<open>The result is whether the digits are accepted, and \<open>*num\<close>.\<close>

function number_loop :: "buf \<Rightarrow> nat \<Rightarrow> nat \<Rightarrow> bool \<Rightarrow> bool \<Rightarrow> 32 word \<Rightarrow> err + (bool \<times> 32 word)" where
  "number_loop m begin e is_decimal digit_seen num =
     (if begin = e then Inr (digit_seen, num)
      else bindR (rd m begin) (\<lambda>c.
        (let num = num * (if is_decimal then 10 else 16) in
         if schar (CHR ''0'') \<le> schar c \<and> schar c \<le> schar (CHR ''9'')
         then number_loop m (begin + 1) e is_decimal True (num + of_int (schar c - schar (CHR ''0'')))
         else if \<not> is_decimal \<and> schar (CHR ''a'') \<le> schar c \<and> schar c \<le> schar (CHR ''f'')
         then number_loop m (begin + 1) e is_decimal True (num + of_int (schar c - schar (CHR ''a'')) + 10)
         else Inr (False, num))))"
  by pat_completeness auto
termination
  by (relation "measure (\<lambda>(m, begin, r). length m - begin)") (auto dest: rd_InrD)

declare number_loop.simps [simp del]

text \<open>The test for the prefix compares the same character twice.\<close>

definition decode_number_c :: "buf \<Rightarrow> nat \<Rightarrow> nat \<Rightarrow> err + (bool \<times> 32 word)" where
  "decode_number_c m begin e = bindR (rd m begin) (\<lambda>c.
     if c = CHR ''0'' \<and> c = CHR ''x'' then number_loop m (begin + 2) e False False 0
     else number_loop m begin e True False 0)"

section \<open>What fix_strings computes\<close>

text \<open>The same rounds on the text that is left. \<open>next_round\<close> gives the new mode, the characters written and
  the text after them.\<close>

definition literal_round :: "char \<Rightarrow> string \<Rightarrow> nat \<Rightarrow> char \<Rightarrow> err + (nat \<times> string \<times> string)" where
  "literal_round x t mode quote =
     (if x = quote then Inr (0, [x], t)
      else if x = CHR 0x5C then (case t of [] \<Rightarrow> Inl Panic | y # t \<Rightarrow> Inr (mode, [above x, above y], t))
      else if schar x \<ge> 0x20 then Inr (mode, [above x], t) else Inl Panic)"

definition next_round :: "nat \<Rightarrow> char \<Rightarrow> string \<Rightarrow> err + (nat \<times> string \<times> string)" where
  "next_round mode x t =
     (if \<not> uchar x < 128 then Inl Panic
      else if mode = 0 then
        (if x = CHR 0x27 then Inr (1, [x], t)
         else if x = CHR 0x22 then Inr (2, [x], t)
         else if x = CHR ''/'' \<and> t \<noteq> [] \<and> hd t = CHR ''/'' then Inr (3, ''  '', tl t)
         else if x = CHR ''/'' \<and> t \<noteq> [] \<and> hd t = CHR ''*'' then Inr (4, ''  '', tl t)
         else if x = CHR ''#'' then Inr (3, '' '', t)
         else Inr (0, [if is_whitespace_c x then CHR '' '' else x], t))
      else if mode = 1 then literal_round x t 1 (CHR 0x27)
      else if mode = 2 then literal_round x t 2 (CHR 0x22)
      else if mode = 3 then Inr (if x = CHR 0x0A then 0 else 3, '' '', t)
      else if mode = 4 then
        (if x = CHR ''*'' \<and> t \<noteq> [] \<and> hd t = CHR ''/'' then Inr (0, ''  '', tl t) else Inr (4, '' '', t))
      else Inr (mode, [x], t))"

lemma next_round_shorter: "next_round mode x t = Inr (mode', s, r) \<Longrightarrow> length r \<le> length t \<and> length s + length r = Suc (length t)"
  by (auto simp: next_round_def literal_round_def split: if_splits list.splits)

function scan_text :: "nat \<Rightarrow> string \<Rightarrow> err + string" where
  "scan_text mode [] = Inr []"
| "scan_text mode (x # t) = bindR (next_round mode x t) (\<lambda>(mode', s, r). bindR (scan_text mode' r) (\<lambda>u. Inr (s @ u)))"
  by pat_completeness auto
termination
  by (relation "measure (\<lambda>(mode, t). length t)") (auto dest: next_round_shorter)

lemma wr_all_split: "wr_all (pre @ s @ post) (length pre) t = Inr (pre @ t @ drop (length t) (s @ post))"
  if "length t \<le> length s"
  using that
proof (induction t arbitrary: pre s)
  case (Cons c t)
  then obtain d s' where s: "s = d # s'" by (cases s) auto
  then show ?case using Cons.IH [of s' "pre @ [c]"] Cons.prems by simp
qed simp

lemma fix_round_next:
  "fix_round (pre @ (x # t) @ post) (length pre) (length pre + length (x # t)) mode =
     map_sum id (\<lambda>(mode', s, r). (mode', s)) (next_round mode x t)"
  by (cases t) (auto simp: fix_round_def next_round_def fix_literal_def literal_round_def nth_append)

lemma next_round_split: "next_round mode x t = Inr (mode', s, r) \<Longrightarrow> \<exists>u. x # t = u @ r \<and> length u = length s"
  by (cases t) (auto simp: next_round_def literal_round_def Cons_eq_append_conv split: if_splits)

lemma fix_strings_scan:
  "fix_strings (pre @ t @ post) (length pre) (length pre + length t) mode =
     map_sum id (\<lambda>u. pre @ u @ post) (scan_text mode t)"
proof (induction mode t arbitrary: pre rule: scan_text.induct)
  case (1 mode)
  then show ?case by (simp add: fix_strings.simps)
next
  case (2 mode x t)
  show ?case
  proof (cases "next_round mode x t")
    case (Inl err)
    then show ?thesis
      using fix_round_next [of pre x t post mode] by (subst fix_strings.simps) simp
  next
    case (Inr res)
    obtain mode' s r where res: "res = (mode', s, r)" by (cases res)
    obtain u where u: "x # t = u @ r" "length u = length s" using next_round_split Inr res by blast
    have src: "(x # t) @ post = u @ r @ post" and len: "length (x # t) = length (u @ r)" using u(1) by simp_all
    have round: "fix_round (pre @ u @ r @ post) (length pre) (length pre + length (u @ r)) mode = Inr (mode', s)"
      using fix_round_next [of pre x t post mode] Inr res unfolding src len by simp
    have stored: "wr_all (pre @ u @ r @ post) (length pre) s = Inr (pre @ s @ r @ post)"
      using wr_all_split [of s u pre "r @ post"] u(2) by simp
    have "length s > 0" using next_round_shorter Inr res by fastforce
    then have step: "fix_strings (pre @ (x # t) @ post) (length pre) (length pre + length (x # t)) mode =
        fix_strings (pre @ s @ r @ post) (length pre + length s) (length pre + length (u @ r)) mode'"
      using round stored unfolding src len by (subst fix_strings.simps) (simp add: u(2))
    also have "\<dots> = map_sum id (\<lambda>v. (pre @ s) @ v @ post) (scan_text mode' r)"
      using "2.IH" [OF _ refl refl, of mode' s r "pre @ s"] Inr res u(2) by (simp add: add.assoc id_def)
    finally show ?thesis using Inr res by (cases "scan_text mode' r") simp_all
  qed
qed

text \<open>A source text in pieces: characters of the program, comments that end with their line, comments in
  \<open>/* */\<close>, and literals with plain and escaped characters.\<close>

datatype item = Lit char | Esc char

datatype piece = Code char | Line string string | Remark string | Quoted char "item list"

fun item_text :: "item \<Rightarrow> string" where
  "item_text (Lit c) = [c]"
| "item_text (Esc c) = [CHR 0x5C, c]"

fun piece_text :: "piece \<Rightarrow> string" where
  "piece_text (Code c) = [c]"
| "piece_text (Line start s) = start @ s @ [CHR 0x0A]"
| "piece_text (Remark s) = ''/*'' @ s @ ''*/''"
| "piece_text (Quoted q is) = q # concat (map item_text is) @ [q]"

text \<open>What becomes of a piece: white space is made a blank, a comment is blanked out, the characters between
  the quotes get their high bit set.\<close>

fun piece_marked :: "piece \<Rightarrow> string" where
  "piece_marked (Code c) = [if is_whitespace_c c then CHR '' '' else c]"
| "piece_marked (Line start s) = replicate (length start + length s + 1) (CHR '' '')"
| "piece_marked (Remark s) = replicate (length s + 4) (CHR '' '')"
| "piece_marked (Quoted q is) = q # map above (concat (map item_text is)) @ [q]"

fun item_ok :: "char \<Rightarrow> item \<Rightarrow> bool" where
  "item_ok q (Lit c) \<longleftrightarrow> c \<noteq> q \<and> c \<noteq> CHR 0x5C \<and> 0x20 \<le> uchar c \<and> uchar c < 128"
| "item_ok q (Esc c) \<longleftrightarrow> True"

text \<open>The text after a piece matters only for a slash, which must not begin a comment.\<close>

fun piece_ok :: "piece \<Rightarrow> string \<Rightarrow> bool" where
  "piece_ok (Code c) rest \<longleftrightarrow> uchar c < 128 \<and> c \<notin> {CHR 0x27, CHR 0x22, CHR ''#''} \<and>
     (c = CHR ''/'' \<longrightarrow> rest = [] \<or> hd rest \<notin> {CHR ''/'', CHR ''*''})"
| "piece_ok (Line start s) rest \<longleftrightarrow> start \<in> {''//'', ''#''} \<and> CHR 0x0A \<notin> set s \<and> (\<forall>c\<in>set s. uchar c < 128)"
| "piece_ok (Remark s) rest \<longleftrightarrow> (\<forall>c\<in>set s. uchar c < 128) \<and> (\<forall>u v. s @ ''*'' \<noteq> u @ ''*/'' @ v)"
| "piece_ok (Quoted q is) rest \<longleftrightarrow> q \<in> {CHR 0x27, CHR 0x22} \<and> list_all (item_ok q) is"

fun pieces_ok :: "piece list \<Rightarrow> bool" where
  "pieces_ok [] \<longleftrightarrow> True"
| "pieces_ok (p # ps) \<longleftrightarrow> piece_ok p (concat (map piece_text ps)) \<and> pieces_ok ps"

lemma scan_line:
  "CHR 0x0A \<notin> set s \<Longrightarrow> \<forall>c\<in>set s. uchar c < 128 \<Longrightarrow>
     scan_text 3 (s @ CHR 0x0A # t) = map_sum id (\<lambda>u. replicate (length s + 1) (CHR '' '') @ u) (scan_text 0 t)"
proof (induction s)
  case Nil
  then show ?case by (cases "scan_text 0 t") (simp_all add: next_round_def uchar_def)
next
  case (Cons c s)
  then show ?case by (cases "scan_text 0 t") (auto simp: next_round_def)
qed

lemma scan_remark:
  "\<forall>c\<in>set s. uchar c < 128 \<Longrightarrow> \<forall>u v. s @ ''*'' \<noteq> u @ ''*/'' @ v \<Longrightarrow>
     scan_text 4 (s @ ''*/'' @ t) = map_sum id (\<lambda>u. replicate (length s + 2) (CHR '' '') @ u) (scan_text 0 t)"
proof (induction s)
  case Nil
  then show ?case by (cases "scan_text 0 t") (simp_all add: next_round_def uchar_def)
next
  case (Cons c s)
  have "\<forall>u v. s @ ''*'' \<noteq> u @ ''*/'' @ v"
    using Cons.prems(2) by (metis append_Cons)
  moreover have "\<not> (c = CHR ''*'' \<and> hd (s @ ''*/'' @ t) = CHR ''/'')"
    using Cons.prems(2) by (cases s) (auto dest: spec [of _ "[]"])
  ultimately show ?case using Cons
    by (cases "scan_text 0 t") (auto simp: next_round_def)
qed

lemma scan_item:
  assumes "q = CHR 0x27 \<and> mode = 1 \<or> q = CHR 0x22 \<and> mode = 2" "item_ok q i"
  shows "scan_text mode (item_text i @ t) = map_sum id (\<lambda>u. map above (item_text i) @ u) (scan_text mode t)"
proof (cases i)
  case (Lit c)
  then have "c \<noteq> q" "c \<noteq> CHR 0x5C" "0x20 \<le> schar c" "uchar c < 128"
    using assms(2) by (simp_all add: schar_def)
  with assms(1) have "next_round mode c t = Inr (mode, [above c], t)"
    by (elim disjE conjE) (simp_all add: next_round_def literal_round_def)
  then show ?thesis using Lit by (cases "scan_text mode t") simp_all
next
  case (Esc c)
  have "uchar (CHR 0x5C) < 128" by (simp add: uchar_def)
  with assms(1) have "next_round mode (CHR 0x5C) (c # t) = Inr (mode, [above (CHR 0x5C), above c], t)"
    by (elim disjE conjE) (simp_all add: next_round_def literal_round_def)
  then show ?thesis using Esc by (cases "scan_text mode t") simp_all
qed

lemma scan_items:
  assumes "q = CHR 0x27 \<and> mode = 1 \<or> q = CHR 0x22 \<and> mode = 2"
  shows "list_all (item_ok q) is \<Longrightarrow>
     scan_text mode (concat (map item_text is) @ q # t) =
       map_sum id (\<lambda>u. map above (concat (map item_text is)) @ q # u) (scan_text 0 t)"
proof (induction "is")
  case Nil
  from assms have "next_round mode q t = Inr (0, [q], t)"
    by (elim disjE conjE) (simp_all add: next_round_def literal_round_def uchar_def)
  then show ?case by (cases "scan_text 0 t") simp_all
next
  case (Cons i "is")
  then show ?case using scan_item [OF assms, of i] by (cases "scan_text 0 t") simp_all
qed

lemma scan_piece:
  assumes "piece_ok p t"
  shows "scan_text 0 (piece_text p @ t) = map_sum id (\<lambda>u. piece_marked p @ u) (scan_text 0 t)"
proof (cases p)
  case (Code c)
  then show ?thesis using assms
    by (cases "scan_text 0 t") (auto simp: next_round_def)
next
  case (Line start s)
  then have start: "start = ''//'' \<or> start = ''#''" and s: "CHR 0x0A \<notin> set s" "\<forall>c\<in>set s. uchar c < 128"
    using assms by auto
  have "scan_text 0 (start @ v) = map_sum id (\<lambda>u. replicate (length start) (CHR '' '') @ u) (scan_text 3 v)" for v
    using start by (cases "scan_text 3 v") (auto simp: next_round_def uchar_def)
  then show ?thesis using scan_line [OF s, of t] Line
    by (cases "scan_text 0 t") (simp_all add: replicate_add replicate_append_same)
next
  case (Remark s)
  then have s: "\<forall>c\<in>set s. uchar c < 128" "\<forall>u v. s @ ''*'' \<noteq> u @ ''*/'' @ v" using assms by auto
  have "scan_text 0 (''/*'' @ v) = map_sum id (\<lambda>u. ''  '' @ u) (scan_text 4 v)" for v
    by (cases "scan_text 4 v") (auto simp: next_round_def uchar_def)
  then show ?thesis using scan_remark [OF s, of t] Remark
    by (cases "scan_text 0 t") (simp_all add: numeral_eq_Suc)
next
  case (Quoted q "is")
  then have q: "q = CHR 0x27 \<and> mode = 1 \<or> q = CHR 0x22 \<and> mode = 2" and items: "list_all (item_ok q) is"
    if "mode = (if q = CHR 0x27 then 1 else 2)" for mode :: nat
    using assms that by auto
  let ?mode = "if q = CHR 0x27 then 1 else 2 :: nat"
  have "scan_text 0 (q # v) = map_sum id (\<lambda>u. q # u) (scan_text ?mode v)" for v
    using q [OF refl] by (cases "scan_text ?mode v") (auto simp: next_round_def uchar_def)
  then show ?thesis using scan_items [OF q [OF refl] items [OF refl], of t] Quoted
    by (cases "scan_text 0 t") simp_all
qed

lemma scan_pieces: "pieces_ok ps \<Longrightarrow> scan_text 0 (concat (map piece_text ps)) = Inr (concat (map piece_marked ps))"
  by (induction ps) (simp_all add: scan_piece)

text \<open>C28: \<open>fix_strings\<close> marks a source text as intended: whatever precedes and follows it in memory, a text made of
  program characters, comments of the three forms and literals keeps its length; white space and comments
  become blanks, the characters of the literals, escaped quotes and comment signs included, get their high
  bit set, and everything else is left as it is.\<close>

theorem fix_strings_pieces:
  assumes "pieces_ok ps"
  shows "fix_strings (pre @ concat (map piece_text ps) @ post) (length pre) (length pre + length (concat (map piece_text ps))) 0 =
    Inr (pre @ concat (map piece_marked ps) @ post)"
  unfolding fix_strings_scan scan_pieces [OF assms] by simp

theorem fix_strings_pieces_witness:
  "fix_strings (''x'' @ ''a/* \" */b//'' @ [CHR 0x0A] @ ''y'') 1 13 0 = Inr (''xa       b   y'')"
proof -
  let ?ps = "[Code (CHR ''a''), Remark '' \" '', Code (CHR ''b''), Line ''//'' []]"
  have "'' \" *'' \<noteq> u @ ''*/'' @ v" for u v by (auto simp: Cons_eq_append_conv)
  then have "pieces_ok ?ps" by (simp add: uchar_def)
  from fix_strings_pieces [OF this, of "''x''" "''y''"] show ?thesis by (simp add: numeral_eq_Suc is_whitespace_c_def)
qed

end
