(* ===== verification/CcExpr.thy ===== *)
theory CcExpr
  imports CcText GCompiler
begin

text \<open>
  The C compiler \<open>cc/cc.c\<close>, up to expressions: its state, symbols and variable stack, and the code
  that an expression is compiled to. The emitter and the symbol table are those of the prototype
  compilers, with one location and no arity for a symbol; the state is theirs, extended by the text
  that is compiled (which is rewritten in place) and the compiler's own variables.

  \<open>eval_expr\<close> and its helpers do not change the text, so they get it as an argument. The recursion of
  \<open>eval_expr\<close> takes a number of steps; it goes to shorter texts, so the length of the text is enough.
\<close>

record cc = core +
  c_text :: buf
  c_block_depth :: int
  c_stack_depth :: int
  ret_depth :: int
  char_op :: bool
  string_num :: nat
  lab_id :: nat
  c_stack_vars :: "nat \<Rightarrow> string"
  c_string_ids :: "nat \<Rightarrow> nat"
  c_string_begin :: "nat \<Rightarrow> nat"
  c_string_end :: "nat \<Rightarrow> nat"

definition MAX_ID_LEN :: nat where "MAX_ID_LEN = 128"
definition STACK_LEN_c :: int where "STACK_LEN_c = 1024"
definition SYMBOL_TABLE_LEN_c :: nat where "SYMBOL_TABLE_LEN_c = 1024"
definition MAX_STRING_NUM :: nat where "MAX_STRING_NUM = 1024"

text \<open>A row of calls of \<open>emit\<close>.\<close>

definition emits :: "byte list \<Rightarrow> ('a core_scheme, unit) M" where
  "emits bs = doM (map emit bs)"

section \<open>Labels and symbols\<close>

definition gen_id :: "(cc, nat) M" where
  "gen_id = bindM (getM lab_id) (\<lambda>n. thenM (modM (\<lambda>s. s\<lparr>lab_id := n + 1\<rparr>)) (retM n))"

text \<open>\<open>sprintf\<close> with \<open>__label%d\<close>.\<close>

definition gen_lab :: "nat \<Rightarrow> string" where
  "gen_lab i = ''__label'' @ decimal i"

definition find_symbol_c :: "string \<Rightarrow> 'a core_scheme \<Rightarrow> nat" where
  "find_symbol_c name s =
     (let i = symbol_idx_loop (symbol_names s) (symbol_num s) name 0
      in if i = symbol_num s then SYMBOL_TABLE_LEN_c else i)"

function symbol2_loop :: "buf \<Rightarrow> nat \<Rightarrow> nat \<Rightarrow> (nat \<Rightarrow> string) \<Rightarrow> nat \<Rightarrow> nat \<Rightarrow> err + nat" where
  "symbol2_loop m begin e names num i =
     (if i < num then bindR (strncmp2 m begin e (names i)) (\<lambda>same.
        if same then Inr i else symbol2_loop m begin e names num (i + 1))
      else Inr i)"
  by pat_completeness auto
termination
  by (relation "measure (\<lambda>(m, begin, e, names, num, i). num - i)") auto

declare symbol2_loop.simps [simp del]

definition find_symbol2 :: "buf \<Rightarrow> nat \<Rightarrow> nat \<Rightarrow> 'a core_scheme \<Rightarrow> err + nat" where
  "find_symbol2 m begin e s =
     bindR (symbol2_loop m begin e (symbol_names s) (symbol_num s) 0) (\<lambda>i.
       Inr (if i = symbol_num s then SYMBOL_TABLE_LEN_c else i))"

definition get_symbol_c :: "string \<Rightarrow> ('a core_scheme, i32) M" where
  "get_symbol_c name =
     bindM (getM stage) (\<lambda>st.
       if st = 0 then retM 0
       else if st = 1 then
         bindM (getM (find_symbol_c name)) (\<lambda>pos.
         thenM (assertM (pos \<noteq> SYMBOL_TABLE_LEN_c)) (getM (\<lambda>s. symbol_locs s pos)))
       else failM Panic)"

definition get_symbol2 :: "buf \<Rightarrow> nat \<Rightarrow> nat \<Rightarrow> ('a core_scheme, i32) M" where
  "get_symbol2 m begin e =
     bindM (getM stage) (\<lambda>st.
       if st = 0 then retM 0
       else if st = 1 then
         bindM (getM (find_symbol2 m begin e)) (\<lambda>r. bindM (liftM r) (\<lambda>pos.
         thenM (assertM (pos \<noteq> SYMBOL_TABLE_LEN_c)) (getM (\<lambda>s. symbol_locs s pos))))
       else failM Panic)"

definition add_symbol_c :: "string \<Rightarrow> i32 \<Rightarrow> ('a core_scheme, unit) M" where
  "add_symbol_c name l =
     thenM (assertM (0 < length name))
    (thenM (assertM (length name < MAX_ID_LEN))
    (bindM (getM stage) (\<lambda>st. bindM (getM symbol_num) (\<lambda>n. bindM (getM (find_symbol_c name)) (\<lambda>idx.
       if st = 0 then
         thenM (assertM (idx = SYMBOL_TABLE_LEN_c))
        (thenM (assertM (n < SYMBOL_TABLE_LEN_c))
        (modM (\<lambda>s. s\<lparr>symbol_num := n + 1, symbol_names := (symbol_names s)(n := name),
                      symbol_locs := (symbol_locs s)(n := l)\<rparr>)))
       else if st = 1 then
         thenM (assertM (idx < n)) (bindM (getM (\<lambda>s. symbol_locs s idx)) (\<lambda>l'. assertM (l' = l)))
       else failM Panic)))))"

section \<open>The variable stack\<close>

text \<open>The name is copied to its slot; a depth below zero is an index before the array.\<close>

definition push_var_c :: "string \<Rightarrow> (cc, unit) M" where
  "push_var_c var_name =
     thenM (assertM (0 < length var_name))
    (thenM (assertM (length var_name < MAX_ID_LEN))
    (bindM (getM c_stack_depth) (\<lambda>d.
     thenM (assertM (d < STACK_LEN_c))
     (if d < 0 then failM Undef
      else modM (\<lambda>s. s\<lparr>c_stack_depth := d + 1, c_stack_vars := (c_stack_vars s)(nat d := var_name)\<rparr>)))))"

definition pop_var_c :: "(cc, unit) M" where
  "pop_var_c = modM (\<lambda>s. s\<lparr>c_stack_depth := c_stack_depth s - 1\<rparr>)"

definition pop_to_depth :: "int \<Rightarrow> (cc, unit) M" where
  "pop_to_depth depth = modM (\<lambda>s. s\<lparr>c_stack_depth := depth\<rparr>)"

text \<open>The result \<open>-1\<close> is \<open>None\<close>; \<open>depth\<close> is the depth of the stack, at least \<open>i\<close> in the loop.\<close>

function stack2_loop :: "buf \<Rightarrow> nat \<Rightarrow> nat \<Rightarrow> (nat \<Rightarrow> string) \<Rightarrow> int \<Rightarrow> int \<Rightarrow> err + int option" where
  "stack2_loop m begin e vars depth i =
     (if i < depth then bindR (strncmp2 m begin e (vars (nat (depth - 1 - i)))) (\<lambda>same.
        if same then Inr (Some i) else stack2_loop m begin e vars depth (i + 1))
      else Inr None)"
  by pat_completeness auto
termination
  by (relation "measure (\<lambda>(m, begin, e, vars, depth, i). nat (depth - i))") auto

declare stack2_loop.simps [simp del]

definition find_in_stack2 :: "buf \<Rightarrow> nat \<Rightarrow> nat \<Rightarrow> cc \<Rightarrow> err + int option" where
  "find_in_stack2 m begin e s = stack2_loop m begin e (c_stack_vars s) (c_stack_depth s) 0"

section \<open>Operators\<close>

text \<open>A text that is being evaluated: where it begins and ends, and whether its address is wanted.\<close>

type_synonym evaluator = "nat \<Rightarrow> nat \<Rightarrow> bool \<Rightarrow> (cc, unit) M"

definition push_temp :: "(cc, unit) M" where
  "push_temp = push_var_c ''__temp''"

definition run_assign :: "evaluator \<Rightarrow> nat \<Rightarrow> nat \<Rightarrow> nat \<Rightarrow> bool \<Rightarrow> (cc, unit) M" where
  "run_assign ev begin op e addr = doM
     [ev (op + 1) e False, ev begin op True, emit 0x58, pop_var_c, emit 0x59, pop_var_c,
      bindM (getM char_op) (\<lambda>c.
        if c then thenM (modM (\<lambda>s. s\<lparr>char_op := False\<rparr>)) (emits [0x88, 0x08]) else emits [0x89, 0x08]),
      push_temp, if addr then emit 0x50 else emit 0x51]"

lemma find_char_back_less: "find_char_back m s e c = Inr (Some p) \<Longrightarrow> p < e"
proof (induction m s e c rule: find_char_back.induct)
  case (2 m s s2 c)
  then show ?case by (fastforce simp: bindR_Inr split: if_splits)
qed simp

text \<open>The arguments are evaluated from the last to the first.\<close>

function call_params :: "evaluator \<Rightarrow> buf \<Rightarrow> nat \<Rightarrow> nat \<Rightarrow> nat \<Rightarrow> (cc, nat) M" where
  "call_params ev m params_begin params_end param_num =
     (if params_begin = params_end then retM param_num
      else case find_char_back m params_begin params_end (CHR '','') of
        Inl err \<Rightarrow> failM err
      | Inr (Some pos) \<Rightarrow> thenM (ev (pos + 1) params_end False) (call_params ev m params_begin pos (param_num + 1))
      | Inr None \<Rightarrow> thenM (ev params_begin params_end False) (retM (param_num + 1)))"
  by pat_completeness auto
termination
  by (relation "measure (\<lambda>(ev, m, params_begin, params_end, param_num). params_end)")
    (auto dest: find_char_back_less)

declare call_params.simps [simp del]

definition run_call :: "evaluator \<Rightarrow> buf \<Rightarrow> nat \<Rightarrow> nat \<Rightarrow> nat \<Rightarrow> bool \<Rightarrow> (cc, unit) M" where
  "run_call ev m begin op e addr =
     thenM (assertM (\<not> addr))
    (bindM (liftM (find_matching TOK_CALL_OPEN TOK_CALL_CLOSED m op e)) (\<lambda>match.
     thenM (assertM (match \<noteq> None))
    (thenM (assertM (match = Some (e - 1)))
    (bindM (call_params ev m (op + 1) (e - 1) 0) (\<lambda>param_num. doM
      [ev begin op True, pop_var_c, emit 0x58, emits [0xff, 0xd0], emits [0x81, 0xc4],
       emit32 (4 * of_nat param_num), repeatM param_num pop_var_c, push_temp, emit 0x50])))))"

definition run_deref :: "evaluator \<Rightarrow> nat \<Rightarrow> nat \<Rightarrow> nat \<Rightarrow> bool \<Rightarrow> (cc, unit) M" where
  "run_deref ev begin op e addr = doM
     [assertM (begin = op), ev (op + 1) e False, pop_var_c, emit 0x58, whenM (\<not> addr) (emits [0xb8, 0x00]),
      push_temp, emit 0x50]"

definition run_addr :: "evaluator \<Rightarrow> nat \<Rightarrow> nat \<Rightarrow> nat \<Rightarrow> bool \<Rightarrow> (cc, unit) M" where
  "run_addr ev begin op e addr = doM [assertM (\<not> addr), assertM (begin = op), ev (op + 1) e True]"

definition not_code :: "char \<Rightarrow> byte list" where
  "not_code x =
     (if x = CHR ''!'' then [0x83, 0xf8, 0x00, 0x74, 0x04, 0x31, 0xc0, 0xeb, 0x05, 0xb8] @ bytes32 1
      else [0xf7, 0xd0])"

definition run_not :: "evaluator \<Rightarrow> char \<Rightarrow> nat \<Rightarrow> nat \<Rightarrow> nat \<Rightarrow> bool \<Rightarrow> (cc, unit) M" where
  "run_not ev x begin op e addr = doM
     [assertM (\<not> addr), assertM (begin = op), ev (op + 1) e False, pop_var_c, emit 0x58, emits (not_code x),
      emit 0x50, push_temp]"

text \<open>The code of a comparison: the jump it begins with, if there is one for the operator.\<close>

definition compare_jump :: "char \<Rightarrow> byte option" where
  "compare_jump x =
     (if x = TOK_EQ then Some 0x74 else if x = TOK_NE then Some 0x75 else if x = CHR ''<'' then Some 0x7c
      else if x = TOK_LE then Some 0x7e else if x = CHR ''>'' then Some 0x7f else if x = TOK_GE then Some 0x7d
      else None)"

definition compare_code :: "byte \<Rightarrow> byte list" where
  "compare_code j = [0x39, 0xc8, j, 0x04, 0x31, 0xc0, 0xeb, 0x05, 0xb8] @ bytes32 1"

definition binary_code :: "char \<Rightarrow> byte list option" where
  "binary_code x =
     (if x = CHR ''+'' then Some [0x01, 0xc8]
      else if x = CHR ''-'' then Some [0x29, 0xc8]
      else if x = CHR ''*'' then Some [0xf7, 0xe9]
      else if x = CHR ''/'' then Some [0x31, 0xd2, 0xf7, 0xf9]
      else if x = CHR ''%'' then Some [0x31, 0xd2, 0xf7, 0xf9, 0x89, 0xd0]
      else if x = TOK_SHL then Some [0xd3, 0xe0]
      else if x = TOK_SHR then Some [0xd3, 0xe8]
      else if x = CHR ''&'' then Some [0x21, 0xc8]
      else if x = CHR ''|'' then Some [0x09, 0xc8]
      else if x = TOK_AND then
        Some ([0x83, 0xf8, 0x00, 0x74, 0x0c, 0x83, 0xf9, 0x00, 0x74, 0x07, 0xb8] @ bytes32 1 @ [0xeb, 0x02, 0x31, 0xc0])
      else if x = TOK_OR then
        Some ([0x83, 0xf8, 0x00, 0x75, 0x09, 0x83, 0xf9, 0x00, 0x75, 0x04, 0x31, 0xc0, 0xeb, 0x05, 0xb8] @ bytes32 1)
      else map_option compare_code (compare_jump x))"

text \<open>An operator without code: the comparison is emitted and the function returns 0.\<close>

definition run_binary :: "evaluator \<Rightarrow> char \<Rightarrow> nat \<Rightarrow> nat \<Rightarrow> nat \<Rightarrow> bool \<Rightarrow> (cc, bool) M" where
  "run_binary ev x begin op e addr =
     thenM (doM [assertM (\<not> addr), ev (op + 1) e False, ev begin op False, emit 0x58, pop_var_c, emit 0x59, pop_var_c])
     (case binary_code x of
        Some bs \<Rightarrow> thenM (doM [emits bs, push_temp, emit 0x50]) (retM True)
      | None \<Rightarrow> thenM (emits [0x39, 0xc8]) (retM False))"

definition run_eval_expr :: "evaluator \<Rightarrow> buf \<Rightarrow> nat \<Rightarrow> nat \<Rightarrow> nat \<Rightarrow> bool \<Rightarrow> (cc, bool) M" where
  "run_eval_expr ev m begin op e addr = bindM (liftM (rd m op)) (\<lambda>x.
     if x = CHR ''='' then thenM (run_assign ev begin op e addr) (retM True)
     else if x = TOK_CALL_OPEN then thenM (run_call ev m begin op e addr) (retM True)
     else if x = TOK_DEREF then thenM (run_deref ev begin op e addr) (retM True)
     else if x = TOK_ADDR then thenM (run_addr ev begin op e addr) (retM True)
     else if x = CHR ''!'' \<or> x = CHR ''~'' then thenM (run_not ev x begin op e addr) (retM True)
     else run_binary ev x begin op e addr)"

section \<open>Finding the operator\<close>

lemma matching_loop_ge: "matching_loop opener closer m b e depth = Inr (Some q) \<Longrightarrow> b \<le> q \<and> q < e"
proof (induction opener closer m b e depth rule: matching_loop.induct)
  case (1 opener closer m b e depth)
  from "1.prems" show ?case
    by (subst (asm) matching_loop.simps) (auto simp: bindR_Inr Let_def dest!: "1.IH" [OF _ _ refl] split: if_splits)
qed

lemma matching_rev_less: "matching_rev_loop e opener closer m b depth = Inr (Some q) \<Longrightarrow> q < e"
  by (induction e opener closer m b depth rule: matching_rev_loop.induct)
    (fastforce simp: bindR_Inr Let_def split: if_splits)+

function pivot_forward :: "buf \<Rightarrow> nat \<Rightarrow> nat \<Rightarrow> string \<Rightarrow> err + nat option" where
  "pivot_forward m p e pivots =
     (if p < e then bindR (rd m p) (\<lambda>c.
        if is_in c pivots then Inr (Some p)
        else if c = CHR ''('' then bindR (find_matching (CHR ''('') (CHR '')'') m p e) (\<lambda>q.
          case q of None \<Rightarrow> Inl Panic | Some q \<Rightarrow> pivot_forward m (q + 1) e pivots)
        else if c = CHR ''['' then bindR (find_matching (CHR ''['') (CHR '']'') m p e) (\<lambda>q.
          case q of None \<Rightarrow> Inl Panic | Some q \<Rightarrow> pivot_forward m (q + 1) e pivots)
        else pivot_forward m (p + 1) e pivots)
      else Inr None)"
  by pat_completeness auto
termination
  by (relation "measure (\<lambda>(m, p, e, pivots). e - p)") (auto simp: find_matching_def dest!: matching_loop_ge)

text \<open>The third argument is \<open>p + 1\<close>.\<close>

function pivot_backward :: "buf \<Rightarrow> nat \<Rightarrow> nat \<Rightarrow> string \<Rightarrow> err + nat option" where
  "pivot_backward m begin p1 pivots =
     (if begin < p1 then bindR (rd m (p1 - 1)) (\<lambda>c.
        if is_in c pivots then Inr (Some (p1 - 1))
        else if c = CHR '')'' then bindR (find_matching_rev (CHR ''('') (CHR '')'') m begin p1) (\<lambda>q.
          case q of None \<Rightarrow> Inl Panic | Some q \<Rightarrow> pivot_backward m begin q pivots)
        else if c = CHR '']'' then bindR (find_matching_rev (CHR ''['') (CHR '']'') m begin p1) (\<lambda>q.
          case q of None \<Rightarrow> Inl Panic | Some q \<Rightarrow> pivot_backward m begin q pivots)
        else pivot_backward m begin (p1 - 1) pivots)
      else Inr None)"
  by pat_completeness auto
termination
  by (relation "measure (\<lambda>(m, begin, p1, pivots). p1)") (auto simp: find_matching_rev_def dest!: matching_rev_less)

declare pivot_forward.simps [simp del] pivot_backward.simps [simp del]

definition parse_expr :: "evaluator \<Rightarrow> buf \<Rightarrow> nat \<Rightarrow> nat \<Rightarrow> string \<Rightarrow> nat \<Rightarrow> bool \<Rightarrow> (cc, bool) M" where
  "parse_expr ev m begin e pivots dir addr =
     bindM (liftM (if dir = 0 then pivot_forward m begin e pivots else pivot_backward m begin e pivots)) (\<lambda>p.
     case p of None \<Rightarrow> retM False | Some op \<Rightarrow> run_eval_expr ev m begin op e addr)"

section \<open>Operands\<close>

definition push_word :: "i32 \<Rightarrow> (cc, unit) M" where
  "push_word x = doM [emit 0x68, emit32 x]"

definition number_operand :: "buf \<Rightarrow> nat \<Rightarrow> nat \<Rightarrow> bool \<Rightarrow> (cc, unit) M" where
  "number_operand m begin e addr =
     thenM (assertM (\<not> addr))
    (bindM (liftM (decode_number_c m begin e)) (\<lambda>(res, val).
     doM [assertM res, push_word val, push_temp]))"

definition char_operand :: "buf \<Rightarrow> nat \<Rightarrow> nat \<Rightarrow> (cc, unit) M" where
  "char_operand m begin e =
     bindM (liftM (rd m (e - 1))) (\<lambda>q. thenM (assertM (q = CHR 0x27)) (thenM push_temp
     (if e = begin + 3 then bindM (liftM (rd m (begin + 1))) (\<lambda>c. push_word (of_int (schar c + 0x80)))
      else if e = begin + 4 then
        bindM (liftM (rd m (begin + 1))) (\<lambda>b. thenM (assertM (schar b = schar (CHR 0x5C) - 0x80))
       (bindM (liftM (rd m (begin + 2))) (\<lambda>c. push_word (of_int (schar (escaped_c (char_of (schar c + 0x80))))))))
      else failM Panic)))"

definition string_operand :: "nat \<Rightarrow> nat \<Rightarrow> bool \<Rightarrow> (cc, unit) M" where
  "string_operand begin e addr =
     bindM gen_id (\<lambda>n. bindM (get_symbol_c (gen_lab n)) (\<lambda>var_addr. bindM (getM string_num) (\<lambda>k.
     thenM (if k < MAX_STRING_NUM
       then modM (\<lambda>s. s\<lparr>string_num := k + 1, c_string_ids := (c_string_ids s)(k := n),
              c_string_begin := (c_string_begin s)(k := begin), c_string_end := (c_string_end s)(k := e)\<rparr>)
       else failM Undef)
     (doM [assertM (\<not> addr), push_word var_addr, push_temp]))))"

definition variable_operand :: "buf \<Rightarrow> nat \<Rightarrow> nat \<Rightarrow> bool \<Rightarrow> (cc, unit) M" where
  "variable_operand m begin e addr =
     bindM (getM (find_in_stack2 m begin e)) (\<lambda>r. bindM (liftM r) (\<lambda>pos. case pos of
       Some pos \<Rightarrow>
         if addr then doM [emits [0x89, 0xe0], emit 0x05, emit32 (of_int (4 * pos)), emit 0x50, push_temp]
         else doM [emits [0x8b, 0x84, 0x24], emit32 (of_int (4 * pos)), emit 0x50, push_temp]
     | None \<Rightarrow> bindM (get_symbol2 m begin e) (\<lambda>var_addr.
         if addr then doM [push_word var_addr, push_temp]
         else doM [emit 0xb8, emit32 var_addr, emits [0xff, 0x30], push_temp])))"

definition operand_c :: "buf \<Rightarrow> nat \<Rightarrow> nat \<Rightarrow> bool \<Rightarrow> (cc, unit) M" where
  "operand_c m begin e addr = bindM (liftM (rd m begin)) (\<lambda>c.
     if schar (CHR ''0'') \<le> schar c \<and> schar c \<le> schar (CHR ''9'') then number_operand m begin e addr
     else if c = CHR 0x27 then char_operand m begin e
     else if c = CHR 0x22 then string_operand begin e addr
     else variable_operand m begin e addr)"

section \<open>Expressions\<close>

text \<open>The operators from the one that binds least to the one that binds most, with the direction
  of the search.\<close>

definition levels :: "(string \<times> nat) list" where
  "levels = [(''='', 0), ([TOK_OR], 1), ([TOK_AND], 1), (''|'', 1), (''&'', 1), ([TOK_EQ, TOK_NE], 1),
     ([TOK_LE, TOK_GE] @ ''<>'', 1), ([TOK_SHL, TOK_SHR], 1), (''+-'', 1), (''*/%'', 1),
     (''!~'' @ [TOK_DEREF, TOK_ADDR], 0), ([TOK_CALL_OPEN], 1)]"

fun parse_levels :: "(string \<times> nat) list \<Rightarrow> evaluator \<Rightarrow> buf \<Rightarrow> nat \<Rightarrow> nat \<Rightarrow> bool \<Rightarrow> (cc, unit) M" where
  "parse_levels [] ev m begin e addr = operand_c m begin e addr"
| "parse_levels ((pivots, dir) # ls) ev m begin e addr =
     bindM (parse_expr ev m begin e pivots dir addr) (\<lambda>found.
     if found then retM () else parse_levels ls ev m begin e addr)"

primrec eval_expr :: "nat \<Rightarrow> buf \<Rightarrow> nat \<Rightarrow> nat \<Rightarrow> bool \<Rightarrow> (cc, unit) M" where
  "eval_expr 0 m begin e addr = failM Fuel"
| "eval_expr (Suc n) m begin e addr = bindM (liftM (rd m begin)) (\<lambda>c.
     if c = CHR ''('' then
       bindM (liftM (find_matching (CHR ''('') (CHR '')'') m begin e)) (\<lambda>match.
       case match of
         None \<Rightarrow> retM ()
       | Some q \<Rightarrow> whenM (q + 1 = e) (eval_expr n m (begin + 1) (e - 1) addr))
     else parse_levels levels (eval_expr n m) m begin e addr)"

section \<open>Rewriting the text\<close>

definition edit :: "(buf \<Rightarrow> err + buf) \<Rightarrow> (cc, unit) M" where
  "edit f = bindM (getM c_text) (\<lambda>m. bindM (liftM (f m)) (\<lambda>m. modM (\<lambda>s. s\<lparr>c_text := m\<rparr>)))"

definition compile_expression :: "nat \<Rightarrow> (cc, unit) M" where
  "compile_expression p =
     thenM (doM [edit (\<lambda>m. fix_operations m p), edit (\<lambda>m. remove_spaces_c m p None),
                 edit (\<lambda>m. fix_operations2 m p False)])
    (bindM (getM c_text) (\<lambda>m. bindM (liftM (string_end_at m p)) (\<lambda>e.
     eval_expr (length m + 1) m p e False)))"

end
