(* ===== verification/CcCompile.thy ===== *)
theory CcCompile
  imports CcExpr
begin

text \<open>
  The C compiler \<open>cc/cc.c\<close>: statements, conditionals, blocks, functions, string literals and the two
  stages of \<open>main\<close>. The text of the program is cut by writing terminators into it. What the compiler
  logs to \<open>stderr\<close> is left out.

  \<open>block_loop\<close> takes a number of steps, which its nested blocks share; \<open>main\<close> supplies more than the
  text has characters.
\<close>

text \<open>The string at an address of the text.\<close>

definition text_at :: "nat \<Rightarrow> (cc, string) M" where
  "text_at p = bindM (getM c_text) (\<lambda>m. if terminated m p then retM (cstr m p) else failM Undef)"

definition peek_text :: "nat \<Rightarrow> (cc, char) M" where
  "peek_text p = bindM (getM c_text) (\<lambda>m. liftM (rd m p))"

definition poke_text :: "nat \<Rightarrow> char \<Rightarrow> (cc, unit) M" where
  "poke_text p c = edit (\<lambda>m. wr m p c)"

section \<open>Statements\<close>

definition return_statement :: "nat \<Rightarrow> (cc, unit) M" where
  "return_statement p =
     bindM (getM c_block_depth) (\<lambda>bd. thenM (assertM (bd > 1))
    (bindM (peek_text p) (\<lambda>c.
     thenM (if c = NUL then retM () else doM [compile_expression (p + 1), emit 0x58, pop_var_c])
    (bindM (getM (\<lambda>s. c_stack_depth s - ret_depth s)) (\<lambda>n.
     doM [emits [0x81, 0xc4], emit32 (of_int (4 * n)), emit 0xc3])))))"

definition int_statement :: "nat \<Rightarrow> (cc, unit) M" where
  "int_statement name =
     thenM (edit (\<lambda>m. trimstr_c m name))
    (bindM (text_at name) (\<lambda>t. bindM (getM c_block_depth) (\<lambda>bd.
     if bd = 1 then thenM (bindM (getM current_loc) (add_symbol_c t)) (emit32 0)
     else doM [push_var_c t, emits [0x83, 0xec, 0x04]])))"

definition expression_statement :: "nat \<Rightarrow> (cc, unit) M" where
  "expression_statement begin =
     bindM (getM c_block_depth) (\<lambda>bd. thenM (assertM (bd > 1))
    (bindM (getM c_text) (\<lambda>m. bindM (liftM (isstrpref ''char'' m begin)) (\<lambda>p.
     thenM (modM (\<lambda>s. s\<lparr>char_op := p \<noteq> None\<rparr>))
     (doM [compile_expression (case p of None \<Rightarrow> begin | Some p \<Rightarrow> p + 1), emits [0x83, 0xc4, 0x04], pop_var_c])))))"

definition compile_statement :: "nat \<Rightarrow> nat \<Rightarrow> (cc, unit) M" where
  "compile_statement begin e =
     thenM (doM [poke_text e NUL, edit (\<lambda>m. trimstr_c m begin)])
    (bindM (peek_text begin) (\<lambda>c.
     if c = NUL then retM ()
     else bindM (getM c_text) (\<lambda>m. bindM (liftM (isstrpref ''return'' m begin)) (\<lambda>p. case p of
       Some p \<Rightarrow> return_statement p
     | None \<Rightarrow> bindM (liftM (isstrpref ''int'' m begin)) (\<lambda>p. case p of
         Some p \<Rightarrow> int_statement (p + 1)
       | None \<Rightarrow> expression_statement begin)))))"

section \<open>Conditionals\<close>

text \<open>The labels of the conditional that is open in a block, 0 if there is none: the label of its next
  branch and that of its end. The functions return them as the source leaves them.\<close>

type_synonym labels = "nat \<times> nat"

definition place_lab :: "nat \<Rightarrow> (cc, unit) M" where
  "place_lab lab = bindM (getM current_loc) (add_symbol_c (gen_lab lab))"

definition process_fi :: "labels \<Rightarrow> (cc, labels) M" where
  "process_fi labs = (case labs of (else_lab, fi_lab) \<Rightarrow>
     thenM (doM [whenM (else_lab \<noteq> 0) (place_lab else_lab), whenM (fi_lab \<noteq> 0) (place_lab fi_lab)]) (retM (0, 0)))"

definition emit_disp :: "nat \<Rightarrow> (cc, unit) M" where
  "emit_disp lab = bindM (get_symbol_c (gen_lab lab)) (\<lambda>l. bindM (getM current_loc) (\<lambda>c. emit32 (l - 4 - c)))"

text \<open>The condition, and the jump to the next branch if it is zero.\<close>

definition if_test :: "nat \<Rightarrow> nat \<Rightarrow> (cc, unit) M" where
  "if_test p else_lab = doM
     [compile_expression p, pop_var_c, emit 0x58, emits [0x83, 0xf8, 0x00], emits [0x0f, 0x84], emit_disp else_lab]"

definition process_if :: "nat \<Rightarrow> labels \<Rightarrow> (cc, labels) M" where
  "process_if p labs =
     bindM (process_fi labs) (\<lambda>labs. bindM gen_id (\<lambda>else_lab. bindM gen_id (\<lambda>fi_lab.
     thenM (if_test p else_lab) (retM (else_lab, fi_lab)))))"

definition process_if_end :: "labels \<Rightarrow> (cc, unit) M" where
  "process_if_end labs = doM [emit 0xe9, emit_disp (snd labs)]"

definition process_else :: "labels \<Rightarrow> (cc, labels) M" where
  "process_else labs = thenM (doM [assertM (fst labs \<noteq> 0), place_lab (fst labs)]) (retM (0, snd labs))"

definition process_elseif :: "nat \<Rightarrow> labels \<Rightarrow> (cc, labels) M" where
  "process_elseif p labs =
     bindM (process_else labs) (\<lambda>labs. bindM gen_id (\<lambda>else_lab.
     thenM (if_test p else_lab) (retM (else_lab, snd labs))))"

section \<open>Blocks\<close>

text \<open>The parameters of a function, pushed from the last to the first; the result is their number.\<close>

function push_params :: "nat \<Rightarrow> nat \<Rightarrow> nat \<Rightarrow> (cc, nat) M" where
  "push_params params_begin params_end param_num s =
     (if params_begin = params_end then Inr (param_num, s)
      else bindM (liftM (find_char_back (c_text s) params_begin params_end (CHR '',''))) (\<lambda>pos. case pos of
        Some pos \<Rightarrow>
          bindM (thenM (poke_text pos NUL) (bindM (text_at (pos + 1)) push_var_c)) (\<lambda>_.
            push_params params_begin pos (param_num + 1))
      | None \<Rightarrow> thenM (bindM (text_at params_begin) push_var_c) (retM (param_num + 1))) s)"
  by pat_completeness auto
termination
  by (relation "measure (\<lambda>(params_begin, params_end, param_num, s). params_end)") (auto dest: find_char_back_less)

declare push_params.simps [simp del]

text \<open>The head of a block before its \<open>{\<close>: its spaces are removed, and its parentheses become terminators.
  The result is their positions.\<close>

definition split_head :: "nat \<Rightarrow> nat \<Rightarrow> (cc, (nat \<times> nat) option) M" where
  "split_head def_begin block_begin =
     thenM (doM [poke_text block_begin NUL, edit (\<lambda>m. remove_spaces_c m def_begin None)])
    (bindM (getM c_text) (\<lambda>m. bindM (liftM (find_char_c m def_begin block_begin (CHR ''(''))) (\<lambda>open_pos.
     case open_pos of
       None \<Rightarrow> retM None
     | Some open_pos \<Rightarrow>
         bindM (liftM (find_matching (CHR ''('') (CHR '')'') m (def_begin + open_pos) block_begin)) (\<lambda>closed.
         case closed of
           None \<Rightarrow> failM Panic
         | Some closed \<Rightarrow>
             bindM (peek_text (closed + 1)) (\<lambda>c.
             thenM (doM [assertM (c = NUL), poke_text (def_begin + open_pos) NUL, poke_text closed NUL])
             (retM (Some (def_begin + open_pos, closed))))))))"

text \<open>The head of a function; the result is the number of its parameters.\<close>

definition function_head :: "nat \<Rightarrow> (nat \<times> nat) option \<Rightarrow> labels \<Rightarrow> (cc, nat) M" where
  "function_head def_begin parens labs =
     thenM (doM [assertM (fst labs = 0), assertM (snd labs = 0)])
     (case parens of
       None \<Rightarrow> failM Panic
     | Some (open_at, closed) \<Rightarrow>
         thenM (doM [bindM (text_at def_begin) (\<lambda>t. bindM (getM current_loc) (add_symbol_c t)),
                     bindM (getM c_stack_depth) (\<lambda>d. assertM (d = 0))])
        (bindM (push_params (open_at + 1) closed 0) (\<lambda>param_num.
         thenM (doM [push_var_c ''__ret'', modM (\<lambda>s. s\<lparr>ret_depth := c_stack_depth s\<rparr>)]) (retM param_num))))"

text \<open>The head of a block inside a function.\<close>

definition branch_head :: "nat \<Rightarrow> (nat \<times> nat) option \<Rightarrow> labels \<Rightarrow> (cc, labels) M" where
  "branch_head def_begin parens labs =
     bindM (getM c_text) (\<lambda>m. case parens of
       Some (open_at, closed) \<Rightarrow>
         bindM (liftM (strncmp2 m def_begin open_at ''if'')) (\<lambda>is_if.
         if is_if then process_if (open_at + 1) labs
         else bindM (liftM (strncmp2 m def_begin open_at ''elseif'')) (\<lambda>is_elseif.
           if is_elseif then process_elseif (open_at + 1) labs else failM Panic))
     | None \<Rightarrow> bindM (text_at def_begin) (\<lambda>t. if t = ''else'' then process_else labs else failM Panic))"

definition compile_block_with_head :: "(nat \<Rightarrow> nat \<Rightarrow> (cc, unit) M) \<Rightarrow> nat \<Rightarrow> nat \<Rightarrow> nat \<Rightarrow> labels \<Rightarrow> (cc, labels) M" where
  "compile_block_with_head block def_begin block_begin block_end labs =
     bindM (split_head def_begin block_begin) (\<lambda>parens. bindM (getM c_block_depth) (\<lambda>bd.
     bindM (if bd = 1 then bindM (function_head def_begin parens labs) (\<lambda>n. retM (n, labs))
            else bindM (branch_head def_begin parens labs) (\<lambda>labs. retM (0, labs))) (\<lambda>(param_num, labs).
     thenM (block (block_begin + 1) (block_end - 1))
    (bindM (getM c_block_depth) (\<lambda>bd'.
     thenM (whenM (bd' = 1) (doM [pop_var_c, emit 0xc3, repeatM param_num pop_var_c,
       bindM (getM c_stack_depth) (\<lambda>d. assertM (d = 0))]))
    (thenM (whenM (bd \<noteq> 1) (process_if_end labs)) (retM labs)))))))"

text \<open>The end of a block inside a function drops its variables.\<close>

definition close_block :: "int \<Rightarrow> (cc, unit) M" where
  "close_block saved_stack_depth =
     bindM (getM c_block_depth) (\<lambda>bd. bindM (getM c_stack_depth) (\<lambda>exit_stack_depth.
     whenM (bd \<noteq> 1) (doM [pop_to_depth saved_stack_depth, emits [0x81, 0xc4],
       emit32 (of_int (4 * (exit_stack_depth - saved_stack_depth)))])))"

definition compile_block :: "(nat \<Rightarrow> nat \<Rightarrow> labels \<Rightarrow> (cc, labels) M) \<Rightarrow> nat \<Rightarrow> nat \<Rightarrow> (cc, unit) M" where
  "compile_block loop begin e =
     thenM (modM (\<lambda>s. s\<lparr>c_block_depth := c_block_depth s + 1\<rparr>))
    (bindM (getM c_stack_depth) (\<lambda>saved_stack_depth.
     bindM (loop begin e (0, 0)) (\<lambda>labs. bindM (process_fi labs) (\<lambda>_.
     thenM (close_block saved_stack_depth) (modM (\<lambda>s. s\<lparr>c_block_depth := c_block_depth s - 1\<rparr>))))))"

text \<open>A null pointer for a brace that is not closed is decreased: undefined.\<close>

primrec block_loop_c :: "nat \<Rightarrow> nat \<Rightarrow> nat \<Rightarrow> labels \<Rightarrow> (cc, labels) M" where
  "block_loop_c 0 begin e labs = failM Fuel"
| "block_loop_c (Suc n) begin e labs =
     bindM (getM c_text) (\<lambda>m. bindM (liftM (find_char_c m begin e (CHR '';''))) (\<lambda>semi.
     bindM (liftM (find_char_c m begin e (CHR ''{''))) (\<lambda>brace.
     if semi = None \<and> brace = None then
       thenM (doM [poke_text e NUL, edit (\<lambda>m. trimstr_c m begin)])
      (bindM (peek_text begin) (\<lambda>c. thenM (assertM (c = NUL)) (retM labs)))
     else
       (let semicolon_pos = (case semi of Some p \<Rightarrow> p | None \<Rightarrow> the brace + 1);
            brace_pos = (case brace of Some p \<Rightarrow> p | None \<Rightarrow> semicolon_pos + 1) in
        if semicolon_pos < brace_pos then
          bindM (process_fi labs) (\<lambda>labs.
          thenM (compile_statement begin (begin + semicolon_pos))
          (block_loop_c n (begin + semicolon_pos + 1) e labs))
        else
          bindM (liftM (find_matching (CHR ''{'') (CHR ''}'') m (begin + brace_pos) e)) (\<lambda>res.
          case res of
            None \<Rightarrow> failM Undef
          | Some res \<Rightarrow>
              bindM (compile_block_with_head (compile_block (block_loop_c n)) begin (begin + brace_pos) res labs)
                (\<lambda>labs. block_loop_c n (res + 1) e labs))))))"

section \<open>Strings and the two stages\<close>

text \<open>The characters of a literal; two adjacent literals are one.\<close>

function string_chars :: "buf \<Rightarrow> nat \<Rightarrow> nat \<Rightarrow> (cc, unit) M" where
  "string_chars m begin e =
     (if begin < e then
        (case rd m begin of
           Inl err \<Rightarrow> failM err
         | Inr c \<Rightarrow>
             if c = CHR 0x22 then
               bindM (liftM (rd m (begin + 1))) (\<lambda>d. thenM (assertM (d = CHR 0x22)) (string_chars m (begin + 2) e))
             else thenM (assertM (schar c < 0))
              (thenM (emit (char_byte (char_of (schar c + 0x80)))) (string_chars m (begin + 1) e)))
      else retM ())"
  by pat_completeness auto
termination
  by (relation "measure (\<lambda>(m, begin, e). e - begin)") auto

declare string_chars.simps [simp del]

definition create_string :: "nat \<Rightarrow> (cc, unit) M" where
  "create_string i =
     bindM (getM (\<lambda>s. (c_string_ids s i, c_string_begin s i, c_string_end s i))) (\<lambda>(n, begin, e).
     thenM (place_lab n)
    (bindM (getM c_text) (\<lambda>m. bindM (peek_text begin) (\<lambda>b. bindM (peek_text (e - 1)) (\<lambda>q. doM
     [assertM (b = CHR 0x22), assertM (q = CHR 0x22), assertM (e \<ge> begin + 2), string_chars m (begin + 1) (e - 1)])))))"

definition create_strings :: "(cc, unit) M" where
  "create_strings = bindM (getM string_num) (\<lambda>n. doM (map create_string [0..<n]))"

text \<open>\<open>mmap\<close>: the file, followed by zeros up to the end of its last page.\<close>

definition PAGE :: nat where "PAGE = 4096"

definition mapped :: "string \<Rightarrow> buf" where
  "mapped file = file @ replicate ((PAGE - length file mod PAGE) mod PAGE) NUL"

definition compile_stage :: "nat \<Rightarrow> string \<Rightarrow> nat \<Rightarrow> (cc, unit) M" where
  "compile_stage n file st = doM
     [modM (\<lambda>s. s\<lparr>stage := st, lab_id := 1, string_num := 0, c_text := mapped file\<rparr>),
      edit (\<lambda>m. fix_strings m 0 (length file) 0),
      modM (\<lambda>s. s\<lparr>c_block_depth := 0, c_stack_depth := 0, current_loc := 0x100000\<rparr>),
      compile_block (block_loop_c n) 0 (length file),
      create_strings,
      bindM (getM c_block_depth) (\<lambda>d. assertM (d = 0)),
      bindM (getM c_stack_depth) (\<lambda>d. assertM (d = 0))]"

definition main_steps :: "nat \<Rightarrow> string \<Rightarrow> (cc, unit) M" where
  "main_steps n file = doM
     [modM (\<lambda>s. s\<lparr>symbol_num := 0\<rparr>), compile_stage n file 0, compile_stage n file 1, modM (\<lambda>s. s\<lparr>stage := 2\<rparr>)]"

definition main_c :: "string \<Rightarrow> (cc, unit) M" where
  "main_c file = main_steps (length (mapped file) + 1) file"

text \<open>The state a program starts with: static memory is zero.\<close>

definition empty_cc :: cc where
  "empty_cc = core.extend empty_core \<lparr>c_text = [], c_block_depth = 0, c_stack_depth = 0, ret_depth = 0, char_op = False,
     string_num = 0, lab_id = 0, c_stack_vars = \<lambda>_. [], c_string_ids = \<lambda>_. 0, c_string_begin = \<lambda>_. 0, c_string_end = \<lambda>_. 0\<rparr>"

end
