(* ===== verification/CcDiscipline.thy ===== *)
theory CcDiscipline
  imports CcCompile
begin

text \<open>
  What holds of every run of the C compiler: it obeys the two-pass discipline of the prototype compilers,
  rewrites the text without changing its size, closes every block it opens, and terminates.
\<close>

section \<open>The discipline\<close>

text \<open>\<open>kept_rel\<close>: an action writes and places symbols as its stage allows, keeps the size of the text and the
  depth of blocks.\<close>

definition kept_rel :: "cc \<Rightarrow> cc \<Rightarrow> bool" where
  "kept_rel s s' \<longleftrightarrow> pass_rel s s' \<and> (table_wf s \<longrightarrow> table_wf s') \<and>
     length (c_text s') = length (c_text s) \<and> c_block_depth s' = c_block_depth s"

interpretation kept: effect kept_rel
  by unfold_locales (auto simp: kept_rel_def intro: pass.eff_refl pass.eff_trans)

named_theorems kept_intros \<open>actions of the C compiler that keep the discipline\<close>

declare kept.eff_rules [kept_intros]

lemma kept_core:
  assumes "steps core_rel m"
  shows "steps kept_rel m"
proof (rule steps_mono [OF assms])
  fix s s' :: cc
  assume "core_rel s s'"
  then have m: "core.more s' = core.more s" and p: "pass_rel s s'" and w: "table_wf s \<longrightarrow> table_wf s'"
    by (simp_all add: core_rel_def)
  have "c_text s' = c_text s" "c_block_depth s' = c_block_depth s"
    by (cases s; cases s'; use m in simp)+
  with p w show "kept_rel s s'" by (simp add: kept_rel_def)
qed

lemma kept_mod:
  assumes "\<And>s. core.truncate (f s) = core.truncate s" "\<And>s. length (c_text (f s)) = length (c_text s)"
    "\<And>s. c_block_depth (f s) = c_block_depth s"
  shows "steps kept_rel (modM f)"
  by (rule stepsI) (auto simp: kept_rel_def assms truncate_find [OF assms(1)])

text \<open>Symbols without arity are symbols with the arity that is already stored.\<close>

lemma find_symbol_c_None: "find_symbol_c n s = SYMBOL_TABLE_LEN_c \<Longrightarrow> symbol_num s < SYMBOL_TABLE_LEN_c \<Longrightarrow> find_symbol n s = None"
  using symbol_idx_loop_le [of 0 "symbol_num s" "symbol_names s" n]
  by (auto simp: find_symbol_c_def find_symbol_def get_symbol_idx_def Let_def split: if_splits)

lemma add_symbol_c_run:
  assumes "add_symbol_c n l s = Inr (u, s')"
  shows "stage s = 0 \<and> add_symbol n l (symbol_arities s (symbol_num s)) s = Inr ((), s') \<or> stage s = 1 \<and> s' = s"
  using assms find_symbol_c_None [of n s]
  by (auto simp: add_symbol_c_def run_simps add_symbol_run MAX_ID_LEN_def MAX_SYMBOL_NAME_LEN_def
      SYMBOL_TABLE_LEN_c_def SYMBOL_TABLE_LEN_def split: if_splits intro!: core.equality)

text \<open>The routines on the text keep its size.\<close>

lemma fix_operations_length: "fix_operations m p = Inr m' \<Longrightarrow> length m' = length m"
proof (induction m p rule: fix_operations.induct)
  case (1 m p)
  from "1.prems" show ?case
    by (subst (asm) fix_operations.simps)
      (auto simp: bindR_Inr dest!: "1.IH" dest: fuse_at_length split: if_splits)
qed

lemma fix_operations2_length: "fix_operations2 m p b = Inr m' \<Longrightarrow> length m' = length m"
proof (induction m p b rule: fix_operations2.induct)
  case (1 m p b)
  from "1.prems" show ?case
    by (subst (asm) fix_operations2.simps)
      (auto simp: bindR_Inr dest!: "1.IH" dest: fix_char_length split: if_splits)
qed

lemma spaces_loop_length: "spaces_loop m w e r = Inr m' \<Longrightarrow> length m' = length m"
proof (induction m w e r rule: spaces_loop.induct)
  case (1 m w e r)
  from "1.prems" show ?case
    by (subst (asm) spaces_loop.simps)
      (fastforce simp: bindR_Inr dest: wr_InrD "1.IH" split: if_splits)
qed

lemma move_back_length: "move_back m w r = Inr (m', w') \<Longrightarrow> length m' = length m"
proof (induction m w r rule: move_back.induct)
  case (1 m w r)
  from "1.prems" show ?case
    by (subst (asm) move_back.simps)
      (fastforce simp: bindR_Inr dest: wr_InrD "1.IH" split: if_splits)
qed

lemma cut_blanks_length: "cut_blanks m p w = Inr m' \<Longrightarrow> length m' = length m"
  by (induction m p w rule: cut_blanks.induct) (fastforce simp: bindR_Inr dest: wr_InrD split: if_splits)+

lemma trimstr_c_length: "trimstr_c m p = Inr m' \<Longrightarrow> length m' = length m"
  by (auto simp: trimstr_c_def bindR_Inr dest!: move_back_length cut_blanks_length wr_length)

lemma remove_spaces_c_length: "remove_spaces_c m p e = Inr m' \<Longrightarrow> length m' = length m"
  by (simp add: remove_spaces_c_def spaces_loop_length)

lemma wr_all_length: "wr_all m p s = Inr m' \<Longrightarrow> length m' = length m"
  by (induction m p s rule: wr_all.induct) (fastforce simp: bindR_Inr dest: wr_InrD)+

lemma fix_strings_length: "fix_strings m p e mode = Inr m' \<Longrightarrow> length m' = length m"
proof (induction m p e mode rule: fix_strings.induct)
  case (1 m p e mode)
  from "1.prems" show ?case
    by (subst (asm) fix_strings.simps)
      (auto simp: bindR_Inr dest!: "1.IH" dest: wr_all_length split: if_splits)
qed

lemmas text_lengths = fix_operations_length fix_operations2_length remove_spaces_c_length trimstr_c_length wr_length

lemma core_truncate_text: "core.truncate (s\<lparr>c_text := m\<rparr>) = core.truncate s"
  by (simp add: core.truncate_def)

lemma kept_edit: "(\<And>m m'. f m = Inr m' \<Longrightarrow> length m' = length m) \<Longrightarrow> steps kept_rel (edit f)"
  by (rule stepsI) (auto simp: edit_def run_simps kept_rel_def truncate_find [OF core_truncate_text])

lemma emits_run: "emits bs s = Inr ((), emit_all bs s)"
  by (simp add: emits_def doM_emit)

section \<open>Every part of the compiler keeps the discipline\<close>

lemma kept_emit [kept_intros]: "steps kept_rel (emit c)" "steps kept_rel (emit32 x)" "steps kept_rel (emits bs)"
  by (auto simp: emits_def intro!: kept_core core_intros core.eff_do)

lemma kept_add_symbol [kept_intros]: "steps kept_rel (add_symbol_c n l)"
proof (rule stepsI)
  fix s :: cc and u s'
  assume "add_symbol_c n l s = Inr (u, s')"
  from add_symbol_c_run [OF this] show "kept_rel s s'"
  proof
    assume *: "stage s = 0 \<and> add_symbol n l (symbol_arities s (symbol_num s)) s = Inr ((), s')"
    then have "pass_rel s s'" using add_symbol_pass by blast
    moreover have "table_wf s \<longrightarrow> table_wf s'" using add_symbol_wf * by blast
    moreover have "c_text s' = c_text s" "c_block_depth s' = c_block_depth s" using * by (auto simp: add_symbol_run)
    ultimately show ?thesis by (simp add: kept_rel_def)
  qed (auto intro: kept.eff_refl)
qed

lemma kept_get_symbol [kept_intros]: "steps kept_rel (get_symbol_c n)" "steps kept_rel (get_symbol2 m b e)"
  unfolding get_symbol_c_def get_symbol2_def by (intro kept_intros)+

lemma kept_updates [kept_intros]:
  "steps kept_rel (modM (\<lambda>s. s\<lparr>lab_id := x\<rparr>))"
  "steps kept_rel (modM (\<lambda>s. s\<lparr>char_op := y\<rparr>))"
  "steps kept_rel (modM (\<lambda>s. s\<lparr>c_stack_depth := d\<rparr>))"
  "steps kept_rel (modM (\<lambda>s. s\<lparr>c_stack_depth := c_stack_depth s - 1\<rparr>))"
  "steps kept_rel (modM (\<lambda>s. s\<lparr>ret_depth := c_stack_depth s\<rparr>))"
  "steps kept_rel (modM (\<lambda>s. s\<lparr>c_stack_depth := d, c_stack_vars := (c_stack_vars s)(k := v)\<rparr>))"
  "steps kept_rel (modM (\<lambda>s. s\<lparr>string_num := x, c_string_ids := (c_string_ids s)(k := i),
     c_string_begin := (c_string_begin s)(k := b), c_string_end := (c_string_end s)(k := e)\<rparr>))"
  by (rule kept_mod; simp add: core.truncate_def)+

lemma kept_vars [kept_intros]: "steps kept_rel gen_id" "steps kept_rel (push_var_c v)" "steps kept_rel pop_var_c"
    "steps kept_rel push_temp" "steps kept_rel (pop_to_depth d)"
  unfolding gen_id_def push_var_c_def pop_var_c_def push_temp_def pop_to_depth_def by (intro kept_intros)+

lemma kept_operand [kept_intros]: "steps kept_rel (operand_c m b e a)"
  unfolding operand_c_def number_operand_def char_operand_def string_operand_def variable_operand_def push_word_def
  by (intro kept_intros)

lemma kept_call_params:
  assumes "\<And>b e a. steps kept_rel (ev b e a)"
  shows "steps kept_rel (call_params ev m b e n)"
proof (induction e arbitrary: n rule: less_induct)
  case (less e)
  then show ?case
    by (subst call_params.simps)
      (auto intro!: kept_intros assms less dest: find_char_back_less split: sum.split option.split)
qed

lemma kept_run_eval_expr:
  assumes ev: "\<And>b e a. steps kept_rel (ev b e a)"
  shows "steps kept_rel (run_eval_expr ev m b op e addr)"
  unfolding run_eval_expr_def run_assign_def run_call_def run_deref_def run_addr_def run_not_def run_binary_def
  by (intro kept_intros ev kept_call_params)

lemma kept_parse_levels: "(\<And>b e a. steps kept_rel (ev b e a)) \<Longrightarrow> steps kept_rel (parse_levels ls ev m b e addr)"
  by (induction ls ev m b e addr rule: parse_levels.induct)
    (auto simp: parse_expr_def intro!: kept_intros kept_run_eval_expr)

lemma kept_eval_expr [kept_intros]: "steps kept_rel (eval_expr n m b e addr)"
proof (induction n arbitrary: b e addr)
  case (Suc n)
  then show ?case unfolding eval_expr.simps by (intro kept_intros kept_parse_levels)
qed (simp add: kept_intros)

lemma kept_compile_expression [kept_intros]: "steps kept_rel (compile_expression p)"
  unfolding compile_expression_def by (intro kept_intros kept_edit; erule text_lengths)

lemma kept_text [kept_intros]: "steps kept_rel (text_at p)" "steps kept_rel (peek_text p)" "steps kept_rel (poke_text p c)"
  unfolding text_at_def peek_text_def poke_text_def by (intro kept_intros kept_edit; erule text_lengths)+

lemma kept_compile_statement [kept_intros]: "steps kept_rel (compile_statement b e)"
  unfolding compile_statement_def return_statement_def int_statement_def expression_statement_def
  by (intro kept_intros kept_edit; (erule text_lengths | simp))

lemma kept_labels [kept_intros]:
  "steps kept_rel (place_lab lab)" "steps kept_rel (emit_disp lab)" "steps kept_rel (process_fi labs)"
  "steps kept_rel (process_else labs)" "steps kept_rel (process_if_end labs)"
  unfolding place_lab_def emit_disp_def process_fi_def process_else_def process_if_end_def by (intro kept_intros)+

lemma kept_branches [kept_intros]: "steps kept_rel (process_if p labs)" "steps kept_rel (process_elseif p labs)"
  unfolding process_if_def process_elseif_def if_test_def by (intro kept_intros)+

lemma kept_push_params [kept_intros]: "steps kept_rel (push_params b e n)"
proof (induction e arbitrary: n rule: less_induct)
  case (less e)
  have one: "steps kept_rel (bindM (text_at p) push_var_c)" for p by (intro kept_intros)
  show ?case
  proof (rule stepsI)
    fix s k s'
    assume run: "push_params b e n s = Inr (k, s')"
    show "kept_rel s s'"
    proof (cases "b = e")
      case True
      then show ?thesis using run by (subst (asm) push_params.simps) (simp add: kept.eff_refl)
    next
      case False
      then obtain p where p: "find_char_back (c_text s) b e (CHR '','') = Inr p"
        and rest: "(case p of
            Some pos \<Rightarrow> bindM (thenM (poke_text pos NUL) (bindM (text_at (pos + 1)) push_var_c)) (\<lambda>_. push_params b pos (n + 1))
          | None \<Rightarrow> thenM (bindM (text_at b) push_var_c) (retM (n + 1))) s = Inr (k, s')"
        using run by (subst (asm) push_params.simps) (auto simp only: if_False bindM_run liftM_run)
      have "steps kept_rel (case p of
            Some pos \<Rightarrow> bindM (thenM (poke_text pos NUL) (bindM (text_at (pos + 1)) push_var_c)) (\<lambda>_. push_params b pos (n + 1))
          | None \<Rightarrow> thenM (bindM (text_at b) push_var_c) (retM (n + 1)))"
      proof (cases p)
        case (Some pos)
        then show ?thesis using find_char_back_less p less by (auto intro!: kept_intros)
      qed (simp, intro kept_intros)
      then show ?thesis using rest by (rule stepsD)
    qed
  qed
qed

lemma kept_heads [kept_intros]: "steps kept_rel (split_head d b)" "steps kept_rel (function_head d ps labs)"
    "steps kept_rel (branch_head d ps labs)"
  unfolding split_head_def function_head_def branch_head_def
  by (intro kept_intros kept_edit; (erule text_lengths | simp))+

lemma kept_with_head:
  "(\<And>b e. steps kept_rel (block b e)) \<Longrightarrow> steps kept_rel (compile_block_with_head block d b e labs)"
  unfolding compile_block_with_head_def by (intro kept_intros)

text \<open>A block counts itself in and out; inside a function it restores the depth of the variable stack.\<close>

lemma kept_counted:
  assumes "kept_rel (s\<lparr>c_block_depth := c_block_depth s + 1\<rparr>) t"
  shows "kept_rel s (t\<lparr>c_block_depth := c_block_depth t - 1\<rparr>)"
proof -
  let ?s = "s\<lparr>c_block_depth := c_block_depth s + 1\<rparr>" and ?t = "t\<lparr>c_block_depth := c_block_depth t - 1\<rparr>"
  have s: "core.truncate ?s = core.truncate s" and t: "core.truncate ?t = core.truncate t"
    by (simp_all add: core.truncate_def)
  have "pass_rel s ?t"
    using truncate_find(3) [OF s] assms truncate_find(3) [OF t] by (auto simp: kept_rel_def intro: pass.eff_trans)
  then show ?thesis using assms truncate_find(2) [OF s] truncate_find(2) [OF t] by (simp add: kept_rel_def)
qed

lemma kept_close: "steps kept_rel (close_block d)"
  unfolding close_block_def by (intro kept_intros)

lemma compile_block_rel:
  assumes "\<And>b e labs. steps kept_rel (loop b e labs)" and run: "compile_block loop b e s = Inr (u, s')"
  shows "kept_rel s s'" "c_block_depth s \<noteq> 0 \<Longrightarrow> c_stack_depth s' = c_stack_depth s"
proof -
  let ?s = "s\<lparr>c_block_depth := c_block_depth s + 1\<rparr>"
  obtain labs labs' s1 s2 s3 where loop: "loop b e (0, 0) ?s = Inr (labs, s1)" "process_fi labs s1 = Inr (labs', s2)"
    and close: "close_block (c_stack_depth s) s2 = Inr ((), s3)" and s': "s' = s3\<lparr>c_block_depth := c_block_depth s3 - 1\<rparr>"
    using run by (auto simp: compile_block_def run_simps)
  have "kept_rel ?s s1" using assms(1) loop(1) by (rule stepsD)
  moreover have "kept_rel s1 s2" using kept_labels(3) loop(2) by (rule stepsD)
  ultimately have start: "kept_rel ?s s2" by (rule kept.eff_trans)
  moreover have "kept_rel s2 s3" using kept_close close by (rule stepsD)
  ultimately have "kept_rel ?s s3" by (rule kept.eff_trans)
  then show "kept_rel s s'" unfolding s' by (rule kept_counted)
  assume "c_block_depth s \<noteq> 0"
  then have "c_block_depth s2 \<noteq> 1" using start by (simp add: kept_rel_def)
  then show "c_stack_depth s' = c_stack_depth s"
    using close s' by (auto simp: close_block_def run_simps pop_to_depth_def emits_run emit32_eval emit_all_def)
qed

lemma kept_compile_block:
  "(\<And>b e labs. steps kept_rel (loop b e labs)) \<Longrightarrow> steps kept_rel (compile_block loop b e)"
  by (rule stepsI) (rule compile_block_rel(1))

lemma kept_block_loop [kept_intros]: "steps kept_rel (block_loop_c n b e labs)"
proof (induction n arbitrary: b e labs)
  case (Suc n)
  show ?case
    unfolding block_loop_c.simps Let_def
    by (intro kept_intros kept_edit kept_with_head kept_compile_block Suc; (erule text_lengths | simp))
qed (simp add: kept_intros)

lemma kept_string_chars [kept_intros]: "steps kept_rel (string_chars m b e)"
proof (induction m b e rule: string_chars.induct)
  case (1 m b e)
  then show ?case
    by (subst string_chars.simps) (auto intro!: kept_intros split: sum.split)
qed

lemma kept_create_strings [kept_intros]: "steps kept_rel create_strings"
  unfolding create_strings_def create_string_def by (intro kept_intros kept.eff_do) (auto intro!: kept_intros)

section \<open>The output\<close>

lemma compile_stage_run:
  assumes "compile_stage n file st s = Inr (u, s')"
  obtains s0 where "stage s0 = st" "current_loc s0 = 0x100000" "emitted s0 = emitted s" "symbol_num s0 = symbol_num s"
    "symbol_names s0 = symbol_names s" "kept_rel s0 s'" "c_block_depth s' = 0" "c_stack_depth s' = 0"
proof -
  let ?m = "mapped file"
  obtain m s1 where "fix_strings ?m 0 (length file) 0 = Inr m"
    and body: "thenM (compile_block (block_loop_c n) 0 (length file)) create_strings
      (s\<lparr>stage := st, lab_id := 1, string_num := 0, c_text := m, c_block_depth := 0, c_stack_depth := 0,
         current_loc := 0x100000\<rparr>) = Inr ((), s')" and zero: "c_block_depth s' = 0" "c_stack_depth s' = 0"
    using assms by (auto simp: compile_stage_def edit_def run_simps)
  have "steps kept_rel (thenM (compile_block (block_loop_c n) 0 (length file)) create_strings)"
    by (intro kept_intros kept_compile_block)
  from stepsD [OF this body] zero show thesis by (intro that) simp_all
qed

lemma empty_table_wf: "symbol_num s = 0 \<Longrightarrow> table_wf s"
  by (simp add: table_wf_def)

text \<open>C26: When the C compiler accepts a file, the current location is \<open>0x100000\<close> plus the number of bytes that were
  written, all of them in the second stage; no symbol occurs twice in the symbol table, every name in it is
  non-empty and fits its slot; and no block and no variable is left open.\<close>

theorem cc_output:
  assumes "main_c file s = Inr (u, s')"
  shows "\<exists>bs. emitted s' = emitted s @ bs \<and> current_loc s' = 0x100000 + of_nat (length bs) \<and>
    table_wf s' \<and> c_block_depth s' = 0 \<and> c_stack_depth s' = 0"
proof -
  let ?n = "length (mapped file) + 1"
  obtain s2 s3 where stages: "compile_stage ?n file 0 (s\<lparr>symbol_num := 0\<rparr>) = Inr ((), s2)"
      "compile_stage ?n file 1 s2 = Inr ((), s3)" and s': "s' = s3\<lparr>stage := 2\<rparr>"
    using assms unfolding main_c_def main_steps_def by (auto simp: run_simps)
  obtain t0 where t0: "stage t0 = 0" "emitted t0 = emitted s" "symbol_num t0 = 0" "kept_rel t0 s2"
    using stages(1) by (rule compile_stage_run) (use that in simp)
  then have s2: "emitted s2 = emitted s" "table_wf s2"
    using empty_table_wf [of t0] by (auto simp: kept_rel_def pass_rel_def)
  obtain t1 where t1: "stage t1 = 1" "current_loc t1 = 0x100000" "emitted t1 = emitted s2" "symbol_num t1 = symbol_num s2"
      "symbol_names t1 = symbol_names s2" "kept_rel t1 s3" and zero: "c_block_depth s3 = 0" "c_stack_depth s3 = 0"
    using stages(2) by (rule compile_stage_run) (use that in simp)
  have "table_wf t1" using table_wf_cong [OF t1(4,5)] s2(2) by simp
  moreover obtain bs where "emitted s3 = emitted t1 @ bs" "current_loc s3 = 0x100000 + of_nat (length bs)"
    using t1 by (auto simp: kept_rel_def pass_rel_def)
  ultimately show ?thesis using s2 t1 zero by (auto simp: s' kept_rel_def)
qed

text \<open>A file that does not fill its last page is followed by a terminator. The runs of a small program do not
  depend on the rest of the page.\<close>

lemma mapped_split: "0 < length file mod PAGE \<Longrightarrow> \<exists>r. mapped file = file @ NUL # r"
  by (rule exI [of _ "replicate (PAGE - length file mod PAGE - 1) NUL"])
    (simp add: mapped_def PAGE_def flip: replicate_Suc)

lemmas run_text = find_char_c_def find_char_c_loop.simps trimstr_c_def skip_blanks.simps
  move_back.simps is_whitespace_c_def terminated_def cstr_def

lemmas run_state = edit_def poke_text_def peek_text_def text_at_def process_fi_def whenM_def bindM_step thenM_step

lemma int_file_block:
  assumes "c_text s = ''int x;'' @ NUL # r" "c_block_depth s = 0"
    "stage s = 0 \<and> symbol_num s = 0 \<or> stage s = 1 \<and> find_symbol_c ''x'' s < symbol_num s \<and>
       symbol_locs s (find_symbol_c ''x'' s) = current_loc s"
  shows "\<exists>t. compile_block (block_loop_c (Suc (Suc n))) 0 6 s = Inr ((), t) \<and> c_block_depth t = 0 \<and>
    c_stack_depth t = c_stack_depth s \<and> string_num t = string_num s \<and>
    (stage s = 0 \<longrightarrow> find_symbol_c ''x'' t < symbol_num t \<and> symbol_locs t (find_symbol_c ''x'' t) = current_loc s)"
proof -
  let ?s1 = "s\<lparr>c_block_depth := 1\<rparr>"
  let ?m = "[CHR ''i'', CHR ''n'', CHR ''t'', CHR '' '', CHR ''x'', NUL, NUL] @ r"
  let ?s2 = "?s1\<lparr>c_text := ?m\<rparr>"
  have start: "block_loop_c (Suc (Suc n)) 0 6 (0, 0) ?s1 = thenM (compile_statement 0 5) (block_loop_c (Suc n) 6 6 (0, 0)) ?s1"
    using assms(1,2) unfolding block_loop_c.simps(2) [of "Suc n" 0] by (simp add: run_text run_state eval_nat_numeral del: block_loop_c.simps)
  have stat: "compile_statement 0 5 ?s1 = thenM (bindM (getM current_loc) (add_symbol_c ''x'')) (emit32 0) ?s2"
    using assms(1,2) by (simp add: compile_statement_def run_text run_state isstrpref.simps int_statement_def)
  obtain s3 where s3: "add_symbol_c ''x'' (current_loc s) ?s2 = Inr ((), s3)" "c_text s3 = ?m" "c_block_depth s3 = 1"
      "c_stack_depth s3 = c_stack_depth s" "string_num s3 = string_num s"
      "stage s = 0 \<longrightarrow> find_symbol_c ''x'' s3 < symbol_num s3 \<and> symbol_locs s3 (find_symbol_c ''x'' s3) = current_loc s"
    using assms(3)
  proof
    assume a: "stage s = 0 \<and> symbol_num s = 0"
    let ?s3 = "?s2\<lparr>symbol_num := 1, symbol_names := (symbol_names s)(0 := ''x''), symbol_locs := (symbol_locs s)(0 := current_loc s)\<rparr>"
    have "add_symbol_c ''x'' (current_loc s) ?s2 = Inr ((), ?s3)"
      using a by (simp add: add_symbol_c_def find_symbol_c_def Let_def run_state symbol_idx_loop.simps MAX_ID_LEN_def SYMBOL_TABLE_LEN_c_def)
    then show thesis by (rule that) (simp_all add: find_symbol_c_def Let_def symbol_idx_loop.simps)
  next
    assume b: "stage s = 1 \<and> find_symbol_c ''x'' s < symbol_num s \<and> symbol_locs s (find_symbol_c ''x'' s) = current_loc s"
    then have "find_symbol_c ''x'' ?s2 = find_symbol_c ''x'' s" by (simp add: find_symbol_c_def)
    then have "add_symbol_c ''x'' (current_loc s) ?s2 = Inr ((), ?s2)"
      using b by (simp add: add_symbol_c_def run_state MAX_ID_LEN_def)
    then show thesis by (rule that) (use b assms(2) in simp_all)
  qed
  let ?s4 = "emit_all (bytes32 0) s3"
  have "compile_statement 0 5 ?s1 = Inr ((), ?s4)"
    unfolding stat using s3(1) by (simp add: bindM_step thenM_step emit32_eval)
  moreover have "block_loop_c (Suc n) 6 6 (0, 0) ?s4 = Inr ((0, 0), ?s4)"
  proof -
    have m: "c_text ?s4 = ?m" using s3(2) by (simp add: emit_all_def)
    have "trimstr_c ?m 6 = Inr ?m" "wr ?m 6 NUL = Inr ?m" "rd ?m 6 = Inr NUL"
      by (simp_all add: run_text eval_nat_numeral)
    then show ?thesis using m by (simp add: find_char_c_def find_char_c_loop.simps run_state)
  qed
  ultimately have "block_loop_c (Suc (Suc n)) 0 6 (0, 0) ?s1 = Inr ((0, 0), ?s4)"
    unfolding start by (simp add: thenM_step)
  then have "compile_block (block_loop_c (Suc (Suc n))) 0 6 s = Inr ((), ?s4\<lparr>c_block_depth := 0\<rparr>)"
    using assms(2) s3(3) by (simp del: block_loop_c.simps add: compile_block_def close_block_def run_state emit_all_def)
  then show ?thesis using s3(3-6) by (auto simp: emit_all_def find_symbol_c_def)
qed

lemma int_file_stage:
  assumes "st = 0 \<and> symbol_num s = 0 \<or> st = 1 \<and> find_symbol_c ''x'' s < symbol_num s \<and> symbol_locs s (find_symbol_c ''x'' s) = 0x100000"
  shows "\<exists>t. compile_stage (Suc (Suc n)) ''int x;'' st s = Inr ((), t) \<and>
    (st = 0 \<longrightarrow> find_symbol_c ''x'' t < symbol_num t \<and> symbol_locs t (find_symbol_c ''x'' t) = 0x100000)"
proof -
  obtain r where r: "mapped ''int x;'' = ''int x;'' @ NUL # r"
    using mapped_split [of "''int x;''"] by (auto simp: PAGE_def)
  have len: "length ''int x;'' = 6" by simp
  let ?ps = "map Code ''int x;''"
  have "pieces_ok ?ps" "concat (map piece_text ?ps) = ''int x;''" "concat (map piece_marked ?ps) = ''int x;''"
    by (simp_all add: is_whitespace_c_def uchar_def)
  with scan_pieces [OF this(1)] fix_strings_scan [of "[]" "''int x;''" "NUL # r" 0]
  have marked: "fix_strings (''int x;'' @ NUL # r) 0 6 0 = Inr (''int x;'' @ NUL # r)"
    by (simp add: eval_nat_numeral is_whitespace_c_def)
  let ?s = "s\<lparr>stage := st, lab_id := 1, string_num := 0, c_text := ''int x;'' @ NUL # r, c_block_depth := 0, c_stack_depth := 0,
    current_loc := 0x100000\<rparr>"
  obtain t where t: "compile_block (block_loop_c (Suc (Suc n))) 0 6 ?s = Inr ((), t)" "c_block_depth t = 0"
      "c_stack_depth t = 0" "string_num t = 0"
      "st = 0 \<longrightarrow> find_symbol_c ''x'' t < symbol_num t \<and> symbol_locs t (find_symbol_c ''x'' t) = 0x100000"
    using int_file_block [of ?s r n] assms by (auto simp: find_symbol_c_def)
  have "compile_stage (Suc (Suc n)) ''int x;'' st s = Inr ((), t)"
    unfolding compile_stage_def r len using t marked by (simp add: run_state create_strings_def del: block_loop_c.simps)
  then show ?thesis using t by blast
qed

lemma int_file_runs: "\<exists>s'. main_c ''int x;'' empty_cc = Inr ((), s')"
proof -
  have "length (mapped ''int x;'') + 1 = Suc (Suc (length (mapped ''int x;'') - 1))"
    by (simp add: mapped_def)
  then obtain n where n: "length (mapped ''int x;'') + 1 = Suc (Suc n)" by blast
  obtain t where t: "compile_stage (Suc (Suc n)) ''int x;'' 0 (empty_cc\<lparr>symbol_num := 0\<rparr>) = Inr ((), t)"
      "find_symbol_c ''x'' t < symbol_num t" "symbol_locs t (find_symbol_c ''x'' t) = 0x100000"
    using int_file_stage [of 0 "empty_cc\<lparr>symbol_num := 0\<rparr>" n] by auto
  obtain u where "compile_stage (Suc (Suc n)) ''int x;'' 1 t = Inr ((), u)"
    using int_file_stage [of 1 t n] t(2,3) by auto
  with t(1) show ?thesis
    unfolding main_c_def main_steps_def n by (simp add: thenM_step del: block_loop_c.simps)
qed

theorem cc_output_witness:
  "\<exists>s'. main_c ''int x;'' empty_cc = Inr ((), s') \<and>
     current_loc s' = 0x100000 + of_nat (length (emitted s')) \<and> c_stack_depth s' = 0"
proof -
  obtain s' where run: "main_c ''int x;'' empty_cc = Inr ((), s')" using int_file_runs by blast
  from cc_output [OF run] run show ?thesis by (auto simp: empty_cc_def empty_core_def core.extend_def)
qed

end
