(* ===== verification/CcTotal.thy ===== *)
theory CcTotal
  imports CcDiscipline
begin

text \<open>
  The C compiler terminates on every file. Nothing but \<open>eval_expr\<close> and \<open>block_loop_c\<close> takes a number of
  steps. \<open>eval_expr\<close> goes to shorter texts; each round of \<open>block_loop_c\<close>, and each nested block, begins
  further on in the text.
\<close>

section \<open>The routines on the text\<close>

lemma prefix_at_not_fuel [simp]: "prefix_at m p s \<noteq> Inl Fuel"
  by (induction m p s rule: prefix_at.induct) (auto simp: bindR_Inl)

lemma strncmp2_not_fuel [simp]: "strncmp2 m b e s \<noteq> Inl Fuel"
  by (simp add: strncmp2_def)

lemma isstrpref_not_fuel [simp]: "isstrpref s m p \<noteq> Inl Fuel"
  by (induction s m p rule: isstrpref.induct) (auto simp: bindR_Inl)

lemma matching_loop_not_fuel: "matching_loop x y m b e d \<noteq> Inl Fuel"
proof (induction x y m b e d rule: matching_loop.induct)
  case (1 x y m b e d)
  then show ?case by (subst matching_loop.simps) (auto simp: bindR_Inl Let_def)
qed

lemma matching_rev_not_fuel: "matching_rev_loop e x y m b d \<noteq> Inl Fuel"
  by (induction e x y m b d rule: matching_rev_loop.induct) (auto simp: bindR_Inl Let_def)

lemma find_matching_not_fuel [simp]: "find_matching x y m b e \<noteq> Inl Fuel" "find_matching_rev x y m b e \<noteq> Inl Fuel"
  by (simp_all add: find_matching_def find_matching_rev_def matching_loop_not_fuel matching_rev_not_fuel)

lemma find_char_c_not_fuel [simp]: "find_char_c m s e c \<noteq> Inl Fuel"
proof -
  have "find_char_c_loop m s e c s2 \<noteq> Inl Fuel" for s2
  proof (induction m s e c s2 rule: find_char_c_loop.induct)
    case (1 m s e c s2)
    then show ?case by (subst find_char_c_loop.simps) (auto simp: bindR_Inl)
  qed
  then show ?thesis by (simp add: find_char_c_def)
qed

lemma find_char_back_not_fuel [simp]: "find_char_back m s e c \<noteq> Inl Fuel"
  by (induction m s e c rule: find_char_back.induct) (auto simp: bindR_Inl)

lemma rewriting_not_fuel [simp]:
  "fix_operations m p \<noteq> Inl Fuel" "fix_operations2 m p b \<noteq> Inl Fuel" "spaces_loop m w e r \<noteq> Inl Fuel"
  "string_end_at m p \<noteq> Inl Fuel"
proof -
  show "string_end_at m p \<noteq> Inl Fuel" for m p
  proof (induction m p rule: string_end_at.induct)
    case (1 m p)
    then show ?case by (subst string_end_at.simps) (auto simp: bindR_Inl)
  qed
  note e = this
  show "fix_operations m p \<noteq> Inl Fuel"
  proof (induction m p rule: fix_operations.induct)
    case (1 m p)
    then show ?case
      by (subst fix_operations.simps) (auto simp: bindR_Inl fuse_at_def wr_not_fuel split: option.splits)
  qed
  have "fix_char m p b x \<noteq> Inl Fuel" for m p b x
    by (auto simp: fix_char_def bindR_Inl wr_not_fuel e split: option.splits)
  then show "fix_operations2 m p b \<noteq> Inl Fuel"
  proof (induction m p b rule: fix_operations2.induct)
    case (1 m p b)
    then show ?case by (subst fix_operations2.simps) (auto simp: bindR_Inl)
  qed
  show "spaces_loop m w e r \<noteq> Inl Fuel"
  proof (induction m w e r rule: spaces_loop.induct)
    case (1 m w e r)
    then show ?case by (subst spaces_loop.simps) (auto simp: bindR_Inl wr_not_fuel)
  qed
qed

lemma trimstr_c_not_fuel [simp]: "trimstr_c m p \<noteq> Inl Fuel"
proof -
  have "skip_blanks m r \<noteq> Inl Fuel" for m r
  proof (induction m r rule: skip_blanks.induct)
    case (1 m r)
    then show ?case by (subst skip_blanks.simps) (auto simp: bindR_Inl)
  qed
  moreover have "move_back m w r \<noteq> Inl Fuel" for m w r
  proof (induction m w r rule: move_back.induct)
    case (1 m w r)
    then show ?case by (subst move_back.simps) (auto simp: bindR_Inl wr_not_fuel)
  qed
  moreover have "cut_blanks m p w \<noteq> Inl Fuel" for m w
    by (induction m p w rule: cut_blanks.induct) (auto simp: bindR_Inl wr_not_fuel)
  ultimately show ?thesis by (auto simp: trimstr_c_def bindR_Inl wr_not_fuel)
qed

lemma remove_spaces_c_not_fuel [simp]: "remove_spaces_c m p e \<noteq> Inl Fuel"
  by (simp add: remove_spaces_c_def)

lemma fix_strings_not_fuel [simp]: "fix_strings m b e mode \<noteq> Inl Fuel"
proof -
  have "wr_all m p s \<noteq> Inl Fuel" for m p s
    by (induction m p s rule: wr_all.induct) (auto simp: bindR_Inl wr_not_fuel)
  moreover have "fix_round m b e mode \<noteq> Inl Fuel" for m b mode
    unfolding fix_round_def fix_literal_def by (intro not_intros) simp_all
  ultimately show ?thesis
  proof (induction m b e mode rule: fix_strings.induct)
    case (1 m b e mode)
    then show ?case by (subst fix_strings.simps) (auto simp: bindR_Inl)
  qed
qed

lemma decode_number_c_not_fuel [simp]: "decode_number_c m b e \<noteq> Inl Fuel"
proof -
  have "number_loop m b e x y n \<noteq> Inl Fuel" for b x y n
  proof (induction m b e x y n rule: number_loop.induct)
    case (1 m b e x y n)
    then show ?case by (subst number_loop.simps) (auto simp: bindR_Inl Let_def)
  qed
  then show ?thesis by (auto simp: decode_number_c_def bindR_Inl)
qed

lemma symbol2_not_fuel [simp]: "find_symbol2 m b e s \<noteq> Inl Fuel" "find_in_stack2 m b e t \<noteq> Inl Fuel"
proof -
  have "symbol2_loop m b e names num i \<noteq> Inl Fuel" for names num i
  proof (induction m b e names num i rule: symbol2_loop.induct)
    case (1 m b e names num i)
    then show ?case by (subst symbol2_loop.simps) (auto simp: bindR_Inl)
  qed
  then show "find_symbol2 m b e s \<noteq> Inl Fuel" by (simp add: find_symbol2_def bindR_Inl)
  have "stack2_loop m b e vars d i \<noteq> Inl Fuel" for vars d i
  proof (induction m b e vars d i rule: stack2_loop.induct)
    case (1 m b e vars d i)
    then show ?case by (subst stack2_loop.simps) (auto simp: bindR_Inl)
  qed
  then show "find_in_stack2 m b e t \<noteq> Inl Fuel" by (simp add: find_in_stack2_def)
qed

lemma pivot_not_fuel [simp]: "pivot_forward m p e pv \<noteq> Inl Fuel" "pivot_backward m b p pv \<noteq> Inl Fuel"
proof -
  show "pivot_forward m p e pv \<noteq> Inl Fuel"
  proof (induction m p e pv rule: pivot_forward.induct)
    case (1 m p e pv)
    then show ?case by (subst pivot_forward.simps) (auto simp: bindR_Inl split: option.splits)
  qed
  show "pivot_backward m b p pv \<noteq> Inl Fuel"
  proof (induction m b p pv rule: pivot_backward.induct)
    case (1 m b p pv)
    then show ?case by (subst pivot_backward.simps) (auto simp: bindR_Inl split: option.splits)
  qed
qed

section \<open>Expressions\<close>

lemma pivot_forward_range: "pivot_forward m p e pv = Inr (Some q) \<Longrightarrow> p \<le> q \<and> q < e"
proof (induction m p e pv rule: pivot_forward.induct)
  case (1 m p e pv)
  from "1.prems" show ?case
    by (subst (asm) pivot_forward.simps)
      (fastforce simp: bindR_Inr find_matching_def dest: "1.IH" matching_loop_ge split: if_splits option.splits)
qed

lemma pivot_backward_range: "pivot_backward m b p pv = Inr (Some q) \<Longrightarrow> b \<le> q \<and> q < p"
proof (induction m b p pv rule: pivot_backward.induct)
  case (1 m b p pv)
  from "1.prems" show ?case
    by (subst (asm) pivot_backward.simps)
      (fastforce simp: bindR_Inr find_matching_rev_def dest: "1.IH" matching_rev_less split: if_splits option.splits)
qed

lemma find_char_back_ge: "find_char_back m s e c = Inr (Some p) \<Longrightarrow> s < e \<Longrightarrow> s \<le> p"
proof (induction m s e c rule: find_char_back.induct)
  case (2 m s s2 c)
  then show ?case by (cases "s2 = s") (auto simp: bindR_Inr split: if_splits)
qed simp

text \<open>\<open>ends_below k ev\<close>: the evaluator does not run out of steps on texts shorter than \<open>k\<close>.\<close>

definition ends_below :: "nat \<Rightarrow> evaluator \<Rightarrow> bool" where
  "ends_below k ev \<longleftrightarrow> (\<forall>b e a. e - b < k \<longrightarrow> never Fuel (ev b e a))"

lemma never_lift_then: "r \<noteq> Inl e \<Longrightarrow> (\<And>x. r = Inr x \<Longrightarrow> never e (f x)) \<Longrightarrow> never e (bindM (liftM r) f)"
  by (cases r) (auto simp: never_def bindM_eval)

lemma never_get_lift: "(\<And>s. g s \<noteq> Inl e) \<Longrightarrow> (\<And>x. never e (f x)) \<Longrightarrow> never e (bindM (getM g) (\<lambda>r. bindM (liftM r) f))"
  by (auto simp: never_def bindM_eval liftM_def split: sum.splits)

lemma never_option_then: "never e m \<Longrightarrow> (\<And>x. v = Some x \<Longrightarrow> never e (f x)) \<Longrightarrow> never e (case v of None \<Rightarrow> m | Some x \<Rightarrow> f x)"
  by (cases v) simp_all

lemma never_assert_then: "e \<noteq> Panic \<Longrightarrow> (b \<Longrightarrow> never e m) \<Longrightarrow> never e (thenM (assertM b) m)"
  by (cases b) (auto simp: never_def)

lemma never_emits [never_intros]: "never Fuel (emits bs)"
  unfolding emits_def by (induction bs) (simp_all add: never_intros del: retM_eval)

lemma never_get_symbol2 [never_intros]: "never Fuel (get_symbol2 m b e)"
  unfolding get_symbol2_def
  by (rule never_bind, rule never_intros, intro never_if never_get_lift never_then never_assert never_get never_ret never_fail) simp_all

lemma never_cc [never_intros]: "never Fuel gen_id" "never Fuel (get_symbol_c n)"
    "never Fuel (add_symbol_c n l)" "never Fuel (push_var_c v)" "never Fuel pop_var_c"
    "never Fuel (pop_to_depth d)" "never Fuel push_temp" "never Fuel (push_word x)"
  unfolding gen_id_def get_symbol_c_def add_symbol_c_def push_var_c_def pop_var_c_def
    pop_to_depth_def push_temp_def push_word_def
  by (intro never_intros; simp)+

lemma never_call_params:
  assumes "ends_below k ev" "b \<le> e" "e - b < k"
  shows "never Fuel (call_params ev m b e n)"
  using assms(2,3)
proof (induction e arbitrary: n rule: less_induct)
  case (less e)
  have range: "b \<le> p \<and> p < e" if "find_char_back m b e (CHR '','') = Inr (Some p)" "b \<noteq> e" for p
    using find_char_back_ge [OF that(1)] find_char_back_less [OF that(1)] less.prems that(2) by auto
  have ev: "never Fuel (ev b' e a)" if "b \<le> b'" for b' a using assms(1) less.prems that by (auto simp: ends_below_def)
  show ?case
    using range find_char_back_not_fuel [of m b e "CHR '',''"]
    by (subst call_params.simps)
      (auto intro!: never_intros ev less.IH split: sum.split option.split dest: range, (use range less.prems in fastforce)+)
qed

lemma never_run_call:
  assumes ev: "ends_below (e - b) ev" and op: "b \<le> op" "op < e" "rd m op = Inr TOK_CALL_OPEN"
  shows "never Fuel (run_call ev m b op e addr)"
proof -
  have inside: "op + 1 \<le> q" if "find_matching TOK_CALL_OPEN TOK_CALL_CLOSED m op e = Inr (Some q)" for q
    using that op matching_loop_ge [of TOK_CALL_OPEN TOK_CALL_CLOSED m "op + 1" e 1 q]
    by (simp add: find_matching_def matching_loop.simps [of _ _ m op])
  have sub: "never Fuel (ev b op a)" for a using ev op by (auto simp: ends_below_def)
  have params: "never Fuel (call_params ev m (op + 1) (e - 1) 0)" if "op + 1 \<le> e - 1"
    using ev op that by (intro never_call_params [of "e - b"]) auto
  show ?thesis
    unfolding run_call_def
    by (intro never_intros never_lift_then never_assert_then params sub; (use inside in force)?)
qed

lemma never_run_eval_expr:
  assumes ev: "ends_below (e - b) ev" and op: "b \<le> op" "op < e"
  shows "never Fuel (run_eval_expr ev m b op e addr)"
proof -
  have sub: "never Fuel (ev (op + 1) e a)" "never Fuel (ev b op a)" for a
    using ev op by (auto simp: ends_below_def)
  show ?thesis
    unfolding run_eval_expr_def run_assign_def run_deref_def run_addr_def run_not_def run_binary_def
    by (intro never_lift_then never_intros sub never_run_call [OF ev op]) simp_all
qed

lemma never_variable: "never Fuel (variable_operand m b e a)"
  unfolding variable_operand_def by (rule never_get_lift, simp, intro never_intros) simp_all

lemma never_operand [never_intros]: "never Fuel (operand_c m b e a)"
  unfolding operand_c_def number_operand_def char_operand_def string_operand_def
  by (intro never_intros never_variable; simp)

lemma never_parse_levels:
  assumes "ends_below (e - b) ev"
  shows "never Fuel (parse_levels ls ev m b e addr)"
proof (induction ls)
  case (Cons l ls)
  obtain pivots dir where l: "l = (pivots, dir)" by (cases l)
  have "never Fuel (parse_expr ev m b e pivots dir addr)"
  proof -
    have "b \<le> p \<and> p < e" if "(if dir = 0 then pivot_forward m b e pivots else pivot_backward m b e pivots) = Inr (Some p)" for p
      using that by (auto split: if_splits dest: pivot_forward_range pivot_backward_range)
    then show ?thesis using never_run_eval_expr [OF assms]
      by (auto simp: parse_expr_def never_def bindM_eval liftM_def split: sum.splits option.splits if_splits)
  qed
  then show ?case using Cons unfolding l parse_levels.simps by (intro never_intros)
qed (simp add: never_intros)

lemma ends_below_eval_expr: "ends_below n (eval_expr n m)"
proof (induction n)
  case (Suc n)
  show ?case
    unfolding ends_below_def
  proof (intro allI impI)
    fix b e a
    assume len: "e - b < Suc n"
    then have "ends_below (e - b) (eval_expr n m)" using Suc by (auto simp: ends_below_def)
    moreover have "never Fuel (eval_expr n m (b + 1) (e - 1) a)" if "find_matching x y m b e = Inr (Some q)" for x y q
      using that matching_loop_ge [of x y m b e 0 q] Suc len by (auto simp: ends_below_def find_matching_def)
    ultimately show "never Fuel (eval_expr (Suc n) m b e a)"
      unfolding eval_expr.simps
      by (intro never_lift_then never_option_then never_intros never_parse_levels) auto
  qed
qed (simp add: ends_below_def)

section \<open>Statements\<close>

lemma string_end_at_less: "string_end_at m p = Inr e \<Longrightarrow> e < length m"
proof (induction m p rule: string_end_at.induct)
  case (1 m p)
  from "1.prems" show ?case
    by (subst (asm) string_end_at.simps) (auto simp: bindR_Inr dest: "1.IH" rd_InrD split: if_splits)
qed

lemma never_edit: "(\<And>m. f m \<noteq> Inl Fuel) \<Longrightarrow> never Fuel (edit f)"
  unfolding edit_def by (rule never_bind, rule never_intros, intro never_intros)

lemma never_compile_expression [never_intros]: "never Fuel (compile_expression p)"
proof -
  have "never Fuel (eval_expr (length m + 1) m p e False)" if "string_end_at m p = Inr e" for m e
    using ends_below_eval_expr [of "length m + 1" m] string_end_at_less [OF that] by (auto simp: ends_below_def)
  then show ?thesis
    unfolding compile_expression_def
    by (intro never_lift_then never_intros never_edit) simp_all
qed

lemma never_text [never_intros]: "never Fuel (text_at p)" "never Fuel (peek_text p)" "never Fuel (poke_text p c)"
  unfolding text_at_def peek_text_def poke_text_def by (intro never_edit never_intros; simp add: wr_not_fuel)+

lemma never_compile_statement [never_intros]: "never Fuel (compile_statement b e)"
  unfolding compile_statement_def return_statement_def int_statement_def expression_statement_def
  by (intro never_edit never_intros; simp del: isstrpref.simps)

lemma never_labels [never_intros]:
  "never Fuel (place_lab lab)" "never Fuel (emit_disp lab)" "never Fuel (process_fi labs)"
  "never Fuel (process_else labs)" "never Fuel (process_if_end labs)"
  unfolding place_lab_def emit_disp_def process_fi_def process_else_def process_if_end_def
  by (intro never_intros; simp)+

lemma never_branches [never_intros]: "never Fuel (process_if p labs)" "never Fuel (process_elseif p labs)" "never Fuel (close_block d)"
  unfolding process_if_def process_elseif_def if_test_def close_block_def by (intro never_intros; simp)+

lemma never_push_params [never_intros]: "never Fuel (push_params b e n)"
proof (induction e arbitrary: n rule: less_induct)
  case (less e)
  have one: "never Fuel (bindM (text_at p) push_var_c)" for p by (intro never_intros)
  show ?case
    unfolding never_def
  proof
    fix s :: cc
    have "never Fuel (bindM (liftM (find_char_back (c_text s) b e (CHR '',''))) (\<lambda>pos. case pos of
        Some pos \<Rightarrow> bindM (thenM (poke_text pos NUL) (bindM (text_at (pos + 1)) push_var_c)) (\<lambda>_. push_params b pos (n + 1))
      | None \<Rightarrow> thenM (bindM (text_at b) push_var_c) (retM (n + 1))))"
      by (intro never_lift_then never_option_then never_bind [of _ "thenM _ _"] never_then never_text one never_ret less)
        (auto dest: find_char_back_less)
    then show "push_params b e n s \<noteq> Inl Fuel"
      by (subst push_params.simps) (simp add: never_def)
  qed
qed

lemma never_heads [never_intros]: "never Fuel (split_head d b)" "never Fuel (function_head d ps labs)"
    "never Fuel (branch_head d ps labs)"
  unfolding split_head_def function_head_def branch_head_def
  by (intro never_edit never_intros; simp del: prefix_at.simps)+

lemma never_string_chars [never_intros]: "never Fuel (string_chars m b e)"
proof (induction m b e rule: string_chars.induct)
  case (1 m b e)
  show ?case
  proof (cases "rd m b")
    case (Inl err)
    then have "err \<noteq> Fuel" using rd_not_fuel [of m b] by auto
    then show ?thesis by (subst string_chars.simps, subst Inl, simp del: retM_eval, intro conjI impI never_intros)
  next
    case (Inr c)
    have "never Fuel (string_chars m (b + 2) e)" if "b < e" "c = CHR 0x22" using 1(1) [OF that(1) Inr that(2)] .
    moreover have "never Fuel (string_chars m (b + 1) e)" if "b < e" "c \<noteq> CHR 0x22" using 1(2) [OF that(1) Inr that(2)] .
    ultimately show ?thesis
      by (subst string_chars.simps, subst Inr, simp only: sum.case) (intro never_intros; simp)
  qed
qed

lemma never_create_strings [never_intros]: "never Fuel create_strings"
proof -
  have "never Fuel (create_string i)" for i
    unfolding create_string_def by (intro never_intros; simp)
  then have "never Fuel (doM (map create_string is))" for "is"
    by (induction "is") (simp_all add: never_intros del: retM_eval)
  then show ?thesis unfolding create_strings_def by (intro never_intros)
qed

section \<open>Blocks\<close>

text \<open>Composition with an action that keeps the size of the text.\<close>

lemma lasts_kept:
  assumes "never Fuel m" "steps kept_rel m"
    and "\<And>a t. m s = Inr (a, t) \<Longrightarrow> length (c_text t) = length (c_text s) \<Longrightarrow> lasts (f a) t"
  shows "lasts (bindM m f) s"
  by (rule lasts_bind) (use assms in \<open>auto simp: lasts_never kept_rel_def dest: stepsD\<close>)

lemma lasts_kept_then:
  assumes "never Fuel m" "steps kept_rel m"
    and "\<And>t. length (c_text t) = length (c_text s) \<Longrightarrow> lasts n t"
  shows "lasts (thenM m n) s"
  unfolding thenM_def by (rule lasts_kept) (use assms in auto)

lemma find_char_c_less: "find_char_c m s e c = Inr (Some p) \<Longrightarrow> s + p < length m"
proof -
  have "find_char_c_loop m s e c s2 = Inr (Some p) \<Longrightarrow> s \<le> s2 \<Longrightarrow> s + p < length m" for s2
  proof (induction m s e c s2 rule: find_char_c_loop.induct)
    case (1 m s e c s2)
    from "1.prems" show ?case
      by (subst (asm) find_char_c_loop.simps) (auto simp: bindR_Inr dest: "1.IH" rd_InrD split: if_splits)
  qed
  then show "find_char_c m s e c = Inr (Some p) \<Longrightarrow> s + p < length m" by (auto simp: find_char_c_def)
qed

lemma lasts_with_head:
  assumes "\<And>t. length (c_text t) = length (c_text s) \<Longrightarrow> lasts (block (bb + 1) (be - 1)) t"
    and kept: "\<And>b e. steps kept_rel (block b e)"
  shows "lasts (compile_block_with_head block d bb be labs) s"
proof -
  have rest: "lasts (case x of (n, labs) \<Rightarrow> thenM (block (bb + 1) (be - 1)) (bindM (getM c_block_depth) (f n labs))) t"
    if "length (c_text t) = length (c_text s)" "\<And>n labs bd. never Fuel (f n labs bd)" for t f and x :: "nat \<times> labels"
  proof -
    have "lasts (thenM (block (bb + 1) (be - 1)) (bindM (getM c_block_depth) (f n labs))) t" for n labs
      by (intro lasts_then assms(1) that lasts_never never_bind never_get)
    then show ?thesis by (cases x) (simp only: prod.case)
  qed
  have head: "never Fuel (if bd = 1 then bindM (function_head d ps labs) (\<lambda>n. retM (n, labs))
      else bindM (branch_head d ps labs) (\<lambda>labs. retM (0, labs)))"
    "steps kept_rel (if bd = 1 then bindM (function_head d ps labs) (\<lambda>n. retM (n, labs))
      else bindM (branch_head d ps labs) (\<lambda>labs. retM (0, labs)))" for bd :: int and ps
    by (intro never_intros) (intro kept_intros)
  show ?thesis
    unfolding compile_block_with_head_def
    by (intro lasts_kept [OF never_heads(1) kept_heads(1)] lasts_get lasts_kept [OF head])
      (intro rest never_intros; simp)
qed

lemma lasts_compile_block:
  assumes "\<And>t. length (c_text t) = length (c_text s) \<Longrightarrow> lasts (loop b e (0, 0)) t"
  shows "lasts (compile_block loop b e) s"
  unfolding compile_block_def
  by (intro lasts_mod lasts_get lasts_bind [where m = "loop _ _ _"] assms lasts_never never_intros) simp

lemma lasts_block_loop: "length (c_text s) - b < n \<Longrightarrow> lasts (block_loop_c n b e labs) s"
proof (induction n arbitrary: s b e labs)
  case (Suc n)
  have on: "lasts (block_loop_c n b' e' labs') t" if "b < b'" "b < length (c_text s)" "length (c_text t) = length (c_text s)"
    for b' e' labs' t using Suc that by simp
  have nested: "lasts (compile_block (block_loop_c n) b' e') t"
    if "b < b'" "b < length (c_text s)" "length (c_text t) = length (c_text s)" for b' e' t
    by (rule lasts_compile_block) (use on that in auto)
  let ?m = "c_text s"
  have closing: "never Fuel (thenM (doM [poke_text e NUL, edit (\<lambda>m. trimstr_c m b)])
      (bindM (peek_text b) (\<lambda>c. thenM (assertM (c = NUL)) (retM labs))))"
    by (intro never_intros never_edit) simp_all
  show ?case
    unfolding block_loop_c.simps
  proof (intro lasts_get lasts_lift lasts_if lasts_never [OF closing])
    fix semi brace
    assume found: "find_char_c ?m b e (CHR '';'') = Inr semi" "find_char_c ?m b e (CHR ''{'') = Inr brace"
      and some: "\<not> (semi = None \<and> brace = None)"
    have b: "b < length ?m" using found some by (cases semi; cases brace) (auto dest: find_char_c_less)
    let ?round = "\<lambda>sp bp. if sp < bp
      then bindM (process_fi labs) (\<lambda>labs. thenM (compile_statement b (b + sp)) (block_loop_c n (b + sp + 1) e labs))
      else bindM (liftM (find_matching (CHR ''{'') (CHR ''}'') ?m (b + bp) e)) (\<lambda>res. case res of
          None \<Rightarrow> failM Undef
        | Some res \<Rightarrow> bindM (compile_block_with_head (compile_block (block_loop_c n)) b (b + bp) res labs)
            (\<lambda>labs. block_loop_c n (res + 1) e labs))"
    have "lasts (?round sp bp) s" for sp bp
    proof (intro lasts_if lasts_lift)
      show "lasts (bindM (process_fi labs) (\<lambda>labs. thenM (compile_statement b (b + sp)) (block_loop_c n (b + sp + 1) e labs))) s"
        by (intro lasts_kept [OF never_labels(3) kept_labels(3)] lasts_kept_then [OF never_compile_statement kept_compile_statement] on)
          (simp_all add: b)
      fix res
      assume res: "find_matching (CHR ''{'') (CHR ''}'') ?m (b + bp) e = Inr res"
      have "lasts (bindM (compile_block_with_head (compile_block (block_loop_c n)) b (b + bp) r labs)
          (\<lambda>labs. block_loop_c n (r + 1) e labs)) s" if r: "res = Some r" for r
      proof (rule lasts_bind)
        have "b \<le> r" using res matching_loop_ge [of "CHR ''{''" "CHR ''}''" ?m "b + bp" e 0 r] by (simp add: r find_matching_def)
        show "lasts (compile_block_with_head (compile_block (block_loop_c n)) b (b + bp) r labs) s"
          by (intro lasts_with_head nested kept_compile_block kept_block_loop) (simp_all add: b)
        fix labs' t
        assume "compile_block_with_head (compile_block (block_loop_c n)) b (b + bp) r labs s = Inr (labs', t)"
        then have "kept_rel s t" by (rule stepsD [rotated]) (intro kept_with_head kept_compile_block kept_block_loop)
        then show "lasts (block_loop_c n (r + 1) e labs') t" using \<open>b \<le> r\<close> b by (intro on) (auto simp: kept_rel_def)
      qed
      then show "lasts (case res of None \<Rightarrow> failM Undef
          | Some res \<Rightarrow> bindM (compile_block_with_head (compile_block (block_loop_c n)) b (b + bp) res labs)
            (\<lambda>labs. block_loop_c n (res + 1) e labs)) s"
        by (cases res) (auto intro: lasts_basic)
    qed simp
    then show "lasts (let semicolon_pos = (case semi of Some p \<Rightarrow> p | None \<Rightarrow> the brace + 1);
        brace_pos = (case brace of Some p \<Rightarrow> p | None \<Rightarrow> semicolon_pos + 1) in ?round semicolon_pos brace_pos) s"
      unfolding Let_def .
  qed simp_all
qed (simp add: lasts_def)

lemma lasts_compile_stage: "lasts (compile_stage (length (mapped file) + 1) file st) s"
  unfolding compile_stage_def doM.simps
proof (intro lasts_mod)
  let ?t = "s\<lparr>stage := st, lab_id := 1, string_num := 0, c_text := mapped file\<rparr>"
  let ?n = "length (mapped file) + 1"
  have rest: "never Fuel (thenM create_strings (thenM (bindM (getM c_block_depth) (\<lambda>d. assertM (d = 0)))
      (thenM (bindM (getM c_stack_depth) (\<lambda>d. assertM (d = 0))) (retM ()))))"
    by (intro never_intros) simp_all
  show "lasts (thenM (edit (\<lambda>m. fix_strings m 0 (length file) 0))
     (thenM (modM (\<lambda>s. s\<lparr>c_block_depth := 0, c_stack_depth := 0, current_loc := 0x100000\<rparr>))
       (thenM (compile_block (block_loop_c ?n) 0 (length file))
         (thenM create_strings (thenM (bindM (getM c_block_depth) (\<lambda>d. assertM (d = 0)))
           (thenM (bindM (getM c_stack_depth) (\<lambda>d. assertM (d = 0))) (retM ()))))))) ?t"
    by (intro lasts_kept_then never_edit kept_edit fix_strings_not_fuel lasts_mod lasts_then [where m = "compile_block _ _ _"]
        lasts_never [OF rest] lasts_compile_block lasts_block_loop) (auto dest: fix_strings_length)
qed

text \<open>C25: The C compiler terminates on every file: neither the recursion of expressions, which gets one step
  for every character of the text, nor that of blocks and statements, which gets the same, runs out of
  steps, whether the file is well formed or not.\<close>

theorem main_c_terminates: "main_c file s \<noteq> Inl Fuel"
proof -
  have "lasts (main_steps (length (mapped file) + 1) file) s"
    unfolding main_steps_def doM.simps
    by (intro lasts_mod lasts_then [where m = "compile_stage _ _ _"] lasts_compile_stage lasts_basic)
  then show ?thesis by (simp add: main_c_def lasts_def)
qed

end
