(* ===== verification/CcArith.thy ===== *)
theory CcArith
  imports CcTotal Machine
begin

text \<open>
  What the code of the operators does when it runs: \<open>c_binary\<close> and \<open>c_unary\<close> are the operators of C on \<open>int\<close>, \<open>cc_binary\<close> those
  of the language that the compiler implements, which differ from them for negative dividends and shifted values. The code that
  \<open>run_eval_expr\<close> emits for an operator leaves its value in the latter in \<open>eax\<close>, if it finds the operands in \<open>eax\<close> and \<open>ecx\<close>.
\<close>

section \<open>The operators\<close>

definition truth :: "bool \<Rightarrow> i32" where
  "truth b = (if b then 1 else 0)"

text \<open>The operators of C for 32-bit two's complement numbers. The value is \<open>None\<close> where C has none: a division by zero, a
  quotient that is too large, a shift by the width or more. Sums, differences and products that overflow wrap around, and a
  right shift copies the sign, as C compilers define them on this machine.\<close>

definition quotient_fits :: "i32 \<Rightarrow> i32 \<Rightarrow> bool" where
  "quotient_fits a b \<longleftrightarrow> b \<noteq> 0 \<and> \<not> (sint a = - (2 ^ 31) \<and> sint b = - 1)"

definition c_binary :: "char \<Rightarrow> i32 \<Rightarrow> i32 \<Rightarrow> i32 option" where
  "c_binary x a b =
     (if x = CHR ''+'' then Some (a + b)
      else if x = CHR ''-'' then Some (a - b)
      else if x = CHR ''*'' then Some (a * b)
      else if x = CHR ''/'' then (if quotient_fits a b then Some (of_int (sint a sdiv sint b)) else None)
      else if x = CHR ''%'' then (if quotient_fits a b then Some (of_int (sint a smod sint b)) else None)
      else if x = TOK_SHL then (if b < 32 then Some (push_bit (unat b) a) else None)
      else if x = TOK_SHR then (if b < 32 then Some (signed_drop_bit (unat b) a) else None)
      else if x = CHR ''&'' then Some (a AND b)
      else if x = CHR ''|'' then Some (a OR b)
      else if x = TOK_AND then Some (truth (a \<noteq> 0 \<and> b \<noteq> 0))
      else if x = TOK_OR then Some (truth (a \<noteq> 0 \<or> b \<noteq> 0))
      else if x = TOK_EQ then Some (truth (a = b))
      else if x = TOK_NE then Some (truth (a \<noteq> b))
      else if x = CHR ''<'' then Some (truth (sint a < sint b))
      else if x = TOK_LE then Some (truth (sint a \<le> sint b))
      else if x = CHR ''>'' then Some (truth (sint a > sint b))
      else if x = TOK_GE then Some (truth (sint a \<ge> sint b))
      else None)"

text \<open>The operators of the compiler's language. A quotient or remainder of a negative number has no value: the code clears
  \<open>edx\<close> instead of extending the sign. A right shift does not copy the sign.\<close>

definition cc_binary :: "char \<Rightarrow> i32 \<Rightarrow> i32 \<Rightarrow> i32 option" where
  "cc_binary x a b =
     (if x = CHR ''+'' then Some (a + b)
      else if x = CHR ''-'' then Some (a - b)
      else if x = CHR ''*'' then Some (a * b)
      else if x = CHR ''/'' then (if b = 0 \<or> sint a < 0 then None else Some (of_int (sint a sdiv sint b)))
      else if x = CHR ''%'' then (if b = 0 \<or> sint a < 0 then None else Some (of_int (sint a smod sint b)))
      else if x = TOK_SHL then (if b < 32 then Some (push_bit (unat b) a) else None)
      else if x = TOK_SHR then (if b < 32 then Some (drop_bit (unat b) a) else None)
      else if x = CHR ''&'' then Some (a AND b)
      else if x = CHR ''|'' then Some (a OR b)
      else if x = TOK_AND then Some (truth (a \<noteq> 0 \<and> b \<noteq> 0))
      else if x = TOK_OR then Some (truth (a \<noteq> 0 \<or> b \<noteq> 0))
      else if x = TOK_EQ then Some (truth (a = b))
      else if x = TOK_NE then Some (truth (a \<noteq> b))
      else if x = CHR ''<'' then Some (truth (sint a < sint b))
      else if x = TOK_LE then Some (truth (sint a \<le> sint b))
      else if x = CHR ''>'' then Some (truth (sint a > sint b))
      else if x = TOK_GE then Some (truth (sint a \<ge> sint b))
      else None)"

definition c_unary :: "char \<Rightarrow> i32 \<Rightarrow> i32" where
  "c_unary x a = (if x = CHR ''!'' then truth (a = 0) else NOT a)"

section \<open>Running code with jumps\<close>

lemma step_at:
  assumes "code_at mem a (encode i)" "eip c = a" "exec mem i (c\<lparr>eip := a + of_nat (length (encode i))\<rparr>) = Some d" "runs mem d e"
  shows "runs mem c e"
  using assms step_code [of mem c i] by (auto intro: runs_step)

lemma code_at_Nil [simp]: "code_at mem a []"
  by (simp add: code_at_def window_def)

text \<open>The pieces of a code, each at its address.\<close>

lemma code_pieces:
  "code_at mem a (concat (map encode (i # is))) \<longleftrightarrow>
     code_at mem a (encode i) \<and> code_at mem (a + of_nat (length (encode i))) (concat (map encode is))"
  "code_at mem a (concat (map encode []))"
  by (simp_all add: code_at_append)

lemma sizes:
  "length (encode (EaxEcx op)) = 2" "length (encode XorEax) = 2" "length (encode (Jcc k b)) = 2" "length (encode (Jmp b)) = 2"
  "length (encode (CmpEax b)) = 3" "length (encode (CmpEcx b)) = 3" "length (encode (MovEax v)) = 5" "length (encode XorEdx) = 2"
  "length (encode IdivEcx) = 2" "length (encode ImulEcx) = 2" "length (encode MovEaxEdx) = 2" "length (encode ShlCl) = 2"
  "length (encode ShrCl) = 2" "length (encode NotEax) = 2"
  by simp_all

text \<open>What the operators' code has to do.\<close>

definition leaves :: "memory \<Rightarrow> byte list \<Rightarrow> (cpu \<Rightarrow> bool) \<Rightarrow> i32 \<Rightarrow> bool" where
  "leaves mem bs P v \<longleftrightarrow> (\<forall>c. code_at mem (eip c) bs \<and> P c \<longrightarrow>
     (\<exists>d. runs mem c d \<and> eip d = eip c + of_nat (length bs) \<and> stk d = stk c \<and> eax d = v))"

lemma leaves_one:
  assumes "\<And>c. P c \<Longrightarrow> \<exists>d. exec mem i c = Some d \<and> eip d = eip c \<and> stk d = stk c \<and> eax d = v"
    and "\<And>c a. P (c\<lparr>eip := a\<rparr>) = P c"
  shows "leaves mem (encode i) P v"
  unfolding leaves_def
proof (intro allI impI)
  fix c
  assume c: "code_at mem (eip c) (encode i) \<and> P c"
  let ?c = "c\<lparr>eip := eip c + of_nat (length (encode i))\<rparr>"
  obtain d where "exec mem i ?c = Some d" "eip d = eip ?c" "stk d = stk ?c" "eax d = v"
    using assms(1) [of ?c] assms(2) c by blast
  with c show "\<exists>d. runs mem c d \<and> eip d = eip c + of_nat (length (encode i)) \<and> stk d = stk c \<and> eax d = v"
    by (intro exI [of _ d]) (auto intro: step_at runs_refl)
qed

lemma leaves_after:
  assumes "leaves mem bs Q v"
    and "\<And>c. P c \<Longrightarrow> \<exists>d. exec mem i c = Some d \<and> eip d = eip c \<and> stk d = stk c \<and> Q d"
    and "\<And>c a. P (c\<lparr>eip := a\<rparr>) = P c"
  shows "leaves mem (encode i @ bs) P v"
  unfolding leaves_def
proof (intro allI impI)
  fix c
  assume c: "code_at mem (eip c) (encode i @ bs) \<and> P c"
  let ?c = "c\<lparr>eip := eip c + of_nat (length (encode i))\<rparr>"
  obtain d where d: "exec mem i ?c = Some d" "eip d = eip ?c" "stk d = stk ?c" "Q d"
    using assms(2) [of ?c] assms(3) c by blast
  have "code_at mem (eip d) bs" using c d(2) by (simp add: code_at_append)
  with d(4) assms(1) obtain e where "runs mem d e" "eip e = eip d + of_nat (length bs)" "stk e = stk d" "eax e = v"
    unfolding leaves_def by blast
  with c d show "\<exists>d. runs mem c d \<and> eip d = eip c + of_nat (length (encode i @ bs)) \<and> stk d = stk c \<and> eax d = v"
    by (intro exI [of _ e]) (auto simp: code_at_append add.assoc intro: step_at)
qed


text \<open>A flag turned into 0 or 1.\<close>

lemma leaves_truth:
  "leaves mem (concat (map encode [Jcc k 4, XorEax, Jmp 5, MovEax 1])) (\<lambda>c. cmp c = Some ab) (truth (holds_cond k ab))"
  unfolding leaves_def
proof (intro allI impI)
  fix c :: cpu
  let ?is = "[Jcc k 4, XorEax, Jmp 5, MovEax 1]"
  assume c: "code_at mem (eip c) (concat (map encode ?is)) \<and> cmp c = Some ab"
  then have code: "code_at mem (eip c) (encode (Jcc k 4))" "code_at mem (eip c + 2) (encode XorEax)"
      "code_at mem (eip c + 4) (encode (Jmp 5))" "code_at mem (eip c + 6) (encode (MovEax 1))"
    unfolding code_pieces sizes by (simp_all del: encode.simps add: add.assoc)
  have "\<exists>d. runs mem c d \<and> eip d = eip c + 11 \<and> stk d = stk c \<and> eax d = truth (holds_cond k ab)"
  proof (cases "holds_cond k ab")
    case True
    let ?c1 = "c\<lparr>eip := eip c + 6\<rparr>"
    let ?d = "?c1\<lparr>eip := eip c + 11, eax := 1\<rparr>"
    have "runs mem ?c1 ?d" by (rule step_at [OF code(4) _ _ runs_refl]) simp_all
    then have "runs mem c ?d" by (rule step_at [OF code(1), rotated 2]) (use c True in simp_all)
    then show ?thesis using True by (intro exI [of _ ?d]) (simp add: truth_def)
  next
    case False
    let ?c1 = "c\<lparr>eip := eip c + 2\<rparr>"
    let ?c2 = "?c1\<lparr>eip := eip c + 4, eax := 0, cmp := None\<rparr>"
    let ?d = "?c2\<lparr>eip := eip c + 11\<rparr>"
    have "runs mem ?c2 ?d" by (rule step_at [OF code(3) _ _ runs_refl]) simp_all
    then have "runs mem ?c1 ?d" by (rule step_at [OF code(2), rotated 2]) simp_all
    then have "runs mem c ?d" by (rule step_at [OF code(1), rotated 2]) (use c False in simp_all)
    then show ?thesis using False by (intro exI [of _ ?d]) (simp add: truth_def)
  qed
  then show "\<exists>d. runs mem c d \<and> eip d = eip c + of_nat (length (concat (map encode ?is))) \<and> stk d = stk c \<and>
      eax d = truth (holds_cond k ab)"
    by simp
qed

text \<open>The two tests of \<open>&&\<close> and \<open>||\<close>: the instruction \<open>x\<close> sets \<open>eax\<close> if neither of them jumps to \<open>y\<close>.\<close>

definition sets :: "memory \<Rightarrow> instr \<Rightarrow> i32 \<Rightarrow> bool" where
  "sets mem i v \<longleftrightarrow> (\<forall>c. \<exists>d. exec mem i c = Some d \<and> eip d = eip c \<and> stk d = stk c \<and> eax d = v)"

lemma sets_simps: "sets mem (MovEax v) v" "sets mem XorEax 0"
  by (simp_all add: sets_def)

lemma sets_run:
  assumes "code_at mem (eip c) (encode i)" "sets mem i v"
  shows "\<exists>d. runs mem c d \<and> eip d = eip c + of_nat (length (encode i)) \<and> stk d = stk c \<and> eax d = v"
proof -
  let ?c = "c\<lparr>eip := eip c + of_nat (length (encode i))\<rparr>"
  obtain d where "exec mem i ?c = Some d" "eip d = eip ?c" "stk d = stk ?c" "eax d = v"
    using assms(2) unfolding sets_def by blast
  with assms(1) show ?thesis by (intro exI [of _ d]) (auto intro: step_at runs_refl)
qed

lemma leaves_tests:
  assumes x: "sets mem x u" and y: "sets mem y v"
    and da: "scast da = (7 + of_nat (length (encode x)) :: i32)" and db: "scast db = (2 + of_nat (length (encode x)) :: i32)"
    and dc: "scast dc = (of_nat (length (encode y)) :: i32)"
  shows "leaves mem (concat (map encode [CmpEax 0, Jcc k da, CmpEcx 0, Jcc k db, x, Jmp dc, y]))
    (\<lambda>c. eax c = a \<and> ecx c = b) (if holds_cond k (a, 0) \<or> holds_cond k (b, 0) then v else u)"
  unfolding leaves_def
proof (intro allI impI)
  fix c :: cpu
  let ?is = "[CmpEax 0, Jcc k da, CmpEcx 0, Jcc k db, x, Jmp dc, y]"
  let ?x = "of_nat (length (encode x)) :: i32" and ?y = "of_nat (length (encode y)) :: i32"
  assume c: "code_at mem (eip c) (concat (map encode ?is)) \<and> eax c = a \<and> ecx c = b"
  then have code: "code_at mem (eip c) (encode (CmpEax 0))" "code_at mem (eip c + 3) (encode (Jcc k da))"
      "code_at mem (eip c + 5) (encode (CmpEcx 0))" "code_at mem (eip c + 8) (encode (Jcc k db))"
      "code_at mem (eip c + 10) (encode x)" "code_at mem (eip c + 10 + ?x) (encode (Jmp dc))"
      "code_at mem (eip c + 12 + ?x) (encode y)"
    unfolding code_pieces sizes by (simp_all del: encode.simps add: algebra_simps)
  let ?goal = "\<lambda>s w. \<exists>d. runs mem s d \<and> eip d = eip c + 12 + ?x + ?y \<and> stk d = stk c \<and> eax d = w"
  have jump: "?goal s v" if "eip s = eip c + 12 + ?x" "stk s = stk c" for s
    using sets_run [OF _ y, of s] code(7) that by simp
  have fall: "?goal s u" if s: "eip s = eip c + 10" "stk s = stk c" for s
  proof -
    have "code_at mem (eip s) (encode x)" using code(5) s by simp
    from sets_run [OF this x] obtain t where t: "runs mem s t" "eip t = eip c + 10 + ?x" "stk t = stk c" "eax t = u"
      using s by auto
    let ?d = "t\<lparr>eip := eip c + 12 + ?x + ?y\<rparr>"
    have "runs mem t ?d"
      by (rule step_at [OF code(6) t(2) _ runs_refl]) (simp add: dc algebra_simps)
    with t show ?thesis by (intro exI [of _ ?d]) (auto intro: runs_trans)
  qed
  have on: "?goal s w" if "runs mem s t" "?goal t w" for s t w using that runs_trans by blast
  let ?c1 = "c\<lparr>eip := eip c + 3, cmp := Some (a, 0)\<rparr>" and ?c2 = "c\<lparr>eip := eip c + 5, cmp := Some (a, 0)\<rparr>"
  let ?c3 = "c\<lparr>eip := eip c + 8, cmp := Some (b, 0)\<rparr>" and ?c4 = "c\<lparr>eip := eip c + 10, cmp := Some (b, 0)\<rparr>"
  have run1: "runs mem c ?c1" by (rule step_at [OF code(1) _ _ runs_refl]) (use c in simp_all)
  have run3: "runs mem ?c2 ?c3" by (rule step_at [OF code(3) _ _ runs_refl]) (use c in simp_all)
  have test2: "?goal ?c2 (if holds_cond k (b, 0) then v else u)"
  proof (cases "holds_cond k (b, 0)")
    case True
    have "runs mem ?c3 (?c3\<lparr>eip := eip c + 12 + ?x\<rparr>)"
      by (rule step_at [OF code(4) _ _ runs_refl]) (use True in \<open>simp_all add: db algebra_simps\<close>)
    from on [OF run3 on [OF this jump]] True show ?thesis by simp
  next
    case False
    have "runs mem ?c3 ?c4" by (rule step_at [OF code(4) _ _ runs_refl]) (use False in simp_all)
    from on [OF run3 on [OF this fall]] False show ?thesis by simp
  qed
  have "?goal c (if holds_cond k (a, 0) \<or> holds_cond k (b, 0) then v else u)"
  proof (cases "holds_cond k (a, 0)")
    case True
    have "runs mem ?c1 (?c1\<lparr>eip := eip c + 12 + ?x\<rparr>)"
      by (rule step_at [OF code(2) _ _ runs_refl]) (use True in \<open>simp_all add: da algebra_simps\<close>)
    from on [OF run1 on [OF this jump]] True show ?thesis by simp
  next
    case False
    have "runs mem ?c1 ?c2" by (rule step_at [OF code(2) _ _ runs_refl]) (use False in simp_all)
    from on [OF run1 on [OF this test2]] False show ?thesis by simp
  qed
  then show "\<exists>d. runs mem c d \<and> eip d = eip c + of_nat (length (concat (map encode ?is))) \<and> stk d = stk c \<and>
      eax d = (if holds_cond k (a, 0) \<or> holds_cond k (b, 0) then v else u)"
    by (simp add: algebra_simps)
qed

section \<open>The code of the operators\<close>

abbreviation operands :: "i32 \<Rightarrow> i32 \<Rightarrow> cpu \<Rightarrow> bool" where
  "operands a b c \<equiv> eax c = a \<and> ecx c = b"

lemma leaves_alu: "leaves mem (encode (EaxEcx op)) (operands a b) (alu_result op a b)"
  by (rule leaves_one) auto

lemma leaves_compare:
  "leaves mem (concat (map encode [EaxEcx CmpOp, Jcc k 4, XorEax, Jmp 5, MovEax 1])) (operands a b) (truth (holds_cond k (a, b)))"
  using leaves_after [OF leaves_truth [of mem k "(a, b)"], of "operands a b" "EaxEcx CmpOp"] by simp

lemma leaves_imul: "leaves mem (encode ImulEcx) (operands a b) (a * b)"
  by (rule leaves_one) (auto simp: Let_def)

lemma uint_nonneg:
  assumes "0 \<le> sint (a :: i32)"
  shows "uint a = sint a"
proof -
  have "sint a < 2 ^ 31" using sint_lt [of a] by simp
  moreover have "uint a = sint a mod 2 ^ 32" using uint_word_of_int [where 'a = 32, of "sint a"] by simp
  ultimately show ?thesis using assms by simp
qed

text \<open>The quotient of a dividend that is not negative fits.\<close>

lemma quotient_range:
  assumes "0 \<le> sint (a :: i32)" "b \<noteq> 0"
  shows "- (2 ^ 31) \<le> sint a sdiv b" "sint a sdiv b < 2 ^ 31"
proof -
  have "\<bar>sint a sdiv b\<bar> \<le> \<bar>sint a\<bar>"
    using zdiv_mono2 [OF assms(1), of 1 "\<bar>b\<bar>"] assms
    by (auto simp: signed_divide_int_def abs_mult sgn_if pos_imp_zdiv_nonneg_iff)
  moreover have "sint a < 2 ^ 31" using sint_lt [of a] by simp
  ultimately show "- (2 ^ 31) \<le> sint a sdiv b" "sint a sdiv b < 2 ^ 31" using assms(1) by linarith+
qed

lemma idiv_run:
  assumes "0 \<le> sint (eax c)" "ecx c \<noteq> 0" "edx c = 0"
  shows "idiv c = Some (c\<lparr>eax := of_int (sint (eax c) sdiv sint (ecx c)), edx := of_int (sint (eax c) smod sint (ecx c)),
    cmp := None\<rparr>)"
proof -
  have "of_int (sint (ecx c)) = ecx c" by simp
  then have "sint (ecx c) \<noteq> 0" using assms(2) by (metis of_int_0)
  with quotient_range [OF assms(1) this] show ?thesis
    using assms by (simp add: idiv_def Let_def uint_nonneg)
qed

lemma leaves_div:
  assumes "0 \<le> sint a" "b \<noteq> 0"
  shows "leaves mem (encode XorEdx @ encode IdivEcx) (operands a b) (of_int (sint a sdiv sint b))"
    "leaves mem (encode XorEdx @ encode IdivEcx @ encode MovEaxEdx) (operands a b) (of_int (sint a smod sint b))"
proof -
  let ?Q = "\<lambda>c. operands a b c \<and> edx c = 0"
  have q: "leaves mem (encode IdivEcx) ?Q (of_int (sint a sdiv sint b))"
    by (rule leaves_one) (use assms in \<open>auto simp: idiv_run\<close>)
  have "leaves mem (encode MovEaxEdx) (\<lambda>c. edx c = r) r" for r by (rule leaves_one) auto
  from leaves_after [OF this, of ?Q IdivEcx "of_int (sint a smod sint b)"]
  have r: "leaves mem (encode IdivEcx @ encode MovEaxEdx) ?Q (of_int (sint a smod sint b))"
    using assms by (auto simp: idiv_run)
  show "leaves mem (encode XorEdx @ encode IdivEcx) (operands a b) (of_int (sint a sdiv sint b))"
    by (rule leaves_after [OF q]) auto
  show "leaves mem (encode XorEdx @ encode IdivEcx @ encode MovEaxEdx) (operands a b) (of_int (sint a smod sint b))"
    by (rule leaves_after [OF r]) auto
qed

lemma leaves_shift:
  assumes "b < 32"
  shows "leaves mem (encode ShlCl) (operands a b) (push_bit (unat b) a)"
    "leaves mem (encode ShrCl) (operands a b) (drop_bit (unat b) a)"
proof -
  have "unat b mod 32 = unat b" using assms by (simp add: word_less_nat_alt)
  then show "leaves mem (encode ShlCl) (operands a b) (push_bit (unat b) a)"
    "leaves mem (encode ShrCl) (operands a b) (drop_bit (unat b) a)"
    by (intro leaves_one; auto)+
qed

text \<open>The code of every operator.\<close>

lemma not_code_truth: "not_code (CHR ''!'') = encode (CmpEax 0) @ concat (map encode [Jcc CE 4, XorEax, Jmp 5, MovEax 1])"
  by (simp add: not_code_def)

lemma binary_table:
  "binary_code (CHR ''+'') = Some (encode (EaxEcx AddOp))"
  "binary_code (CHR ''-'') = Some (encode (EaxEcx SubOp))"
  "binary_code (CHR ''*'') = Some (encode ImulEcx)"
  "binary_code (CHR ''/'') = Some (encode XorEdx @ encode IdivEcx)"
  "binary_code (CHR ''%'') = Some (encode XorEdx @ encode IdivEcx @ encode MovEaxEdx)"
  "binary_code TOK_SHL = Some (encode ShlCl)"
  "binary_code TOK_SHR = Some (encode ShrCl)"
  "binary_code (CHR ''&'') = Some (encode (EaxEcx AndOp))"
  "binary_code (CHR ''|'') = Some (encode (EaxEcx OrOp))"
  "binary_code TOK_AND = Some (concat (map encode [CmpEax 0, Jcc CE 0x0c, CmpEcx 0, Jcc CE 7, MovEax 1, Jmp 2, XorEax]))"
  "binary_code TOK_OR = Some (concat (map encode [CmpEax 0, Jcc CNE 9, CmpEcx 0, Jcc CNE 4, XorEax, Jmp 5, MovEax 1]))"
  "binary_code TOK_EQ = Some (concat (map encode [EaxEcx CmpOp, Jcc CE 4, XorEax, Jmp 5, MovEax 1]))"
  "binary_code TOK_NE = Some (concat (map encode [EaxEcx CmpOp, Jcc CNE 4, XorEax, Jmp 5, MovEax 1]))"
  "binary_code (CHR ''<'') = Some (concat (map encode [EaxEcx CmpOp, Jcc CL 4, XorEax, Jmp 5, MovEax 1]))"
  "binary_code TOK_LE = Some (concat (map encode [EaxEcx CmpOp, Jcc CLE 4, XorEax, Jmp 5, MovEax 1]))"
  "binary_code (CHR ''>'') = Some (concat (map encode [EaxEcx CmpOp, Jcc CG 4, XorEax, Jmp 5, MovEax 1]))"
  "binary_code TOK_GE = Some (concat (map encode [EaxEcx CmpOp, Jcc CGE 4, XorEax, Jmp 5, MovEax 1]))"
  by (simp_all add: binary_code_def compare_jump_def compare_code_def TOK_defs)

lemma leaves_and_or:
  "leaves mem (concat (map encode [CmpEax 0, Jcc CE 0x0c, CmpEcx 0, Jcc CE 7, MovEax 1, Jmp 2, XorEax])) (operands a b)
     (truth (a \<noteq> 0 \<and> b \<noteq> 0))"
  "leaves mem (concat (map encode [CmpEax 0, Jcc CNE 9, CmpEcx 0, Jcc CNE 4, XorEax, Jmp 5, MovEax 1])) (operands a b)
     (truth (a \<noteq> 0 \<or> b \<noteq> 0))"
  using leaves_tests [OF sets_simps(1) [of mem 1] sets_simps(2), where da = "0x0c" and db = 7 and dc = 2 and k = CE and a = a and b = b]
    leaves_tests [OF sets_simps(2) sets_simps(1) [of mem 1], where da = 9 and db = 4 and dc = 5 and k = CNE and a = a and b = b]
  by (auto simp: sizes holds_cond_def truth_def simp del: encode.simps cong: if_cong)

lemma cc_table:
  "cc_binary (CHR ''+'') a b = Some (a + b)" "cc_binary (CHR ''-'') a b = Some (a - b)" "cc_binary (CHR ''*'') a b = Some (a * b)"
  "cc_binary (CHR ''/'') a b = (if b = 0 \<or> sint a < 0 then None else Some (of_int (sint a sdiv sint b)))"
  "cc_binary (CHR ''%'') a b = (if b = 0 \<or> sint a < 0 then None else Some (of_int (sint a smod sint b)))"
  "cc_binary TOK_SHL a b = (if b < 32 then Some (push_bit (unat b) a) else None)"
  "cc_binary TOK_SHR a b = (if b < 32 then Some (drop_bit (unat b) a) else None)"
  "cc_binary (CHR ''&'') a b = Some (a AND b)" "cc_binary (CHR ''|'') a b = Some (a OR b)"
  "cc_binary TOK_AND a b = Some (truth (a \<noteq> 0 \<and> b \<noteq> 0))" "cc_binary TOK_OR a b = Some (truth (a \<noteq> 0 \<or> b \<noteq> 0))"
  "cc_binary TOK_EQ a b = Some (truth (a = b))" "cc_binary TOK_NE a b = Some (truth (a \<noteq> b))"
  "cc_binary (CHR ''<'') a b = Some (truth (sint a < sint b))" "cc_binary TOK_LE a b = Some (truth (sint a \<le> sint b))"
  "cc_binary (CHR ''>'') a b = Some (truth (sint a > sint b))" "cc_binary TOK_GE a b = Some (truth (sint a \<ge> sint b))"
  by (simp_all add: cc_binary_def TOK_defs)

lemma leaves_arith:
  "leaves mem (encode (EaxEcx AddOp)) (operands a b) (a + b)" "leaves mem (encode (EaxEcx SubOp)) (operands a b) (a - b)"
  "leaves mem (encode (EaxEcx AndOp)) (operands a b) (a AND b)" "leaves mem (encode (EaxEcx OrOp)) (operands a b) (a OR b)"
  using leaves_alu [of mem AddOp a b] leaves_alu [of mem SubOp a b] leaves_alu [of mem AndOp a b] leaves_alu [of mem OrOp a b]
  by (simp_all add: alu_result_def del: encode.simps)

lemma cc_binary_cases:
  assumes "cc_binary x a b = Some v"
  obtains "x \<in> {CHR ''+'', CHR ''-'', CHR ''*'', CHR ''&'', CHR ''|''}" | "x \<in> {CHR ''/'', CHR ''%''}" | "x \<in> {TOK_SHL, TOK_SHR}"
    | "x \<in> {TOK_AND, TOK_OR}" | "x \<in> {TOK_EQ, TOK_NE, CHR ''<'', TOK_LE, CHR ''>'', TOK_GE}"
  using assms by (auto simp: cc_binary_def split: if_splits)

lemma binary_leaves:
  assumes "cc_binary x a b = Some v"
  shows "\<exists>bs. binary_code x = Some bs \<and> leaves mem bs (operands a b) v"
  using assms
proof (cases rule: cc_binary_cases)
  case 1
  then show ?thesis using assms leaves_arith leaves_imul by (auto simp: binary_table cc_table simp del: encode.simps)
next
  case 2
  then show ?thesis using assms leaves_div [of a b mem]
    by (auto simp: binary_table cc_table simp del: encode.simps split: if_splits)
next
  case 3
  then show ?thesis using assms leaves_shift [of b mem a]
    by (auto simp: binary_table cc_table simp del: encode.simps split: if_splits)
next
  case 4
  then show ?thesis using assms leaves_and_or [of mem a b]
    by (auto simp: binary_table cc_table simp del: encode.simps)
next
  case 5
  then show ?thesis
    using assms leaves_compare [of mem CE a b] leaves_compare [of mem CNE a b] leaves_compare [of mem CL a b]
      leaves_compare [of mem CLE a b] leaves_compare [of mem CG a b] leaves_compare [of mem CGE a b]
    by (auto simp: binary_table cc_table holds_cond_def simp del: encode.simps)
qed

lemma unary_leaves: "x = CHR ''!'' \<or> x = CHR ''~'' \<Longrightarrow> leaves mem (not_code x) (\<lambda>c. eax c = a) (c_unary x a)"
proof (elim disjE)
  assume "x = CHR ''!''"
  moreover have "leaves mem (not_code (CHR ''!'')) (\<lambda>c. eax c = a) (truth (holds_cond CE (a, 0)))"
    unfolding not_code_truth by (rule leaves_after [OF leaves_truth]) auto
  ultimately show ?thesis by (simp add: c_unary_def holds_cond_def)
next
  assume x: "x = CHR ''~''"
  have "leaves mem (encode NotEax) (\<lambda>c. eax c = a) (NOT a)" by (rule leaves_one) auto
  with x show ?thesis by (simp add: c_unary_def not_code_def)
qed

section \<open>The compiler and C\<close>

text \<open>The operators that the compiler gets right only when the left operand is not negative.\<close>

definition sign_sensitive :: "char \<Rightarrow> bool" where
  "sign_sensitive x \<longleftrightarrow> x = CHR ''/'' \<or> x = CHR ''%'' \<or> x = TOK_SHR"

lemma positive_shift:
  fixes a :: i32
  assumes "0 \<le> sint a"
  shows "signed_drop_bit n a = drop_bit n a"
proof (rule bit_word_eqI)
  fix k
  assume k: "k < LENGTH(32)"
  have "\<not> bit a (LENGTH(32) - 1)" using assms bit_last_iff [of a] by simp
  moreover have "\<not> bit a (n + k)" if "LENGTH(32) - n \<le> k" using that bit_imp_le_length [of a "n + k"] by auto
  ultimately show "bit (signed_drop_bit n a) k = bit (drop_bit n a) k"
    using k by (auto simp: bit_signed_drop_bit_iff bit_drop_bit_eq)
qed

lemma cc_binary_agrees:
  assumes "c_binary x a b = Some v" "sign_sensitive x \<longrightarrow> 0 \<le> sint a"
  shows "cc_binary x a b = Some v"
proof (cases "sign_sensitive x")
  case False
  then have "cc_binary x a b = c_binary x a b" by (simp add: c_binary_def cc_binary_def sign_sensitive_def)
  then show ?thesis using assms(1) by simp
next
  case True
  then have a: "0 \<le> sint a" using assms(2) by simp
  from True consider "x = CHR ''/''" | "x = CHR ''%''" | "x = TOK_SHR" by (auto simp: sign_sensitive_def)
  then show ?thesis
  proof cases
    case 3
    have "c_binary TOK_SHR a b = (if b < 32 then Some (signed_drop_bit (unat b) a) else None)"
      by (simp add: c_binary_def TOK_defs)
    then show ?thesis using assms(1) positive_shift [OF a] by (simp add: 3 cc_table split: if_splits)
  qed (use assms(1) a in \<open>simp_all add: c_binary_def cc_table quotient_fits_def split: if_splits\<close>)
qed

text \<open>What the compiler gets wrong: it clears \<open>edx\<close> before it divides, so a negative dividend is taken for a large positive
  one, and the quotient by any \<open>b \<ge> 2\<close> is positive where that of C is not: the code for \<open>-7 / 2\<close> gives \<open>0x7ffffffc\<close>,
  not \<open>-3\<close>.\<close>

lemma negative_quotient:
  assumes "sint a < 0" "2 \<le> sint b"
  shows "leaves mem (the (binary_code (CHR ''/''))) (operands a b) (of_int (uint a div sint b))"
    "c_binary (CHR ''/'') a b = Some (of_int (sint a sdiv sint b))" "sint a sdiv sint b \<le> 0" "0 < uint a div sint b"
proof -
  have "- (2 ^ 31) \<le> sint a" using sint_ge [of a] by simp
  then have "(sint a + 2 ^ 32) mod 2 ^ 32 = sint a + 2 ^ 32" using assms(1) by (intro mod_pos_pos_trivial) simp_all
  then have "sint a mod 2 ^ 32 = sint a + 2 ^ 32" by (simp only: mod_add_self2)
  then have a: "2 ^ 31 \<le> uint a" "uint a < 2 ^ 32" and b: "sint b < 2 ^ 31"
    using \<open>- (2 ^ 31) \<le> sint a\<close> uint_sint [of a] assms(1) sint_lt [of b] by (simp_all add: take_bit_eq_mod)
  have pos: "0 < uint a div sint b" using a b assms(2) by (simp add: pos_imp_zdiv_pos_iff)
  have "uint a div sint b \<le> uint a div 2" using assms(2) a by (intro zdiv_mono2) auto
  moreover have "uint a < 4294967296" using a(2) by simp
  then have "uint a div 2 < 2 ^ 31" by simp
  ultimately have small: "uint a div sint b < 2 ^ 31" by linarith
  have q: "uint a sdiv sint b = uint a div sint b" using a assms(2) by (simp add: signed_divide_int_def sgn_if)
  have "leaves mem (encode IdivEcx) (\<lambda>c. operands a b c \<and> edx c = 0) (of_int (uint a div sint b))"
    by (rule leaves_one) (use assms(2) q pos small in \<open>auto simp: idiv_def Let_def\<close>)
  then have "leaves mem (encode XorEdx @ encode IdivEcx) (operands a b) (of_int (uint a div sint b))"
    by (rule leaves_after) auto
  then show "leaves mem (the (binary_code (CHR ''/''))) (operands a b) (of_int (uint a div sint b))"
    by (simp add: binary_table del: encode.simps)
  show "c_binary (CHR ''/'') a b = Some (of_int (sint a sdiv sint b))"
    using assms(2) by (auto simp: c_binary_def quotient_fits_def)
  show "sint a sdiv sint b \<le> 0" using assms by (simp add: signed_divide_int_def sgn_if pos_imp_zdiv_nonneg_iff)
  show "0 < uint a div sint b" by (rule pos)
qed

end
