(* ===== verification/CcTree.thy ===== *)
theory CcTree
  imports CcArith
begin

text \<open>
  Expressions as trees, and the code that \<open>eval_expr\<close> emits for their texts. The trees are those whose texts
  the compiler can read: operators, calls of named functions on operands, no parentheses inside. A
  tree is \<open>readable\<close> if every operator binds as its place in the tree needs it. \<open>code\<close> is the reference compiler:
  by recursion on the tree, it gives the bytes for the names on the variable stack. \<open>does\<close> says what an
  action of the compiler emits and leaves on the variable stack in either pass; here for operands.
\<close>

section \<open>Trees and their texts\<close>

datatype atom = Number string | Character char | Escape char | Variable string

datatype cexp = Atom atom | Call string "atom list" | Unary char cexp | Binary char cexp cexp

fun atom_text :: "atom \<Rightarrow> string" where
  "atom_text (Number ds) = ds"
| "atom_text (Character c) = [CHR 0x27, above c, CHR 0x27]"
| "atom_text (Escape c) = [CHR 0x27, above (CHR 0x5C), above c, CHR 0x27]"
| "atom_text (Variable x) = x"

fun commas :: "string list \<Rightarrow> string" where
  "commas [] = []"
| "commas [t] = t"
| "commas (t # ts) = t @ CHR '','' # commas ts"

fun exp_text :: "cexp \<Rightarrow> string" where
  "exp_text (Atom a) = atom_text a"
| "exp_text (Call f as) = f @ TOK_CALL_OPEN # commas (map atom_text as) @ [TOK_CALL_CLOSED]"
| "exp_text (Unary x e) = x # exp_text e"
| "exp_text (Binary x e1 e2) = exp_text e1 @ x # exp_text e2"

definition is_digit_c :: "char \<Rightarrow> bool" where
  "is_digit_c c \<longleftrightarrow> 48 \<le> uchar c \<and> uchar c \<le> 57"

definition name_ok :: "string \<Rightarrow> bool" where
  "name_ok x \<longleftrightarrow> x \<noteq> [] \<and> \<not> is_digit_c (hd x) \<and> (\<forall>c\<in>set x. is_id c) \<and> x \<noteq> ''__temp''"

fun atom_ok :: "atom \<Rightarrow> bool" where
  "atom_ok (Number ds) \<longleftrightarrow> ds \<noteq> [] \<and> (\<forall>c\<in>set ds. is_digit_c c)"
| "atom_ok (Character c) \<longleftrightarrow> 0x20 \<le> uchar c \<and> uchar c < 128 \<and> c \<noteq> CHR 0x27 \<and> c \<noteq> CHR 0x5C"
| "atom_ok (Escape c) \<longleftrightarrow> 0x20 \<le> uchar c \<and> uchar c < 128"
| "atom_ok (Variable x) \<longleftrightarrow> name_ok x"

text \<open>The level of an operator: its place in \<open>levels\<close>, from the one that binds least.\<close>

definition level :: "char \<Rightarrow> nat" where
  "level x = (if x = TOK_OR then 1 else if x = TOK_AND then 2 else if x = CHR ''|'' then 3 else if x = CHR ''&'' then 4
     else if x = TOK_EQ \<or> x = TOK_NE then 5 else if x \<in> {TOK_LE, TOK_GE, CHR ''<'', CHR ''>''} then 6
     else if x = TOK_SHL \<or> x = TOK_SHR then 7 else if x = CHR ''+'' \<or> x = CHR ''-'' then 8
     else if x \<in> {CHR ''*'', CHR ''/'', CHR ''%''} then 9 else if x = CHR ''!'' \<or> x = CHR ''~'' then 10 else 12)"

fun rank :: "cexp \<Rightarrow> nat" where
  "rank (Atom a) = 12"
| "rank (Call f as) = 11"
| "rank (Unary x e) = 10"
| "rank (Binary x e1 e2) = level x"

fun readable :: "cexp \<Rightarrow> bool" where
  "readable (Atom a) \<longleftrightarrow> atom_ok a"
| "readable (Call f as) \<longleftrightarrow> name_ok f \<and> list_all atom_ok as"
| "readable (Unary x e) \<longleftrightarrow> level x = 10 \<and> 10 \<le> rank e \<and> readable e"
| "readable (Binary x e1 e2) \<longleftrightarrow> 1 \<le> level x \<and> level x \<le> 9 \<and> level x \<le> rank e1 \<and> level x < rank e2 \<and> readable e1 \<and> readable e2"

section \<open>The reference compiler\<close>

text \<open>The symbols of the second pass as the compiler searches them: the first one with the name. In the
  first pass, \<open>None\<close>, it does not search, and every symbol counts as 0.\<close>

type_synonym table = "(nat \<times> (nat \<Rightarrow> string) \<times> (nat \<Rightarrow> i32)) option"

definition location :: "table \<Rightarrow> string \<Rightarrow> i32 option" where
  "location T x = (case T of None \<Rightarrow> Some 0
     | Some (n, names, locs) \<Rightarrow> map_option locs (find (\<lambda>i. names i = x) [0..<n]))"

definition position :: "string \<Rightarrow> string list \<Rightarrow> nat option" where
  "position x ns = (if x \<in> set ns then Some (length (takeWhile (\<lambda>y. y \<noteq> x) ns)) else None)"

definition TEMP :: string where "TEMP = ''__temp''"

fun atom_value :: "atom \<Rightarrow> i32" where
  "atom_value (Number ds) = of_nat (digits_val True 0 ds)"
| "atom_value (Character c) = of_int (uchar c)"
| "atom_value (Escape c) = of_int (schar (escaped_c c))"
| "atom_value (Variable x) = 0"

definition variable_code :: "table \<Rightarrow> string list \<Rightarrow> string \<Rightarrow> byte list" where
  "variable_code T ns x = (case position x ns of
     Some p \<Rightarrow> encode (LoadStk (4 * of_nat p)) @ encode PushEax
   | None \<Rightarrow> encode (MovEax (the (location T x))) @ encode PushMem)"

fun atom_code :: "table \<Rightarrow> string list \<Rightarrow> atom \<Rightarrow> byte list" where
  "atom_code T ns (Variable x) = variable_code T ns x"
| "atom_code T ns a = encode (PushImm (atom_value a))"

text \<open>The arguments of a call, from the last to the first.\<close>

fun args_code :: "table \<Rightarrow> string list \<Rightarrow> atom list \<Rightarrow> byte list" where
  "args_code T ns [] = []"
| "args_code T ns (a # as) = args_code T ns as @ atom_code T (replicate (length as) TEMP @ ns) a"

fun code :: "table \<Rightarrow> string list \<Rightarrow> cexp \<Rightarrow> byte list" where
  "code T ns (Atom a) = atom_code T ns a"
| "code T ns (Call f as) = args_code T ns as @ encode (PushImm (the (location T f))) @ encode PopEax @ encode CallEax @
     encode (AddEsp (4 * of_nat (length as))) @ encode PushEax"
| "code T ns (Unary x e) = code T ns e @ encode PopEax @ not_code x @ encode PushEax"
| "code T ns (Binary x e1 e2) = code T ns e2 @ code T (TEMP # ns) e1 @ encode PopEax @ encode PopEcx @
     the (binary_code x) @ encode PushEax"

text \<open>The temporaries an expression needs, and the names it uses.\<close>

fun need :: "cexp \<Rightarrow> nat" where
  "need (Atom a) = 1"
| "need (Call f as) = length as + 1"
| "need (Unary x e) = need e"
| "need (Binary x e1 e2) = max (need e2) (need e1 + 1)"

fun atom_known :: "table \<Rightarrow> string list \<Rightarrow> atom \<Rightarrow> bool" where
  "atom_known T ns (Variable x) \<longleftrightarrow> x \<in> set ns \<or> location T x \<noteq> None"
| "atom_known T ns a \<longleftrightarrow> True"

fun known :: "table \<Rightarrow> string list \<Rightarrow> cexp \<Rightarrow> bool" where
  "known T ns (Atom a) \<longleftrightarrow> atom_known T ns a"
| "known T ns (Call f as) \<longleftrightarrow> f \<notin> set ns \<and> location T f \<noteq> None \<and> list_all (atom_known T ns) as"
| "known T ns (Unary x e) \<longleftrightarrow> known T ns e"
| "known T ns (Binary x e1 e2) \<longleftrightarrow> known T ns e1 \<and> known T ns e2"

section \<open>Actions on the variable stack\<close>

text \<open>\<open>moved s s' bs ns\<close>: between the states nothing happened but that \<open>bs\<close> was emitted and the variables
  are now \<open>ns\<close>, the last one first.\<close>

definition names_c :: "cc \<Rightarrow> string list" where
  "names_c s = map (c_stack_vars s) (rev [0..<nat (c_stack_depth s)])"

definition vars_are :: "cc \<Rightarrow> string list \<Rightarrow> bool" where
  "vars_are s ns \<longleftrightarrow> c_stack_depth s = int (length ns) \<and> names_c s = ns"

definition moved :: "cc \<Rightarrow> cc \<Rightarrow> byte list \<Rightarrow> string list \<Rightarrow> bool" where
  "moved s s' bs ns \<longleftrightarrow> (\<exists>vars. s' = emit_all bs (s\<lparr>c_stack_depth := int (length ns), c_stack_vars := vars\<rparr>)) \<and> vars_are s' ns"

lemma moved_trans: "moved s t bs ns \<Longrightarrow> moved t u cs ms \<Longrightarrow> moved s u (bs @ cs) ms"
  unfolding moved_def
proof (elim conjE exE)
  fix v w
  assume t: "t = emit_all bs (s\<lparr>c_stack_depth := int (length ns), c_stack_vars := v\<rparr>)"
    and u: "u = emit_all cs (t\<lparr>c_stack_depth := int (length ms), c_stack_vars := w\<rparr>)" "vars_are u ms"
  have "u = emit_all (bs @ cs) (s\<lparr>c_stack_depth := int (length ms), c_stack_vars := w\<rparr>)"
    unfolding u(1) t by (simp add: emit_all_def add.assoc)
  with u(2) show "(\<exists>vars. u = emit_all (bs @ cs) (s\<lparr>c_stack_depth := int (length ms), c_stack_vars := vars\<rparr>)) \<and> vars_are u ms"
    by blast
qed

lemma moved_emit: "vars_are s ns \<Longrightarrow> moved s (emit_all bs s) bs ns"
  by (auto simp: moved_def vars_are_def names_c_def emit_all_def intro!: exI [of _ "c_stack_vars s"] cc.equality)

definition in_pass :: "table \<Rightarrow> cc \<Rightarrow> bool" where
  "in_pass T s \<longleftrightarrow> symbol_num s \<le> SYMBOL_TABLE_LEN_c \<and> (case T of None \<Rightarrow> stage s = 0
     | Some T \<Rightarrow> stage s = 1 \<and> T = (symbol_num s, symbol_names s, symbol_locs s))"

definition does :: "table \<Rightarrow> (cc, 'a) M \<Rightarrow> 'a \<Rightarrow> string list \<Rightarrow> byte list \<Rightarrow> string list \<Rightarrow> bool" where
  "does T m r ns bs ms \<longleftrightarrow> (\<forall>s. in_pass T s \<and> vars_are s ns \<longrightarrow> (\<exists>t. m s = Inr (r, t) \<and> moved s t bs ms))"

named_theorems does_rules \<open>what the actions of the compiler do in a pass\<close>

lemma moved_in_pass: "moved s t bs ns \<Longrightarrow> in_pass T s \<Longrightarrow> in_pass T t \<and> vars_are t ns"
  by (cases T) (auto simp: moved_def in_pass_def emit_all_def)

lemma does_bind: "does T m x ns bs ms \<Longrightarrow> does T (f x) r ms cs ls \<Longrightarrow> does T (bindM m f) r ns (bs @ cs) ls"
  unfolding does_def
proof (intro allI impI)
  fix s
  assume m: "\<forall>s. in_pass T s \<and> vars_are s ns \<longrightarrow> (\<exists>t. m s = Inr (x, t) \<and> moved s t bs ms)"
    and f: "\<forall>s. in_pass T s \<and> vars_are s ms \<longrightarrow> (\<exists>t. f x s = Inr (r, t) \<and> moved s t cs ls)"
    and s: "in_pass T s \<and> vars_are s ns"
  obtain t where t: "m s = Inr (x, t)" "moved s t bs ms" using m s by blast
  obtain u where "f x t = Inr (r, u)" "moved t u cs ls" using f s moved_in_pass [OF t(2)] by blast
  with t show "\<exists>t. bindM m f s = Inr (r, t) \<and> moved s t (bs @ cs) ls" by (auto simp: bindM_eval intro: moved_trans)
qed

lemma does_then: "does T m x ns bs ms \<Longrightarrow> does T n r ms cs ls \<Longrightarrow> does T (thenM m n) r ns (bs @ cs) ls"
  unfolding thenM_def by (rule does_bind)

lemma does_ret [does_rules]: "does T (retM r) r ns [] ns"
  by (auto simp: does_def dest: moved_emit [where bs = "[]"])

lemma does_emit [does_rules]: "does T (emit b) () ns [b] ns" "does T (emit32 w) () ns (bytes32 w) ns" "does T (emits bs) () ns bs ns"
  by (simp_all add: does_def emit_is_emit_all emit32_eval emits_run moved_emit)

lemma does_assert [does_rules]: "P \<Longrightarrow> does T (assertM P) () ns [] ns"
  using does_ret [of T "()" ns] by (simp add: does_def)

lemma does_when: "does T (whenM False m) () ns [] ns" "does T m () ns bs ms \<Longrightarrow> does T (whenM True m) () ns bs ms"
  using does_ret [of T "()" ns] by (simp_all add: whenM_def)

lemma does_get: "(\<And>s. in_pass T s \<Longrightarrow> vars_are s ns \<Longrightarrow> g s = v) \<Longrightarrow> does T (f v) r ns bs ms \<Longrightarrow> does T (bindM (getM g) f) r ns bs ms"
  by (simp add: does_def bindM_eval)

lemma does_lift: "v = Inr x \<Longrightarrow> does T (f x) r ns bs ms \<Longrightarrow> does T (bindM (liftM v) f) r ns bs ms"
  by (simp add: does_def bindM_eval)

text \<open>A row of actions.\<close>

lemma does_row:
  "does T (doM []) () ns [] ns"
  "does T m x ns bs ms \<Longrightarrow> does T (doM ms') () ms cs ls \<Longrightarrow> does T (doM (m # ms')) () ns (bs @ cs) ls"
  by (simp_all add: does_ret does_then)

lemma does_eq: "does T m r ns bs ms \<Longrightarrow> bs = bs' \<Longrightarrow> does T m r ns bs' ms"
  by simp

lemma does_push:
  assumes "length ns < 1024" "x \<noteq> []" "length x < MAX_ID_LEN"
  shows "does T (push_var_c x) () ns [] (x # ns)"
  unfolding does_def
proof (intro allI impI)
  fix s
  assume s: "in_pass T s \<and> vars_are s ns"
  let ?t = "s\<lparr>c_stack_depth := int (length (x # ns)), c_stack_vars := (c_stack_vars s)(length ns := x)\<rparr>"
  have "push_var_c x s = Inr ((), ?t)"
    using s assms by (simp add: push_var_c_def vars_are_def run_simps STACK_LEN_c_def)
  moreover have "vars_are ?t (x # ns)"
    using s by (auto simp: vars_are_def names_c_def nat_add_distrib)
  ultimately show "\<exists>t. push_var_c x s = Inr ((), t) \<and> moved s t [] (x # ns)"
    by (auto simp: moved_def)
qed

lemma does_push_temp [does_rules]: "length ns < 1024 \<Longrightarrow> does T push_temp () ns [] (TEMP # ns)"
  unfolding push_temp_def TEMP_def by (rule does_push) (simp_all add: MAX_ID_LEN_def)

lemma does_pop [does_rules]: "does T pop_var_c () (x # ns) [] ns"
  unfolding does_def
proof (intro allI impI)
  fix s
  assume s: "in_pass T s \<and> vars_are s (x # ns)"
  let ?t = "s\<lparr>c_stack_depth := int (length ns)\<rparr>"
  have d: "c_stack_depth s = int (length ns) + 1" and v: "names_c s = x # ns" using s by (simp_all add: vars_are_def)
  have "names_c s = c_stack_vars s (length ns) # names_c ?t" by (simp add: names_c_def d nat_add_distrib)
  then have "vars_are ?t ns" using v by (simp add: vars_are_def)
  moreover have "pop_var_c s = Inr ((), ?t)" by (simp add: pop_var_c_def d)
  ultimately show "\<exists>t. pop_var_c s = Inr ((), t) \<and> moved s t [] ns"
    by (auto simp: moved_def intro!: exI [of _ "c_stack_vars s"])
qed

lemma does_pops [does_rules]: "does T (repeatM (length xs) pop_var_c) () (xs @ ns) [] ns"
proof (induction xs)
  case (Cons x xs)
  from does_then [OF does_pop Cons] show ?case by simp
qed (auto simp: does_def dest: moved_emit [where bs = "[]"])


section \<open>Operands\<close>

text \<open>The text of an operand is a window \<open>w\<close> of the buffer.\<close>

lemma prefix_at_window: "length x \<le> length w \<Longrightarrow> prefix_at (pre @ w @ post) (length pre) x = Inr (prefix x w)"
proof (induction x arbitrary: pre w)
  case (Cons c x)
  then obtain d u where w: "w = d # u" by (cases w) auto
  then show ?case using Cons.IH [of u "pre @ [d]"] Cons.prems by (auto simp: w)
qed simp

lemma strncmp2_window:
  "strncmp2 (pre @ w @ post) (length pre) (length pre + length w) x = Inr (x = w)"
  using prefix_at_window [of x w pre post] by (auto simp: strncmp2_def dest: prefix_length_less) (auto simp: prefix_def)

lemma position_simps: "position x [] = None" "position x (y # ns) = (if x = y then Some 0 else map_option Suc (position x ns))"
  by (auto simp: position_def)

lemma stack2_window:
  assumes "vars_are s ns"
  shows "find_in_stack2 (pre @ w @ post) (length pre) (length pre + length w) s = Inr (map_option int (position w ns))"
proof -
  let ?m = "pre @ w @ post" and ?e = "length pre + length w" and ?d = "length ns"
  have nth: "c_stack_vars s (?d - Suc i) = ns ! i" if "i < ?d" for i
  proof -
    have "nat (c_stack_depth s) = ?d" and "ns = names_c s" using assms by (simp_all add: vars_are_def)
    then have "ns = map (c_stack_vars s) (rev [0..<?d])" unfolding names_c_def by simp
    then have "ns ! i = map (c_stack_vars s) (rev [0..<?d]) ! i" by simp
    with that show ?thesis by (simp add: rev_nth)
  qed
  have "stack2_loop ?m (length pre) ?e (c_stack_vars s) (int ?d) (int i) =
      Inr (map_option (\<lambda>p. int (i + p)) (position w (drop i ns)))" if "i \<le> ?d" for i
    using that
  proof (induction "?d - i" arbitrary: i)
    case 0
    then show ?case by (simp add: stack2_loop.simps position_simps)
  next
    case (Suc k)
    then have i: "i < ?d" by simp
    have slot: "nat (int ?d - 1 - int i) = ?d - Suc i" using i by simp
    have split: "drop i ns = ns ! i # drop (Suc i) ns" using i by (simp add: Cons_nth_drop_Suc)
    have on: "stack2_loop ?m (length pre) ?e (c_stack_vars s) (int ?d) (int i + 1) =
        Inr (map_option (\<lambda>p. int (Suc i + p)) (position w (drop (Suc i) ns)))"
      using Suc.hyps(1) [of "Suc i"] Suc.hyps(2) i by (simp add: add.commute)
    show ?case
      using i on by (cases "ns ! i = w"; subst stack2_loop.simps)
        (auto simp: strncmp2_window slot nth [OF i] split position_simps option.map_comp comp_def ac_simps)
  qed
  from this [of 0] show ?thesis using assms by (simp add: find_in_stack2_def vars_are_def)
qed

lemma symbol2_window:
  assumes "in_pass (Some T) s" "location (Some T) w = Some l"
  shows "\<exists>i. find_symbol2 (pre @ w @ post) (length pre) (length pre + length w) s = Inr i \<and> i \<noteq> SYMBOL_TABLE_LEN_c \<and>
    symbol_locs s i = l"
proof -
  let ?n = "symbol_num s" and ?names = "symbol_names s"
  have loop: "symbol2_loop (pre @ w @ post) (length pre) (length pre + length w) ?names ?n k =
      Inr (case find (\<lambda>i. ?names i = w) [k..<?n] of None \<Rightarrow> ?n | Some j \<Rightarrow> j)" if "k \<le> ?n" for k
    using that
  proof (induction "?n - k" arbitrary: k)
    case 0
    then show ?case by (simp add: symbol2_loop.simps)
  next
    case (Suc d)
    then have k: "k < ?n" by simp
    have "d = ?n - (k + 1)" using Suc.hyps(2) by simp
    from Suc.hyps(1) [OF this] k show ?case
      by (subst symbol2_loop.simps) (simp add: strncmp2_window upt_conv_Cons)
  qed
  obtain i where i: "find (\<lambda>i. ?names i = w) [0..<?n] = Some i" "symbol_locs s i = l"
    using assms by (auto simp: in_pass_def location_def)
  then have "i < ?n" by (auto simp: find_Some_iff)
  then show ?thesis using loop [of 0] i assms(1) by (simp add: find_symbol2_def in_pass_def)
qed


lemma digit_step:
  assumes "is_digit_c c"
  shows "digit_val True c = Some (nat (uchar c) - 48)" "schar c - schar (CHR ''0'') = int (nat (uchar c) - 48)"
    "schar (CHR ''0'') \<le> schar c" "schar c \<le> schar (CHR ''9'')"
proof -
  have c: "48 \<le> uchar c" "uchar c \<le> 57" using assms by (simp_all add: is_digit_c_def)
  then show "digit_val True c = Some (nat (uchar c) - 48)" "schar c - schar (CHR ''0'') = int (nat (uchar c) - 48)"
    "schar (CHR ''0'') \<le> schar c" "schar c \<le> schar (CHR ''9'')"
    by (simp_all add: digit_val_def)
qed

lemma number_window:
  "\<forall>c\<in>set ds. is_digit_c c \<Longrightarrow> b = length pre \<Longrightarrow> e = length pre + length ds \<Longrightarrow>
     number_loop (pre @ ds @ post) b e True seen (of_nat v) = Inr (seen \<or> ds \<noteq> [], of_nat (digits_val True v ds))"
proof (induction ds arbitrary: pre b seen v)
  case Nil
  then show ?case by (simp add: number_loop.simps)
next
  case (Cons c ds)
  let ?d = "nat (uchar c) - 48"
  let ?m = "pre @ (c # ds) @ post"
  have c: "is_digit_c c" using Cons.prems(1) by simp
  note d = digit_step [OF c]
  have "number_loop ?m b e True seen (of_nat v) = number_loop ?m (b + 1) e True True (of_nat v * 10 + of_nat ?d)"
    by (subst number_loop.simps) (use Cons.prems d in \<open>simp add: Let_def del: schar_digits schar_small\<close>)
  moreover have "number_loop ((pre @ [c]) @ ds @ post) (b + 1) e True True (of_nat (v * 10 + ?d)) =
      Inr (True \<or> ds \<noteq> [], of_nat (digits_val True (v * 10 + ?d) ds))"
    by (rule Cons.IH) (use Cons.prems in auto)
  ultimately show ?case by (simp add: d(1) base_def)
qed

lemma above_schar:
  assumes "uchar c < 128"
  shows "schar (above c) + 0x80 = uchar c"
proof -
  have "uchar (above c) = (uchar c + 128) mod 256" by (simp add: above_def uchar_def)
  also have "\<dots> = uchar c + 128" using assms uchar_range [of c] by simp
  finally show ?thesis using uchar_range [of c] by simp
qed

lemma above_of: "uchar c < 128 \<Longrightarrow> char_of (schar (above c) + 0x80) = c"
  by (subst above_schar) (simp_all add: uchar_def)

lemma does_push_word: "does T (push_word w) () ns (0x68 # bytes32 w) ns"
  unfolding push_word_def
  by (rule does_eq, (rule does_row does_emit)+) simp

lemma does_character:
  assumes c: "uchar c < 128" and ns: "length ns < 1024"
  shows "does T (char_operand (pre @ [CHR 0x27, above c, CHR 0x27] @ post) (length pre) (length pre + 3)) () ns
      (0x68 # bytes32 (of_int (uchar c))) (TEMP # ns)"
    "does T (char_operand (pre @ [CHR 0x27, above (CHR 0x5C), above c, CHR 0x27] @ post) (length pre) (length pre + 4)) () ns
      (0x68 # bytes32 (of_int (schar (escaped_c c)))) (TEMP # ns)"
proof -
  let ?m = "pre @ [CHR 0x27, above c, CHR 0x27] @ post" and ?p = "length pre"
  have r: "rd ?m (?p + 3 - 1) = Inr (CHR 0x27)" "rd ?m (?p + 1) = Inr (above c)" by (simp_all add: rd_def nth_append)
  have "does T (bindM (liftM (rd ?m (?p + 1))) (\<lambda>c. push_word (of_int (schar c + 0x80)))) () (TEMP # ns)
      (0x68 # bytes32 (of_int (uchar c))) (TEMP # ns)"
    by (rule does_lift [OF r(2)]) (simp only: above_schar [OF c] does_push_word)
  note on = does_then [OF does_assert does_then [OF does_push_temp [OF ns] this]]
  have eq: "char_operand ?m ?p (?p + 3) = bindM (liftM (rd ?m (?p + 3 - 1))) (\<lambda>q. thenM (assertM (q = CHR 0x27))
      (thenM push_temp (bindM (liftM (rd ?m (?p + 1))) (\<lambda>c. push_word (of_int (schar c + 0x80))))))"
    by (simp add: char_operand_def)
  show "does T (char_operand ?m ?p (?p + 3)) () ns (0x68 # bytes32 (of_int (uchar c))) (TEMP # ns)"
    unfolding eq by (rule does_eq, rule does_lift [OF r(1)], rule on) simp_all
next
  have escape: "schar (above (CHR 0x5C)) = schar (CHR 0x5C) - 0x80" by (simp add: schar_def above_def uchar_def)
  let ?m = "pre @ [CHR 0x27, above (CHR 0x5C), above c, CHR 0x27] @ post" and ?p = "length pre"
  have r: "rd ?m (?p + 4 - 1) = Inr (CHR 0x27)" "rd ?m (?p + 1) = Inr (above (CHR 0x5C))" "rd ?m (?p + 2) = Inr (above c)"
    by (simp_all add: rd_def nth_append)
  have low: "does T (bindM (liftM (rd ?m (?p + 2))) (\<lambda>c. push_word (of_int (schar (escaped_c (char_of (schar c + 0x80))))))) () (TEMP # ns)
      (0x68 # bytes32 (of_int (schar (escaped_c c)))) (TEMP # ns)"
    by (rule does_lift [OF r(3)]) (simp only: above_of [OF c] does_push_word)
  let ?tail = "\<lambda>b. thenM (assertM (schar b = schar (CHR 0x5C) - 0x80))
    (bindM (liftM (rd ?m (?p + 2))) (\<lambda>c. push_word (of_int (schar (escaped_c (char_of (schar c + 0x80)))))))"
  have "does T (bindM (liftM (rd ?m (?p + 1))) ?tail) () (TEMP # ns) ([] @ 0x68 # bytes32 (of_int (schar (escaped_c c)))) (TEMP # ns)"
    by (rule does_lift [OF r(2)], rule does_then [OF does_assert [OF escape] low])
  note on = does_then [OF does_assert does_then [OF does_push_temp [OF ns] this]]
  have eq: "char_operand ?m ?p (?p + 4) = bindM (liftM (rd ?m (?p + 4 - 1))) (\<lambda>q. thenM (assertM (q = CHR 0x27))
      (thenM push_temp (bindM (liftM (rd ?m (?p + 1))) (\<lambda>b. thenM (assertM (schar b = schar (CHR 0x5C) - 0x80))
        (bindM (liftM (rd ?m (?p + 2))) (\<lambda>c. push_word (of_int (schar (escaped_c (char_of (schar c + 0x80)))))))))))"
    by (simp add: char_operand_def)
  show "does T (char_operand ?m ?p (?p + 4)) () ns (0x68 # bytes32 (of_int (schar (escaped_c c)))) (TEMP # ns)"
    unfolding eq by (rule does_eq, rule does_lift [OF r(1)], rule on) simp_all
qed

lemma does_symbol:
  assumes "location T w = Some l"
  shows "does T (get_symbol2 (pre @ w @ post) (length pre) (length pre + length w)) l ns [] ns"
  unfolding does_def
proof (intro allI impI)
  fix s
  assume s: "in_pass T s \<and> vars_are s ns"
  then have "get_symbol2 (pre @ w @ post) (length pre) (length pre + length w) s = Inr (l, s)"
  proof (cases T)
    case None
    with s assms show ?thesis by (auto simp: get_symbol2_def run_simps in_pass_def location_def)
  next
    case (Some U)
    with s assms show ?thesis
      using symbol2_window [of U s w l pre post] by (auto simp: get_symbol2_def run_simps in_pass_def)
  qed
  then show "\<exists>t. get_symbol2 (pre @ w @ post) (length pre) (length pre + length w) s = Inr (l, t) \<and> moved s t [] ns"
    using s moved_emit [where bs = "[]"] by auto
qed

lemma does_variable:
  assumes ns: "length ns < 1024" and x: "x \<in> set ns \<or> location T x \<noteq> None"
  shows "does T (variable_operand (pre @ x @ post) (length pre) (length pre + length x) False) () ns (variable_code T ns x) (TEMP # ns)"
  unfolding variable_operand_def
proof (rule does_get, erule stack2_window, rule does_lift, rule refl)
  let ?e = "length pre + length x" and ?m = "pre @ x @ post"
  let ?rest = "\<lambda>pos. case pos of
      Some pos \<Rightarrow> if False then doM [emits [0x89, 0xe0], emit 0x05, emit32 (of_int (4 * pos)), emit 0x50, push_temp]
        else doM [emits [0x8b, 0x84, 0x24], emit32 (of_int (4 * pos)), emit 0x50, push_temp]
    | None \<Rightarrow> bindM (get_symbol2 ?m (length pre) ?e) (\<lambda>var_addr. if False then doM [push_word var_addr, push_temp]
        else doM [emit 0xb8, emit32 var_addr, emits [0xff, 0x30], push_temp])"
  show "does T (?rest (map_option int (position x ns))) () ns (variable_code T ns x) (TEMP # ns)"
  proof (cases "position x ns")
    case None
    then obtain l where l: "location T x = Some l" using x by (auto simp: position_def split: if_splits)
    have "does T (bindM (get_symbol2 ?m (length pre) ?e) (\<lambda>l. doM [emit 0xb8, emit32 l, emits [0xff, 0x30], push_temp])) () ns
        ([] @ [0xb8] @ bytes32 l @ [0xff, 0x30] @ [] @ []) (TEMP # ns)"
      by (rule does_bind, rule does_symbol [OF l], (rule does_row does_emit does_push_temp [OF ns])+)
    with None l show ?thesis by (simp add: variable_code_def)
  next
    case (Some p)
    have "does T (doM [emits [0x8b, 0x84, 0x24], emit32 (4 * of_nat p), emit 0x50, push_temp]) () ns
        ([0x8b, 0x84, 0x24] @ bytes32 (4 * of_nat p) @ [0x50] @ [] @ []) (TEMP # ns)"
      by (rule does_row does_emit does_push_temp [OF ns])+
    with Some show ?thesis by (simp add: variable_code_def)
  qed
qed

lemma digit_first: "is_digit_c c \<longleftrightarrow> schar (CHR ''0'') \<le> schar c \<and> schar c \<le> schar (CHR ''9'')"
  by (simp only: is_digit_c_def digit_conditions(1))

lemma is_id_quotes: "is_id c \<Longrightarrow> c \<noteq> CHR 0x27 \<and> c \<noteq> CHR 0x22"
  by (auto simp: is_id_def schar_def uchar_def)

lemma operand_does:
  assumes a: "atom_ok a" "atom_known T ns a" and ns: "length ns < 1024"
  shows "does T (operand_c (pre @ atom_text a @ post) (length pre) (length pre + length (atom_text a)) False) () ns
    (atom_code T ns a) (TEMP # ns)"
proof (cases a)
  case (Number ds)
  let ?m = "pre @ ds @ post"
  obtain c u where ds: "ds = c # u" and c: "is_digit_c c" using a by (cases ds) (auto simp: Number)
  let ?v = "of_nat (digits_val True 0 ds)" and ?e = "length pre + length ds"
  have "\<not> (c = CHR ''0'' \<and> c = CHR ''x'')" by auto
  then have decode: "decode_number_c ?m (length pre) ?e = Inr (True, ?v)"
    using number_window [of ds "length pre" pre ?e post False 0] a
    unfolding decode_number_c_def by (auto simp: Number ds)
  have "does T (doM [assertM True, push_word ?v, push_temp]) () ns ([] @ (0x68 # bytes32 ?v) @ [] @ []) (TEMP # ns)"
    by (rule does_row does_assert does_push_word does_push_temp [OF ns] TrueI)+
  then have "does T (number_operand ?m (length pre) ?e False) () ns (0x68 # bytes32 ?v) (TEMP # ns)"
    unfolding number_operand_def decode by (simp add: does_lift bindM_eval thenM_step does_def)
  moreover have "operand_c ?m (length pre) ?e False = number_operand ?m (length pre) ?e False"
    using c by (simp add: operand_c_def ds digit_first bindM_eval fun_eq_iff del: schar_digits)
  ultimately show ?thesis by (simp add: Number)
next
  case (Character c)
  have t: "atom_text a = [CHR 0x27, above c, CHR 0x27]" and l: "length [CHR 0x27, above c, CHR 0x27] = 3"
    and v: "atom_code T ns a = 0x68 # bytes32 (of_int (uchar c))" by (simp_all add: Character)
  have eq: "operand_c (pre @ atom_text a @ post) (length pre) e False = char_operand (pre @ atom_text a @ post) (length pre) e" for e
    by (simp add: operand_c_def Character bindM_eval fun_eq_iff schar_def uchar_def)
  show ?thesis unfolding eq unfolding t l v by (rule does_character(1)) (use a ns Character in auto)
next
  case (Escape c)
  have t: "atom_text a = [CHR 0x27, above (CHR 0x5C), above c, CHR 0x27]" and l: "length [CHR 0x27, above (CHR 0x5C), above c, CHR 0x27] = 4"
    and v: "atom_code T ns a = 0x68 # bytes32 (of_int (schar (escaped_c c)))" by (simp_all add: Escape)
  have eq: "operand_c (pre @ atom_text a @ post) (length pre) e False = char_operand (pre @ atom_text a @ post) (length pre) e" for e
    by (simp add: operand_c_def Escape bindM_eval fun_eq_iff schar_def uchar_def)
  show ?thesis unfolding eq unfolding t l v by (rule does_character(2)) (use a ns Escape in auto)
next
  case (Variable x)
  then obtain c u where x: "x = c # u" and c: "\<not> is_digit_c c" "is_id c" using a by (cases x) (auto simp: name_ok_def)
  have "operand_c (pre @ x @ post) (length pre) e False = variable_operand (pre @ x @ post) (length pre) e False" for e
    using c(1) is_id_quotes [OF c(2)] by (auto simp: operand_c_def x digit_first bindM_eval fun_eq_iff simp del: schar_digits)
  with does_variable [OF ns, of x T pre post] a Variable show ?thesis by auto
qed

end
