(* ===== verification/CcCode.thy ===== *)
theory CcCode
  imports CcTree
begin

text \<open>
  The compiler finds the tree of an expression in its text: \<open>eval_expr\<close>, which splits the text again and
  again at the operator that binds least, emits the code that \<open>code\<close> gives for the tree.
\<close>

section \<open>The search for the operator\<close>

definition clean :: "string \<Rightarrow> char \<Rightarrow> bool" where
  "clean pivots c \<longleftrightarrow> \<not> is_in c pivots \<and> c \<notin> set ''()[]''"

lemma forward_clean:
  "\<forall>c\<in>set u. clean pv c \<Longrightarrow> length pre + length u \<le> e \<Longrightarrow>
     pivot_forward (pre @ u @ rest) (length pre) e pv = pivot_forward (pre @ u @ rest) (length pre + length u) e pv"
proof (induction u arbitrary: pre)
  case (Cons c u)
  have "pivot_forward (pre @ (c # u) @ rest) (length pre) e pv = pivot_forward ((pre @ [c]) @ u @ rest) (length (pre @ [c])) e pv"
    using Cons.prems by (subst pivot_forward.simps) (simp add: clean_def)
  with Cons.IH [of "pre @ [c]"] Cons.prems show ?case by simp
qed simp

lemma backward_clean:
  "\<forall>c\<in>set v. clean pv c \<Longrightarrow> b \<le> length pre \<Longrightarrow>
     pivot_backward (pre @ v @ rest) b (length pre + length v) pv = pivot_backward (pre @ v @ rest) b (length pre) pv"
proof (induction v arbitrary: rest rule: rev_induct)
  case (snoc c v)
  have "pivot_backward (pre @ (v @ [c]) @ rest) b (length pre + length (v @ [c])) pv =
      pivot_backward (pre @ v @ c # rest) b (length pre + length v) pv"
    using snoc.prems by (subst pivot_backward.simps) (simp add: clean_def rd_def nth_append)
  with snoc show ?case by simp
qed simp

lemma pivot_none:
  assumes "\<forall>c\<in>set w. clean pv c"
  shows "pivot_forward (pre @ w @ post) (length pre) (length pre + length w) pv = Inr None"
    "pivot_backward (pre @ w @ post) (length pre) (length pre + length w) pv = Inr None"
  using forward_clean [OF assms, of pre "length pre + length w" post] backward_clean [OF assms, of "length pre" pre post]
  by (simp_all add: pivot_forward.simps [of _ "length pre + length w"] pivot_backward.simps [of _ "length pre" "length pre"])

lemma pivot_first:
  assumes "\<forall>c\<in>set u. clean pv c" "is_in x pv"
  shows "pivot_forward (pre @ u @ x # v) (length pre) (length pre + length u + Suc (length w)) pv = Inr (Some (length pre + length u))"
proof -
  let ?m = "pre @ u @ x # v" and ?e = "length pre + length u + Suc (length w)"
  have "rd ?m (length pre + length u) = Inr x" by (simp add: rd_def nth_append)
  then have "pivot_forward ?m (length pre + length u) ?e pv = Inr (Some (length pre + length u))"
    using assms(2) by (subst pivot_forward.simps) simp
  then show ?thesis using forward_clean [OF assms(1), of pre ?e "x # v"] by simp
qed

lemma pivot_last:
  assumes "\<forall>c\<in>set v. clean pv c" "is_in x pv"
  shows "pivot_backward (pre @ u @ x # v @ post) (length pre) (length pre + length u + Suc (length v)) pv =
    Inr (Some (length pre + length u))"
  using backward_clean [OF assms(1), of "length pre" "pre @ u @ [x]" post] assms(2)
  by (simp add: pivot_backward.simps [of _ _ "Suc (length pre + length u)"] rd_def nth_append)

text \<open>The characters of a text: an operand has none that the search looks for.\<close>

definition pivots_at :: "nat \<Rightarrow> string" where
  "pivots_at i = fst (levels ! i)"

definition operand_char :: "char \<Rightarrow> bool" where
  "operand_char c \<longleftrightarrow> is_id c \<or> c = CHR 0x27 \<or> c = CHR '','' \<or> 0xA0 \<le> uchar c"

lemma uchar_TOKs: "uchar TOK_CALL_OPEN = 0x80" "uchar TOK_CALL_CLOSED = 0x81" "uchar TOK_SHL = 0x82" "uchar TOK_SHR = 0x83"
  "uchar TOK_LE = 0x84" "uchar TOK_GE = 0x85" "uchar TOK_EQ = 0x86" "uchar TOK_NE = 0x87" "uchar TOK_AND = 0x88"
  "uchar TOK_OR = 0x89" "uchar TOK_DEREF = 0x8a" "uchar TOK_ADDR = 0x8b"
  by (simp_all add: TOK_defs uchar_def)

lemma is_id_uchar:
  assumes "is_id c"
  shows "uchar c < 0x80"
proof -
  have "schar (CHR ''a'') = 97" "schar (CHR ''A'') = 65" "schar (CHR ''0'') = 48" "schar (CHR ''_'') = 95"
    by (simp_all add: schar_def uchar_def)
  then have "0 \<le> schar c" using assms unfolding is_id_def by auto
  then show ?thesis using uchar_range [of c] by (cases "uchar c < 128") simp_all
qed

definition special :: "char \<Rightarrow> bool" where
  "special c \<longleftrightarrow> c \<in> set ''()[]=|&<>+-*/%!~'' \<or> 0x80 \<le> uchar c \<and> uchar c \<le> 0x8b"

lemma pivots_special:
  assumes "i < 12" "c \<in> set (pivots_at i)"
  shows "special c"
proof -
  have "list_all (\<lambda>i. list_all special (pivots_at i)) [0, 1, 2, 3, 4, 5, 6, 7, 8, 9, 10, 11]"
    by (simp add: pivots_at_def levels_def special_def uchar_TOKs)
  moreover have "i \<in> set [0, 1, 2, 3, 4, 5, 6, 7, 8, 9, 10, 11]" using assms(1) by (simp; presburger)
  ultimately show ?thesis using assms(2) by (metis list.pred_set)
qed

lemma operand_char_not_special: "operand_char c \<Longrightarrow> \<not> special c"
  unfolding operand_char_def
proof (elim disjE)
  assume c: "is_id c"
  then have "c \<notin> set ''()[]=|&<>+-*/%!~''" by (auto simp: is_id_def schar_def uchar_def)
  with is_id_uchar [OF c] show ?thesis by (simp add: special_def)
next
  assume c: "0xA0 \<le> uchar c"
  then have "c \<notin> set ''()[]=|&<>+-*/%!~''" by (auto simp: uchar_def)
  with c show ?thesis by (simp add: special_def)
qed (simp_all add: special_def uchar_def)

lemma operand_char_clean: "operand_char c \<Longrightarrow> i < 12 \<Longrightarrow> clean (pivots_at i) c"
proof -
  assume c: "operand_char c" and i: "i < 12"
  have "\<not> special c" by (rule operand_char_not_special [OF c])
  then have "c \<notin> set (pivots_at i)" "c \<notin> set ''()[]''" using pivots_special [OF i] by (blast, simp add: special_def)
  then show ?thesis by (simp add: clean_def is_in_def)
qed


lemma above_high: "0x20 \<le> uchar c \<Longrightarrow> uchar c < 128 \<Longrightarrow> 0xA0 \<le> uchar (above c)"
proof -
  assume c: "0x20 \<le> uchar c" "uchar c < 128"
  have "uchar (above c) = (uchar c + 128) mod 256" by (simp add: above_def uchar_def)
  also have "\<dots> = uchar c + 128" using c by simp
  finally show ?thesis using c by simp
qed

lemma is_digit_is_id: "is_digit_c c \<Longrightarrow> is_id c"
  unfolding is_id_def by (simp only: digit_first simp_thms)

lemma atom_chars:
  assumes "atom_ok a" "c \<in> set (atom_text a)"
  shows "operand_char c \<and> c \<noteq> CHR '',''"
proof -
  consider "is_id c" | "c = CHR 0x27" | "0xA0 \<le> uchar c"
  proof (cases a)
    case (Escape d)
    then have "c = CHR 0x27 \<or> c = above (CHR 0x5C) \<or> c = above d" using assms by auto
    moreover have "0xA0 \<le> uchar (above (CHR 0x5C))" by (rule above_high) (simp_all add: uchar_def)
    ultimately show ?thesis using that above_high [of d] assms Escape by auto
  qed (use that assms above_high is_digit_is_id in \<open>auto simp: name_ok_def\<close>)
  then show ?thesis
  proof cases
    case 1
    then show ?thesis by (auto simp: operand_char_def is_id_def schar_def uchar_def)
  qed (auto simp: operand_char_def uchar_def)
qed

lemma atom_text_some: "atom_ok a \<Longrightarrow> atom_text a \<noteq> []"
  by (cases a) (auto simp: name_ok_def)

lemma exp_text_some: "readable e \<Longrightarrow> exp_text e \<noteq> []"
  by (cases e) (auto simp: atom_text_some)

lemma commas_chars: "c \<in> set (commas ts) \<Longrightarrow> c = CHR '','' \<or> (\<exists>t\<in>set ts. c \<in> set t)"
  by (induction ts rule: commas.induct) auto

definition operators :: string where
  "operators = [TOK_OR, TOK_AND, CHR ''|'', CHR ''&'', TOK_EQ, TOK_NE, TOK_LE, TOK_GE, CHR ''<'', CHR ''>'', TOK_SHL, TOK_SHR,
     CHR ''+'', CHR ''-'', CHR ''*'', CHR ''/'', CHR ''%'', CHR ''!'', CHR ''~'']"

lemma level_operators: "level x \<le> 10 \<Longrightarrow> x \<in> set operators"
  by (simp add: level_def operators_def split: if_splits) blast+

lemma operator_levels:
  "list_all (\<lambda>x. list_all (\<lambda>i. clean (pivots_at i) x) [0..<level x] \<and> is_in x (pivots_at (level x))) operators"
  by (simp add: operators_def level_def TOK_defs clean_def is_in_def pivots_at_def levels_def upt_rec)

lemma level_clean:
  assumes "level x \<le> 10"
  shows "i < level x \<Longrightarrow> clean (pivots_at i) x" "is_in x (pivots_at (level x))"
proof -
  have "list_all (\<lambda>i. clean (pivots_at i) x) [0..<level x]" "is_in x (pivots_at (level x))"
    using operator_levels level_operators [OF assms] by (auto simp: list.pred_set)
  then show "i < level x \<Longrightarrow> clean (pivots_at i) x" "is_in x (pivots_at (level x))" by (auto simp: list.pred_set)
qed

lemma call_clean: "i < 11 \<Longrightarrow> clean (pivots_at i) TOK_CALL_OPEN \<and> clean (pivots_at i) TOK_CALL_CLOSED"
proof -
  have "list_all (\<lambda>i. clean (pivots_at i) TOK_CALL_OPEN \<and> clean (pivots_at i) TOK_CALL_CLOSED) [0..<11]"
    by (simp add: TOK_defs clean_def is_in_def pivots_at_def levels_def upt_rec)
  then show "i < 11 \<Longrightarrow> ?thesis" by (auto simp: list.pred_set)
qed

lemma exp_clean: "readable e \<Longrightarrow> i < rank e \<Longrightarrow> \<forall>c\<in>set (exp_text e). clean (pivots_at i) c"
proof (induction e)
  case (Atom a)
  then show ?case using atom_chars operand_char_clean by auto
next
  case (Call f as)
  have comma: "operand_char (CHR '','')" by (simp add: operand_char_def)
  have "clean (pivots_at i) c" if "c \<in> set (commas (map atom_text as))" for c
    using commas_chars [OF that] Call.prems atom_chars operand_char_clean comma by (fastforce simp: list.pred_set)
  moreover have "clean (pivots_at i) c" if "c \<in> set f" for c
    using that Call.prems operand_char_clean [of c i] by (simp add: name_ok_def operand_char_def)
  ultimately show ?case using call_clean [of i] Call.prems by auto
next
  case (Unary x e)
  then show ?case using level_clean(1) [of x i] by auto
next
  case (Binary x e1 e2)
  then show ?case using level_clean(1) [of x i] by auto
qed


section \<open>Evaluating a text\<close>

lemma parse_skip:
  assumes "\<forall>i<r. \<forall>c\<in>set w. clean (pivots_at i) c" "r \<le> 12"
  shows "parse_levels levels ev (pre @ w @ post) (length pre) (length pre + length w) addr =
    parse_levels (drop r levels) ev (pre @ w @ post) (length pre) (length pre + length w) addr"
  using assms
proof (induction r)
  case (Suc r)
  have "drop r levels = (pivots_at r, snd (levels ! r)) # drop (Suc r) levels"
    using Suc.prems(2) by (subst Cons_nth_drop_Suc [symmetric]) (simp_all add: pivots_at_def levels_def)
  moreover have "\<forall>c\<in>set w. clean (pivots_at r) c" using Suc.prems(1) by simp
  note pivot_none [OF this, of pre post]
  ultimately show ?case
    using Suc by (simp add: parse_expr_def fun_eq_iff bindM_eval)
qed simp

text \<open>An operand has no operator; any other text is split at the operator found on its level.\<close>

lemma eval_start:
  assumes "readable e"
  shows "eval_expr (Suc n) (pre @ exp_text e @ post) (length pre) (length pre + length (exp_text e)) addr =
    parse_levels (drop (rank e) levels) (eval_expr n (pre @ exp_text e @ post)) (pre @ exp_text e @ post) (length pre)
      (length pre + length (exp_text e)) addr"
proof -
  obtain c w where w: "exp_text e = c # w" using exp_text_some [OF assms] by (cases "exp_text e") auto
  have rank: "0 < rank e" "rank e \<le> 12" using assms by (cases e; simp)+
  have "clean (pivots_at 0) c" using exp_clean [OF assms rank(1)] by (simp add: w)
  then have "c \<noteq> CHR ''(''" by (auto simp: clean_def)
  then have "eval_expr (Suc n) (pre @ exp_text e @ post) (length pre) (length pre + length (exp_text e)) addr =
      parse_levels levels (eval_expr n (pre @ exp_text e @ post)) (pre @ exp_text e @ post) (length pre)
        (length pre + length (exp_text e)) addr"
    by (simp add: w fun_eq_iff bindM_eval)
  then show ?thesis using parse_skip [of "rank e" "exp_text e"] exp_clean [OF assms] rank(2) by simp
qed

lemma eval_operator:
  assumes e: "readable e" "exp_text e = u @ x # v" "rank e < 12"
    and found: "(if snd (levels ! rank e) = 0 then pivot_forward (pre @ u @ x # v @ post) (length pre) (length pre + length u + Suc (length v)) (pivots_at (rank e))
      else pivot_backward (pre @ u @ x # v @ post) (length pre) (length pre + length u + Suc (length v)) (pivots_at (rank e))) =
      Inr (Some (length pre + length u))"
    and run: "does T (run_eval_expr (eval_expr n (pre @ u @ x # v @ post)) (pre @ u @ x # v @ post) (length pre) (length pre + length u)
      (length pre + length u + Suc (length v)) False) True ns bs ms"
  shows "does T (eval_expr (Suc n) (pre @ exp_text e @ post) (length pre) (length pre + length (exp_text e)) False) () ns bs ms"
proof -
  let ?m = "pre @ u @ x # v @ post" and ?e = "length pre + length u + Suc (length v)"
  have split: "drop (rank e) levels = (pivots_at (rank e), snd (levels ! rank e)) # drop (Suc (rank e)) levels"
    using e(3) by (subst Cons_nth_drop_Suc [symmetric]) (simp_all add: pivots_at_def levels_def)
  have "does T (parse_expr (eval_expr n ?m) ?m (length pre) ?e (pivots_at (rank e)) (snd (levels ! rank e)) False) True ns bs ms"
    unfolding parse_expr_def by (rule does_lift [OF found]) (simp only: option.case, rule run)
  then have "does T (parse_levels (drop (rank e) levels) (eval_expr n ?m) ?m (length pre) ?e False) () ns (bs @ []) ms"
    unfolding split parse_levels.simps by (rule does_bind) (simp add: does_ret del: retM_eval)
  then show ?thesis unfolding eval_start [OF e(1)] by (simp add: e(2) add.assoc)
qed


lemma level_binary: "1 \<le> level x \<Longrightarrow> level x \<le> 9 \<Longrightarrow>
    binary_code x \<noteq> None \<and> x \<noteq> CHR ''='' \<and> x \<noteq> TOK_CALL_OPEN \<and> x \<noteq> TOK_DEREF \<and> x \<noteq> TOK_ADDR \<and> x \<noteq> CHR ''!'' \<and> x \<noteq> CHR ''~''"
proof -
  have "list_all (\<lambda>x. level x \<le> 9 \<longrightarrow> binary_code x \<noteq> None \<and> x \<noteq> CHR ''='' \<and> x \<noteq> TOK_CALL_OPEN \<and> x \<noteq> TOK_DEREF \<and>
      x \<noteq> TOK_ADDR \<and> x \<noteq> CHR ''!'' \<and> x \<noteq> CHR ''~'') operators"
    by (simp add: operators_def level_def TOK_defs binary_code_def compare_jump_def)
  then show "1 \<le> level x \<Longrightarrow> level x \<le> 9 \<Longrightarrow> ?thesis" using level_operators [of x] by (auto simp: list.pred_set)
qed

lemma level_unary: "level x = 10 \<Longrightarrow> x = CHR ''!'' \<or> x = CHR ''~''"
  by (simp add: level_def split: if_splits)

lemma directions: "r < 12 \<Longrightarrow> snd (levels ! r) = (if r = 0 \<or> r = 10 then 0 else 1)"
proof -
  have "list_all (\<lambda>r. snd (levels ! r) = (if r = 0 \<or> r = 10 then 0 else 1)) [0..<12]" by (simp add: levels_def upt_rec)
  then show "r < 12 \<Longrightarrow> ?thesis" by (auto simp: list.pred_set)
qed

lemma unary_does:
  assumes x: "level x = 10" and e: "readable e" "10 \<le> rank e" and ns: "length ns < 1024"
    and sub: "\<And>pre post. does T (eval_expr n (pre @ exp_text e @ post) (length pre) (length pre + length (exp_text e)) False) ()
      ns bs (TEMP # ns)"
  shows "does T (eval_expr (Suc n) (pre @ exp_text (Unary x e) @ post) (length pre) (length pre + length (exp_text (Unary x e))) False) ()
    ns (bs @ encode PopEax @ not_code x @ encode PushEax) (TEMP # ns)"
proof (rule eval_operator [where u = "[] :: string" and x = x and v = "exp_text e"])
  show "readable (Unary x e)" "exp_text (Unary x e) = [] @ x # exp_text e" "rank (Unary x e) < 12"
    using x e by simp_all
  let ?u = "[] :: string"
  let ?m = "pre @ ?u @ x # exp_text e @ post" and ?e = "length pre + length ?u + Suc (length (exp_text e))"
  show "(if snd (levels ! rank (Unary x e)) = 0 then pivot_forward ?m (length pre) ?e (pivots_at (rank (Unary x e)))
      else pivot_backward ?m (length pre) ?e (pivots_at (rank (Unary x e)))) = Inr (Some (length pre + length ?u))"
    using pivot_first [of ?u "pivots_at 10" x pre "exp_text e @ post" "exp_text e"] level_clean(2) [of x] x
    by (simp add: directions)
  have rd: "rd ?m (length pre + length ?u) = Inr x" by simp
  have ev: "does T (eval_expr n ?m (length pre + length ?u + 1) ?e False) () ns bs (TEMP # ns)"
    using sub [of "pre @ [x]" post] by simp
  have run: "does T (run_not (eval_expr n ?m) x (length pre) (length pre + length ?u) ?e False) () ns
      ([] @ [] @ bs @ [] @ [0x58] @ not_code x @ [0x50] @ [] @ []) (TEMP # ns)"
    unfolding run_not_def
    by (rule does_row, rule does_assert, simp, rule does_row, rule does_assert, simp, rule does_row, rule ev,
        (rule does_row does_emit does_pop does_push_temp [OF ns])+)
  have "x \<noteq> CHR ''='' \<and> x \<noteq> TOK_CALL_OPEN \<and> x \<noteq> TOK_DEREF \<and> x \<noteq> TOK_ADDR"
    using level_unary [OF x] by (auto simp: TOK_defs)
  then show "does T (run_eval_expr (eval_expr n ?m) ?m (length pre) (length pre + length ?u) ?e False) True ns
      (bs @ encode PopEax @ not_code x @ encode PushEax) (TEMP # ns)"
    using does_then [OF run does_ret] level_unary [OF x]
    unfolding run_eval_expr_def by (intro does_lift [OF rd]) (simp del: retM_eval)
qed


lemma binary_does:
  assumes x: "1 \<le> level x" "level x \<le> 9" "level x \<le> rank e1" "level x < rank e2" and e: "readable e1" "readable e2"
    and ns: "length ns + 1 < 1024"
    and sub2: "\<And>pre post. does T (eval_expr n (pre @ exp_text e2 @ post) (length pre) (length pre + length (exp_text e2)) False) ()
      ns bs (TEMP # ns)"
    and sub1: "\<And>pre post. does T (eval_expr n (pre @ exp_text e1 @ post) (length pre) (length pre + length (exp_text e1)) False) ()
      (TEMP # ns) cs (TEMP # TEMP # ns)"
  shows "does T (eval_expr (Suc n) (pre @ exp_text (Binary x e1 e2) @ post) (length pre)
      (length pre + length (exp_text (Binary x e1 e2))) False) ()
    ns (bs @ cs @ encode PopEax @ encode PopEcx @ the (binary_code x) @ encode PushEax) (TEMP # ns)"
proof (rule eval_operator [where u = "exp_text e1" and x = x and v = "exp_text e2"])
  let ?e = "Binary x e1 e2" and ?u = "exp_text e1" and ?v = "exp_text e2"
  show "readable ?e" "exp_text ?e = ?u @ x # ?v" "rank ?e < 12" using x e by simp_all
  let ?m = "pre @ ?u @ x # ?v @ post" and ?fin = "length pre + length ?u + Suc (length ?v)"
  show "(if snd (levels ! rank ?e) = 0 then pivot_forward ?m (length pre) ?fin (pivots_at (rank ?e))
      else pivot_backward ?m (length pre) ?fin (pivots_at (rank ?e))) = Inr (Some (length pre + length ?u))"
    using pivot_last [of ?v "pivots_at (level x)" x pre ?u post] exp_clean [OF e(2), of "level x"] level_clean(2) [of x] x
    by (simp add: directions)
  have rd: "rd ?m (length pre + length ?u) = Inr x" by (simp add: rd_def nth_append)
  have ev2: "does T (eval_expr n ?m (length pre + length ?u + 1) ?fin False) () ns bs (TEMP # ns)"
    using sub2 [of "pre @ ?u @ [x]" post] by simp
  have ev1: "does T (eval_expr n ?m (length pre) (length pre + length ?u) False) () (TEMP # ns) cs (TEMP # TEMP # ns)"
    using sub1 [of pre "x # ?v @ post"] by simp
  obtain code where code: "binary_code x = Some code" using level_binary [OF x(1,2)] by auto
  have "length ns < 1024" using ns by simp
  note temp = does_push_temp [OF this]
  let ?row = "[assertM (\<not> False), eval_expr n ?m (length pre + length ?u + 1) ?fin False,
      eval_expr n ?m (length pre) (length pre + length ?u) False, emit 0x58, pop_var_c, emit 0x59, pop_var_c]"
  have row: "does T (doM ?row) () ns ([] @ bs @ cs @ [0x58] @ [] @ [0x59] @ [] @ []) ns"
    by (rule does_row, rule does_assert, simp, rule does_row, rule ev2, rule does_row, rule ev1, (rule does_row does_emit does_pop)+)
  have rest: "does T (thenM (doM [emits code, push_temp, emit 0x50]) (retM True)) True ns ((code @ [] @ [0x50] @ []) @ []) (TEMP # ns)"
    by (rule does_then, (rule does_row does_emit temp)+, rule does_ret)
  have run: "does T (run_binary (eval_expr n ?m) x (length pre) (length pre + length ?u) ?fin False) True ns
      (([] @ bs @ cs @ [0x58] @ [] @ [0x59] @ [] @ []) @ (code @ [] @ [0x50] @ []) @ []) (TEMP # ns)"
    unfolding run_binary_def code option.case by (rule does_then [OF row rest])
  show "does T (run_eval_expr (eval_expr n ?m) ?m (length pre) (length pre + length ?u) ?fin False) True ns
      (bs @ cs @ encode PopEax @ encode PopEcx @ the (binary_code x) @ encode PushEax) (TEMP # ns)"
    using run level_binary [OF x(1,2)] unfolding run_eval_expr_def by (intro does_lift [OF rd]) (simp add: code)
qed

text \<open>The arguments of a call.\<close>

lemma commas_snoc: "commas (ts @ [t]) = (if ts = [] then t else commas ts @ CHR '','' # t)"
  by (induction ts rule: commas.induct) auto

lemma args_code_snoc: "args_code T ns (as @ [a]) = atom_code T ns a @ args_code T (TEMP # ns) as"
  by (induction as) (simp_all add: replicate_app_Cons_same)

lemma char_back_skip:
  assumes "\<forall>c\<in>set v. c \<noteq> CHR '',''" "b \<le> length pre" "v \<noteq> []"
  shows "find_char_back (pre @ v @ rest) b (length pre + length v) (CHR '','') =
    (if b = length pre then Inr None else find_char_back (pre @ v @ rest) b (length pre) (CHR '',''))"
  using assms
proof (induction v arbitrary: rest rule: rev_induct)
  case (snoc c v)
  have "rd (pre @ (v @ [c]) @ rest) (length pre + length v) = Inr c" by (simp add: rd_def nth_append)
  then have one: "find_char_back (pre @ (v @ [c]) @ rest) b (length pre + length (v @ [c])) (CHR '','') =
      (if length pre + length v = b then Inr None
       else find_char_back (pre @ v @ c # rest) b (length pre + length v) (CHR '',''))"
    using snoc.prems by simp
  show ?case
  proof (cases "v = []")
    case True
    then show ?thesis using one snoc.prems(2) by (auto simp del: find_char_back.simps)
  next
    case False
    have "\<forall>c\<in>set v. c \<noteq> CHR '',''" using snoc.prems(1) by simp
    from snoc.IH [OF this snoc.prems(2) False, of "c # rest"] one False snoc.prems(2) show ?thesis
      by (auto simp del: find_char_back.simps)
  qed
qed simp

lemma atom_does:
  assumes "atom_ok a" "atom_known T ns a" "length ns < 1024" "0 < n"
  shows "does T (eval_expr n (pre @ atom_text a @ post) (length pre) (length pre + length (atom_text a)) False) () ns
    (atom_code T ns a) (TEMP # ns)"
proof -
  obtain k where n: "n = Suc k" using assms(4) by (cases n) auto
  have d: "drop 12 levels = []" by (simp add: levels_def)
  have "eval_expr n (pre @ atom_text a @ post) (length pre) (length pre + length (atom_text a)) False =
      operand_c (pre @ atom_text a @ post) (length pre) (length pre + length (atom_text a)) False"
    using eval_start [of "Atom a" k pre post False] assms(1)
    by (simp only: n readable.simps exp_text.simps rank.simps d parse_levels.simps)
  then show ?thesis using operand_does [OF assms(1-3), of pre post] by simp
qed

lemma atom_known_mono: "atom_known T ns a \<Longrightarrow> atom_known T (y # ns) a"
  by (cases a) auto

lemma call_params_does:
  assumes "list_all atom_ok as" "list_all (atom_known T ns) as" "length ns + length as \<le> 1024" "0 < n"
  shows "does T (call_params (eval_expr n (pre @ commas (map atom_text as) @ post)) (pre @ commas (map atom_text as) @ post)
      (length pre) (length pre + length (commas (map atom_text as))) k) (k + length as) ns (args_code T ns as)
      (replicate (length as) TEMP @ ns)"
  using assms
proof (induction as arbitrary: ns post k rule: rev_induct)
  case Nil
  then show ?case by (simp add: call_params.simps does_ret del: retM_eval)
next
  case (snoc a as)
  let ?t = "atom_text a" and ?ts = "map atom_text as"
  let ?w = "commas (?ts @ [?t])"
  let ?m = "pre @ ?w @ post" and ?b = "length pre" and ?fin = "length pre + length ?w"
  have a: "atom_ok a" "atom_known T ns a" "length ns < 1024" and as: "list_all atom_ok as" "list_all (atom_known T (TEMP # ns)) as"
    using snoc.prems by (auto simp: list.pred_set atom_known_mono)
  have t: "\<forall>c\<in>set ?t. c \<noteq> CHR '',''" "?t \<noteq> []" using atom_chars [OF a(1)] atom_text_some [OF a(1)] by auto
  show ?case
  proof (cases "as = []")
    case True
    have "find_char_back (pre @ ?t @ post) ?b (?b + length ?t) (CHR '','') = Inr None" using char_back_skip [OF t(1) _ t(2), of ?b pre] by simp
    then have "call_params (eval_expr n (pre @ ?t @ post)) (pre @ ?t @ post) ?b (?b + length ?t) k =
        thenM (eval_expr n (pre @ ?t @ post) ?b (?b + length ?t) False) (retM (k + 1))"
      using t(2) by (subst call_params.simps) simp
    with does_then [OF atom_does [OF a snoc.prems(4), of pre post] does_ret [of T "k + 1"]] show ?thesis by (simp add: True del: retM_eval)
  next
    case False
    let ?u = "commas ?ts"
    have w: "?w = ?u @ CHR '','' # ?t" using False by (simp add: commas_snoc)
    let ?pre = "pre @ ?u @ [CHR '','']"
    have m: "?m = ?pre @ ?t @ post" and fin: "?fin = length ?pre + length ?t" by (simp_all add: w)
    have "rd ?m (?b + length ?u) = Inr (CHR '','')" by (simp add: w rd_def nth_append)
    moreover have "length ?pre = Suc (?b + length ?u)" by simp
    ultimately have "find_char_back ?m ?b (length ?pre) (CHR '','') = Inr (Some (?b + length ?u))"
      by (simp only: find_char_back.simps bindR_simps if_True simp_thms)
    then have found: "find_char_back ?m ?b ?fin (CHR '','') = Inr (Some (?b + length ?u))"
      unfolding m fin using char_back_skip [OF t(1) _ t(2), of ?b ?pre post] by (simp del: find_char_back.simps)
    have ev: "does T (eval_expr n ?m (?b + length ?u + 1) ?fin False) () ns (atom_code T ns a) (TEMP # ns)"
      using atom_does [OF a snoc.prems(4), of "pre @ ?u @ [CHR '','']" post] by (simp add: w add.assoc)
    have more: "does T (call_params (eval_expr n ?m) ?m ?b (?b + length ?u) (k + 1)) (k + 1 + length as) (TEMP # ns)
        (args_code T (TEMP # ns) as) (replicate (length as) TEMP @ TEMP # ns)"
      using snoc.IH [OF as _ snoc.prems(4), of "CHR '','' # ?t @ post" "k + 1"] snoc.prems(3) by (simp add: w)
    have "call_params (eval_expr n ?m) ?m ?b ?fin k =
        thenM (eval_expr n ?m (?b + length ?u + 1) ?fin False) (call_params (eval_expr n ?m) ?m ?b (?b + length ?u) (k + 1))"
      using found by (subst call_params.simps) (simp add: w)
    with does_then [OF ev more] show ?thesis
      by (simp add: args_code_snoc replicate_app_Cons_same)
  qed
qed


text \<open>The call itself.\<close>

lemma matching_skip:
  "\<forall>c\<in>set u. c \<noteq> x \<and> c \<noteq> y \<Longrightarrow> d \<noteq> 0 \<Longrightarrow> length pre + length u < e \<Longrightarrow>
     matching_loop x y (pre @ u @ rest) (length pre) e d = matching_loop x y (pre @ u @ rest) (length pre + length u) e d"
proof (induction u arbitrary: pre)
  case (Cons c u)
  have "matching_loop x y (pre @ (c # u) @ rest) (length pre) e d = matching_loop x y ((pre @ [c]) @ u @ rest) (length (pre @ [c])) e d"
    using Cons.prems by (subst matching_loop.simps) simp
  with Cons.IH [of "pre @ [c]"] Cons.prems show ?case by simp
qed simp

lemma matching_call:
  assumes "\<forall>c\<in>set u. operand_char c"
  shows "find_matching TOK_CALL_OPEN TOK_CALL_CLOSED (pre @ TOK_CALL_OPEN # u @ TOK_CALL_CLOSED # post) (length pre)
    (length pre + length u + 2) = Inr (Some (length pre + length u + 1))"
proof -
  let ?m = "pre @ TOK_CALL_OPEN # u @ TOK_CALL_CLOSED # post" and ?fin = "length pre + length u + 2"
  let ?pre = "pre @ [TOK_CALL_OPEN]"
  have "operand_char c \<Longrightarrow> c \<noteq> TOK_CALL_OPEN \<and> c \<noteq> TOK_CALL_CLOSED" for c
    using operand_char_not_special [of c] by (auto simp: special_def uchar_TOKs)
  then have u: "\<forall>c\<in>set u. c \<noteq> TOK_CALL_OPEN \<and> c \<noteq> TOK_CALL_CLOSED" using assms by blast
  have ne: "TOK_CALL_CLOSED \<noteq> TOK_CALL_OPEN" by (simp add: TOK_defs)
  have "matching_loop TOK_CALL_OPEN TOK_CALL_CLOSED ?m (length pre) ?fin 0 =
      matching_loop TOK_CALL_OPEN TOK_CALL_CLOSED (?pre @ u @ TOK_CALL_CLOSED # post) (length ?pre) ?fin 1"
    by (subst matching_loop.simps) simp
  also have "\<dots> = matching_loop TOK_CALL_OPEN TOK_CALL_CLOSED (?pre @ u @ TOK_CALL_CLOSED # post) (length ?pre + length u) ?fin 1"
    by (rule matching_skip [OF u]) simp_all
  also have "\<dots> = Inr (Some (length pre + length u + 1))"
    using ne by (subst matching_loop.simps) (simp add: rd_def nth_append)
  finally show ?thesis by (simp add: find_matching_def)
qed

text \<open>The address of a name.\<close>

lemma eval_name:
  assumes "name_ok f" "0 < n"
  shows "eval_expr n (pre @ f @ post) (length pre) (length pre + length f) True =
    variable_operand (pre @ f @ post) (length pre) (length pre + length f) True"
proof -
  obtain k where k: "n = Suc k" using assms(2) by (cases n) auto
  have d: "drop 12 levels = []" by (simp add: levels_def)
  let ?m = "pre @ f @ post" and ?b = "length pre" and ?fin = "length pre + length f"
  obtain c u where u: "f = c # u" and c: "\<not> is_digit_c c" "is_id c" using assms(1) by (cases f) (auto simp: name_ok_def)
  have "eval_expr n ?m ?b ?fin True = operand_c ?m ?b ?fin True"
    using eval_start [of "Atom (Variable f)" k pre post True] assms(1)
    by (simp only: k readable.simps atom_ok.simps exp_text.simps atom_text.simps rank.simps d parse_levels.simps)
  also have "\<dots> = variable_operand ?m ?b ?fin True"
    using c(1) is_id_quotes [OF c(2)] by (auto simp: operand_c_def u digit_first bindM_eval fun_eq_iff simp del: schar_digits)
  finally show ?thesis .
qed

lemma name_does:
  assumes f: "name_ok f" "f \<notin> set ns" "location T f = Some l" and ns: "length ns < 1024" and n: "0 < n"
  shows "does T (eval_expr n (pre @ f @ post) (length pre) (length pre + length f) True) () ns (encode (PushImm l)) (TEMP # ns)"
proof -
  let ?m = "pre @ f @ post" and ?b = "length pre" and ?fin = "length pre + length f"
  have p: "position f ns = None" using f(2) by (simp add: position_def)
  have push: "does T (bindM (get_symbol2 ?m ?b ?fin) (\<lambda>l. doM [push_word l, push_temp])) () ns
      ([] @ (0x68 # bytes32 l) @ [] @ []) (TEMP # ns)"
    by (rule does_bind, rule does_symbol [OF f(3)], (rule does_row does_push_word does_push_temp [OF ns])+)
  have "does T (variable_operand ?m ?b ?fin True) () ns ([] @ (0x68 # bytes32 l) @ [] @ []) (TEMP # ns)"
    unfolding variable_operand_def
    by (rule does_get, erule stack2_window, rule does_lift, rule refl) (use push in \<open>simp add: p\<close>)
  then show ?thesis unfolding eval_name [OF f(1) n] by simp
qed

lemma call_does:
  assumes f: "name_ok f" "f \<notin> set ns" "location T f = Some l" and as: "list_all atom_ok as" "list_all (atom_known T ns) as"
    and ns: "length ns + length as < 1024" and n: "0 < n"
  shows "does T (eval_expr (Suc n) (pre @ exp_text (Call f as) @ post) (length pre) (length pre + length (exp_text (Call f as))) False) ()
    ns (code T ns (Call f as)) (TEMP # ns)"
proof (rule eval_operator [where u = f and x = TOK_CALL_OPEN and v = "commas (map atom_text as) @ [TOK_CALL_CLOSED]"])
  let ?e = "Call f as" and ?w = "commas (map atom_text as)"
  let ?v = "?w @ [TOK_CALL_CLOSED]"
  show "readable ?e" "exp_text ?e = f @ TOK_CALL_OPEN # ?v" "rank ?e < 12" using f(1) as(1) by simp_all
  let ?m = "pre @ f @ TOK_CALL_OPEN # ?v @ post" and ?op = "length pre + length f" and ?fin = "length pre + length f + Suc (length ?v)"
  have w: "operand_char c" if "c \<in> set ?w" for c
    using commas_chars [OF that] atom_chars as(1) by (auto simp: list.pred_set operand_char_def)
  have closed: "clean (pivots_at 11) TOK_CALL_CLOSED" "is_in TOK_CALL_OPEN (pivots_at 11)"
    by (simp_all add: clean_def is_in_def pivots_at_def levels_def TOK_defs)
  then have "\<forall>c\<in>set ?v. clean (pivots_at 11) c" using w operand_char_clean [of _ 11] by auto
  from pivot_last [OF this closed(2), of pre f post]
  show "(if snd (levels ! rank ?e) = 0 then pivot_forward ?m (length pre) ?fin (pivots_at (rank ?e))
      else pivot_backward ?m (length pre) ?fin (pivots_at (rank ?e))) = Inr (Some ?op)"
    by (simp add: directions)
  have rd: "rd ?m ?op = Inr TOK_CALL_OPEN" by (simp add: rd_def nth_append)
  have match: "find_matching TOK_CALL_OPEN TOK_CALL_CLOSED ?m ?op ?fin = Inr (Some (?fin - 1))"
    using matching_call [of ?w "pre @ f" post] w by simp
  have params: "does T (call_params (eval_expr n ?m) ?m (?op + 1) (?fin - 1) 0) (0 + length as) ns (args_code T ns as)
      (replicate (length as) TEMP @ ns)"
    using call_params_does [OF as _ n, of "pre @ f @ [TOK_CALL_OPEN]" "TOK_CALL_CLOSED # post" 0] ns by simp
  let ?ns = "replicate (length as) TEMP @ ns"
  have "f \<noteq> TEMP" using f(1) by (simp add: name_ok_def TEMP_def)
  then have "f \<notin> set ?ns" using f(2) by auto
  from name_does [OF f(1) this f(3) _ n, of pre "TOK_CALL_OPEN # ?v @ post"] ns
  have fn: "does T (eval_expr n ?m (length pre) ?op True) () ?ns (encode (PushImm l)) (TEMP # ?ns)" by simp
  have pops: "does T (repeatM (length as) pop_var_c) () ?ns [] ns" using does_pops [of T "replicate (length as) TEMP" ns] by simp
  have temp: "does T push_temp () ns [] (TEMP # ns)" using ns by (intro does_push_temp) simp
  let ?row = "[eval_expr n ?m (length pre) ?op True, pop_var_c, emit 0x58, emits [0xff, 0xd0], emits [0x81, 0xc4],
       emit32 (4 * of_nat (length as)), repeatM (length as) pop_var_c, push_temp, emit 0x50]"
  have row: "does T (doM ?row) () ?ns (encode (PushImm l) @ [] @ [0x58] @ [0xff, 0xd0] @ [0x81, 0xc4] @
      bytes32 (4 * of_nat (length as)) @ [] @ [] @ [0x50] @ []) (TEMP # ns)"
    by (rule does_row fn pops temp does_emit does_pop)+
  have rest: "does T (bindM (call_params (eval_expr n ?m) ?m (?op + 1) (?fin - 1) 0) (\<lambda>k. doM [eval_expr n ?m (length pre) ?op True,
      pop_var_c, emit 0x58, emits [0xff, 0xd0], emits [0x81, 0xc4], emit32 (4 * of_nat k), repeatM k pop_var_c, push_temp, emit 0x50])) ()
      ns (args_code T ns as @ encode (PushImm l) @ [] @ [0x58] @ [0xff, 0xd0] @ [0x81, 0xc4] @
      bytes32 (4 * of_nat (length as)) @ [] @ [] @ [0x50] @ []) (TEMP # ns)"
    by (rule does_bind [OF params]) (use row in simp)
  have run: "does T (run_call (eval_expr n ?m) ?m (length pre) ?op ?fin False) () ns (code T ns ?e) (TEMP # ns)"
    unfolding run_call_def
    by (rule does_eq, rule does_then, rule does_assert, simp, rule does_lift [OF match], rule does_then, rule does_assert, simp,
        rule does_then, rule does_assert, simp, rule rest) (simp add: f(3))
  show "does T (run_eval_expr (eval_expr n ?m) ?m (length pre) ?op ?fin False) True ns (code T ns ?e) (TEMP # ns)"
    unfolding run_eval_expr_def using does_then [OF run does_ret [of T True]]
    by (intro does_lift [OF rd]) (simp add: TOK_defs del: retM_eval code.simps)
qed


lemma need_pos: "0 < need e"
  by (induction e) auto

lemma known_temp: "readable e \<Longrightarrow> known T ns e \<Longrightarrow> known T (TEMP # ns) e"
  by (induction e) (auto simp: list.pred_set atom_known_mono name_ok_def TEMP_def)

theorem eval_does:
  assumes "readable e" "known T ns e" "length ns + need e \<le> 1024" "length (exp_text e) < n"
  shows "does T (eval_expr n (pre @ exp_text e @ post) (length pre) (length pre + length (exp_text e)) False) () ns
    (code T ns e) (TEMP # ns)"
  using assms
proof (induction e arbitrary: n ns pre post)
  case (Atom a)
  then show ?case using atom_does [of a T ns n pre post] by simp
next
  case (Call f as)
  obtain k where k: "n = Suc k" "0 < k" using Call.prems(4) by (cases n) auto
  obtain l where "location T f = Some l" using Call.prems(2) by auto
  with Call.prems call_does [of f ns T l as k pre post] k show ?case by (simp del: code.simps)
next
  case (Unary x e)
  obtain k where k: "n = Suc k" using Unary.prems(4) by (cases n) auto
  with Unary.prems need_pos [of e] Unary.IH [of ns k] unary_does [where x = x and e = e and ns = ns and n = k and T = T and bs = "code T ns e" and pre = pre and post = post] show ?case by simp
next
  case (Binary x e1 e2)
  obtain k where k: "n = Suc k" using Binary.prems(4) by (cases n) auto
  have len: "length ns + 1 < 1024" using Binary.prems(3) need_pos [of e1] by simp
  have "does T (eval_expr k (pre @ exp_text e2 @ post) (length pre) (length pre + length (exp_text e2)) False) () ns
      (code T ns e2) (TEMP # ns)" for pre post
    using Binary.IH(2) [of ns k pre post] Binary.prems k by simp
  moreover have "does T (eval_expr k (pre @ exp_text e1 @ post) (length pre) (length pre + length (exp_text e1)) False) () (TEMP # ns)
      (code T (TEMP # ns) e1) (TEMP # TEMP # ns)" for pre post
    using Binary.IH(1) [of "TEMP # ns" k pre post] Binary.prems k known_temp by simp
  ultimately show ?case
    using binary_does [where x = x and ns = ns and n = k and T = T and pre = pre and post = post and bs = "code T ns e2" and cs = "code T (TEMP # ns) e1"] Binary.prems k len by simp
qed

section \<open>Parentheses\<close>

lemma matching_paren:
  assumes "\<forall>c\<in>set v. clean pv c" "length pre + length v + 1 < e"
  shows "find_matching (CHR ''('') (CHR '')'') (pre @ CHR ''('' # v @ CHR '')'' # post) (length pre) e = Inr (Some (length pre + length v + 1))"
proof -
  let ?m = "pre @ CHR ''('' # v @ CHR '')'' # post"
  have v: "\<forall>c\<in>set v. c \<noteq> CHR ''('' \<and> c \<noteq> CHR '')''" using assms(1) by (auto simp: clean_def)
  have "matching_loop (CHR ''('') (CHR '')'') ?m (length pre) e 0 = matching_loop (CHR ''('') (CHR '')'') ?m (length pre + 1) e 1"
    using assms(2) by (subst matching_loop.simps) simp
  also have "\<dots> = matching_loop (CHR ''('') (CHR '')'') ?m (length pre + 1 + length v) e 1"
    using matching_skip [OF v, of 1 "pre @ ''(''" e "CHR '')'' # post"] assms(2) by simp
  also have "\<dots> = Inr (Some (length pre + length v + 1))"
    using assms(2) by (subst matching_loop.simps) (simp add: rd_def nth_append)
  finally show ?thesis by (simp add: find_matching_def)
qed

text \<open>C27: The compiler does not handle parentheses inside an expression, because the loop of \<open>find_matching_rev\<close> has
  its condition the wrong way round: an expression without assignment that ends with a parenthesised operand, as in
  \<open>a*(b+c)\<close>, is refused. (One that begins with one, as in \<open>(a+b)*c\<close>, compiles to no code at all.)\<close>

theorem parentheses_refused:
  assumes "\<forall>c\<in>set (u @ v). clean (pivots_at 0) c" "u \<noteq> []"
  shows "eval_expr (Suc n) (pre @ u @ CHR ''('' # v @ CHR '')'' # post) (length pre) (length pre + length u + length v + 2) addr s =
    Inl Panic"
proof -
  let ?m = "pre @ u @ CHR ''('' # v @ CHR '')'' # post" and ?b = "length pre" and ?fin = "length pre + length u + length v + 2"
  obtain c u' where u: "u = c # u'" using assms(2) by (cases u) auto
  have uv: "\<forall>c\<in>set u. clean (pivots_at 0) c" "\<forall>c\<in>set v. clean (pivots_at 0) c" using assms(1) by auto
  have rd: "rd ?m (?b + length u) = Inr (CHR ''('')" "rd ?m (?fin - 1) = Inr (CHR '')'')" by (simp_all add: rd_def nth_append)
  have none: "\<not> is_in (CHR ''('') (pivots_at 0)" "\<not> is_in (CHR '')'') (pivots_at 1)"
    by (simp_all add: is_in_def pivots_at_def levels_def TOK_defs)
  have "pivot_forward ?m ?b ?fin (pivots_at 0) = pivot_forward ?m (?b + length u) ?fin (pivots_at 0)"
    using forward_clean [OF uv(1), of pre ?fin "CHR ''('' # v @ CHR '')'' # post"] by simp
  also have "\<dots> = pivot_forward ?m ?fin ?fin (pivots_at 0)"
    using rd(1) none(1) matching_paren [OF uv(2), of "pre @ u" ?fin post] by (subst pivot_forward.simps) simp
  also have "\<dots> = Inr None" by (subst pivot_forward.simps) simp
  finally have fwd: "pivot_forward ?m ?b ?fin (pivots_at 0) = Inr None" .
  have "find_matching_rev (CHR ''('') (CHR '')'') ?m ?b ?fin = Inr None" by (simp add: find_matching_rev_def u)
  then have bwd: "pivot_backward ?m ?b ?fin (pivots_at 1) = Inl Panic"
    using rd(2) none(2) by (subst pivot_backward.simps) simp
  have "rd ?m ?b = Inr c" "c \<noteq> CHR ''(''" using uv(1) by (simp_all add: u clean_def) 
  moreover obtain ls where ls: "levels = (pivots_at 0, 0) # (pivots_at 1, 1) # ls" by (simp add: levels_def pivots_at_def)
  have "parse_levels levels (eval_expr n ?m) ?m ?b ?fin addr s = Inl Panic"
    by (subst ls) (use fwd bwd in \<open>simp add: parse_expr_def bindM_eval\<close>)
  ultimately show ?thesis by (simp add: bindM_eval)
qed

theorem parentheses_refused_witness:
  "eval_expr (Suc 8) (''x'' @ ''a*'' @ CHR ''('' # ''b+c'' @ CHR '')'' # [NUL]) (length ''x'')
     (length ''x'' + length ''a*'' + length ''b+c'' + 2) False empty_cc = Inl Panic"
  by (rule parentheses_refused) (simp_all add: clean_def is_in_def pivots_at_def levels_def)

end
