(* ===== verification/CcValue.thy ===== *)
theory CcValue
  imports CcCode
begin

text \<open>
  What the code of an expression does: \<open>c_value\<close> is the value of a tree in C, from the values of the
  variables and the functions, and \<open>sem\<close> its value in the language that the compiler implements. They agree on the trees that
  are \<open>exact\<close>, where no operator that the compiler gets wrong has an operand for which it does. The code that the reference
  compiler gives for the tree leaves the value \<open>sem\<close> on the stack, if the stack and the memory have the values of the variables and
  the code of the functions.
\<close>

section \<open>Values\<close>

text \<open>A variable may have no value; a function may have none for some arguments.\<close>

type_synonym valuation = "string \<Rightarrow> i32 option"
type_synonym meanings = "string \<Rightarrow> i32 list \<Rightarrow> i32 option"

fun atom_sem :: "valuation \<Rightarrow> atom \<Rightarrow> i32 option" where
  "atom_sem val (Variable x) = val x"
| "atom_sem val a = Some (atom_value a)"

fun sem :: "valuation \<Rightarrow> meanings \<Rightarrow> cexp \<Rightarrow> i32 option" where
  "sem val funs (Atom a) = atom_sem val a"
| "sem val funs (Call f as) = (case those (map (atom_sem val) as) of Some vs \<Rightarrow> funs f vs | None \<Rightarrow> None)"
| "sem val funs (Unary x e) = map_option (c_unary x) (sem val funs e)"
| "sem val funs (Binary x e1 e2) = (case (sem val funs e1, sem val funs e2) of
     (Some a, Some b) \<Rightarrow> cc_binary x a b
   | _ \<Rightarrow> None)"

text \<open>In C \<open>&&\<close> and \<open>||\<close> do not evaluate their right operand when the left one decides.\<close>

fun c_value :: "valuation \<Rightarrow> meanings \<Rightarrow> cexp \<Rightarrow> i32 option" where
  "c_value val funs (Atom a) = atom_sem val a"
| "c_value val funs (Call f as) = (case those (map (atom_sem val) as) of Some vs \<Rightarrow> funs f vs | None \<Rightarrow> None)"
| "c_value val funs (Unary x e) = map_option (c_unary x) (c_value val funs e)"
| "c_value val funs (Binary x e1 e2) = (case c_value val funs e1 of
     None \<Rightarrow> None
   | Some a \<Rightarrow>
       if x = TOK_AND \<and> a = 0 then Some 0
       else if x = TOK_OR \<and> a \<noteq> 0 then Some 1
       else (case c_value val funs e2 of None \<Rightarrow> None | Some b \<Rightarrow> c_binary x a b))"

text \<open>Where the compiler agrees with C: nothing negative is divided or shifted to the right, and both operands of \<open>&&\<close> and
  \<open>||\<close>, which the code evaluates in any case, have a value.\<close>

fun exact :: "valuation \<Rightarrow> meanings \<Rightarrow> cexp \<Rightarrow> bool" where
  "exact val funs (Atom a) \<longleftrightarrow> True"
| "exact val funs (Call f as) \<longleftrightarrow> True"
| "exact val funs (Unary x e) \<longleftrightarrow> exact val funs e"
| "exact val funs (Binary x e1 e2) \<longleftrightarrow> exact val funs e1 \<and> exact val funs e2 \<and>
     (sign_sensitive x \<longrightarrow> (case c_value val funs e1 of Some a \<Rightarrow> 0 \<le> sint a | None \<Rightarrow> False)) \<and>
     (x = TOK_AND \<or> x = TOK_OR \<longrightarrow> c_value val funs e2 \<noteq> None)"

lemma c_value_sem: "c_value val funs e = Some v \<Longrightarrow> exact val funs e \<Longrightarrow> sem val funs e = Some v"
proof (induction e arbitrary: v)
  case (Binary x e1 e2)
  obtain a where a: "c_value val funs e1 = Some a" using Binary.prems(1) by (auto split: option.splits)
  show ?case
  proof (cases "x = TOK_AND \<and> a = 0 \<or> x = TOK_OR \<and> a \<noteq> 0")
    case True
    then obtain b where b: "c_value val funs e2 = Some b" using Binary.prems(2) by auto
    have subs: "sem val funs e1 = Some a" "sem val funs e2 = Some b"
      using Binary.IH(1) [OF a] Binary.IH(2) [OF b] Binary.prems(2) by simp_all
    from True show ?thesis
    proof
      assume x: "x = TOK_AND \<and> a = 0"
      then have "v = 0" using Binary.prems(1) a by simp
      then show ?thesis using x subs by (simp add: cc_table truth_def)
    next
      assume x: "x = TOK_OR \<and> a \<noteq> 0"
      moreover have "TOK_OR \<noteq> TOK_AND" by (simp add: TOK_defs)
      ultimately have "v = 1" using Binary.prems(1) a by simp
      then show ?thesis using x subs by (simp add: cc_table truth_def)
    qed
  next
    case False
    then obtain b where b: "c_value val funs e2 = Some b" "c_binary x a b = Some v"
      using Binary.prems(1) a by (auto split: option.splits if_splits)
    have "cc_binary x a b = Some v" using cc_binary_agrees [OF b(2)] Binary.prems(2) a by simp
    then show ?thesis using Binary.IH(1) [OF a] Binary.IH(2) [OF b(1)] Binary.prems(2) by simp
  qed
qed auto

text \<open>The values of the variables are where the code looks for them: those of the names \<open>ns\<close> are the words \<open>vs\<close> on
  the stack, those of other names are in memory at the addresses of their symbols.\<close>

definition shows_values :: "memory \<Rightarrow> (string \<Rightarrow> i32 option) \<Rightarrow> string list \<Rightarrow> i32 list \<Rightarrow> valuation \<Rightarrow> bool" where
  "shows_values mem tab ns vs val \<longleftrightarrow> length vs = length ns \<and> (\<forall>x v. name_ok x \<longrightarrow> val x = Some v \<longrightarrow>
     (case position x ns of Some p \<Rightarrow> vs ! p = v | None \<Rightarrow> (\<exists>l. tab x = Some l \<and> load mem l = Some v)))"

text \<open>The code of every function answers its calls.\<close>

definition provides :: "memory \<Rightarrow> (string \<Rightarrow> i32 option) \<Rightarrow> meanings \<Rightarrow> bool" where
  "provides mem tab funs \<longleftrightarrow> (\<forall>f vs v. funs f vs = Some v \<longrightarrow> (\<exists>l. tab f = Some l \<and> answers mem l vs v))"

text \<open>Temporaries do not hide a value: no variable has their name.\<close>

lemma shows_temp: "shows_values mem tab ns vs val \<Longrightarrow> shows_values mem tab (TEMP # ns) (w # vs) val"
  by (auto simp: shows_values_def position_simps name_ok_def TEMP_def split: option.splits)

lemma shows_temps:
  "shows_values mem tab ns vs val \<Longrightarrow> shows_values mem tab (replicate (length ws) TEMP @ ns) (ws @ vs) val"
  by (induction ws) (simp_all add: shows_temp)

lemma position_less: "position x ns = Some p \<Longrightarrow> p < length ns"
  by (induction ns arbitrary: p) (auto simp: position_simps split: if_splits)

section \<open>The code of operands\<close>

lemma values_load_stack:
  assumes "p < length vs" "length vs < 2 ^ 30"
  shows "computes_values mem a (encode (LoadStk (4 * of_nat p)) @ encode PushEax) vs (vs ! p # vs)"
  unfolding computes_values_def
proof (intro allI impI)
  fix c :: cpu and rest
  assume c: "eip c = a \<and> stk c = vs @ rest \<and> code_at mem a (encode (LoadStk (4 * of_nat p)) @ encode PushEax)"
  have "p < 2 ^ 30" using assms by simp
  note p = index_word [OF this]
  let ?c1 = "c\<lparr>eip := a + 7, eax := vs ! p\<rparr>" and ?d = "c\<lparr>eip := a + 8, eax := vs ! p, stk := vs ! p # vs @ rest\<rparr>"
  have code: "code_at mem a (encode (LoadStk (4 * of_nat p)))" "code_at mem (a + 7) (encode PushEax)"
    using c unfolding code_at_append by simp_all
  have "runs mem ?c1 ?d" by (rule step_at [OF code(2) _ _ runs_refl]) (use c in \<open>simp_all add: push_def\<close>)
  then have "runs mem c ?d"
    by (rule step_at [OF code(1), rotated 2]) (use c assms p in \<open>simp_all add: nth_append\<close>)
  then show "\<exists>d. runs mem c d \<and> eip d = a + of_nat (length (encode (LoadStk (4 * of_nat p)) @ encode PushEax)) \<and>
      stk d = (vs ! p # vs) @ rest"
    by (intro exI [of _ ?d]) simp
qed

lemma atom_code_computes:
  assumes "atom_ok a" "atom_sem val a = Some v" "shows_values mem (location T) ns vs val" "length ns < 2 ^ 30"
  shows "computes_values mem addr (atom_code T ns a) vs (v # vs)"
proof (cases a)
  case (Variable x)
  then have x: "name_ok x" "val x = Some v" using assms(1,2) by simp_all
  show ?thesis
  proof (cases "position x ns")
    case None
    then obtain l where "location T x = Some l" "load mem l = Some v" using assms(3) x unfolding shows_values_def by fastforce
    with values_push_global [of mem l v addr vs] None show ?thesis by (simp add: Variable variable_code_def)
  next
    case (Some p)
    then have p: "p < length vs" "vs ! p = v" "length vs < 2 ^ 30"
      using assms(3,4) x position_less [of x ns p] unfolding shows_values_def by fastforce+
    then show ?thesis using values_load_stack [of p vs mem addr] Some
      by (simp add: Variable variable_code_def del: encode.simps)
  qed
qed (use assms values_push_imm in simp_all)


section \<open>The code of operators and calls\<close>

text \<open>Operands are popped into registers, an operator works there, its value is pushed.\<close>

lemma values_op:
  assumes op: "leaves mem bs P v"
    and pops: "\<And>c rest. eip c = a \<Longrightarrow> stk c = us @ vs @ rest \<Longrightarrow> code_at mem a ps \<Longrightarrow>
      \<exists>d. runs mem c d \<and> eip d = a + of_nat (length ps) \<and> stk d = vs @ rest \<and> P d"
  shows "computes_values mem a (ps @ bs @ encode PushEax) (us @ vs) (v # vs)"
  unfolding computes_values_def
proof (intro allI impI)
  fix c :: cpu and rest
  assume c: "eip c = a \<and> stk c = (us @ vs) @ rest \<and> code_at mem a (ps @ bs @ encode PushEax)"
  then obtain d where d: "runs mem c d" "eip d = a + of_nat (length ps)" "stk d = vs @ rest" "P d"
    using pops [of c rest] by (auto simp: code_at_append)
  have "code_at mem (eip d) bs" using c d(2) by (simp add: code_at_append)
  with op d(4) obtain e where e: "runs mem d e" "eip e = eip d + of_nat (length bs)" "stk e = stk d" "eax e = v"
    unfolding leaves_def by blast
  let ?f = "e\<lparr>eip := eip e + 1, stk := v # stk e\<rparr>"
  have "code_at mem (eip e) (encode PushEax)" using c d(2) e(2) by (simp add: code_at_append)
  then have "runs mem e ?f" by (rule step_at [OF _ refl _ runs_refl]) (simp add: push_def e(4))
  then have "runs mem c ?f" using d(1) e(1) by (blast intro: runs_trans)
  then show "\<exists>d. runs mem c d \<and> eip d = a + of_nat (length (ps @ bs @ encode PushEax)) \<and> stk d = (v # vs) @ rest"
    using d e by (intro exI [of _ ?f]) (simp add: add.assoc)
qed

lemma values_unary:
  assumes "leaves mem bs (\<lambda>c. eax c = x) v"
  shows "computes_values mem a (encode PopEax @ bs @ encode PushEax) (x # vs) (v # vs)"
proof -
  have "\<exists>d. runs mem c d \<and> eip d = a + of_nat (length (encode PopEax)) \<and> stk d = vs @ rest \<and> eax d = x"
    if c: "eip c = a" "stk c = [x] @ vs @ rest" "code_at mem a (encode PopEax)" for c rest
    by (rule exI [of _ "c\<lparr>eip := a + 1, eax := x, stk := vs @ rest\<rparr>"])
      (use c in \<open>auto intro: step_at [OF c(3,1) _ runs_refl]\<close>)
  from values_op [OF assms, where us = "[x]", OF this] show ?thesis by simp
qed

lemma values_binary:
  assumes "leaves mem bs (operands x y) v"
  shows "computes_values mem a (encode PopEax @ encode PopEcx @ bs @ encode PushEax) (x # y # vs) (v # vs)"
proof -
  let ?ps = "encode PopEax @ encode PopEcx"
  have "\<exists>d. runs mem c d \<and> eip d = a + of_nat (length ?ps) \<and> stk d = vs @ rest \<and> operands x y d"
    if c: "eip c = a" "stk c = [x, y] @ vs @ rest" "code_at mem a ?ps" for c rest
  proof -
    let ?c1 = "c\<lparr>eip := a + 1, eax := x, stk := y # vs @ rest\<rparr>"
    let ?d = "c\<lparr>eip := a + 2, eax := x, ecx := y, stk := vs @ rest\<rparr>"
    have code: "code_at mem a (encode PopEax)" "code_at mem (a + 1) (encode PopEcx)"
      using c(3) unfolding code_at_append by simp_all
    have "runs mem ?c1 ?d" by (rule step_at [OF code(2) _ _ runs_refl]) simp_all
    then have "runs mem c ?d" by (rule step_at [OF code(1) c(1), rotated]) (use c in simp)
    then show ?thesis by (intro exI [of _ ?d]) simp
  qed
  from values_op [OF assms, where us = "[x, y]", OF this] show ?thesis by simp
qed

lemma values_call:
  assumes f: "answers mem l xs v" and len: "length xs < 2 ^ 30"
  shows "computes_values mem a (encode (PushImm l) @ encode PopEax @ encode CallEax @ encode (AddEsp (4 * of_nat (length xs))) @
    encode PushEax) (xs @ vs) (v # vs)"
  unfolding computes_values_def
proof (intro allI impI)
  fix c :: cpu and rest
  let ?n = "length xs"
  let ?is = "[PushImm l, PopEax, CallEax, AddEsp (4 * of_nat ?n), PushEax]"
  assume "eip c = a \<and> stk c = (xs @ vs) @ rest \<and> code_at mem a (encode (PushImm l) @ encode PopEax @ encode CallEax @
    encode (AddEsp (4 * of_nat ?n)) @ encode PushEax)"
  then have c: "eip c = a" "stk c = xs @ vs @ rest" and code: "code_at mem a (encode (PushImm l))" "code_at mem (a + 5) (encode PopEax)"
    "code_at mem (a + 6) (encode CallEax)" "code_at mem (a + 8) (encode (AddEsp (4 * of_nat ?n)))" "code_at mem (a + 14) (encode PushEax)"
    unfolding code_at_append by (simp_all add: add.assoc)
  let ?c1 = "c\<lparr>eip := a + 5, stk := l # xs @ vs @ rest\<rparr>" and ?c2 = "c\<lparr>eip := a + 6, eax := l\<rparr>"
  let ?c3 = "c\<lparr>eip := l, eax := l, stk := (a + 8) # xs @ vs @ rest\<rparr>"
  have "runs mem ?c2 ?c3" by (rule step_at [OF code(3) _ _ runs_refl]) (use c in \<open>simp_all add: push_def\<close>)
  then have "runs mem ?c1 ?c3" by (rule step_at [OF code(2), rotated 2]) (use c in simp_all)
  then have call: "runs mem c ?c3" by (rule step_at [OF code(1) c(1), rotated]) (use c in \<open>simp add: push_def\<close>)
  obtain d ys where d: "runs mem ?c3 d" "eip d = a + 8" "eax d = v" "stk d = ys @ vs @ rest" "length ys = ?n"
    using f [unfolded answers_def, rule_format, of ?c3 "a + 8" "vs @ rest"] by auto
  let ?d1 = "d\<lparr>eip := a + 14, cmp := None, stk := vs @ rest\<rparr>" and ?e = "d\<lparr>eip := a + 15, cmp := None, stk := v # vs @ rest\<rparr>"
  have "runs mem ?d1 ?e" by (rule step_at [OF code(5) _ _ runs_refl]) (use d in \<open>simp_all add: push_def\<close>)
  then have "runs mem d ?e"
    by (rule step_at [OF code(4) d(2), rotated]) (use d index_word [OF len] in simp)
  with call d(1) have "runs mem c ?e" by (blast intro: runs_trans)
  then show "\<exists>d. runs mem c d \<and> eip d = a + of_nat (length (encode (PushImm l) @ encode PopEax @ encode CallEax @
      encode (AddEsp (4 * of_nat ?n)) @ encode PushEax)) \<and> stk d = (v # vs) @ rest"
    by (intro exI [of _ ?e]) simp
qed

section \<open>The code of expressions\<close>

lemma args_code_computes:
  assumes "list_all atom_ok as" "those (map (atom_sem val) as) = Some ws" "shows_values mem (location T) ns vs val"
    "length ns + length as < 2 ^ 30"
  shows "length ws = length as \<and> computes_values mem addr (args_code T ns as) vs (ws @ vs)"
  using assms
proof (induction as arbitrary: ws addr)
  case Nil
  then show ?case by (simp add: values_Nil)
next
  case (Cons a as)
  obtain v us where v: "atom_sem val a = Some v" "those (map (atom_sem val) as) = Some us" "ws = v # us"
    using Cons.prems(2) by (auto split: option.splits)
  have ih: "length us = length as" "computes_values mem addr (args_code T ns as) vs (us @ vs)" for addr
    using Cons v(2) by auto
  have "computes_values mem addr (atom_code T (replicate (length as) TEMP @ ns) a) (us @ vs) (v # us @ vs)" for addr
    using atom_code_computes [OF _ v(1) shows_temps [OF Cons.prems(3), of us]] Cons.prems(1,4) ih(1) by simp
  with values_append [OF ih(2)] ih(1) show ?case by (simp add: v(3))
qed

lemma code_computes:
  assumes "readable e" "sem val funs e = Some v" "shows_values mem (location T) ns vs val" "provides mem (location T) funs"
    "length ns + need e < 2 ^ 30"
  shows "computes_values mem addr (code T ns e) vs (v # vs)"
  using assms
proof (induction e arbitrary: ns vs v addr)
  case (Atom a)
  then show ?case by (simp add: atom_code_computes)
next
  case (Call f as)
  obtain ws where ws: "those (map (atom_sem val) as) = Some ws" "funs f ws = Some v"
    using Call.prems(2) by (auto split: option.splits)
  obtain l where l: "location T f = Some l" "answers mem l ws v" using Call.prems(4) ws(2) unfolding provides_def by blast
  have args: "length ws = length as" "computes_values mem a (args_code T ns as) vs (ws @ vs)" for a
    using args_code_computes [OF _ ws(1) Call.prems(3)] Call.prems(1,5) by auto
  from values_append [OF args(2) values_call [OF l(2)]] show ?case
    using Call.prems(5) args(1) by (simp add: l(1) del: encode.simps)
next
  case (Unary x e)
  obtain w where w: "sem val funs e = Some w" "v = c_unary x w" using Unary.prems(2) by auto
  have "x = CHR ''!'' \<or> x = CHR ''~''" using Unary.prems(1) level_unary by simp
  note op = values_unary [OF unary_leaves [OF this]]
  from values_append [OF Unary.IH [OF _ w(1) Unary.prems(3)] op] show ?case using Unary.prems by (simp add: w(2) del: encode.simps)
next
  case (Binary x e1 e2)
  obtain a b where ab: "sem val funs e1 = Some a" "sem val funs e2 = Some b" "cc_binary x a b = Some v"
    using Binary.prems(2) by (auto split: option.splits)
  obtain bs where bs: "binary_code x = Some bs" "leaves mem bs (operands a b) v" using binary_leaves [OF ab(3)] by blast
  have e2: "computes_values mem addr (code T ns e2) vs (b # vs)" for addr
    using Binary.IH(2) [OF _ ab(2) Binary.prems(3)] Binary.prems by simp
  from Binary.IH(1) [OF _ ab(1) shows_temp [OF Binary.prems(3)]] Binary.prems
  have e1: "computes_values mem addr (code T (TEMP # ns) e1) (b # vs) (a # b # vs)" for addr by simp
  from values_append [OF e2 values_append [OF e1 values_binary [OF bs(2)]]] show ?case by (simp add: bs(1) del: encode.simps)
qed

end
