(* ===== verification/CcSource.thy ===== *)
theory CcSource
  imports CcValue
begin

text \<open>
  From the text of an expression in the source, with blanks between its tokens, to the code: the three
  passes of \<open>compile_expression\<close> that fuse operators of two characters, drop blanks and mark calls turn the
  source text into the text of the tree, from which \<open>eval_expr\<close> emits the code.
\<close>

section \<open>Source texts\<close>

text \<open>The tokens of a tree, and its text before calls are marked.\<close>

definition operator_token :: "char \<Rightarrow> string" where
  "operator_token x = (if x = TOK_SHL then ''<<'' else if x = TOK_SHR then ''>>'' else if x = TOK_LE then ''<=''
     else if x = TOK_GE then ''>='' else if x = TOK_EQ then ''=='' else if x = TOK_NE then ''!='' else if x = TOK_AND then ''&&''
     else if x = TOK_OR then ''||'' else [x])"

fun argument_tokens :: "atom list \<Rightarrow> string list" where
  "argument_tokens [] = []"
| "argument_tokens [a] = [atom_text a]"
| "argument_tokens (a # as) = atom_text a # '','' # argument_tokens as"

fun tokens :: "cexp \<Rightarrow> string list" where
  "tokens (Atom a) = [atom_text a]"
| "tokens (Call f as) = [f, ''(''] @ argument_tokens as @ ['')'']"
| "tokens (Unary x e) = [x] # tokens e"
| "tokens (Binary x e1 e2) = tokens e1 @ operator_token x # tokens e2"

fun plain_text :: "cexp \<Rightarrow> string" where
  "plain_text (Atom a) = atom_text a"
| "plain_text (Call f as) = f @ CHR ''('' # commas (map atom_text as) @ '')''"
| "plain_text (Unary x e) = x # plain_text e"
| "plain_text (Binary x e1 e2) = plain_text e1 @ x # plain_text e2"

text \<open>Tokens with any number of blanks after each of them.\<close>

fun spaced :: "string list \<Rightarrow> nat list \<Rightarrow> string" where
  "spaced (t # ts) (k # ks) = t @ replicate k (CHR '' '') @ spaced ts ks"
| "spaced ts ks = []"

definition source :: "cexp \<Rightarrow> string \<Rightarrow> bool" where
  "source e src \<longleftrightarrow> (\<exists>k ks. length ks = length (tokens e) \<and> src = replicate k (CHR '' '') @ spaced (tokens e) ks)"

text \<open>A product or a bitwise and is only told from a dereference or an address by an identifier or number
  before it.\<close>

fun starred :: "cexp \<Rightarrow> bool" where
  "starred (Atom a) \<longleftrightarrow> True"
| "starred (Call f as) \<longleftrightarrow> True"
| "starred (Unary x e) \<longleftrightarrow> starred e"
| "starred (Binary x e1 e2) \<longleftrightarrow> (x = CHR ''*'' \<or> x = CHR ''&'' \<longrightarrow> is_id (last (exp_text e1))) \<and> starred e1 \<and> starred e2"

section \<open>Fusing operators\<close>

fun fuse_text :: "string \<Rightarrow> string" where
  "fuse_text [] = []"
| "fuse_text [x] = [x]"
| "fuse_text (x # y # t) = (case two_chars x y of Some k \<Rightarrow> k # CHR '' '' # fuse_text t | None \<Rightarrow> x # fuse_text (y # t))"

lemma two_chars_blank: "two_chars (CHR '' '') y = None" "two_chars x NUL = None"
  by (simp_all add: two_chars_def)

lemma two_chars_not_nul: "two_chars x y = Some k \<Longrightarrow> k \<noteq> NUL"
  by (auto simp: two_chars_def TOK_defs split: if_splits)

lemma fix_operations_text:
  "NUL \<notin> set t \<Longrightarrow> fix_operations (pre @ t @ NUL # post) (length pre) = Inr (pre @ fuse_text t @ NUL # post)"
proof (induction t arbitrary: pre rule: fuse_text.induct)
  case 1
  then show ?case by (simp add: fix_operations.simps)
next
  case (2 x)
  then show ?case using two_chars_blank(2) [of x]
    by (simp add: fix_operations.simps fuse_at_def rd_def nth_append)
next
  case (3 x y t)
  have rd: "rd (pre @ (x # y # t) @ NUL # post) (length pre + 1) = Inr y" by (simp add: rd_def nth_append)
  have x: "x \<noteq> NUL" using "3.prems" by auto
  show ?case
  proof (cases "two_chars x y")
    case None
    have "fix_operations (pre @ (x # y # t) @ NUL # post) (length pre) =
        fix_operations ((pre @ [x]) @ (y # t) @ NUL # post) (length (pre @ [x]))"
      using x rd None by (subst fix_operations.simps) (simp add: fuse_at_def)
    with "3.IH"(1) [OF None, of "pre @ [x]"] "3.prems" None show ?thesis by simp
  next
    case (Some k)
    have step: "fix_operations (pre @ (x # y # t) @ NUL # post) (length pre) =
        fix_operations ((pre @ [k]) @ (CHR '' '' # t) @ NUL # post) (length (pre @ [k]))"
      using x rd Some by (subst fix_operations.simps) (simp add: fuse_at_def wr_def list_update_append)
    have "fix_operations ((pre @ [k]) @ (CHR '' '' # t) @ NUL # post) (length (pre @ [k])) =
        fix_operations ((pre @ [k, CHR '' '']) @ t @ NUL # post) (length (pre @ [k, CHR '' '']))"
      using two_chars_blank(1) by (subst fix_operations.simps, cases t) (auto simp: fuse_at_def rd_def nth_append)
    with step "3.IH"(2) [OF Some, of "pre @ [k, CHR '' '']"] "3.prems" Some show ?thesis by simp
  qed
qed

section \<open>Dropping blanks\<close>

lemma remove_spaces_text:
  assumes "NUL \<notin> set t"
  shows "\<exists>g. remove_spaces_c (pre @ t @ NUL # post) (length pre) None =
    Inr (pre @ filter (\<lambda>c. \<not> is_whitespace_c c) t @ NUL # g @ post) \<and>
    length g + length (filter (\<lambda>c. \<not> is_whitespace_c c) t) = length t"
proof -
  have "\<exists>g. spaces_loop (pre @ gap @ t @ NUL # post) (length pre) None (length pre + length gap) =
    Inr (pre @ filter (\<lambda>c. \<not> is_whitespace_c c) t @ NUL # g @ post) \<and>
    length g + length (filter (\<lambda>c. \<not> is_whitespace_c c) t) = length gap + length t" for gap
    using assms
  proof (induction t arbitrary: pre gap)
    case Nil
    have "rd (pre @ gap @ NUL # post) (length pre + length gap) = Inr NUL" by (simp add: rd_def nth_append)
    moreover have "\<exists>g. wr (pre @ gap @ NUL # post) (length pre) NUL = Inr (pre @ NUL # g @ post) \<and> length g = length gap"
    proof (cases gap)
      case Nil
      then show ?thesis by (intro exI [of _ "[]"]) (simp add: wr_def)
    next
      case (Cons d g)
      then show ?thesis by (intro exI [of _ "g @ [NUL]"]) (simp add: wr_def)
    qed
    ultimately show ?case by (subst spaces_loop.simps) simp
  next
    case (Cons c t)
    have rd: "rd (pre @ gap @ (c # t) @ NUL # post) (length pre + length gap) = Inr c" by (simp add: rd_def nth_append)
    have c: "c \<noteq> NUL" using Cons.prems by auto
    show ?case
    proof (cases "is_whitespace_c c")
      case True
      have "spaces_loop (pre @ gap @ (c # t) @ NUL # post) (length pre) None (length pre + length gap) =
          spaces_loop (pre @ (gap @ [c]) @ t @ NUL # post) (length pre) None (length pre + length (gap @ [c]))"
        using rd True c by (subst spaces_loop.simps) simp
      with Cons.IH [of pre "gap @ [c]"] Cons.prems True show ?thesis by simp
    next
      case False
      obtain gap' where gap: "length gap' = length gap" "wr (pre @ gap @ (c # t) @ NUL # post) (length pre) c = Inr (pre @ c # gap' @ t @ NUL # post)"
      proof (cases gap)
        case Nil
        then show ?thesis using that [of "[]"] by (simp add: wr_def)
      next
        case (Cons d g)
        then show ?thesis using that [of "g @ [c]"] by (simp add: wr_def)
      qed
      have "spaces_loop (pre @ gap @ (c # t) @ NUL # post) (length pre) None (length pre + length gap) =
          spaces_loop ((pre @ [c]) @ gap' @ t @ NUL # post) (length (pre @ [c])) None (length (pre @ [c]) + length gap')"
        using rd False c gap by (subst spaces_loop.simps) simp
      with Cons.IH [of "pre @ [c]" gap'] Cons.prems False gap(1) show ?thesis by simp
    qed
  qed
  from this [of "[]"] show ?thesis by (simp add: remove_spaces_c_def)
qed


section \<open>The text without blanks\<close>

text \<open>Fused and without blanks, a source text is the plain text of the tree.\<close>

definition squeeze :: "string \<Rightarrow> string" where
  "squeeze t = filter (\<lambda>c. \<not> is_whitespace_c c) (fuse_text t)"

text \<open>Characters that begin no operator of two characters, and characters that end none.\<close>

definition lone :: "char \<Rightarrow> bool" where
  "lone c \<longleftrightarrow> c \<notin> set ''<>=!&|''"

definition apart_from :: "char \<Rightarrow> bool" where
  "apart_from c \<longleftrightarrow> c \<notin> set ''<>=&|''"

lemma two_chars_cases: "two_chars x y = Some k \<Longrightarrow> x \<in> set ''<>=!&|'' \<and> y \<in> set ''<>=&|''"
  by (auto simp: two_chars_def split: if_splits)

lemma fuse_lone: "lone x \<Longrightarrow> fuse_text (x # t) = x # fuse_text t"
  using two_chars_cases [of x] by (cases t) (auto simp: lone_def split: option.split)

lemma fuse_before: "t = [] \<or> apart_from (hd t) \<Longrightarrow> fuse_text (x # t) = x # fuse_text t"
  using two_chars_cases [of x] by (cases t) (auto simp: apart_from_def split: option.split)

lemma squeeze_simps:
  "squeeze [] = []" "lone x \<Longrightarrow> squeeze (x # t) = (if is_whitespace_c x then squeeze t else x # squeeze t)"
  by (simp_all add: squeeze_def fuse_lone)

lemma squeeze_blanks: "squeeze (replicate k (CHR '' '') @ t) = squeeze t"
  by (induction k) (simp_all add: squeeze_simps lone_def is_whitespace_c_def)

lemma squeeze_lone: "\<forall>c\<in>set w. lone c \<and> \<not> is_whitespace_c c \<Longrightarrow> squeeze (w @ t) = w @ squeeze t"
  by (induction w) (simp_all add: squeeze_simps)

lemma operand_char_lone: "operand_char c \<Longrightarrow> lone c \<and> \<not> is_whitespace_c c \<and> apart_from c \<and> c \<noteq> NUL"
proof -
  assume c: "operand_char c"
  have "\<not> special c" by (rule operand_char_not_special [OF c])
  moreover have "c \<noteq> CHR '' ''" "c \<noteq> CHR 0x09" "c \<noteq> CHR 0x0A" "c \<noteq> NUL"
    using c by (auto simp: operand_char_def is_id_def schar_def uchar_def)
  ultimately show ?thesis by (auto simp: lone_def apart_from_def is_whitespace_c_def special_def)
qed

lemma squeeze_operator:
  assumes "level x \<le> 10" "t = [] \<or> apart_from (hd t)"
  shows "squeeze (operator_token x @ t) = x # squeeze t"
proof -
  have "list_all (\<lambda>x. case operator_token x of [c] \<Rightarrow> c = x \<and> \<not> is_whitespace_c c
      | [c, d] \<Rightarrow> two_chars c d = Some x \<and> \<not> is_whitespace_c x | _ \<Rightarrow> False) operators"
    by (simp add: operators_def operator_token_def two_chars_def TOK_defs is_whitespace_c_def)
  then have "case operator_token x of [c] \<Rightarrow> c = x \<and> \<not> is_whitespace_c c
      | [c, d] \<Rightarrow> two_chars c d = Some x \<and> \<not> is_whitespace_c x | _ \<Rightarrow> False"
    using level_operators [OF assms(1)] by (auto simp: list.pred_set)
  then show ?thesis
    using fuse_before [OF assms(2)] by (auto simp: squeeze_def is_whitespace_c_def split: list.splits)
qed

text \<open>The first character of a text is no second character of an operator.\<close>

lemma exp_tokens_first: "readable e \<Longrightarrow> \<exists>t ts. tokens e = t # ts \<and> t \<noteq> [] \<and> apart_from (hd t)"
proof (induction e)
  case (Atom a)
  then have "atom_text a \<noteq> []" "\<forall>c\<in>set (atom_text a). operand_char c" using atom_text_some atom_chars by auto
  then show ?case using operand_char_lone by simp
next
  case (Call f as)
  then have "f \<noteq> []" "operand_char (hd f)" by (auto simp: name_ok_def operand_char_def)
  then show ?case using operand_char_lone by simp
next
  case (Unary x e)
  then have "x = CHR ''!'' \<or> x = CHR ''~''" using level_unary by simp
  then show ?case by (auto simp: apart_from_def)
next
  case (Binary x e1 e2)
  then show ?case by auto
qed


lemma spaced_append: "length ks = length ts \<Longrightarrow> spaced (ts @ us) (ks @ ls) = spaced ts ks @ spaced us ls"
  by (induction ts ks rule: list_induct2') auto

lemma squeeze_token: "\<forall>c\<in>set w. lone c \<and> \<not> is_whitespace_c c \<Longrightarrow> squeeze (w @ replicate k (CHR '' '') @ t) = w @ squeeze t"
  by (simp add: squeeze_lone squeeze_blanks)

lemma atom_lone: "atom_ok a \<Longrightarrow> \<forall>c\<in>set (atom_text a). lone c \<and> \<not> is_whitespace_c c"
  using atom_chars operand_char_lone by blast

lemma squeeze_arguments:
  "list_all atom_ok as \<Longrightarrow> length ks = length (argument_tokens as) \<Longrightarrow>
     squeeze (spaced (argument_tokens as) ks @ rest) = commas (map atom_text as) @ squeeze rest"
proof (induction as arbitrary: ks rule: argument_tokens.induct)
  case (2 a)
  then show ?case by (cases ks) (auto simp: squeeze_token atom_lone)
next
  case (3 a b as)
  then obtain k l ls where ks: "ks = k # l # ls" by (cases ks; cases "tl ks") auto
  have "squeeze ('','' @ replicate l (CHR '' '') @ t) = '','' @ squeeze t" for t
    by (rule squeeze_token) (simp add: lone_def is_whitespace_c_def)
  with 3 show ?case by (simp add: ks squeeze_token [OF atom_lone] del: append_Cons)
qed simp

lemma first_apart:
  "readable e \<Longrightarrow> length ks = length (tokens e) \<Longrightarrow> apart_from (hd (replicate k (CHR '' '') @ spaced (tokens e) ks @ rest))"
proof (cases k)
  case 0
  assume e: "readable e" "length ks = length (tokens e)"
  obtain t ts where t: "tokens e = t # ts" "t \<noteq> []" "apart_from (hd t)" using exp_tokens_first [OF e(1)] by blast
  with e(2) 0 show ?thesis by (cases ks) auto
qed (simp add: apart_from_def)

lemma squeeze_tokens:
  "readable e \<Longrightarrow> length ks = length (tokens e) \<Longrightarrow> squeeze (spaced (tokens e) ks @ rest) = plain_text e @ squeeze rest"
proof (induction e arbitrary: ks rest)
  case (Atom a)
  then show ?case by (cases ks) (auto simp: squeeze_token atom_lone)
next
  case (Call f as)
  then obtain k l ls m where ks: "ks = k # l # ls @ [m]" "length ls = length (argument_tokens as)"
    by (cases ks; cases "tl ks"; cases "tl (tl ks)" rule: rev_cases) auto
  have f: "\<forall>c\<in>set f. lone c \<and> \<not> is_whitespace_c c"
    using Call.prems(1) operand_char_lone by (auto simp: name_ok_def operand_char_def)
  have p: "\<forall>c\<in>set ''(''. lone c \<and> \<not> is_whitespace_c c" "\<forall>c\<in>set '')''. lone c \<and> \<not> is_whitespace_c c"
    by (simp_all add: lone_def is_whitespace_c_def)
  have as: "list_all atom_ok as" using Call.prems(1) by simp
  show ?case
    using squeeze_token [OF f] squeeze_token [OF p(1)] squeeze_token [OF p(2)] squeeze_arguments [OF as ks(2)]
    by (simp add: ks(1) spaced_append [OF ks(2)])
next
  case (Unary x e)
  then obtain k ls where ks: "ks = k # ls" "length ls = length (tokens e)" by (cases ks) auto
  have x: "level x = 10" using Unary.prems(1) by simp
  then have "operator_token x = [x]" using level_unary [OF x] by (auto simp: operator_token_def TOK_defs)
  with squeeze_operator [of x "replicate k (CHR '' '') @ spaced (tokens e) ls @ rest"] x Unary.prems(1) first_apart [OF _ ks(2), of k rest]
    Unary.IH [OF _ ks(2)]
  show ?case by (simp add: ks(1) squeeze_blanks)
next
  case (Binary x e1 e2)
  let ?n = "length (tokens e1)"
  obtain ms k ls where ks: "ks = ms @ k # ls" "length ms = ?n" "length ls = length (tokens e2)"
  proof -
    have "ks = take ?n ks @ ks ! ?n # drop (Suc ?n) ks" "?n < length ks" using Binary.prems(2) by (simp_all add: id_take_nth_drop)
    with that [of "take ?n ks" "ks ! ?n" "drop (Suc ?n) ks"] Binary.prems(2) show ?thesis by simp
  qed
  have x: "level x \<le> 10" "readable e1" "readable e2" using Binary.prems(1) by simp_all
  have "squeeze (operator_token x @ replicate k (CHR '' '') @ spaced (tokens e2) ls @ rest) = x # plain_text e2 @ squeeze rest"
    using squeeze_operator [OF x(1), of "replicate k (CHR '' '') @ spaced (tokens e2) ls @ rest"] first_apart [OF x(3) ks(3), of k rest]
      Binary.IH(2) [OF x(3) ks(3)] by (simp add: squeeze_blanks)
  with Binary.IH(1) [OF x(2) ks(2)] show ?case by (simp add: ks(1) spaced_append ks(2))
qed

lemma squeeze_source: "readable e \<Longrightarrow> source e src \<Longrightarrow> squeeze src = plain_text e"
  using squeeze_tokens [of e _ "[]"] by (auto simp: source_def squeeze_blanks squeeze_simps)


section \<open>Marking calls\<close>

lemma string_end_text: "NUL \<notin> set t \<Longrightarrow> string_end_at (pre @ t @ NUL # post) (length pre) = Inr (length pre + length t)"
proof (induction t arbitrary: pre)
  case Nil
  then show ?case by (simp add: string_end_at.simps)
next
  case (Cons c t)
  have "string_end_at (pre @ (c # t) @ NUL # post) (length pre) = string_end_at ((pre @ [c]) @ t @ NUL # post) (length (pre @ [c]))"
    using Cons.prems by (subst string_end_at.simps) auto
  with Cons.IH [of "pre @ [c]"] Cons.prems show ?case by simp
qed

lemma fix2_step:
  assumes "c \<noteq> NUL" "\<not> prev \<longrightarrow> c \<noteq> CHR ''*'' \<and> c \<noteq> CHR ''&''" "prev \<longrightarrow> c \<noteq> CHR ''(''"
  shows "fix_operations2 (pre @ c # rest) (length pre) prev =
    fix_operations2 (pre @ c # rest) (length pre + 1) (is_id c \<or> c = CHR '')'')"
  using assms by (subst fix_operations2.simps) (auto simp: fix_char_def)

lemma operand_char_kept: "operand_char c \<Longrightarrow> c \<noteq> NUL \<and> c \<notin> set ''*&()''"
  using operand_char_lone [of c] operand_char_not_special [of c] by (auto simp: special_def)

lemma fix2_operand:
  "\<forall>c\<in>set w. operand_char c \<Longrightarrow> w \<noteq> [] \<Longrightarrow>
     fix_operations2 (pre @ w @ rest) (length pre) prev = fix_operations2 (pre @ w @ rest) (length pre + length w) (is_id (last w))"
proof (induction w arbitrary: pre prev)
  case (Cons c w)
  have c: "c \<noteq> NUL" "c \<notin> set ''*&()''" using operand_char_kept [of c] Cons.prems(1) by auto
  have "fix_operations2 (pre @ (c # w) @ rest) (length pre) prev =
      fix_operations2 (pre @ c # w @ rest) (length pre + 1) (is_id c \<or> c = CHR '')'')"
    using fix2_step [of c prev pre "w @ rest"] c by simp
  also have "\<dots> = fix_operations2 ((pre @ [c]) @ w @ rest) (length (pre @ [c])) (is_id c)" using c(2) by simp
  also have "\<dots> = fix_operations2 (pre @ (c # w) @ rest) (length pre + length (c # w)) (is_id (last (c # w)))"
    using Cons.IH [of "pre @ [c]" "is_id c"] Cons.prems(1) by (cases "w = []") simp_all
  finally show ?case .
qed simp

lemma fix2_call:
  assumes u: "\<forall>c\<in>set u. operand_char c" and r: "NUL \<notin> set r"
  shows "fix_operations2 (pre @ CHR ''('' # u @ CHR '')'' # r @ NUL # post) (length pre) True =
    fix_operations2 (pre @ TOK_CALL_OPEN # u @ TOK_CALL_CLOSED # r @ NUL # post) (length pre + length u + 2) False"
proof -
  let ?m = "pre @ CHR ''('' # u @ CHR '')'' # r @ NUL # post" and ?m' = "pre @ TOK_CALL_OPEN # u @ TOK_CALL_CLOSED # r @ NUL # post"
  let ?fin = "length pre + length u + 2 + length r"
  have nul: "NUL \<notin> set (CHR ''('' # u @ CHR '')'' # r)" using u r operand_char_kept by auto
  have fin: "string_end_at ?m (length pre) = Inr ?fin" using string_end_text [OF nul, of pre post] by simp
  have "\<forall>c\<in>set u. c \<noteq> CHR ''('' \<and> c \<noteq> CHR '')''" using u operand_char_kept by auto
  from matching_skip [OF this, of 1 "pre @ ''(''" ?fin "CHR '')'' # r @ NUL # post"]
  have "matching_loop (CHR ''('') (CHR '')'') ?m (length pre + 1) ?fin 1 =
      matching_loop (CHR ''('') (CHR '')'') ?m (length pre + 1 + length u) ?fin 1" by simp
  also have "\<dots> = Inr (Some (length pre + 1 + length u))" by (subst matching_loop.simps) (simp add: rd_def nth_append)
  finally have match: "find_matching (CHR ''('') (CHR '')'') ?m (length pre) ?fin = Inr (Some (length pre + 1 + length u))"
    unfolding find_matching_def by (subst matching_loop.simps) simp
  have "wr (pre @ TOK_CALL_OPEN # u @ CHR '')'' # r @ NUL # post) (length pre + 1 + length u) TOK_CALL_CLOSED = Inr ?m'"
    by (simp add: wr_def list_update_append)
  then have "fix_char ?m (length pre) True (CHR ''('') = Inr ?m'"
    by (simp add: fix_char_def fin [simplified] match [simplified])
  moreover have "\<not> is_id TOK_CALL_OPEN" "TOK_CALL_OPEN \<noteq> CHR '')''" "TOK_CALL_CLOSED \<noteq> NUL"
    by (simp_all add: TOK_defs is_id_def schar_def uchar_def)
  ultimately have "fix_operations2 ?m (length pre) True = fix_operations2 ?m' (length pre + 1) False"
    by (subst fix_operations2.simps) (simp add: rd_def nth_append)
  also have "\<dots> = fix_operations2 ?m' (length pre + 1 + length u) (if u = [] then False else is_id (last u))"
    using fix2_operand [OF u, of "pre @ [TOK_CALL_OPEN]" "TOK_CALL_CLOSED # r @ NUL # post" False] by simp
  also have "\<dots> = fix_operations2 ?m' (length pre + length u + 2) False"
  proof -
    have "TOK_CALL_CLOSED \<notin> set ''*&()''" "\<not> is_id TOK_CALL_CLOSED" "TOK_CALL_CLOSED \<noteq> NUL"
      by (simp_all add: TOK_defs is_id_def schar_def uchar_def)
    then show ?thesis using fix2_step [of TOK_CALL_CLOSED _ "pre @ TOK_CALL_OPEN # u" "r @ NUL # post"] by simp
  qed
  finally show ?thesis .
qed

lemma operators_kept:
  assumes "level x \<le> 10"
  shows "x \<noteq> NUL" "x \<noteq> CHR ''(''" "x \<noteq> CHR '')''"
proof -
  have "list_all (\<lambda>x. x \<noteq> NUL \<and> x \<noteq> CHR ''('' \<and> x \<noteq> CHR '')'') operators" by (simp add: operators_def TOK_defs)
  then show "x \<noteq> NUL" "x \<noteq> CHR ''(''" "x \<noteq> CHR '')''"
    using level_operators [OF assms] by (auto simp: list.pred_set)
qed

lemma texts_no_nul: "readable e \<Longrightarrow> NUL \<notin> set (plain_text e) \<and> NUL \<notin> set (exp_text e)"
proof (induction e)
  case (Atom a)
  then show ?case using atom_chars operand_char_kept by fastforce
next
  case (Call f as)
  have "NUL \<notin> set f" using Call by (auto simp: name_ok_def dest: is_id_uchar) (auto simp: is_id_def schar_def uchar_def)
  moreover have "NUL \<notin> set (commas (map atom_text as))"
    using commas_chars [of NUL "map atom_text as"] atom_chars [of _ NUL] operand_char_kept [of NUL] Call by (auto simp: list.pred_set)
  ultimately show ?case by (auto simp: TOK_defs)
next
  case (Unary x e)
  then show ?case using operators_kept [of x] by auto
next
  case (Binary x e1 e2)
  then show ?case using operators_kept [of x] by auto
qed

lemma fix2_exp:
  "readable e \<Longrightarrow> starred e \<Longrightarrow> NUL \<notin> set r \<Longrightarrow>
     fix_operations2 (pre @ plain_text e @ r @ NUL # post) (length pre) prev =
     fix_operations2 (pre @ exp_text e @ r @ NUL # post) (length pre + length (exp_text e)) (is_id (last (exp_text e)))"
proof (induction e arbitrary: pre r prev)
  case (Atom a)
  then show ?case using fix2_operand [of "atom_text a" pre "r @ NUL # post" prev] atom_chars atom_text_some by auto
next
  case (Call f as)
  let ?w = "commas (map atom_text as)"
  have f: "\<forall>c\<in>set f. operand_char c" "f \<noteq> []" "is_id (last f)"
    using Call.prems(1) by (auto simp: name_ok_def operand_char_def)
  have w: "\<forall>c\<in>set ?w. operand_char c"
    using commas_chars [of _ "map atom_text as"] atom_chars Call.prems(1) by (fastforce simp: list.pred_set operand_char_def)
  have "\<not> is_id TOK_CALL_CLOSED" by (simp add: TOK_defs is_id_def schar_def uchar_def)
  then show ?case
    using fix2_operand [OF f(1,2), of pre "CHR ''('' # ?w @ CHR '')'' # r @ NUL # post" prev]
      fix2_call [OF w Call.prems(3), of "pre @ f" post] f(3) by (simp add: eval_nat_numeral add.assoc)
next
  case (Unary x e)
  have x: "x = CHR ''!'' \<or> x = CHR ''~''" using Unary.prems(1) level_unary by simp
  then have "fix_operations2 (pre @ plain_text (Unary x e) @ r @ NUL # post) (length pre) prev =
      fix_operations2 ((pre @ [x]) @ plain_text e @ r @ NUL # post) (length (pre @ [x])) (is_id x \<or> x = CHR '')'')"
    using fix2_step [of x prev pre "plain_text e @ r @ NUL # post"] by auto
  with Unary.IH [of r "pre @ [x]"] Unary.prems exp_text_some [of e] show ?case by simp
next
  case (Binary x e1 e2)
  have x: "level x \<le> 10" and e: "readable e1" "readable e2" "starred e1" "starred e2" using Binary.prems by simp_all
  let ?p = "exp_text e1"
  have nul: "NUL \<notin> set (x # plain_text e2 @ r)"
    using operators_kept [OF x] texts_no_nul [OF e(2)] Binary.prems(3) by auto
  have "fix_operations2 (pre @ plain_text (Binary x e1 e2) @ r @ NUL # post) (length pre) prev =
      fix_operations2 (pre @ ?p @ x # plain_text e2 @ r @ NUL # post) (length pre + length ?p) (is_id (last ?p))"
    using Binary.IH(1) [OF e(1,3) nul, of pre prev] by simp
  also have "\<dots> = fix_operations2 (pre @ ?p @ x # plain_text e2 @ r @ NUL # post) (length pre + length ?p + 1) (is_id x \<or> x = CHR '')'')"
  proof -
    have "\<not> is_id (last ?p) \<longrightarrow> x \<noteq> CHR ''*'' \<and> x \<noteq> CHR ''&''" using Binary.prems(2) by auto
    from fix2_step [OF operators_kept(1) [OF x] this, of "pre @ ?p" "plain_text e2 @ r @ NUL # post"] operators_kept(2) [OF x]
    show ?thesis unfolding append_assoc length_append by blast
  qed
  also have "\<dots> = fix_operations2 (pre @ exp_text (Binary x e1 e2) @ r @ NUL # post) (length pre + length (exp_text (Binary x e1 e2)))
      (is_id (last (exp_text e2)))"
    using Binary.IH(2) [OF e(2,4) Binary.prems(3), of "pre @ ?p @ [x]"] by (simp add: add.assoc)
  finally show ?case using exp_text_some [OF e(2)] by simp
qed

section \<open>Compiling an expression\<close>

lemma source_no_nul: "readable e \<Longrightarrow> source e src \<Longrightarrow> NUL \<notin> set src"
proof -
  assume e: "readable e" "source e src"
  have ops: "list_all (\<lambda>x. NUL \<notin> set (operator_token x)) operators" by (simp add: operators_def operator_token_def TOK_defs)
  have args: "list_all atom_ok as \<Longrightarrow> t \<in> set (argument_tokens as) \<Longrightarrow> NUL \<notin> set t" for as t
    by (induction as rule: argument_tokens.induct) (auto dest: atom_chars operand_char_kept)
  have toks: "readable e \<Longrightarrow> t \<in> set (tokens e) \<Longrightarrow> NUL \<notin> set t" for e t
  proof (induction e)
    case (Atom a)
    then show ?case by (auto dest: atom_chars operand_char_kept)
  next
    case (Call f as)
    then show ?case using args [of as t] texts_no_nul [of "Call f as"] by auto
  next
    case (Unary x e)
    then show ?case using operators_kept(1) [of x] by auto
  next
    case (Binary x e1 e2)
    then have "NUL \<notin> set (operator_token x)" using ops level_operators [of x] by (auto simp: list.pred_set)
    with Binary show ?case by auto
  qed
  have "\<forall>t\<in>set ts. NUL \<notin> set t \<Longrightarrow> NUL \<notin> set (spaced ts ks)" for ts ks
    by (induction ts ks rule: spaced.induct) auto
  then show ?thesis using e toks by (auto simp: source_def)
qed

lemma length_fuse_text: "length (fuse_text t) = length t"
  by (induction t rule: fuse_text.induct) (auto split: option.splits)

lemma fuse_no_nul: "NUL \<notin> set t \<Longrightarrow> NUL \<notin> set (fuse_text t)"
  by (induction t rule: fuse_text.induct) (auto dest: two_chars_not_nul split: option.splits)

lemma vars_are_text: "vars_are (s\<lparr>c_text := m\<rparr>) ns = vars_are s ns"
  by (simp add: vars_are_def names_c_def)

lemma in_pass_text: "in_pass T (s\<lparr>c_text := m\<rparr>) = in_pass T s"
  by (cases T) (simp_all add: in_pass_def)

text \<open>The three passes and the evaluation.\<close>

lemma compile_expression_run:
  assumes e: "readable e" "starred e" "source e src" and buf: "c_text s = pre @ src @ NUL # post"
    and T: "in_pass T s" "vars_are s ns" "known T ns e" "length ns + need e \<le> 1024"
  shows "\<exists>t w. compile_expression (length pre) s = Inr ((), t) \<and> c_text t = pre @ w @ post \<and> length w = length src + 1 \<and>
    moved (s\<lparr>c_text := c_text t\<rparr>) t (code T ns e) (TEMP # ns)"
proof -
  note nul = source_no_nul [OF e(1,3)]
  have fuse: "fix_operations (c_text s) (length pre) = Inr (pre @ fuse_text src @ NUL # post)"
    unfolding buf by (rule fix_operations_text [OF nul])
  obtain g where spaces: "remove_spaces_c (pre @ fuse_text src @ NUL # post) (length pre) None = Inr (pre @ plain_text e @ NUL # g @ post)"
    and g: "length g + length (plain_text e) = length src"
    using remove_spaces_text [OF fuse_no_nul [OF nul], of pre post] squeeze_source [OF e(1,3)] by (auto simp: squeeze_def length_fuse_text)
  let ?w = "exp_text e @ NUL # g"
  let ?m = "pre @ exp_text e @ NUL # g @ post"
  have "fix_operations2 ?m (length pre + length (exp_text e)) b = Inr ?m" for b
    by (subst fix_operations2.simps) (simp add: rd_def nth_append)
  then have calls: "fix_operations2 (pre @ plain_text e @ NUL # g @ post) (length pre) False = Inr ?m"
    using fix2_exp [OF e(1,2), of "[]" pre "g @ post" False] by simp
  have fin: "string_end_at ?m (length pre) = Inr (length pre + length (exp_text e))"
    using texts_no_nul [OF e(1)] by (intro string_end_text) simp
  have "in_pass T (s\<lparr>c_text := ?m\<rparr>)" "vars_are (s\<lparr>c_text := ?m\<rparr>) ns"
    using T(1,2) by (simp_all add: in_pass_text vars_are_text)
  moreover have "does T (eval_expr (length ?m + 1) ?m (length pre) (length pre + length (exp_text e)) False) () ns (code T ns e) (TEMP # ns)"
    by (rule eval_does [OF e(1) T(3,4)]) simp
  ultimately obtain t where t: "eval_expr (length ?m + 1) ?m (length pre) (length pre + length (exp_text e)) False (s\<lparr>c_text := ?m\<rparr>) = Inr ((), t)"
    "moved (s\<lparr>c_text := ?m\<rparr>) t (code T ns e) (TEMP # ns)"
    unfolding does_def by blast
  have m: "c_text t = ?m" using t(2) by (auto simp: moved_def emit_all_def)
  have "length (plain_text e) = length (exp_text e)" by (induction e) simp_all
  with g m have "c_text t = pre @ ?w @ post" "length ?w = length src + 1" by simp_all
  moreover have "compile_expression (length pre) s = Inr ((), t)"
    using fuse spaces calls fin t(1)
    by (simp add: compile_expression_def edit_def bindM_step thenM_step del: eval_expr.simps)
  ultimately show ?thesis using t(2) m by (intro exI [of _ t] exI [of _ ?w]) simp
qed




end
