(* ===== verification/CcLang.thy ===== *)
theory CcLang
  imports CcSource
begin

text \<open>
  The programs of the C compiler as trees: top-level variables and functions, whose bodies have
  declarations, assignments, expressions, returns and conditionals. What they mean in the compiler's language (\<open>sem\<close> of theory \<open>CcValue\<close>; a program has no loops, but functions may be recursive, so a call has a
  number of steps), and the code of the reference compiler for them, with the labels it places.
\<close>

section \<open>Trees\<close>

datatype simple = Return cexp | Declare string | Assign string cexp | Discard cexp

text \<open>A body is a sequence of statements; a conditional has a first branch, and others after it.\<close>

datatype body = Done | Step simple body | Cond cexp body branches body
  and branches = NoElse | Else body | Elseif cexp body branches

datatype unit_tree = Global string | Function string "string list" body

section \<open>Meaning\<close>

text \<open>The return address has a place of its own among the variables of a function.\<close>

definition RET :: string where "RET = ''__ret''"

definition plain_name :: "string \<Rightarrow> bool" where
  "plain_name x \<longleftrightarrow> name_ok x \<and> x \<noteq> RET \<and> length x < MAX_ID_LEN"

text \<open>The local variables, the last one first; one that is declared only has no value.\<close>

type_synonym locals = "(string \<times> i32 option) list"

definition valuation_of :: "valuation \<Rightarrow> locals \<Rightarrow> valuation" where
  "valuation_of globals env x = (case map_of env x of Some u \<Rightarrow> u | None \<Rightarrow> globals x)"

fun set_local :: "string \<Rightarrow> i32 \<Rightarrow> locals \<Rightarrow> locals" where
  "set_local x v [] = []"
| "set_local x v ((y, u) # env) = (if x = y then (y, Some v) # env else (y, u) # set_local x v env)"

datatype outcome = Falls locals | Returns i32

text \<open>Only local variables are assigned to.\<close>

fun run_simple :: "valuation \<Rightarrow> meanings \<Rightarrow> simple \<Rightarrow> locals \<Rightarrow> outcome option" where
  "run_simple globals funs (Return e) env = map_option Returns (sem (valuation_of globals env) funs e)"
| "run_simple globals funs (Declare x) env = Some (Falls ((x, None) # env))"
| "run_simple globals funs (Assign x e) env = (case sem (valuation_of globals env) funs e of
     None \<Rightarrow> None
   | Some v \<Rightarrow> if x \<in> fst ` set env then Some (Falls (set_local x v env)) else None)"
| "run_simple globals funs (Discard e) env = map_option (\<lambda>_. Falls env) (sem (valuation_of globals env) funs e)"

text \<open>A block drops the variables it has declared.\<close>

definition leave_block :: "locals \<Rightarrow> outcome option \<Rightarrow> outcome option" where
  "leave_block env out = (case out of Some (Falls env') \<Rightarrow> Some (Falls (drop (length env' - length env) env')) | _ \<Rightarrow> out)"

definition and_then :: "outcome option \<Rightarrow> (locals \<Rightarrow> outcome option) \<Rightarrow> outcome option" where
  "and_then out f = (case out of Some (Falls env) \<Rightarrow> f env | _ \<Rightarrow> out)"

primrec run_body :: "valuation \<Rightarrow> meanings \<Rightarrow> body \<Rightarrow> locals \<Rightarrow> outcome option"
  and run_branches :: "valuation \<Rightarrow> meanings \<Rightarrow> branches \<Rightarrow> locals \<Rightarrow> outcome option" where
  "run_body globals funs Done env = Some (Falls env)"
| "run_body globals funs (Step s b) env = and_then (run_simple globals funs s env) (run_body globals funs b)"
| "run_body globals funs (Cond e b br rest) env = and_then (case sem (valuation_of globals env) funs e of
     None \<Rightarrow> None
   | Some v \<Rightarrow> if v \<noteq> 0 then leave_block env (run_body globals funs b env) else run_branches globals funs br env)
     (run_body globals funs rest)"
| "run_branches globals funs NoElse env = Some (Falls env)"
| "run_branches globals funs (Else b) env = leave_block env (run_body globals funs b env)"
| "run_branches globals funs (Elseif e b br) env = (case sem (valuation_of globals env) funs e of
     None \<Rightarrow> None
   | Some v \<Rightarrow> if v \<noteq> 0 then leave_block env (run_body globals funs b env) else run_branches globals funs br env)"

text \<open>A function begins with its parameters; falling off its end leaves its result undefined.\<close>

definition frame :: "string list \<Rightarrow> i32 list \<Rightarrow> locals" where
  "frame params vs = (RET, None) # zip params (map Some vs)"

fun function_of :: "unit_tree list \<Rightarrow> string \<Rightarrow> (string list \<times> body) option" where
  "function_of [] f = None"
| "function_of (Global x # us) f = function_of us f"
| "function_of (Function g params b # us) f = (if f = g then Some (params, b) else function_of us f)"

definition globals_of :: "unit_tree list \<Rightarrow> valuation" where
  "globals_of us x = (if Global x \<in> set us then Some 0 else None)"

primrec call :: "unit_tree list \<Rightarrow> nat \<Rightarrow> meanings" where
  "call us 0 f vs = None"
| "call us (Suc n) f vs = (case function_of us f of
     None \<Rightarrow> None
   | Some (params, b) \<Rightarrow>
       if length vs = length params then
         (case run_body (globals_of us) (call us n) b (frame params vs) of Some (Returns v) \<Rightarrow> Some v | _ \<Rightarrow> None)
       else None)"

section \<open>The reference compiler\<close>

text \<open>\<open>fd\<close> is the number of names below the variables of the function, its return address included; \<open>lab\<close> the
  next label, \<open>l\<close> the address of the code.\<close>

definition address_code :: "table \<Rightarrow> string list \<Rightarrow> string \<Rightarrow> byte list" where
  "address_code T ns x = (case position x ns of
     Some p \<Rightarrow> encode MovEaxEsp @ encode (AddEaxImm (4 * of_nat p)) @ encode PushEax
   | None \<Rightarrow> encode (PushImm (the (location T x))))"

fun simple_code :: "table \<Rightarrow> nat \<Rightarrow> string list \<Rightarrow> simple \<Rightarrow> byte list" where
  "simple_code T fd ns (Return e) =
     code T ns e @ encode PopEax @ encode (AddEsp (4 * of_nat (length ns - fd))) @ encode Ret"
| "simple_code T fd ns (Declare x) = encode (SubEsp8 4)"
| "simple_code T fd ns (Assign x e) = code T ns e @ address_code T (TEMP # ns) x @ encode PopEax @ encode PopEcx @
     encode StoreEcx @ encode PushEcx @ encode (AddEsp8 4)"
| "simple_code T fd ns (Discard e) = code T ns e @ encode (AddEsp8 4)"

fun simple_names :: "string list \<Rightarrow> simple \<Rightarrow> string list" where
  "simple_names ns (Declare x) = x # ns"
| "simple_names ns s = ns"

primrec body_names :: "string list \<Rightarrow> body \<Rightarrow> string list" where
  "body_names ns Done = ns"
| "body_names ns (Step s b) = body_names (simple_names ns s) b"
| "body_names ns (Cond e b br rest) = body_names ns rest"

text \<open>The number of labels.\<close>

primrec body_labels :: "body \<Rightarrow> nat" and branches_labels :: "branches \<Rightarrow> nat" where
  "body_labels Done = 0"
| "body_labels (Step s b) = body_labels b"
| "body_labels (Cond e b br rest) = 2 + body_labels b + branches_labels br + body_labels rest"
| "branches_labels NoElse = 0"
| "branches_labels (Else b) = body_labels b"
| "branches_labels (Elseif e b br) = 1 + body_labels b + branches_labels br"

text \<open>The number of bytes does not depend on the table or the labels.\<close>

definition simple_size :: "string list \<Rightarrow> simple \<Rightarrow> nat" where
  "simple_size ns s = length (simple_code None 0 ns s)"

definition test_size :: "string list \<Rightarrow> cexp \<Rightarrow> nat" where
  "test_size ns e = length (code None ns e) + 10"

primrec body_size :: "string list \<Rightarrow> body \<Rightarrow> nat" and branches_size :: "string list \<Rightarrow> branches \<Rightarrow> nat" where
  "body_size ns Done = 0"
| "body_size ns (Step s b) = simple_size ns s + body_size (simple_names ns s) b"
| "body_size ns (Cond e b br rest) = test_size ns e + (body_size ns b + 6) + 5 + branches_size ns br + body_size ns rest"
| "branches_size ns NoElse = 0"
| "branches_size ns (Else b) = (body_size ns b + 6) + 5"
| "branches_size ns (Elseif e b br) = test_size ns e + (body_size ns b + 6) + 5 + branches_size ns br"

definition label_of :: "table \<Rightarrow> nat \<Rightarrow> i32" where
  "label_of T lab = the (location T (gen_lab lab))"

text \<open>A test at \<open>l\<close>, with a jump to its label if it fails; a jump at \<open>l\<close>; the end of a block.\<close>

definition test_code :: "table \<Rightarrow> string list \<Rightarrow> nat \<Rightarrow> i32 \<Rightarrow> cexp \<Rightarrow> byte list" where
  "test_code T ns lab l e = code T ns e @ encode PopEax @ encode (CmpEax 0) @
     encode (JeNear (label_of T lab - (l + of_nat (test_size ns e))))"

definition jump_code :: "table \<Rightarrow> nat \<Rightarrow> i32 \<Rightarrow> byte list" where
  "jump_code T lab l = encode (JmpNear (label_of T lab - (l + 5)))"

definition close_code :: "string list \<Rightarrow> body \<Rightarrow> byte list" where
  "close_code ns b = encode (AddEsp (4 * of_nat (length (body_names ns b) - length ns)))"

primrec body_code :: "table \<Rightarrow> nat \<Rightarrow> string list \<Rightarrow> nat \<Rightarrow> i32 \<Rightarrow> body \<Rightarrow> byte list"
  and branches_code :: "table \<Rightarrow> nat \<Rightarrow> string list \<Rightarrow> nat \<Rightarrow> nat \<Rightarrow> i32 \<Rightarrow> branches \<Rightarrow> byte list" where
  "body_code T fd ns lab l Done = []"
| "body_code T fd ns lab l (Step s b) =
     simple_code T fd ns s @ body_code T fd (simple_names ns s) lab (l + of_nat (simple_size ns s)) b"
| "body_code T fd ns lab l (Cond e b br rest) =
     (let l1 = l + of_nat (test_size ns e); l2 = l1 + of_nat (body_size ns b + 6);
          lab1 = lab + 2 + body_labels b in
      test_code T ns lab l e @ body_code T fd ns (lab + 2) l1 b @ close_code ns b @ jump_code T (lab + 1) l2 @
      branches_code T fd ns (lab + 1) lab1 (l2 + 5) br @
      body_code T fd ns (lab1 + branches_labels br) (l2 + 5 + of_nat (branches_size ns br)) rest)"
| "branches_code T fd ns fi lab l NoElse = []"
| "branches_code T fd ns fi lab l (Else b) =
     body_code T fd ns lab l b @ close_code ns b @ jump_code T fi (l + of_nat (body_size ns b + 6))"
| "branches_code T fd ns fi lab l (Elseif e b br) =
     (let l1 = l + of_nat (test_size ns e); l2 = l1 + of_nat (body_size ns b + 6);
          lab1 = lab + 1 + body_labels b in
      test_code T ns lab l e @ body_code T fd ns (lab + 1) l1 b @ close_code ns b @ jump_code T fi l2 @
      branches_code T fd ns fi lab1 (l2 + 5) br)"

text \<open>The labels in the order they are placed, with their addresses; \<open>els\<close> is the label of the branch that comes next.\<close>

type_synonym symbols = "(string \<times> i32) list"

primrec body_symbols :: "string list \<Rightarrow> nat \<Rightarrow> i32 \<Rightarrow> body \<Rightarrow> symbols"
  and branches_symbols :: "string list \<Rightarrow> nat \<Rightarrow> nat \<Rightarrow> nat \<Rightarrow> i32 \<Rightarrow> branches \<Rightarrow> symbols" where
  "body_symbols ns lab l Done = []"
| "body_symbols ns lab l (Step s b) = body_symbols (simple_names ns s) lab (l + of_nat (simple_size ns s)) b"
| "body_symbols ns lab l (Cond e b br rest) =
     (let l1 = l + of_nat (test_size ns e); l2 = l1 + of_nat (body_size ns b + 6);
          lab1 = lab + 2 + body_labels b in
      body_symbols ns (lab + 2) l1 b @ branches_symbols ns lab (lab + 1) lab1 (l2 + 5) br @
      body_symbols ns (lab1 + branches_labels br) (l2 + 5 + of_nat (branches_size ns br)) rest)"
| "branches_symbols ns els fi lab l NoElse = [(gen_lab els, l), (gen_lab fi, l)]"
| "branches_symbols ns els fi lab l (Else b) =
     (gen_lab els, l) # body_symbols ns lab l b @ [(gen_lab fi, l + of_nat (body_size ns b + 6) + 5)]"
| "branches_symbols ns els fi lab l (Elseif e b br) =
     (let l1 = l + of_nat (test_size ns e); l2 = l1 + of_nat (body_size ns b + 6);
          lab1 = lab + 1 + body_labels b in
      (gen_lab els, l) # body_symbols ns (lab + 1) l1 b @ branches_symbols ns lab fi lab1 (l2 + 5) br)"

section \<open>What the compiler accepts\<close>

text \<open>Names that are known, expressions that are readable and fit on the variable stack. A statement must not begin like
  \<open>return\<close>, \<open>int\<close> or \<open>char\<close>: the compiler does not look for the end of the word.\<close>

definition exp_ok :: "table \<Rightarrow> string list \<Rightarrow> cexp \<Rightarrow> bool" where
  "exp_ok T ns e \<longleftrightarrow> readable e \<and> starred e \<and> known T ns e \<and> length ns + need e \<le> 1024"

definition no_keyword :: "string \<Rightarrow> bool" where
  "no_keyword t \<longleftrightarrow> \<not> prefix ''return'' t \<and> \<not> prefix ''int'' t \<and> \<not> prefix ''char'' t"

fun simple_ok :: "table \<Rightarrow> string list \<Rightarrow> simple \<Rightarrow> bool" where
  "simple_ok T ns (Return e) \<longleftrightarrow> exp_ok T ns e"
| "simple_ok T ns (Declare x) \<longleftrightarrow> plain_name x \<and> length ns < 1024"
| "simple_ok T ns (Assign x e) \<longleftrightarrow> plain_name x \<and> no_keyword x \<and> atom_known T ns (Variable x) \<and> exp_ok T ns e \<and> length ns + 2 \<le> 1024"
| "simple_ok T ns (Discard e) \<longleftrightarrow> exp_ok T ns e"

primrec body_ok_c :: "table \<Rightarrow> string list \<Rightarrow> body \<Rightarrow> bool" and branches_ok :: "table \<Rightarrow> string list \<Rightarrow> branches \<Rightarrow> bool" where
  "body_ok_c T ns Done \<longleftrightarrow> True"
| "body_ok_c T ns (Step s b) \<longleftrightarrow> simple_ok T ns s \<and> body_ok_c T (simple_names ns s) b"
| "body_ok_c T ns (Cond e b br rest) \<longleftrightarrow> exp_ok T ns e \<and> body_ok_c T ns b \<and> branches_ok T ns br \<and> body_ok_c T ns rest"
| "branches_ok T ns NoElse \<longleftrightarrow> True"
| "branches_ok T ns (Else b) \<longleftrightarrow> body_ok_c T ns b"
| "branches_ok T ns (Elseif e b br) \<longleftrightarrow> exp_ok T ns e \<and> body_ok_c T ns b \<and> branches_ok T ns br"

section \<open>Sizes\<close>

lemma length_variable_code: "length (variable_code T ns x) = length (variable_code U ns x)"
  by (simp add: variable_code_def split: option.split)

lemma length_atom_code: "length (atom_code T ns a) = length (atom_code U ns a)"
  by (cases a) (simp_all add: length_variable_code [of T ns _ U])

lemma length_args_code: "length (args_code T ns as) = length (args_code U ns as)"
  by (induction as) (simp_all add: length_atom_code [of T _ _ U])

lemma length_exp_code: "length (code T ns e) = length (code U ns e)"
  by (induction e arbitrary: ns) (simp_all add: length_atom_code [of T _ _ U] length_args_code [of T _ _ U])

lemma length_simple_code: "length (simple_code T fd ns s) = simple_size ns s"
  by (cases s) (simp_all add: simple_size_def length_exp_code [of T _ _ None] address_code_def split: option.split)

lemma length_test_code [simp]: "length (test_code T ns lab l e) = test_size ns e"
  by (simp add: test_code_def test_size_def length_exp_code [of T _ _ None])

lemma length_jump_close [simp]: "length (jump_code T lab l) = 5" "length (close_code ns b) = 6"
  by (simp_all add: jump_code_def close_code_def)

lemma length_body_code:
  "length (body_code T fd ns lab l b) = body_size ns b" "length (branches_code T fd ns fi lab l br) = branches_size ns br"
  by (induction b and br arbitrary: ns lab l and ns fi lab l)
    (simp_all add: length_simple_code Let_def del: simple_code.simps)

text \<open>The labels of a conditional.\<close>

lemma branches_label_ends:
  "(gen_lab els, l) \<in> set (branches_symbols ns els fi lab l br)"
  "(gen_lab fi, l + of_nat (branches_size ns br)) \<in> set (branches_symbols ns els fi lab l br)"
proof -
  show "(gen_lab els, l) \<in> set (branches_symbols ns els fi lab l br)" by (cases br) (simp_all add: Let_def)
  show "(gen_lab fi, l + of_nat (branches_size ns br)) \<in> set (branches_symbols ns els fi lab l br)"
  proof (induction br arbitrary: els lab l rule: branches.induct [where ?P1.0 = "\<lambda>_. True"])
    case (Elseif e b br)
    from Elseif.IH [where els = lab and lab = "Suc (lab + body_labels b)" and l = "l + (of_nat (test_size ns e) + (of_nat (body_size ns b) + 11))"]
    show ?case by (simp add: Let_def ac_simps)
  qed (simp_all add: add.assoc)
qed

section \<open>Programs\<close>

text \<open>The code behind the body of a function is that of a function that falls off its end.\<close>

definition function_code :: "table \<Rightarrow> string list \<Rightarrow> nat \<Rightarrow> i32 \<Rightarrow> body \<Rightarrow> byte list" where
  "function_code T params lab l b =
     body_code T (length params + 1) (RET # params) lab l b @ close_code (RET # params) b @ encode Ret"

fun unit_code :: "table \<Rightarrow> nat \<Rightarrow> i32 \<Rightarrow> unit_tree \<Rightarrow> byte list" where
  "unit_code T lab l (Global x) = bytes32 0"
| "unit_code T lab l (Function f params b) = function_code T params lab l b"

fun unit_size :: "unit_tree \<Rightarrow> nat" where
  "unit_size (Global x) = 4"
| "unit_size (Function f params b) = body_size (RET # params) b + 7"

fun unit_labels :: "unit_tree \<Rightarrow> nat" where
  "unit_labels (Global x) = 0"
| "unit_labels (Function f params b) = body_labels b"

fun unit_symbols :: "nat \<Rightarrow> i32 \<Rightarrow> unit_tree \<Rightarrow> symbols" where
  "unit_symbols lab l (Global x) = [(x, l)]"
| "unit_symbols lab l (Function f params b) = (f, l) # body_symbols (RET # params) lab l b"

fun units_code :: "table \<Rightarrow> nat \<Rightarrow> i32 \<Rightarrow> unit_tree list \<Rightarrow> byte list" where
  "units_code T lab l [] = []"
| "units_code T lab l (u # us) = unit_code T lab l u @ units_code T (lab + unit_labels u) (l + of_nat (unit_size u)) us"

fun units_symbols :: "nat \<Rightarrow> i32 \<Rightarrow> unit_tree list \<Rightarrow> symbols" where
  "units_symbols lab l [] = []"
| "units_symbols lab l (u # us) = unit_symbols lab l u @ units_symbols (lab + unit_labels u) (l + of_nat (unit_size u)) us"

fun unit_ok :: "table \<Rightarrow> unit_tree \<Rightarrow> bool" where
  "unit_ok T (Global x) \<longleftrightarrow> name_ok x"
| "unit_ok T (Function f params b) \<longleftrightarrow> name_ok f \<and> list_all plain_name params \<and> length params < 1024 \<and> body_ok_c T (RET # params) b"

text \<open>A program is compiled to \<open>0x100000\<close>, with its first label 1. Its symbols have to be distinct and to fit the
  table.\<close>

definition START :: i32 where "START = 0x100000"

definition program_symbols :: "unit_tree list \<Rightarrow> symbols" where
  "program_symbols us = units_symbols 1 START us"

definition table_of :: "symbols \<Rightarrow> table" where
  "table_of syms = Some (length syms, \<lambda>i. fst (syms ! i), \<lambda>i. snd (syms ! i))"

definition symbols_fit :: "symbols \<Rightarrow> bool" where
  "symbols_fit syms \<longleftrightarrow> distinct (map fst syms) \<and> length syms \<le> SYMBOL_TABLE_LEN_c \<and> list_all (\<lambda>(x, l). 0 < length x \<and> length x < MAX_ID_LEN) syms"

definition program_ok :: "unit_tree list \<Rightarrow> bool" where
  "program_ok us \<longleftrightarrow> symbols_fit (program_symbols us) \<and> list_all (unit_ok (table_of (program_symbols us))) us"

lemma length_unit_code: "length (unit_code T lab l u) = unit_size u"
  by (cases u) (simp_all add: function_code_def length_body_code)

lemma length_units_code: "length (units_code T lab l us) = sum_list (map unit_size us)"
  by (induction us arbitrary: lab l) (simp_all add: length_unit_code)

text \<open>The table has the labels at their addresses.\<close>

definition labels_at :: "table \<Rightarrow> symbols \<Rightarrow> bool" where
  "labels_at T syms \<longleftrightarrow> (\<forall>(x, l)\<in>set syms. location T x = Some l)"

lemma labels_at_simps [simp]:
  "labels_at T [] \<longleftrightarrow> True" "labels_at T ((x, l) # syms) \<longleftrightarrow> location T x = Some l \<and> labels_at T syms"
  "labels_at T (syms @ syms') \<longleftrightarrow> labels_at T syms \<and> labels_at T syms'"
  by (auto simp: labels_at_def)

end
