(* ===== verification/CcLayout.thy ===== *)
theory CcLayout
  imports CcLang
begin

text \<open>
  The source texts of statements and programs, and what the text routines of the compiler do on
  them: finding the end of a statement or the braces of a block, trimming a statement, cutting up the head of a
  block. The texts are those that \<open>fix_strings\<close> leaves, so all white space is blanks.
\<close>

section \<open>Source texts\<close>

definition blanks :: "nat \<Rightarrow> string" where
  "blanks k = replicate k (CHR '' '')"

primrec simple_text :: "simple \<Rightarrow> string \<Rightarrow> bool" where
  "simple_text (Return e) t \<longleftrightarrow> (\<exists>i src. source e src \<and> t = blanks i @ ''return '' @ src)"
| "simple_text (Declare x) t \<longleftrightarrow> (\<exists>i j k. t = blanks i @ ''int '' @ blanks j @ x @ blanks k)"
| "simple_text (Assign x e) t \<longleftrightarrow> (\<exists>i j src. source e src \<and> t = blanks i @ x @ blanks j @ CHR ''='' # src)"
| "simple_text (Discard e) t \<longleftrightarrow> source e t \<and> no_keyword (dropWhile is_whitespace_c t)"

text \<open>The head of a branch: its keyword and, in parentheses, its condition.\<close>

definition head_text :: "string \<Rightarrow> cexp \<Rightarrow> string \<Rightarrow> bool" where
  "head_text k e t \<longleftrightarrow> (\<exists>i j l src. source e src \<and> t = blanks i @ k @ blanks j @ ''('' @ src @ '')'' @ blanks l)"

text \<open>The last character of a block is dropped by the compiler, so there has to be a blank.\<close>

definition block_text :: "string \<Rightarrow> string" where
  "block_text t = ''{'' @ t @ '' }''"

primrec body_text :: "body \<Rightarrow> string \<Rightarrow> bool" and branches_text :: "branches \<Rightarrow> string \<Rightarrow> bool" where
  "body_text Done t \<longleftrightarrow> (\<exists>k. t = blanks k)"
| "body_text (Step s b) t \<longleftrightarrow> (\<exists>u w. simple_text s u \<and> body_text b w \<and> t = u @ '';'' @ w)"
| "body_text (Cond e b br rest) t \<longleftrightarrow> (\<exists>h u v w. head_text ''if'' e h \<and> body_text b u \<and> branches_text br v \<and> body_text rest w \<and>
     t = h @ block_text u @ v @ w)"
| "branches_text NoElse t \<longleftrightarrow> t = []"
| "branches_text (Else b) t \<longleftrightarrow> (\<exists>i j u. body_text b u \<and> t = blanks i @ ''else'' @ blanks j @ block_text u)"
| "branches_text (Elseif e b br) t \<longleftrightarrow> (\<exists>h u v. head_text ''elseif'' e h \<and> body_text b u \<and> branches_text br v \<and> t = h @ block_text u @ v)"

definition params_text :: "string list \<Rightarrow> string \<Rightarrow> bool" where
  "params_text params t \<longleftrightarrow> (\<exists>k ks. length ks = length (argument_tokens (map Variable params)) \<and>
     t = blanks k @ spaced (argument_tokens (map Variable params)) ks)"

fun unit_text :: "unit_tree \<Rightarrow> string \<Rightarrow> bool" where
  "unit_text (Global x) t \<longleftrightarrow> (\<exists>i j k. t = blanks i @ ''int '' @ blanks j @ x @ blanks k @ '';'')"
| "unit_text (Function f params b) t \<longleftrightarrow> (\<exists>i j k p u. params_text params p \<and> body_text b u \<and>
     t = blanks i @ f @ blanks j @ ''('' @ p @ '')'' @ blanks k @ block_text u)"

fun program_text :: "unit_tree list \<Rightarrow> string \<Rightarrow> bool" where
  "program_text [] t \<longleftrightarrow> (\<exists>k. t = blanks k)"
| "program_text (u # us) t \<longleftrightarrow> (\<exists>v w. unit_text u v \<and> program_text us w \<and> t = v @ w)"

section \<open>Searching\<close>

lemma find_char_text:
  "NUL \<notin> set t \<Longrightarrow> find_char_c (pre @ t @ post) (length pre) (length pre + length t) c =
     Inr (if c \<in> set t then Some (length (takeWhile (\<lambda>d. d \<noteq> c) t)) else None)"
proof -
  assume "NUL \<notin> set t"
  then have "find_char_c_loop (pre @ u @ t @ post) (length pre) (length pre + length u + length t) c (length pre + length u) =
      Inr (if c \<in> set t then Some (length u + length (takeWhile (\<lambda>d. d \<noteq> c) t)) else None)" for u
  proof (induction t arbitrary: u)
    case Nil
    then show ?case by (simp add: find_char_c_loop.simps)
  next
    case (Cons d t)
    have "rd (pre @ u @ (d # t) @ post) (length pre + length u) = Inr d" by (simp add: rd_def nth_append)
    with Cons.IH [of "u @ [d]"] Cons.prems show ?case by (subst find_char_c_loop.simps) auto
  qed
  from this [of "[]"] show ?thesis by (simp add: find_char_c_def)
qed

text \<open>The first of two characters decides which of them ends a statement.\<close>

lemma takeWhile_before: "c \<notin> set t \<Longrightarrow> takeWhile (\<lambda>d. d \<noteq> c) (t @ c # u) = t"
  by (induction t) auto

lemma takeWhile_later:
  assumes "d \<notin> set t" "d \<in> set (t @ c # u)" "c \<noteq> d"
  shows "length t < length (takeWhile (\<lambda>x. x \<noteq> d) (t @ c # u))"
  using assms by (induction t) auto

text \<open>Texts with matching brackets are passed over.\<close>

definition balanced :: "char \<Rightarrow> char \<Rightarrow> string \<Rightarrow> bool" where
  "balanced x y t \<longleftrightarrow> (\<forall>pre post e d. 1 \<le> d \<longrightarrow> length pre + length t \<le> e \<longrightarrow>
     matching_loop x y (pre @ t @ post) (length pre) e d = matching_loop x y (pre @ t @ post) (length pre + length t) e d)"

lemma balanced_Nil [simp]: "balanced x y []"
  by (simp add: balanced_def)

lemma balanced_append: "balanced x y t \<Longrightarrow> balanced x y u \<Longrightarrow> balanced x y (t @ u)"
  unfolding balanced_def
proof (intro allI impI)
  fix pre post :: string and e and d :: int
  assume t: "\<forall>pre post e d. 1 \<le> d \<longrightarrow> length pre + length t \<le> e \<longrightarrow>
      matching_loop x y (pre @ t @ post) (length pre) e d = matching_loop x y (pre @ t @ post) (length pre + length t) e d"
    and u: "\<forall>pre post e d. 1 \<le> d \<longrightarrow> length pre + length u \<le> e \<longrightarrow>
      matching_loop x y (pre @ u @ post) (length pre) e d = matching_loop x y (pre @ u @ post) (length pre + length u) e d"
    and d: "1 \<le> d" "length pre + length (t @ u) \<le> e"
  from t [rule_format, of d pre e "u @ post"] u [rule_format, of d "pre @ t" e post] d
  show "matching_loop x y (pre @ (t @ u) @ post) (length pre) e d = matching_loop x y (pre @ (t @ u) @ post) (length pre + length (t @ u)) e d"
    by (simp add: add.assoc)
qed

lemma balanced_char: "c \<noteq> x \<Longrightarrow> c \<noteq> y \<Longrightarrow> balanced x y [c]"
  unfolding balanced_def by (intro allI impI) (subst matching_loop.simps, simp)

lemma balanced_plain: "\<forall>c\<in>set t. c \<noteq> x \<and> c \<noteq> y \<Longrightarrow> balanced x y t"
proof (induction t)
  case (Cons c t)
  then show ?case using balanced_append [of x y "[c]" t] balanced_char [of c x y] by simp
qed simp

lemma balanced_nest:
  assumes "balanced x y t" "x \<noteq> y"
  shows "balanced x y (x # t @ [y])"
  unfolding balanced_def
proof (intro allI impI)
  fix pre post :: string and e and d :: int
  assume d: "1 \<le> d" "length pre + length (x # t @ [y]) \<le> e"
  let ?m = "pre @ (x # t @ [y]) @ post"
  have "matching_loop x y ?m (length pre) e d = matching_loop x y ?m (length pre + 1) e (d + 1)"
    using d by (subst matching_loop.simps) simp
  also have "\<dots> = matching_loop x y ?m (length pre + 1 + length t) e (d + 1)"
    using assms(1) [unfolded balanced_def, rule_format, of "d + 1" "pre @ [x]" e "y # post"] d by simp
  also have "\<dots> = matching_loop x y ?m (length pre + length (x # t @ [y])) e d"
    using d assms(2) by (subst matching_loop.simps) (simp add: rd_def nth_append Let_def)
  finally show "matching_loop x y ?m (length pre) e d = matching_loop x y ?m (length pre + length (x # t @ [y])) e d" .
qed

lemma matching_balanced:
  assumes "balanced x y t" "x \<noteq> y" "length pre + length t + 1 < e"
  shows "find_matching x y (pre @ x # t @ y # post) (length pre) e = Inr (Some (length pre + length t + 1))"
proof -
  let ?m = "pre @ x # t @ y # post"
  have "matching_loop x y ?m (length pre) e 0 = matching_loop x y ?m (length pre + 1) e 1"
    using assms(3) by (subst matching_loop.simps) simp
  also have "\<dots> = matching_loop x y ?m (length pre + 1 + length t) e 1"
    using assms(1) [unfolded balanced_def, rule_format, of 1 "pre @ [x]" e "y # post"] assms(3) by simp
  also have "\<dots> = Inr (Some (length pre + length t + 1))"
    using assms(2,3) by (subst matching_loop.simps) (simp add: rd_def nth_append)
  finally show ?thesis by (simp add: find_matching_def)
qed

section \<open>Trimming\<close>

lemma blanks_simps: "blanks 0 = []" "blanks (Suc k) = CHR '' '' # blanks k" "length (blanks k) = k" "set (blanks k) \<subseteq> {CHR '' ''}"
  by (auto simp: blanks_def)

lemma blanks_snoc: "blanks (Suc k) = blanks k @ [CHR '' '']"
  by (simp add: blanks_def replicate_append_same)

lemma blanks_add: "blanks i @ blanks j = blanks (i + j)"
  by (simp add: blanks_def replicate_add)

lemma NUL_blanks [simp]: "NUL \<notin> set (blanks k)"
  by (simp add: blanks_def)

lemma skip_blanks_text:
  "\<not> is_whitespace_c c \<Longrightarrow> skip_blanks (pre @ blanks i @ c # post) (length pre) = Inr (length pre + i)"
proof (induction i arbitrary: pre)
  case 0
  then show ?case by (subst skip_blanks.simps) (simp add: blanks_simps)
next
  case (Suc i)
  have "skip_blanks (pre @ blanks (Suc i) @ c # post) (length pre) = skip_blanks ((pre @ '' '') @ blanks i @ c # post) (length (pre @ '' ''))"
    by (subst skip_blanks.simps) (simp add: blanks_simps is_whitespace_c_def)
  with Suc.IH [of "pre @ '' ''"] Suc.prems show ?case by simp
qed

lemma move_back_text:
  "NUL \<notin> set t \<Longrightarrow> \<exists>g. move_back (pre @ hole @ t @ NUL # post) (length pre) (length pre + length hole) =
     Inr (pre @ t @ g @ post, length pre + length t) \<and> length g = length hole + 1"
proof (induction t arbitrary: pre hole)
  case Nil
  have "rd (pre @ hole @ NUL # post) (length pre + length hole) = Inr NUL" by (simp add: rd_def nth_append)
  then show ?case by (subst move_back.simps) (auto intro!: exI [of _ "hole @ [NUL]"])
next
  case (Cons c t)
  have rd: "rd (pre @ hole @ (c # t) @ NUL # post) (length pre + length hole) = Inr c" by (simp add: rd_def nth_append)
  have c: "c \<noteq> NUL" using Cons.prems by auto
  obtain hole' where hole: "length hole' = length hole" "wr (pre @ hole @ (c # t) @ NUL # post) (length pre) c = Inr (pre @ c # hole' @ t @ NUL # post)"
  proof (cases hole)
    case Nil
    then show ?thesis using that [of "[]"] by (simp add: wr_def)
  next
    case (Cons d g)
    then show ?thesis using that [of "g @ [c]"] by (simp add: wr_def)
  qed
  have "move_back (pre @ hole @ (c # t) @ NUL # post) (length pre) (length pre + length hole) =
      move_back ((pre @ [c]) @ hole' @ t @ NUL # post) (length (pre @ [c])) (length (pre @ [c]) + length hole')"
    using rd c hole by (subst move_back.simps) simp
  with Cons.IH [of "pre @ [c]" hole'] Cons.prems hole(1) show ?case by simp
qed

lemma cut_blanks_text:
  "w = [] \<or> \<not> is_whitespace_c (last w) \<Longrightarrow> \<exists>g. cut_blanks (pre @ w @ blanks j @ NUL # post) (length pre) (length pre + length w + j) =
     Inr (pre @ w @ NUL # g @ post) \<and> length g = j"
proof (induction j arbitrary: post)
  case 0
  show ?case
  proof (cases w rule: rev_cases)
    case Nil
    then show ?thesis by (cases "length pre") (simp_all add: blanks_simps)
  next
    case (snoc u c)
    then show ?thesis using 0 by (simp add: blanks_simps rd_def nth_append)
  qed
next
  case (Suc j)
  let ?m = "pre @ w @ blanks (Suc j) @ NUL # post"
  have "rd ?m (length pre + length w + j) = Inr (CHR '' '')" by (simp add: blanks_snoc rd_def nth_append blanks_simps)
  moreover have "wr ?m (length pre + length w + j) NUL = Inr (pre @ w @ blanks j @ NUL # NUL # post)"
    by (simp add: blanks_snoc wr_def list_update_append blanks_simps)
  ultimately have "cut_blanks ?m (length pre) (length pre + length w + Suc j) =
      cut_blanks (pre @ w @ blanks j @ NUL # NUL # post) (length pre) (length pre + length w + j)"
    by (simp add: is_whitespace_c_def)
  with Suc.IH [OF Suc.prems, of "NUL # post"] show ?case by (metis append_Cons length_Cons append.assoc append_Nil length_append_singleton)
qed

text \<open>A text between blanks loses them; the buffer keeps its length.\<close>

lemma trimstr_text:
  assumes "w = [] \<and> j = 0 \<or> w \<noteq> [] \<and> \<not> is_whitespace_c (hd w) \<and> \<not> is_whitespace_c (last w)" "NUL \<notin> set w"
  shows "\<exists>g. trimstr_c (pre @ blanks i @ w @ blanks j @ NUL # post) (length pre) = Inr (pre @ w @ NUL # g @ post) \<and> length g = i + j"
proof -
  let ?t = "w @ blanks j"
  obtain c u where c: "?t @ NUL # post = c # u" "\<not> is_whitespace_c c"
    using assms(1) by (cases w) (auto simp: blanks_simps is_whitespace_c_def)
  have skip: "skip_blanks (pre @ blanks i @ ?t @ NUL # post) (length pre) = Inr (length pre + i)"
    using skip_blanks_text [OF c(2), of pre i u] by (simp add: c(1) [symmetric])
  obtain g where g: "move_back (pre @ blanks i @ ?t @ NUL # post) (length pre) (length pre + i) = Inr (pre @ ?t @ g @ post, length pre + length ?t)"
    "length g = i + 1"
    using move_back_text [of ?t pre "blanks i" post] assms(2) by (auto simp: blanks_simps)
  then obtain d g' where g': "g = d # g'" "length g' = i" by (cases g) auto
  have wr: "wr (pre @ ?t @ g @ post) (length pre + length ?t) NUL = Inr (pre @ w @ blanks j @ NUL # g' @ post)"
    by (simp add: g'(1) wr_def list_update_append)
  have "w = [] \<or> \<not> is_whitespace_c (last w)" using assms(1) by auto
  from cut_blanks_text [OF this, of pre j "g' @ post"] obtain h where
    h: "cut_blanks (pre @ w @ blanks j @ NUL # g' @ post) (length pre) (length pre + length w + j) = Inr (pre @ w @ NUL # h @ g' @ post)"
    "length h = j" by blast
  have "trimstr_c (pre @ blanks i @ w @ blanks j @ NUL # post) (length pre) = Inr (pre @ w @ NUL # (h @ g') @ post)"
    using skip g(1) wr h(1) by (simp add: trimstr_c_def blanks_simps add.assoc)
  with h(2) g'(2) show ?thesis by (intro exI [of _ "h @ g'"]) simp
qed

section \<open>The characters of source texts\<close>

text \<open>No terminator, semicolon or brace, and matching parentheses.\<close>

definition inert :: "string \<Rightarrow> bool" where
  "inert t \<longleftrightarrow> NUL \<notin> set t \<and> CHR '';'' \<notin> set t \<and> CHR ''{'' \<notin> set t \<and> CHR ''}'' \<notin> set t"

lemma inert_simps [simp]:
  "inert []" "inert (t @ u) \<longleftrightarrow> inert t \<and> inert u" "inert (blanks k)"
  "inert (c # t) \<longleftrightarrow> c \<notin> {NUL, CHR '';'', CHR ''{'', CHR ''}''} \<and> inert t"
  by (auto simp: inert_def blanks_def)

lemma operand_char_inert: "operand_char c \<Longrightarrow> c \<notin> {NUL, CHR '';'', CHR ''{'', CHR ''}'', CHR ''('', CHR '')''} \<and> \<not> is_whitespace_c c"
proof -
  assume c: "operand_char c"
  have "\<not> operand_char (CHR '';'')" "\<not> operand_char (CHR ''{'')" "\<not> operand_char (CHR ''}'')"
    by (simp_all add: operand_char_def is_id_def schar_def uchar_def)
  moreover have "c \<notin> set ''()''" using operand_char_not_special [OF c] by (simp add: special_def)
  ultimately show ?thesis using c operand_char_lone [OF c] by auto
qed

lemma operand_inert: "\<forall>c\<in>set t. operand_char c \<Longrightarrow> inert t \<and> balanced (CHR ''('') (CHR '')'') t"
  using operand_char_inert by (auto simp: inert_def intro!: balanced_plain)

definition solid :: "string \<Rightarrow> bool" where
  "solid t \<longleftrightarrow> t \<noteq> [] \<and> (\<forall>c\<in>set t. \<not> is_whitespace_c c) \<and> inert t"

lemma operand_solid: "\<forall>c\<in>set t. operand_char c \<Longrightarrow> t \<noteq> [] \<Longrightarrow> solid t"
  using operand_inert operand_char_inert by (auto simp: solid_def)

lemma operator_solid: "level x \<le> 10 \<Longrightarrow> solid (operator_token x) \<and> CHR ''('' \<notin> set (operator_token x) \<and> CHR '')'' \<notin> set (operator_token x)"
proof -
  assume x: "level x \<le> 10"
  have "list_all (\<lambda>x. solid (operator_token x) \<and> CHR ''('' \<notin> set (operator_token x) \<and> CHR '')'' \<notin> set (operator_token x)) operators"
    by (simp add: operators_def operator_token_def TOK_defs solid_def is_whitespace_c_def)
  then show ?thesis using level_operators [OF x] by (auto simp: list.pred_set)
qed

lemma name_chars: "name_ok x \<Longrightarrow> x \<noteq> [] \<and> (\<forall>c\<in>set x. operand_char c)"
  by (auto simp: name_ok_def operand_char_def)

lemma arguments_solid: "list_all atom_ok as \<Longrightarrow> t \<in> set (argument_tokens as) \<Longrightarrow> t \<noteq> [] \<and> (\<forall>c\<in>set t. operand_char c)"
proof (induction as rule: argument_tokens.induct)
  case (2 a)
  then show ?case using atom_chars [of a] atom_text_some [of a] by auto
next
  case (3 a b as)
  then show ?case using atom_chars [of a] atom_text_some [of a] by (auto simp: operand_char_def)
qed simp

lemma unary_operator: "level x = 10 \<Longrightarrow> operator_token x = [x]"
  using level_unary [of x] by (auto simp: operator_token_def TOK_defs)

lemma tokens_solid: "readable e \<Longrightarrow> t \<in> set (tokens e) \<Longrightarrow> solid t"
proof (induction e)
  case (Atom a)
  then show ?case using atom_chars [of a] atom_text_some [of a] by (auto intro!: operand_solid)
next
  case (Call f as)
  then have "t = f \<or> t = ''('' \<or> t \<in> set (argument_tokens as) \<or> t = '')''" "name_ok f" "list_all atom_ok as" by auto
  then show ?case using name_chars [of f] arguments_solid [of as t] operand_solid [of t] by (auto simp: solid_def is_whitespace_c_def)
next
  case (Unary x e)
  then show ?case using operator_solid [of x] unary_operator [of x] by auto
next
  case (Binary x e1 e2)
  then show ?case using operator_solid [of x] by auto
qed

lemma spaced_inert: "\<forall>t\<in>set ts. solid t \<Longrightarrow> inert (spaced ts ks)"
  by (induction ts ks rule: spaced.induct) (auto simp: solid_def simp flip: blanks_def)

lemma blanks_balanced: "balanced (CHR ''('') (CHR '')'') (blanks k)"
  by (rule balanced_plain) (auto simp: blanks_def)

lemma spaced_balanced:
  "\<forall>t\<in>set ts. balanced (CHR ''('') (CHR '')'') t \<Longrightarrow> balanced (CHR ''('') (CHR '')'') (spaced ts ks)"
  by (induction ts ks rule: spaced.induct) (auto intro!: balanced_append blanks_balanced simp flip: blanks_def)

lemma tokens_balanced:
  "readable e \<Longrightarrow> length ks = length (tokens e) \<Longrightarrow> balanced (CHR ''('') (CHR '')'') (spaced (tokens e) ks)"
proof (induction e arbitrary: ks)
  case (Atom a)
  then have "balanced (CHR ''('') (CHR '')'') (atom_text a)" using operand_inert [of "atom_text a"] atom_chars [of a] by auto
  then show ?case using spaced_balanced [of "[atom_text a]" ks] by simp
next
  case (Call f as)
  then obtain k l ls m where ks: "ks = k # l # ls @ [m]" "length ls = length (argument_tokens as)"
    by (cases ks; cases "tl ks"; cases "tl (tl ks)" rule: rev_cases) auto
  have f: "balanced (CHR ''('') (CHR '')'') f" using operand_inert [of f] name_chars [of f] Call.prems(1) by auto
  have "\<forall>t\<in>set (argument_tokens as). balanced (CHR ''('') (CHR '')'') t"
    using operand_inert arguments_solid [of as] Call.prems(1) by auto
  then have "balanced (CHR ''('') (CHR '')'') (CHR ''('' # (blanks l @ spaced (argument_tokens as) ls) @ [CHR '')''])"
    by (intro balanced_nest balanced_append blanks_balanced spaced_balanced) auto
  then have "balanced (CHR ''('') (CHR '')'') ((f @ blanks k) @ (CHR ''('' # (blanks l @ spaced (argument_tokens as) ls) @ [CHR '')'']) @ blanks m)"
    using f by (intro balanced_append blanks_balanced)
  then show ?case by (simp add: ks(1) spaced_append [OF ks(2)] blanks_def)
next
  case (Unary x e)
  then obtain k ls where ks: "ks = k # ls" "length ls = length (tokens e)" by (cases ks) auto
  have "level x = 10" using Unary.prems(1) by simp
  then have "balanced (CHR ''('') (CHR '')'') [x]" using operator_solid [of x] unary_operator [of x] by (intro balanced_plain) auto
  then have "balanced (CHR ''('') (CHR '')'') ([x] @ blanks k @ spaced (tokens e) ls)"
    using Unary ks by (intro balanced_append blanks_balanced) auto
  then show ?case by (simp add: ks(1) blanks_def)
next
  case (Binary x e1 e2)
  let ?n = "length (tokens e1)"
  obtain ms k ls where ks: "ks = ms @ k # ls" "length ms = ?n" "length ls = length (tokens e2)"
  proof -
    have "ks = take ?n ks @ ks ! ?n # drop (Suc ?n) ks" "?n < length ks" using Binary.prems(2) by (simp_all add: id_take_nth_drop)
    with that [of "take ?n ks" "ks ! ?n" "drop (Suc ?n) ks"] Binary.prems(2) show ?thesis by simp
  qed
  have "balanced (CHR ''('') (CHR '')'') (operator_token x)" using operator_solid [of x] Binary.prems(1) by (intro balanced_plain) auto
  then have "balanced (CHR ''('') (CHR '')'') (spaced (tokens e1) ms @ operator_token x @ blanks k @ spaced (tokens e2) ls)"
    using Binary ks(2,3) by (intro balanced_append blanks_balanced) auto
  then show ?case by (simp add: ks(1) spaced_append ks(2) blanks_def)
qed

lemma source_chars: "readable e \<Longrightarrow> source e src \<Longrightarrow> inert src \<and> balanced (CHR ''('') (CHR '')'') src"
  using tokens_balanced [of e] tokens_solid [of e] spaced_inert [of "tokens e"]
  by (auto simp: source_def intro!: balanced_append blanks_balanced simp flip: blanks_def)

text \<open>The blanks around a source text, and inside it, may be dropped.\<close>

lemma tokens_some: "tokens e \<noteq> []"
  by (induction e) auto

lemma spaced_last:
  "\<forall>t\<in>set ts. solid t \<Longrightarrow> ts \<noteq> [] \<Longrightarrow> length ks = length ts \<Longrightarrow>
     \<exists>ms j. length ms = length ts \<and> spaced ts ks = spaced ts ms @ blanks j \<and> spaced ts ms \<noteq> [] \<and> \<not> is_whitespace_c (last (spaced ts ms))"
proof (induction ts ks rule: list_induct2')
  case (4 t ts k ks)
  show ?case
  proof (cases "ts = []")
    case True
    with 4 show ?thesis by (intro exI [of _ "[0]"] exI [of _ k]) (auto simp: solid_def blanks_def)
  next
    case False
    with 4 obtain ms j where "length ms = length ts" "spaced ts ks = spaced ts ms @ blanks j" "spaced ts ms \<noteq> []"
      "\<not> is_whitespace_c (last (spaced ts ms))" by auto
    then show ?thesis by (intro exI [of _ "k # ms"] exI [of _ j]) simp
  qed
qed auto

lemma source_trim:
  assumes "readable e" "source e src"
  obtains i w j where "src = blanks i @ w @ blanks j" "source e w" "w \<noteq> []" "\<not> is_whitespace_c (hd w)" "\<not> is_whitespace_c (last w)"
    "prefix (hd (tokens e)) w"
proof -
  obtain i ks where src: "length ks = length (tokens e)" "src = blanks i @ spaced (tokens e) ks"
    using assms(2) by (auto simp: source_def blanks_def)
  have solid: "\<forall>t\<in>set (tokens e). solid t" using tokens_solid assms(1) by blast
  obtain ms j where ms: "length ms = length (tokens e)" "spaced (tokens e) ks = spaced (tokens e) ms @ blanks j"
    "spaced (tokens e) ms \<noteq> []" "\<not> is_whitespace_c (last (spaced (tokens e) ms))"
    using spaced_last [OF solid tokens_some src(1)] by blast
  obtain t ts k ls where t: "tokens e = t # ts" "ms = k # ls" using tokens_some [of e] ms(1) by (cases "tokens e"; cases ms) auto
  have "source e (spaced (tokens e) ms)" unfolding source_def using ms(1) by (intro exI [of _ 0] exI [of _ ms]) simp
  moreover have "\<not> is_whitespace_c (hd (spaced (tokens e) ms))" using solid by (auto simp: t solid_def)
  moreover have "prefix (hd (tokens e)) (spaced (tokens e) ms)" by (simp add: t)
  ultimately show thesis using that [of i "spaced (tokens e) ms" j] src(2) ms by simp
qed

lemma spaced_squeezed: "\<forall>t\<in>set ts. solid t \<Longrightarrow> length ks = length ts \<Longrightarrow>
    filter (\<lambda>c. \<not> is_whitespace_c c) (spaced ts ks) = spaced ts (map (\<lambda>_. 0) ts)"
  by (induction ts ks rule: list_induct2') (auto simp: solid_def is_whitespace_c_def)

lemma source_squeezed:
  assumes "readable e" "source e src"
  shows "source e (filter (\<lambda>c. \<not> is_whitespace_c c) src)"
proof -
  obtain k ks where src: "length ks = length (tokens e)" "src = replicate k (CHR '' '') @ spaced (tokens e) ks"
    using assms(2) by (auto simp: source_def)
  have "filter (\<lambda>c. \<not> is_whitespace_c c) src = spaced (tokens e) (map (\<lambda>_. 0) (tokens e))"
    using spaced_squeezed [OF _ src(1)] tokens_solid [OF assms(1)] by (simp add: src(2) is_whitespace_c_def)
  then show ?thesis unfolding source_def by (intro exI [of _ 0] exI [of _ "map (\<lambda>_. 0) (tokens e)"]) simp
qed

section \<open>The texts of bodies\<close>

lemma simple_inert: "simple_ok T ns s \<Longrightarrow> simple_text s t \<Longrightarrow> inert t"
proof (cases s)
  case (Declare x)
  assume "simple_ok T ns s" "simple_text s t"
  then show ?thesis using operand_inert [of x] name_chars [of x] by (auto simp: Declare plain_name_def)
next
  case (Assign x e)
  assume "simple_ok T ns s" "simple_text s t"
  then show ?thesis using operand_inert [of x] name_chars [of x] source_chars [of e] by (auto simp: Assign plain_name_def exp_ok_def)
qed (auto simp: exp_ok_def dest: source_chars)

lemma head_inert: "readable e \<Longrightarrow> inert k \<Longrightarrow> head_text k e t \<Longrightarrow> inert t"
  using source_chars [of e] by (auto simp: head_text_def)

lemma inert_braces: "inert t \<Longrightarrow> balanced (CHR ''{'') (CHR ''}'') t \<and> NUL \<notin> set t"
  by (auto simp: inert_def intro!: balanced_plain)

lemma block_balanced:
  "balanced (CHR ''{'') (CHR ''}'') t \<Longrightarrow> balanced (CHR ''{'') (CHR ''}'') (block_text t)"
  using balanced_nest [of "CHR ''{''" "CHR ''}''" "t @ '' ''"] balanced_append [of _ _ t "'' ''"] balanced_char [of "CHR '' ''" "CHR ''{''" "CHR ''}''"]
  by (simp add: block_text_def)

lemma body_braces:
  "body_ok_c T ns b \<Longrightarrow> body_text b t \<Longrightarrow> balanced (CHR ''{'') (CHR ''}'') t \<and> NUL \<notin> set t"
  "branches_ok T ns br \<Longrightarrow> branches_text br t \<Longrightarrow> balanced (CHR ''{'') (CHR ''}'') t \<and> NUL \<notin> set t"
proof (induction b and br arbitrary: ns t and ns t)
  case Done
  then show ?case using inert_braces [of t] by auto
next
  case (Step s b)
  then obtain u w where u: "simple_text s u" "body_text b w" "t = u @ '';'' @ w" by auto
  have "inert (u)" using simple_inert u(1) Step.prems(1) by auto
  then show ?case using Step u inert_braces [of u] by (auto intro!: balanced_append balanced_char simp del: append_Cons)
next
  case (Cond e b br rest)
  then obtain h u v w where t: "head_text ''if'' e h" "body_text b u" "branches_text br v" "body_text rest w" "t = h @ block_text u @ v @ w" by auto
  have "inert h" using head_inert [OF _ _ t(1)] Cond.prems(1) by (simp add: exp_ok_def)
  then show ?case using Cond t inert_braces [of h]
    by (auto intro!: balanced_append block_balanced) (auto simp: block_text_def)
next
  case NoElse
  then show ?case by simp
next
  case (Else b)
  then obtain i j u where t: "body_text b u" "t = blanks i @ ''else'' @ blanks j @ block_text u" by auto
  have "inert (blanks i @ ''else'' @ blanks j)" by simp
  note head = conjunct1 [OF inert_braces [OF this]]
  have "balanced (CHR ''{'') (CHR ''}'') u \<and> NUL \<notin> set u" using Else.IH [OF _ t(1)] Else.prems(1) by simp
  with balanced_append [OF head block_balanced] t(2) show ?case by (simp add: block_text_def)
next
  case (Elseif e b br)
  then obtain h u v where t: "head_text ''elseif'' e h" "body_text b u" "branches_text br v" "t = h @ block_text u @ v" by auto
  have "inert h" using head_inert [OF _ _ t(1)] Elseif.prems(1) by (simp add: exp_ok_def)
  then show ?case using Elseif t inert_braces [of h]
    by (auto intro!: balanced_append block_balanced) (auto simp: block_text_def)
qed

end
