(* ===== verification/CcEmit.thy ===== *)
theory CcEmit
  imports CcLayout CcDiscipline
begin

text \<open>
  What the compiler does on the text of a statement, in either pass: it emits the code of the reference compiler,
  places its labels and rewrites nothing but the text of the statement.
\<close>

section \<open>Effects\<close>

definition entries :: "cc \<Rightarrow> symbols" where
  "entries s = map (\<lambda>i. (symbol_names s i, symbol_locs s i)) [0..<symbol_num s]"

text \<open>The symbols that are still to be placed: in the first pass they have to be new, in the second pass known.\<close>

definition room_for :: "table \<Rightarrow> cc \<Rightarrow> symbols \<Rightarrow> bool" where
  "room_for T s syms \<longleftrightarrow> list_all (\<lambda>(x, l). 0 < length x \<and> length x < MAX_ID_LEN) syms \<and>
     (case T of None \<Rightarrow> distinct (map fst (entries s @ syms)) \<and> length (entries s @ syms) \<le> SYMBOL_TABLE_LEN_c
      | Some _ \<Rightarrow> labels_at T syms)"

text \<open>\<open>moves T s t bs syms ns lab\<close>: from \<open>s\<close> to \<open>t\<close> the code \<open>bs\<close> was emitted and the symbols \<open>syms\<close> were placed; the
  variables are now \<open>ns\<close> and the next label is \<open>lab\<close>.\<close>

definition moves :: "table \<Rightarrow> cc \<Rightarrow> cc \<Rightarrow> byte list \<Rightarrow> symbols \<Rightarrow> string list \<Rightarrow> nat \<Rightarrow> bool" where
  "moves T s t bs syms ns lab \<longleftrightarrow> in_pass T t \<and> vars_are t ns \<and> lab_id t = lab \<and>
     emitted t = emitted s @ (if T = None then [] else bs) \<and> current_loc t = current_loc s + of_nat (length bs) \<and>
     entries t = entries s @ (if T = None then syms else []) \<and>
     c_block_depth t = c_block_depth s \<and> ret_depth t = ret_depth s \<and> string_num t = string_num s"

lemma moves_trans: "moves T s t bs xs ns lab \<Longrightarrow> moves T t u cs ys ms lab' \<Longrightarrow> moves T s u (bs @ cs) (xs @ ys) ms lab'"
  by (auto simp: moves_def add.assoc)

lemma moves_room: "moves T s t bs xs ns lab \<Longrightarrow> room_for T s (xs @ ys) \<Longrightarrow> room_for T t ys"
  by (auto simp: moves_def room_for_def split: option.splits)

lemma moves_refl: "in_pass T s \<Longrightarrow> vars_are s ns \<Longrightarrow> moves T s s [] [] ns (lab_id s)"
  by (simp add: moves_def)

lemma moved_moves:
  assumes "moved s t bs ns" "in_pass T s"
  shows "moves T s t bs [] ns (lab_id s)"
proof -
  have "in_pass T t" "vars_are t ns" using moved_in_pass [OF assms] by simp_all
  moreover obtain vars where t: "t = emit_all bs (s\<lparr>c_stack_depth := int (length ns), c_stack_vars := vars\<rparr>)"
    using assms(1) by (auto simp: moved_def)
  have "stage s = 1 \<longleftrightarrow> T \<noteq> None" using assms(2) by (cases T) (simp_all add: in_pass_def)
  then show ?thesis using calculation by (simp add: moves_def t emit_all_def entries_def)
qed

text \<open>\<open>acts\<close>: the action rewrites \<open>n\<close> characters of the text between \<open>pre\<close> and \<open>post\<close>, and moves on.\<close>

definition acts :: "table \<Rightarrow> (cc, 'a) M \<Rightarrow> 'a \<Rightarrow> cc \<Rightarrow> string \<Rightarrow> nat \<Rightarrow> string \<Rightarrow> byte list \<Rightarrow> symbols \<Rightarrow> string list \<Rightarrow> nat \<Rightarrow> bool" where
  "acts T m r s pre n post bs syms ns lab \<longleftrightarrow> (\<exists>t w. m s = Inr (r, t) \<and> c_text t = pre @ w @ post \<and> length w = n \<and>
     moves T s t bs syms ns lab)"

lemma acts_bind:
  assumes "acts T m x s pre n post bs xs ns lab"
    and "\<And>t w. c_text t = pre @ w @ post \<Longrightarrow> length w = n \<Longrightarrow> moves T s t bs xs ns lab \<Longrightarrow> acts T (f x) r t pre n post cs ys ms lab'"
  shows "acts T (bindM m f) r s pre n post (bs @ cs) (xs @ ys) ms lab'"
proof -
  obtain t w where t: "m s = Inr (x, t)" "c_text t = pre @ w @ post" "length w = n" "moves T s t bs xs ns lab"
    using assms(1) unfolding acts_def by blast
  obtain u v where "f x t = Inr (r, u)" "c_text u = pre @ v @ post" "length v = n" "moves T t u cs ys ms lab'"
    using assms(2) [OF t(2-4)] unfolding acts_def by blast
  with t(1,4) show ?thesis unfolding acts_def by (auto simp: bindM_eval intro: moves_trans)
qed

lemma acts_then:
  assumes "acts T m x s pre n post bs xs ns lab"
    and "\<And>t w. c_text t = pre @ w @ post \<Longrightarrow> length w = n \<Longrightarrow> moves T s t bs xs ns lab \<Longrightarrow> acts T m' r t pre n post cs ys ms lab'"
  shows "acts T (thenM m m') r s pre n post (bs @ cs) (xs @ ys) ms lab'"
  unfolding thenM_def by (rule acts_bind [OF assms])

lemma acts_eq: "acts T m r s pre n post bs syms ns lab \<Longrightarrow> bs = bs' \<Longrightarrow> syms = syms' \<Longrightarrow> acts T m r s pre n post bs' syms' ns lab"
  by simp

text \<open>A smaller place in the text.\<close>

lemma acts_within:
  assumes "acts T m r s (pre @ u) n (v @ post) bs syms ns lab" "k = length u + n + length v"
  shows "acts T m r s pre k post bs syms ns lab"
proof -
  obtain t w where "m s = Inr (r, t)" "c_text t = (pre @ u) @ w @ v @ post" "length w = n" "moves T s t bs syms ns lab"
    using assms(1) unfolding acts_def by blast
  then show ?thesis unfolding acts_def using assms(2) by (intro exI [of _ t] exI [of _ "u @ w @ v"]) simp
qed

lemma acts_does:
  assumes "does T m r ns bs ms" "in_pass T s" "vars_are s ns" "c_text s = pre @ w @ post" "length w = n"
  shows "acts T m r s pre n post bs [] ms (lab_id s)"
proof -
  obtain t where t: "m s = Inr (r, t)" "moved s t bs ms" using assms(1-3) unfolding does_def by blast
  moreover have "c_text t = c_text s" using t(2) by (auto simp: moved_def emit_all_def)
  ultimately show ?thesis using moved_moves [OF t(2) assms(2)] assms(4,5) unfolding acts_def by auto
qed

text \<open>Rewriting the text alone.\<close>

lemma moves_text: "moves T (s\<lparr>c_text := m\<rparr>) t bs syms ns lab = moves T s t bs syms ns lab"
  by (simp add: moves_def entries_def)

lemma edit_step: "c_text s = m \<Longrightarrow> f m = Inr m' \<Longrightarrow> edit f s = Inr ((), s\<lparr>c_text := m'\<rparr>)"
  by (simp add: edit_def bindM_eval)

lemma acts_edit:
  assumes "f (c_text s) = Inr m" "acts T m' r (s\<lparr>c_text := m\<rparr>) pre n post bs syms ns lab"
  shows "acts T (thenM (edit f) m') r s pre n post bs syms ns lab"
  using assms edit_step [of s "c_text s" f m] by (auto simp: acts_def thenM_step moves_text)

section \<open>Expressions\<close>

lemma acts_expression:
  assumes "exp_ok T ns e" "source e src" "in_pass T s" "vars_are s ns" "c_text s = pre @ src @ NUL # post"
  shows "acts T (compile_expression (length pre)) () s pre (length src + 1) post (code T ns e) [] (TEMP # ns) (lab_id s)"
proof -
  have e: "readable e" "starred e" "known T ns e" "length ns + need e \<le> 1024" using assms(1) by (simp_all add: exp_ok_def)
  obtain t w where t: "compile_expression (length pre) s = Inr ((), t)" "c_text t = pre @ w @ post" "length w = length src + 1"
    "moved (s\<lparr>c_text := c_text t\<rparr>) t (code T ns e) (TEMP # ns)"
    using compile_expression_run [OF e(1,2) assms(2,5,3,4) e(3,4)] by blast
  have "moves T s t (code T ns e) [] (TEMP # ns) (lab_id s)"
    using moved_moves [OF t(4)] assms(3) by (simp add: in_pass_text moves_text)
  with t(1-3) show ?thesis unfolding acts_def by blast
qed

text \<open>What the place of an action leaves, for the next action.\<close>

lemma moves_state: "moves T s t bs syms ns lab \<Longrightarrow> in_pass T t \<and> vars_are t ns \<and> lab_id t = lab"
  by (simp add: moves_def)

lemma acts_then_does:
  assumes "acts T m x s pre n post bs xs ns lab" "does T m' r ns cs ms"
  shows "acts T (thenM m m') r s pre n post (bs @ cs) xs ms lab"
proof -
  have "acts T (thenM m m') r s pre n post (bs @ cs) (xs @ []) ms lab"
  proof (rule acts_then [OF assms(1)])
    fix t w
    assume "c_text t = pre @ w @ post" "length w = n" "moves T s t bs xs ns lab"
    then show "acts T m' r t pre n post cs [] ms lab" using acts_does [OF assms(2)] moves_state by blast
  qed
  then show ?thesis by simp
qed

text \<open>An assignment: the compiler finds the first \<open>=\<close>.\<close>

lemma address_does:
  assumes x: "name_ok x" "atom_known T ns (Variable x)" and ns: "length ns < 1024" and n: "0 < n"
  shows "does T (eval_expr n (pre @ x @ post) (length pre) (length pre + length x) True) () ns (address_code T ns x) (TEMP # ns)"
proof (cases "position x ns")
  case None
  then have "x \<notin> set ns" by (auto simp: position_def split: if_splits)
  with x(2) obtain l where "location T x = Some l" by auto
  from name_does [OF x(1) \<open>x \<notin> set ns\<close> this ns n] this None show ?thesis by (simp add: address_code_def)
next
  case (Some p)
  have "does T (doM [emits [0x89, 0xe0], emit 0x05, emit32 (4 * of_nat p), emit 0x50, push_temp]) () ns
      ([0x89, 0xe0] @ [0x05] @ bytes32 (4 * of_nat p) @ [0x50] @ [] @ []) (TEMP # ns)"
    by (rule does_row does_emit does_push_temp [OF ns])+
  then have "does T (variable_operand (pre @ x @ post) (length pre) (length pre + length x) True) () ns (address_code T ns x) (TEMP # ns)"
    unfolding variable_operand_def
    by (intro does_get [where v = "Inr (Some (int p))"] does_lift [OF refl])
      (use Some in \<open>auto simp: stack2_window address_code_def\<close>)
  then show ?thesis unfolding eval_name [OF x(1) n] .
qed

lemma squeeze_assign:
  assumes "name_ok x" "readable e" "source e src"
  shows "squeeze (x @ blanks j @ CHR ''='' # src) = x @ CHR ''='' # plain_text e"
proof -
  obtain k ks where src: "length ks = length (tokens e)" "src = replicate k (CHR '' '') @ spaced (tokens e) ks"
    using assms(3) by (auto simp: source_def)
  have "src = [] \<or> apart_from (hd src)" using first_apart [OF assms(2) src(1), of k "[]"] by (simp add: src(2))
  then have "squeeze (CHR ''='' # src) = CHR ''='' # squeeze src"
    by (simp add: squeeze_def fuse_before is_whitespace_c_def)
  moreover have "\<forall>c\<in>set x. lone c \<and> \<not> is_whitespace_c c" using name_chars [OF assms(1)] operand_char_lone by blast
  ultimately show ?thesis using squeeze_source [OF assms(2,3)] by (simp add: squeeze_token blanks_def)
qed

lemma fix2_assign:
  assumes "name_ok x" "readable e" "starred e"
  shows "fix_operations2 (pre @ (x @ CHR ''='' # plain_text e) @ NUL # post) (length pre) False =
    Inr (pre @ (x @ CHR ''='' # exp_text e) @ NUL # post)"
proof -
  have x: "x \<noteq> []" "\<forall>c\<in>set x. operand_char c" using name_chars [OF assms(1)] by simp_all
  have "fix_operations2 (pre @ (x @ CHR ''='' # plain_text e) @ NUL # post) (length pre) False =
      fix_operations2 ((pre @ x) @ CHR ''='' # plain_text e @ NUL # post) (length (pre @ x)) (is_id (last x))"
    using fix2_operand [OF x(2,1), of pre "CHR ''='' # plain_text e @ NUL # post" False] by simp
  also have "\<dots> = fix_operations2 ((pre @ x @ ''='') @ plain_text e @ [] @ NUL # post) (length (pre @ x @ ''='')) False"
    using fix2_step [of "CHR ''=''" "is_id (last x)" "pre @ x" "plain_text e @ NUL # post"] by (simp add: is_id_def schar_def uchar_def)
  also have "\<dots> = Inr (pre @ (x @ CHR ''='' # exp_text e) @ NUL # post)"
  proof -
    let ?pre = "pre @ x @ ''=''"
    have "fix_operations2 (?pre @ exp_text e @ NUL # post) (length ?pre + length (exp_text e)) b = Inr (?pre @ exp_text e @ NUL # post)" for b
      by (subst fix_operations2.simps) (simp add: rd_def nth_append)
    with fix2_exp [OF assms(2,3), of "[]" ?pre post False] show ?thesis by simp
  qed
  finally show ?thesis .
qed

lemma forward_assign:
  assumes "name_ok x"
  shows "pivot_forward (pre @ x @ CHR ''='' # v @ post) (length pre) (length pre + length x + Suc (length v)) ''='' = Inr (Some (length pre + length x))"
proof -
  have "\<forall>c\<in>set x. clean ''='' c" using name_chars [OF assms] operand_char_clean [of _ 0] by (simp add: pivots_at_def levels_def)
  from forward_clean [OF this, of pre "length pre + length x + Suc (length v)" "CHR ''='' # v @ post"]
  moreover have "pivot_forward (pre @ x @ CHR ''='' # v @ post) (length pre + length x) (length pre + length x + Suc (length v)) ''='' =
      Inr (Some (length pre + length x))"
    by (subst pivot_forward.simps) (simp add: rd_def nth_append is_in_def)
  ultimately show ?thesis by simp
qed

lemma found_true: "bindM (thenM m (retM True)) (\<lambda>found. if found then retM () else m') = m"
  by (auto simp: fun_eq_iff thenM_def bindM_def retM_def split: sum.splits)

lemma eval_assign:
  assumes "name_ok x"
  shows "eval_expr (Suc n) (pre @ (x @ CHR ''='' # v) @ post) (length pre) (length pre + length (x @ CHR ''='' # v)) False s =
    run_assign (eval_expr n (pre @ (x @ CHR ''='' # v) @ post)) (length pre) (length pre + length x) (length pre + length (x @ CHR ''='' # v)) False s"
proof -
  obtain c u where x: "x = c # u" using assms by (cases x) (auto simp: name_ok_def)
  have c: "c \<noteq> CHR ''(''" using name_chars [OF assms] operand_char_inert [of c] by (auto simp: x)
  let ?m = "pre @ x @ CHR ''='' # v @ post" and ?b = "length pre" and ?fin = "length pre + length x + Suc (length v)"
  let ?ev = "eval_expr n ?m" and ?op = "length pre + length x"
  have rd: "rd ?m ?op = Inr (CHR ''='')" "rd ?m ?b = Inr c" by (simp_all add: x rd_def nth_append)
  obtain ls where ls: "levels = (''='', 0) # ls" by (simp add: levels_def)
  have run: "run_eval_expr ?ev ?m ?b ?op ?fin False = thenM (run_assign ?ev ?b ?op ?fin False) (retM True)"
    by (simp add: run_eval_expr_def rd(1) bindM_eval fun_eq_iff)
  have parse: "parse_expr ?ev ?m ?b ?fin ''='' 0 False = thenM (run_assign ?ev ?b ?op ?fin False) (retM True)"
    by (simp add: parse_expr_def forward_assign [OF assms, simplified] run [simplified] bindM_eval fun_eq_iff)
  have "eval_expr (Suc n) ?m ?b ?fin False s = parse_levels levels ?ev ?m ?b ?fin False s"
    using rd(2) c by (simp add: bindM_eval)
  also have "\<dots> = run_assign ?ev ?b ?op ?fin False s"
    unfolding ls parse_levels.simps parse found_true ..
  finally show ?thesis by (simp del: eval_expr.simps add: add.assoc)
qed

lemma moved_char_op: "moved s t bs ns \<Longrightarrow> char_op t = char_op s"
  by (auto simp: moved_def emit_all_def)

lemma assign_run:
  assumes x: "name_ok x" "atom_known T ns (Variable x)" and e: "exp_ok T ns e" and ns: "length ns + 2 \<le> 1024" and s: "in_pass T s" "vars_are s ns" "\<not> char_op s"
    and n: "length (exp_text e) < n"
  shows "\<exists>t. eval_expr (Suc n) (pre @ (x @ CHR ''='' # exp_text e) @ post) (length pre) (length pre + length (x @ CHR ''='' # exp_text e)) False s = Inr ((), t) \<and>
    moved s t (code T ns e @ address_code T (TEMP # ns) x @ [0x58, 0x59, 0x89, 0x08, 0x51]) (TEMP # ns)"
proof -
  let ?m = "pre @ (x @ CHR ''='' # exp_text e) @ post" and ?fin = "length pre + length (x @ CHR ''='' # exp_text e)"
  let ?ev = "eval_expr n ?m"
  have e': "readable e" "known T ns e" "length ns + need e \<le> 1024" using e by (simp_all add: exp_ok_def)
  have rhs: "does T (?ev (length pre + length x + 1) ?fin False) () ns (code T ns e) (TEMP # ns)"
    using eval_does [OF e', of n "pre @ x @ ''=''" post] n by (simp add: add.assoc)
  have n0: "0 < n" and ns': "length ns < 1024" using n ns by simp_all
  have "atom_known T (TEMP # ns) (Variable x)" using x(2) by auto
  from address_does [OF x(1) this _ n0, of pre "CHR ''='' # exp_text e @ post"] ns
  have lhs: "does T (?ev (length pre) (length pre + length x) True) () (TEMP # ns) (address_code T (TEMP # ns) x) (TEMP # TEMP # ns)"
    by simp
  let ?row1 = "[?ev (length pre + length x + 1) ?fin False, ?ev (length pre) (length pre + length x) True, emit 0x58, pop_var_c, emit 0x59, pop_var_c]"
  have one: "does T (doM ?row1) () ns (code T ns e @ address_code T (TEMP # ns) x @ [0x58] @ [] @ [0x59] @ [] @ []) ns"
    by (rule does_row rhs lhs does_emit does_pop)+
  let ?row2 = "[emits [0x89, 0x08], push_temp, emit 0x51]"
  have two: "does T (doM ?row2) () ns ([0x89, 0x08] @ [] @ [0x51] @ []) (TEMP # ns)"
    by (rule does_row does_emit does_push_temp [OF ns'])+
  obtain t where t: "doM ?row1 s = Inr ((), t)" "moved s t (code T ns e @ address_code T (TEMP # ns) x @ [0x58] @ [] @ [0x59] @ [] @ []) ns"
    using one s(1,2) unfolding does_def by blast
  obtain u where u: "doM ?row2 t = Inr ((), u)" "moved t u ([0x89, 0x08] @ [] @ [0x51] @ []) (TEMP # ns)"
    using two moved_in_pass [OF t(2) s(1)] unfolding does_def by blast
  let ?store = "bindM (getM char_op) (\<lambda>c. if c then thenM (modM (\<lambda>s. s\<lparr>char_op := False\<rparr>)) (emits [0x88, 0x08]) else emits [0x89, 0x08])"
  have "\<not> char_op t" using moved_char_op [OF t(2)] s(3) by simp
  then have "?store t = emits [0x89, 0x08] t" by (simp add: bindM_eval)
  then have "doM (?store # [push_temp, emit 0x51]) t = Inr ((), u)" using u(1) by (simp add: thenM_def bindM_eval)
  moreover have "run_assign ?ev (length pre) (length pre + length x) ?fin False = doM (?row1 @ ?store # [push_temp, emit 0x51])"
    by (simp add: run_assign_def)
  ultimately have "run_assign ?ev (length pre) (length pre + length x) ?fin False s = Inr ((), u)"
    using t(1) by (simp only: doM_append thenM_step)
  with moved_trans [OF t(2) u(2)] show ?thesis unfolding eval_assign [OF x(1)] by auto
qed

lemma length_plain_text: "length (plain_text e) = length (exp_text e)"
  by (induction e) simp_all

lemma acts_assignment:
  assumes x: "name_ok x" "atom_known T ns (Variable x)" and e: "exp_ok T ns e" "source e src" and ns: "length ns + 2 \<le> 1024"
    and s: "in_pass T s" "vars_are s ns" "\<not> char_op s" and on: "c_text s = pre @ (x @ blanks j @ CHR ''='' # src) @ NUL # post"
  shows "acts T (compile_expression (length pre)) () s pre (length (x @ blanks j @ CHR ''='' # src) + 1) post
    (code T ns e @ address_code T (TEMP # ns) x @ [0x58, 0x59, 0x89, 0x08, 0x51]) [] (TEMP # ns) (lab_id s)"
proof -
  let ?a = "x @ blanks j @ CHR ''='' # src" and ?q = "x @ CHR ''='' # exp_text e"
  have e': "readable e" "starred e" using e(1) by (simp_all add: exp_ok_def)
  have nul: "NUL \<notin> set ?a" using operand_inert [of x] name_chars [OF x(1)] source_chars [OF e'(1) e(2)] by (auto simp: inert_def)
  have fuse: "fix_operations (c_text s) (length pre) = Inr (pre @ fuse_text ?a @ NUL # post)"
    unfolding on by (rule fix_operations_text [OF nul])
  obtain g where spaces: "remove_spaces_c (pre @ fuse_text ?a @ NUL # post) (length pre) None = Inr (pre @ (x @ CHR ''='' # plain_text e) @ NUL # g @ post)"
    and g: "length g + length (x @ CHR ''='' # plain_text e) = length ?a"
    using remove_spaces_text [OF fuse_no_nul [OF nul], of pre post] squeeze_assign [OF x(1) e'(1) e(2), of j]
    by (auto simp: squeeze_def length_fuse_text)
  let ?m = "pre @ ?q @ NUL # g @ post" and ?fin = "length pre + length ?q"
  have calls: "fix_operations2 (pre @ (x @ CHR ''='' # plain_text e) @ NUL # g @ post) (length pre) False = Inr ?m"
    by (rule fix2_assign [OF x(1) e'])
  have "NUL \<notin> set ?q" using operand_inert [of x] name_chars [OF x(1)] texts_no_nul [OF e'(1)] by (auto simp: inert_def)
  then have fin: "string_end_at ?m (length pre) = Inr ?fin" by (rule string_end_text)
  let ?s = "s\<lparr>c_text := ?m\<rparr>"
  have "\<exists>t. eval_expr (Suc (length ?m)) (pre @ (x @ CHR ''='' # exp_text e) @ NUL # g @ post) (length pre) ?fin False ?s = Inr ((), t) \<and>
      moved ?s t (code T ns e @ address_code T (TEMP # ns) x @ [0x58, 0x59, 0x89, 0x08, 0x51]) (TEMP # ns)"
    by (rule assign_run [OF x e(1) ns]) (use s in \<open>simp_all add: in_pass_text vars_are_text\<close>)
  then obtain t where t: "eval_expr (length ?m + 1) ?m (length pre) ?fin False ?s = Inr ((), t)"
      "moved ?s t (code T ns e @ address_code T (TEMP # ns) x @ [0x58, 0x59, 0x89, 0x08, 0x51]) (TEMP # ns)" by auto
  have m: "c_text t = ?m" using t(2) by (auto simp: moved_def emit_all_def)
  have "compile_expression (length pre) s = Inr ((), t)"
    using fuse spaces calls fin t(1) by (simp add: compile_expression_def edit_def bindM_step thenM_step del: eval_expr.simps)
  moreover have "moves T s t (code T ns e @ address_code T (TEMP # ns) x @ [0x58, 0x59, 0x89, 0x08, 0x51]) [] (TEMP # ns) (lab_id s)"
    using moved_moves [OF t(2)] s(1) by (simp add: in_pass_text moves_text)
  moreover have "length (?q @ NUL # g) = length ?a + 1" using g by (simp add: length_plain_text)
  ultimately show ?thesis unfolding acts_def using m by (intro exI [of _ t] exI [of _ "?q @ NUL # g"]) simp
qed

section \<open>Statements\<close>

lemma isstrpref_text:
  "NUL \<notin> set x \<Longrightarrow> isstrpref x (pre @ w @ NUL # post) (length pre) = Inr (if prefix x w then Some (length pre + length x) else None)"
proof (induction x arbitrary: pre w)
  case (Cons c x)
  show ?case
  proof (cases w)
    case Nil
    then show ?thesis using Cons.prems by auto
  next
    case (Cons d u)
    with Cons.IH [of "pre @ [d]" u] Cons.prems show ?thesis by simp
  qed
qed simp

lemma peek_run: "peek_text p s = (case rd (c_text s) p of Inl e \<Rightarrow> Inl e | Inr c \<Rightarrow> Inr (c, s))"
  by (simp add: peek_text_def bindM_eval liftM_def)

text \<open>A statement is cut out of the text and trimmed; then its first characters decide.\<close>

definition statement_at :: "nat \<Rightarrow> (cc, unit) M" where
  "statement_at p = bindM (getM c_text) (\<lambda>m. bindM (liftM (isstrpref ''return'' m p)) (\<lambda>q. case q of
       Some q \<Rightarrow> return_statement q
     | None \<Rightarrow> bindM (liftM (isstrpref ''int'' m p)) (\<lambda>q. case q of
         Some q \<Rightarrow> int_statement (q + 1)
       | None \<Rightarrow> expression_statement p)))"

lemma statement_trimmed:
  assumes on: "c_text s = pre @ t @ c # post" "t = blanks i @ w @ blanks j"
    and w: "w \<noteq> []" "\<not> is_whitespace_c (hd w)" "\<not> is_whitespace_c (last w)" "NUL \<notin> set w"
    and acts: "\<And>g. length g = i + j \<Longrightarrow> acts T (statement_at (length pre)) () (s\<lparr>c_text := pre @ w @ NUL # g @ post\<rparr>) pre (length w + 1) (g @ post) bs syms ns lab"
  shows "acts T (compile_statement (length pre) (length pre + length t)) () s pre (length t + 1) post bs syms ns lab"
proof -
  have poke: "wr (c_text s) (length pre + length t) NUL = Inr (pre @ t @ NUL # post)"
    unfolding on(1) using wr_split [of "length pre + length t" "pre @ t" c post NUL] by simp
  obtain g where g: "trimstr_c (pre @ t @ NUL # post) (length pre) = Inr (pre @ w @ NUL # g @ post)" "length g = i + j"
    using trimstr_text [of w j pre i post] w unfolding on(2) by auto
  obtain d u where d: "w = d # u" "d \<noteq> NUL" using w(1,4) by (cases w) auto
  let ?s = "s\<lparr>c_text := pre @ w @ NUL # g @ post\<rparr>"
  have cut: "doM [poke_text (length pre + length t) NUL, edit (\<lambda>m. trimstr_c m (length pre))] s = Inr ((), ?s)"
    using poke g(1) by (simp add: poke_text_def edit_def bindM_step thenM_step)
  have peek: "peek_text (length pre) ?s = Inr (d, ?s)" by (simp add: peek_run d(1))
  have "compile_statement (length pre) (length pre + length t) s = statement_at (length pre) ?s"
    unfolding compile_statement_def statement_at_def
    by (rule trans, rule thenM_step, rule cut, rule trans, rule bindM_step, rule peek) (simp only: d(2) if_False)
  moreover have "acts T (statement_at (length pre)) () ?s pre (length t + 1) post bs syms ns lab"
    by (rule acts_within [where u = "[]" and v = g]) (use acts [OF g(2)] g(2) on(2) in \<open>simp_all add: blanks_simps\<close>)
  ultimately show ?thesis by (simp add: acts_def moves_text)
qed

lemma statement_kind:
  assumes "c_text s = pre @ w @ NUL # post"
  shows "prefix ''return'' w \<Longrightarrow> statement_at (length pre) s = return_statement (length pre + 6) s"
    "\<not> prefix ''return'' w \<Longrightarrow> prefix ''int'' w \<Longrightarrow> statement_at (length pre) s = int_statement (length pre + 4) s"
    "\<not> prefix ''return'' w \<Longrightarrow> \<not> prefix ''int'' w \<Longrightarrow> statement_at (length pre) s = expression_statement (length pre) s"
  using isstrpref_text [of "''return''" pre w post] isstrpref_text [of "''int''" pre w post]
  by (simp_all add: statement_at_def bindM_eval assms eval_nat_numeral del: isstrpref.simps)

lemma acts_state: "m s = m' s \<Longrightarrow> acts T m' r s pre n post bs syms ns lab \<Longrightarrow> acts T m r s pre n post bs syms ns lab"
  by (simp add: acts_def)

lemma acts_get: "acts T (f (g s)) r s pre n post bs syms ns lab \<Longrightarrow> acts T (bindM (getM g) f) r s pre n post bs syms ns lab"
  by (simp add: acts_def bindM_eval)

lemma acts_assert: "P \<Longrightarrow> acts T m r s pre n post bs syms ns lab \<Longrightarrow> acts T (thenM (assertM P) m) r s pre n post bs syms ns lab"
  by (simp add: acts_def thenM_def bindM_eval)

lemma acts_peek:
  "rd (c_text s) p = Inr c \<Longrightarrow> acts T (f c) r s pre n post bs syms ns lab \<Longrightarrow> acts T (bindM (peek_text p) f) r s pre n post bs syms ns lab"
  by (simp add: acts_def bindM_eval peek_run)

lemma acts_lift:
  "v = Inr x \<Longrightarrow> acts T (f x) r s pre n post bs syms ns lab \<Longrightarrow> acts T (bindM (liftM v) f) r s pre n post bs syms ns lab"
  by (simp add: acts_def bindM_eval)

lemma return_at:
  assumes e: "exp_ok T ns e" "source e src" and s: "in_pass T s" "vars_are s ns" "1 < c_block_depth s" "ret_depth s = int fd" "fd \<le> length ns"
    and on: "c_text s = pre @ (''return '' @ src) @ NUL # post"
  shows "acts T (statement_at (length pre)) () s pre (length (''return '' @ src) + 1) post (simple_code T fd ns (Return e)) [] ns (lab_id s)"
proof -
  let ?pre = "pre @ ''return ''"
  have "acts T (compile_expression (length ?pre)) () s ?pre (length src + 1) post (code T ns e) [] (TEMP # ns) (lab_id s)"
    by (rule acts_expression [OF e s(1,2)]) (simp add: on)
  then have "acts T (compile_expression (length ?pre)) () s pre (length (''return '' @ src) + 1) post (code T ns e) [] (TEMP # ns) (lab_id s)"
    by (rule acts_within [where u = "''return ''" and v = "[]", simplified]) simp
  moreover have "does T (doM [emit 0x58, pop_var_c]) () (TEMP # ns) ([0x58] @ [] @ []) ns" by (rule does_row does_emit does_pop)+
  ultimately have first: "acts T (doM [compile_expression (length ?pre), emit 0x58, pop_var_c]) () s pre (length (''return '' @ src) + 1) post
      (code T ns e @ [0x58] @ [] @ []) [] ns (lab_id s)"
    unfolding doM.simps(2) [of "compile_expression (length ?pre)"] by (rule acts_then_does)
  let ?k = "4 * of_nat (length ns - fd) :: i32"
  have "acts T (thenM (doM [compile_expression (length ?pre), emit 0x58, pop_var_c])
      (bindM (getM (\<lambda>s. c_stack_depth s - ret_depth s)) (\<lambda>n. doM [emits [0x81, 0xc4], emit32 (of_int (4 * n)), emit 0xc3]))) () s pre
      (length (''return '' @ src) + 1) post ((code T ns e @ [0x58] @ [] @ []) @ ([0x81, 0xc4] @ bytes32 ?k @ [0xc3] @ [])) ([] @ []) ns (lab_id s)"
  proof (rule acts_then [OF first], rule acts_get)
    fix t w
    assume t: "c_text t = pre @ w @ post" "length w = length (''return '' @ src) + 1" "moves T s t (code T ns e @ [0x58] @ [] @ []) [] ns (lab_id s)"
    have "c_stack_depth t - ret_depth t = int (length ns - fd)" using t(3) s(4,5) by (simp add: moves_def vars_are_def of_nat_diff)
    then have k: "of_int (4 * (c_stack_depth t - ret_depth t)) = ?k" by simp
    have "does T (doM [emits [0x81, 0xc4], emit32 (of_int (4 * (c_stack_depth t - ret_depth t))), emit 0xc3]) () ns
        ([0x81, 0xc4] @ bytes32 ?k @ [0xc3] @ []) ns"
      unfolding k by (rule does_row does_emit)+
    from acts_does [OF this _ _ t(1,2)] t(3)
    show "acts T (doM [emits [0x81, 0xc4], emit32 (of_int (4 * (c_stack_depth t - ret_depth t))), emit 0xc3]) () t pre
      (length (''return '' @ src) + 1) post ([0x81, 0xc4] @ bytes32 ?k @ [0xc3] @ []) [] ns (lab_id s)"
      by (auto simp: moves_def)
  qed
  then have both: "acts T (thenM (doM [compile_expression (length ?pre), emit 0x58, pop_var_c])
      (bindM (getM (\<lambda>s. c_stack_depth s - ret_depth s)) (\<lambda>n. doM [emits [0x81, 0xc4], emit32 (of_int (4 * n)), emit 0xc3]))) () s pre
      (length (''return '' @ src) + 1) post (simple_code T fd ns (Return e)) [] ns (lab_id s)"
    by (rule acts_eq) simp_all
  have rd: "rd (c_text s) (length pre + 6) = Inr (CHR '' '')" and at: "length pre + 6 + 1 = length ?pre" "(CHR '' '' = NUL) = False"
    by (simp_all add: on rd_def nth_append)
  have "acts T (return_statement (length pre + 6)) () s pre (length (''return '' @ src) + 1) post (simple_code T fd ns (Return e)) [] ns (lab_id s)"
    unfolding return_statement_def
    by (rule acts_get, rule acts_assert [OF s(3)], rule acts_peek [OF rd]) (simp only: at if_False, rule both)
  then show ?thesis by (rule acts_state [rotated]) (rule statement_kind(1) [OF on], simp)
qed

lemma does_emitted_row:
  "does T (doM [emits bs, pop_var_c]) () (x # ns) (bs @ [] @ []) ns"
  by (rule does_row does_emit does_pop)+

lemma expression_at:
  assumes acts: "acts T (compile_expression (length pre)) () (s\<lparr>char_op := False\<rparr>) pre (length w + 1) post bs [] (TEMP # ns) (lab_id s)"
    and s: "1 < c_block_depth s" and on: "c_text s = pre @ w @ NUL # post" and w: "no_keyword w"
  shows "acts T (statement_at (length pre)) () s pre (length w + 1) post (bs @ [0x83, 0xc4, 0x04]) [] ns (lab_id s)"
proof -
  let ?s = "s\<lparr>char_op := False\<rparr>"
  have "acts T (doM [compile_expression (length pre), emits [0x83, 0xc4, 0x04], pop_var_c]) () ?s pre (length w + 1) post
      (bs @ [0x83, 0xc4, 0x04] @ [] @ []) [] ns (lab_id s)"
    unfolding doM.simps(2) [of "compile_expression (length pre)"] by (rule acts_then_does [OF acts does_emitted_row])
  moreover have "moves T ?s t bs syms ns lab = moves T s t bs syms ns lab" for t bs syms ns lab by (simp add: moves_def entries_def)
  moreover have "isstrpref ''char'' (c_text s) (length pre) = Inr None"
    using isstrpref_text [of "''char''" pre w post] w by (simp add: on no_keyword_def del: isstrpref.simps)
  then have "expression_statement (length pre) s = doM [compile_expression (length pre), emits [0x83, 0xc4, 0x04], pop_var_c] ?s"
    using s by (simp add: expression_statement_def bindM_eval thenM_step del: isstrpref.simps)
  ultimately have "acts T (expression_statement (length pre)) () s pre (length w + 1) post (bs @ [0x83, 0xc4, 0x04]) [] ns (lab_id s)"
    by (simp add: acts_def)
  then show ?thesis by (rule acts_state [rotated]) (rule statement_kind(3) [OF on], use w in \<open>simp_all add: no_keyword_def\<close>)
qed

text \<open>A declaration: its name is trimmed.\<close>

lemma int_at:
  assumes x: "name_ok x" and on: "c_text s = pre @ (''int '' @ blanks j @ x) @ NUL # post"
    and acts: "\<And>g. acts T (bindM (getM c_block_depth) (\<lambda>bd.
        if bd = 1 then thenM (bindM (getM current_loc) (add_symbol_c x)) (emit32 0) else doM [push_var_c x, emits [0x83, 0xec, 0x04]])) ()
        (s\<lparr>c_text := pre @ (''int '' @ x @ NUL # g) @ post\<rparr>) pre (length x + 5 + length g) post bs syms ns lab"
  shows "acts T (statement_at (length pre)) () s pre (length (''int '' @ blanks j @ x) + 1) post bs syms ns lab"
proof -
  let ?pre = "pre @ ''int ''"
  have x': "x \<noteq> []" "\<forall>c\<in>set x. \<not> is_whitespace_c c" "NUL \<notin> set x"
    using name_chars [OF x] operand_char_inert by auto
  obtain g where g: "trimstr_c (?pre @ blanks j @ x @ blanks 0 @ NUL # post) (length ?pre) = Inr (?pre @ x @ NUL # g @ post)" "length g = j"
    using trimstr_text [of x 0 ?pre j post] x' by auto
  let ?s = "s\<lparr>c_text := ?pre @ x @ NUL # g @ post\<rparr>"
  have cut: "edit (\<lambda>m. trimstr_c m (length ?pre)) s = Inr ((), ?s)"
    by (rule edit_step [OF on]) (use g(1) in \<open>simp add: blanks_simps\<close>)
  have name: "text_at (length ?pre) ?s = Inr (x, ?s)"
    using cstr_split [OF x'(3), of "length ?pre" ?pre "g @ post"] terminated_split [of "length ?pre" ?pre x "g @ post"]
    by (simp add: text_at_def bindM_eval)
  have "int_statement (length ?pre) s = (bindM (getM c_block_depth) (\<lambda>bd.
        if bd = 1 then thenM (bindM (getM current_loc) (add_symbol_c x)) (emit32 0) else doM [push_var_c x, emits [0x83, 0xec, 0x04]])) ?s"
    unfolding int_statement_def by (rule trans, rule thenM_step, rule cut, rule trans, rule bindM_step, rule name, rule refl)
  moreover have "statement_at (length pre) s = int_statement (length pre + 4) s"
    by (rule statement_kind(2) [OF on]) simp_all
  ultimately have eq: "statement_at (length pre) s = (bindM (getM c_block_depth) (\<lambda>bd.
        if bd = 1 then thenM (bindM (getM current_loc) (add_symbol_c x)) (emit32 0) else doM [push_var_c x, emits [0x83, 0xec, 0x04]])) ?s"
    by (simp add: eval_nat_numeral)
  have "length x + 5 + length g = length (''int '' @ blanks j @ x) + 1" by (simp add: g(2) blanks_simps)
  with acts [of g] show ?thesis by (simp add: acts_def eq moves_text)
qed

lemma state_simps:
  "in_pass T (s\<lparr>c_text := m\<rparr>) = in_pass T s" "in_pass T (s\<lparr>char_op := b\<rparr>) = in_pass T s" "in_pass T (s\<lparr>c_block_depth := d\<rparr>) = in_pass T s"
  "in_pass T (s\<lparr>lab_id := k\<rparr>) = in_pass T s" "vars_are (s\<lparr>lab_id := k\<rparr>) ns = vars_are s ns"
  "vars_are (s\<lparr>c_text := m\<rparr>) ns = vars_are s ns" "vars_are (s\<lparr>char_op := b\<rparr>) ns = vars_are s ns" "vars_are (s\<lparr>c_block_depth := d\<rparr>) ns = vars_are s ns"
  by (auto simp: in_pass_def vars_are_def names_c_def split: option.splits)

lemma source_blanks: "source e w \<Longrightarrow> source e (blanks k @ w)"
proof -
  assume "source e w"
  then obtain i ks where w: "length ks = length (tokens e)" "w = replicate i (CHR '' '') @ spaced (tokens e) ks" by (auto simp: source_def)
  show ?thesis unfolding source_def
    by (rule exI [of _ "k + i"], rule exI [of _ ks]) (simp add: w blanks_def replicate_add)
qed

lemma acts_simple:
  assumes ok: "simple_ok T ns st" "simple_text st t" and s: "in_pass T s" "vars_are s ns" "1 < c_block_depth s" "ret_depth s = int fd" "fd \<le> length ns"
    and on: "c_text s = pre @ t @ c # post"
  shows "acts T (compile_statement (length pre) (length pre + length t)) () s pre (length t + 1) post (simple_code T fd ns st) [] (simple_names ns st) (lab_id s)"
proof (cases st)
  case (Return e)
  obtain i src where src: "source e src" "t = blanks i @ ''return '' @ src" and e: "exp_ok T ns e" using ok by (auto simp: Return)
  have e': "readable e" using e by (simp add: exp_ok_def)
  obtain k w j where w: "src = blanks k @ w @ blanks j" "source e w" "w \<noteq> []" "\<not> is_whitespace_c (last w)"
    using source_trim [OF e' src(1)] by metis
  note sw = source_blanks [OF w(2), of k]
  have "NUL \<notin> set (''return '' @ blanks k @ w)" using source_chars [OF e' sw] by (simp add: inert_def)
  show ?thesis unfolding Return simple_names.simps
  proof (rule statement_trimmed [OF on, of i "''return '' @ blanks k @ w" j])
    show "t = blanks i @ (''return '' @ blanks k @ w) @ blanks j" by (simp add: src(2) w(1))
    fix g :: string
    have "acts T (statement_at (length pre)) () (s\<lparr>c_text := pre @ (''return '' @ blanks k @ w) @ NUL # g @ post\<rparr>) pre
        (length (''return '' @ blanks k @ w) + 1) (g @ post) (simple_code T fd ns (Return e)) [] ns (lab_id (s\<lparr>c_text := pre @ (''return '' @ blanks k @ w) @ NUL # g @ post\<rparr>))"
      by (rule return_at [OF e sw]) (use s in \<open>simp_all add: in_pass_text vars_are_text\<close>)
    then show "acts T (statement_at (length pre)) () (s\<lparr>c_text := pre @ (''return '' @ blanks k @ w) @ NUL # g @ post\<rparr>) pre
        (length (''return '' @ blanks k @ w) + 1) (g @ post) (simple_code T fd ns (Return e)) [] ns (lab_id s)" by simp
  qed (use w \<open>NUL \<notin> _\<close> in \<open>simp_all add: is_whitespace_c_def\<close>)
next
  case (Declare x)
  obtain i j k where t: "t = blanks i @ ''int '' @ blanks j @ x @ blanks k" using ok(2) by (auto simp: Declare)
  have x: "name_ok x" "x \<noteq> []" "length x < MAX_ID_LEN" "length ns < 1024" using ok(1) by (auto simp: Declare plain_name_def name_ok_def)
  have xc: "\<forall>c\<in>set x. \<not> is_whitespace_c c" "NUL \<notin> set x" using name_chars [OF x(1)] operand_char_inert by auto
  show ?thesis unfolding Declare simple_names.simps
  proof (rule statement_trimmed [OF on, of i "''int '' @ blanks j @ x" k])
    show "t = blanks i @ (''int '' @ blanks j @ x) @ blanks k" by (simp add: t)
    fix g :: string
    let ?s = "s\<lparr>c_text := pre @ (''int '' @ blanks j @ x) @ NUL # g @ post\<rparr>"
    show "acts T (statement_at (length pre)) () ?s pre (length (''int '' @ blanks j @ x) + 1) (g @ post) (simple_code T fd ns (Declare x)) [] (x # ns) (lab_id s)"
    proof (rule int_at [OF x(1)], simp, rule acts_get)
      fix h :: string
      let ?t = "?s\<lparr>c_text := pre @ (''int '' @ x @ NUL # h) @ g @ post\<rparr>"
      have "does T (doM [push_var_c x, emits [0x83, 0xec, 0x04]]) () ns ([] @ [0x83, 0xec, 0x04] @ []) (x # ns)"
        by (rule does_row does_emit does_push [OF x(4,2,3)])+
      then have "acts T (doM [push_var_c x, emits [0x83, 0xec, 0x04]]) () ?t pre (length x + 5 + length h) (g @ post)
          ([] @ [0x83, 0xec, 0x04] @ []) [] (x # ns) (lab_id ?t)"
        by (rule acts_does [where w = "''int '' @ x @ NUL # h"]) (use s in \<open>simp_all add: in_pass_text vars_are_text eval_nat_numeral\<close>)
      then show "acts T (if c_block_depth ?t = 1 then thenM (bindM (getM current_loc) (add_symbol_c x)) (emit32 0)
          else doM [push_var_c x, emits [0x83, 0xec, 0x04]]) () ?t pre (length x + 5 + length h) (g @ post) (simple_code T fd ns (Declare x)) [] (x # ns) (lab_id s)"
        using s(3) by simp
    qed
  qed (use x xc in \<open>simp_all add: is_whitespace_c_def\<close>)
next
  case (Assign x e)
  obtain i j src where src: "source e src" "t = blanks i @ x @ blanks j @ CHR ''='' # src" using ok(2) by (auto simp: Assign)
  have x: "name_ok x" "x \<noteq> []" "atom_known T ns (Variable x)" "no_keyword x" "length ns + 2 \<le> 1024" and e: "exp_ok T ns e" "readable e"
    using ok(1) by (auto simp: Assign plain_name_def name_ok_def exp_ok_def)
  have xc: "\<forall>c\<in>set x. \<not> is_whitespace_c c" "NUL \<notin> set x" using name_chars [OF x(1)] operand_char_inert by auto
  obtain k w l where w: "src = blanks k @ w @ blanks l" "source e w" "w \<noteq> []" "\<not> is_whitespace_c (last w)"
    using source_trim [OF e(2) src(1)] by metis
  note sw = source_blanks [OF w(2), of k]
  let ?w = "x @ blanks j @ CHR ''='' # blanks k @ w"
  have nul: "NUL \<notin> set ?w" using source_chars [OF e(2) sw] xc by (simp add: inert_def)
  have keyword: "no_keyword ?w"
  proof -
    have "prefix p x" if "prefix p ?w" "list_all is_id p" for p
    proof -
      have "is_id c \<Longrightarrow> c \<noteq> CHR '' '' \<and> c \<noteq> CHR ''=''" for c by (auto simp: is_id_def schar_def uchar_def)
      moreover obtain c u where "blanks j @ CHR ''='' # blanks k @ w = c # u" "c = CHR '' '' \<or> c = CHR ''=''" by (cases j) (auto simp: blanks_simps)
      ultimately show ?thesis using that by (induction p x rule: list_induct2') (auto simp: prefix_def)
    qed
    from this [of "''return''"] this [of "''int''"] this [of "''char''"] x(4) show ?thesis
      by (auto simp: no_keyword_def is_id_def schar_def uchar_def)
  qed
  show ?thesis unfolding Assign simple_names.simps
  proof (rule statement_trimmed [OF on, of i ?w l])
    show "t = blanks i @ ?w @ blanks l" by (simp add: src(2) w(1))
    fix g :: string
    let ?s = "s\<lparr>c_text := pre @ ?w @ NUL # g @ post\<rparr>"
    have "acts T (compile_expression (length pre)) () (?s\<lparr>char_op := False\<rparr>) pre (length ?w + 1) (g @ post)
        (code T ns e @ address_code T (TEMP # ns) x @ [0x58, 0x59, 0x89, 0x08, 0x51]) [] (TEMP # ns) (lab_id (?s\<lparr>char_op := False\<rparr>))"
      by (rule acts_assignment [OF x(1,3) e(1) sw x(5)]) (use s in \<open>simp_all add: state_simps\<close>)
    then have "acts T (compile_expression (length pre)) () (?s\<lparr>char_op := False\<rparr>) pre (length ?w + 1) (g @ post)
        (code T ns e @ address_code T (TEMP # ns) x @ [0x58, 0x59, 0x89, 0x08, 0x51]) [] (TEMP # ns) (lab_id ?s)" by simp
    from expression_at [OF this _ _ keyword] s(3)
    show "acts T (statement_at (length pre)) () ?s pre (length ?w + 1) (g @ post) (simple_code T fd ns (Assign x e)) [] ns (lab_id s)" by simp
  qed (use x xc w nul in simp_all)
next
  case (Discard e)
  have src: "source e t" "no_keyword (dropWhile is_whitespace_c t)" and e: "exp_ok T ns e" "readable e"
    using ok by (auto simp: Discard exp_ok_def)
  obtain i w j where w: "t = blanks i @ w @ blanks j" "source e w" "w \<noteq> []" "\<not> is_whitespace_c (hd w)" "\<not> is_whitespace_c (last w)" "prefix (hd (tokens e)) w"
    using source_trim [OF e(2) src(1)] by metis
  have nul: "NUL \<notin> set w" using source_chars [OF e(2) w(2)] by (simp add: inert_def)
  have "dropWhile is_whitespace_c (blanks i @ u) = dropWhile is_whitespace_c u" for u
    by (induction i) (simp_all add: blanks_simps is_whitespace_c_def)
  then have "dropWhile is_whitespace_c t = w @ blanks j" using w(3,4) by (cases w) (simp_all add: w(1))
  then have keyword: "no_keyword w" using src(2) by (auto simp: no_keyword_def intro: prefix_order.trans)
  show ?thesis unfolding Discard simple_names.simps
  proof (rule statement_trimmed [OF on w(1,3-5) nul])
    fix g :: string
    let ?s = "s\<lparr>c_text := pre @ w @ NUL # g @ post\<rparr>"
    have "acts T (compile_expression (length pre)) () (?s\<lparr>char_op := False\<rparr>) pre (length w + 1) (g @ post)
        (code T ns e) [] (TEMP # ns) (lab_id (?s\<lparr>char_op := False\<rparr>))"
      by (rule acts_expression [OF e(1) w(2)]) (use s in \<open>simp_all add: state_simps\<close>)
    then have "acts T (compile_expression (length pre)) () (?s\<lparr>char_op := False\<rparr>) pre (length w + 1) (g @ post)
        (code T ns e) [] (TEMP # ns) (lab_id ?s)" by simp
    from expression_at [OF this _ _ keyword] s(3)
    show "acts T (statement_at (length pre)) () ?s pre (length w + 1) (g @ post) (simple_code T fd ns (Discard e)) [] ns (lab_id s)" by simp
  qed
qed

end
