(* ===== verification/CcRun.thy ===== *)
theory CcRun
  imports CcLang
begin

text \<open>
  What the code of statements and functions does when it runs: the words on the stack follow the local
  variables, a body that falls through ends behind its code, one that returns ends at the return address with
  the value in \<open>eax\<close>. So the code of a function answers its calls, if that of all functions answers
  theirs, and by induction on the number of steps the code of every function does.
\<close>

section \<open>Frames\<close>

text \<open>The words on the stack have the values of the variables, and the return address is the \<open>fd\<close>-th from the
  bottom of the frame.\<close>

definition word_shows :: "i32 \<Rightarrow> string \<times> i32 option \<Rightarrow> i32 \<Rightarrow> bool" where
  "word_shows ret xu v \<longleftrightarrow> (case snd xu of None \<Rightarrow> fst xu = RET \<longrightarrow> v = ret | Some w \<Rightarrow> v = w)"

definition frame_at :: "i32 \<Rightarrow> nat \<Rightarrow> locals \<Rightarrow> i32 list \<Rightarrow> bool" where
  "frame_at ret fd env vs \<longleftrightarrow> list_all2 (word_shows ret) env vs \<and>
     0 < fd \<and> fd \<le> length env \<and> env ! (length env - fd) = (RET, None)"

lemma frame_length: "frame_at ret fd env vs \<Longrightarrow> length vs = length env"
  by (auto simp: frame_at_def dest: list_all2_lengthD)

lemma frame_ret: "frame_at ret fd env vs \<Longrightarrow> drop (length env - fd) vs = ret # drop (Suc (length env - fd)) vs"
proof -
  assume f: "frame_at ret fd env vs"
  then have i: "length env - fd < length vs" "length env - fd < length env" using frame_length [OF f] by (auto simp: frame_at_def)
  with f have "word_shows ret (RET, None) (vs ! (length env - fd))" by (metis frame_at_def list_all2_nthD)
  then show ?thesis using Cons_nth_drop_Suc [OF i(1)] by (simp add: word_shows_def)
qed

lemma frame_declare: "frame_at ret fd env vs \<Longrightarrow> x \<noteq> RET \<Longrightarrow> frame_at ret fd ((x, None) # env) (v # vs)"
  by (auto simp: frame_at_def word_shows_def Suc_diff_le)

lemma frame_leave:
  assumes "frame_at ret fd env vs" "fd \<le> length env - k"
  shows "frame_at ret fd (drop k env) (drop k vs)"
proof -
  have "fd \<le> length env" "0 < fd" using assms(1) by (simp_all add: frame_at_def)
  then have "k + (length env - k - fd) = length env - fd" "k \<le> length env" using assms(2) by simp_all
  then show ?thesis using assms by (simp add: frame_at_def list_all2_dropI)
qed

lemma set_local_position:
  assumes "x \<in> fst ` set env"
  shows "\<exists>p. position x (map fst env) = Some p \<and> p < length env \<and> fst (env ! p) = x \<and> set_local x v env = env[p := (x, Some v)]"
  using assms
proof (induction env)
  case (Cons yu env)
  obtain y u where yu: "yu = (y, u)" by (cases yu)
  show ?case
  proof (cases "x = y")
    case False
    then obtain p where "position x (map fst env) = Some p" "p < length env" "fst (env ! p) = x" "set_local x v env = env[p := (x, Some v)]"
      using Cons yu by auto
    then show ?thesis using False by (intro exI [of _ "Suc p"]) (simp add: yu position_simps)
  qed (simp add: yu position_simps)
qed simp

lemma map_fst_set_local [simp]: "map fst (set_local x v env) = map fst env"
  by (induction x v env rule: set_local.induct) auto

lemma length_set_local [simp]: "length (set_local x v env) = length env"
  by (induction x v env rule: set_local.induct) auto

lemma frame_assign:
  assumes "frame_at ret fd env vs" "x \<noteq> RET" "position x (map fst env) = Some p" "x \<in> fst ` set env"
  shows "frame_at ret fd (set_local x v env) (vs[p := v])"
proof -
  have p: "fst (env ! p) = x" "set_local x v env = env[p := (x, Some v)]"
    using set_local_position [OF assms(4), of v] assms(3) by auto
  have "p \<noteq> length env - fd" using p(1) assms(1,2) by (auto simp: frame_at_def)
  moreover have "list_all2 (word_shows ret) (env[p := (x, Some v)]) (vs[p := v])"
    using assms(1) by (auto simp: frame_at_def word_shows_def intro: list_all2_update_cong)
  ultimately show ?thesis using assms(1) by (simp add: p(2) frame_at_def)
qed

definition globals_at :: "memory \<Rightarrow> (string \<Rightarrow> i32 option) \<Rightarrow> valuation \<Rightarrow> bool" where
  "globals_at mem tab globals \<longleftrightarrow> (\<forall>x v. globals x = Some v \<longrightarrow> (\<exists>l. tab x = Some l \<and> load mem l = Some v))"

lemma shows_position:
  assumes "list_all2 (word_shows ret) env vs" "map_of env x = Some (Some v)"
  shows "\<exists>p. position x (map fst env) = Some p \<and> vs ! p = v"
  using assms
proof (induction env vs rule: list_all2_induct)
  case (Cons yu env w vs)
  then show ?case by (cases yu) (auto simp: position_simps word_shows_def split: if_splits)
qed simp

lemma position_None_map_of: "position x (map fst env) = None \<longleftrightarrow> map_of env x = None"
  by (auto simp: position_def map_of_eq_None_iff)

lemma frame_shows:
  assumes "frame_at ret fd env vs" "globals_at mem tab globals"
  shows "shows_values mem tab (map fst env) vs (valuation_of globals env)"
  unfolding shows_values_def
proof (intro conjI allI impI)
  show "length vs = length (map fst env)" using frame_length [OF assms(1)] by simp
  fix x v
  assume v: "valuation_of globals env x = Some v"
  show "case position x (map fst env) of Some p \<Rightarrow> vs ! p = v | None \<Rightarrow> \<exists>l. tab x = Some l \<and> load mem l = Some v"
  proof (cases "map_of env x")
    case None
    then have "position x (map fst env) = None" by (simp add: position_None_map_of)
    with v None assms(2) show ?thesis by (auto simp: valuation_of_def globals_at_def)
  next
    case (Some u)
    with v have "map_of env x = Some (Some v)" by (simp add: valuation_of_def)
    with shows_position [of ret env vs x v] assms(1) show ?thesis by (auto simp: frame_at_def)
  qed
qed

section \<open>Statements\<close>

text \<open>\<open>ends_at\<close>: the machine gets from \<open>c\<close> to the address \<open>l\<close> or to the return address, as the outcome says.\<close>

definition ends_at :: "memory \<Rightarrow> cpu \<Rightarrow> i32 \<Rightarrow> nat \<Rightarrow> i32 list \<Rightarrow> i32 \<Rightarrow> outcome \<Rightarrow> bool" where
  "ends_at mem c ret fd rest l out \<longleftrightarrow> (case out of
     Falls env \<Rightarrow> \<exists>d vs. runs mem c d \<and> eip d = l \<and> stk d = vs @ rest \<and> frame_at ret fd env vs
   | Returns v \<Rightarrow> \<exists>d args. runs mem c d \<and> eip d = ret \<and> eax d = v \<and> stk d = args @ rest \<and> length args = fd - 1)"

lemma ends_at_runs: "runs mem c d \<Longrightarrow> ends_at mem d ret fd rest l out \<Longrightarrow> ends_at mem c ret fd rest l out"
  by (auto simp: ends_at_def intro: runs_trans split: outcome.splits)

text \<open>An expression in a frame: its value is pushed.\<close>

lemma exp_runs:
  assumes "exp_ok T (map fst env) e" "sem (valuation_of globals env) funs e = Some v" "frame_at ret fd env vs"
    and "globals_at mem (location T) globals" "provides mem (location T) funs"
    and "eip c = l" "stk c = vs @ rest" "code_at mem l (code T (map fst env) e)"
  shows "\<exists>d. runs mem c d \<and> eip d = l + of_nat (length (code T (map fst env) e)) \<and> stk d = v # vs @ rest"
proof -
  have "computes_values mem l (code T (map fst env) e) vs (v # vs)"
    by (rule code_computes [OF _ assms(2) frame_shows [OF assms(3,4)] assms(5)]) (use assms(1) in \<open>simp_all add: exp_ok_def\<close>)
  then show ?thesis using assms(6-8) by (simp add: computes_values_def)
qed

lemma drop_step:
  "stk c = us @ ws \<Longrightarrow> length us = k \<Longrightarrow> k < 2 ^ 30 \<Longrightarrow>
     exec mem (AddEsp (4 * of_nat k)) c = Some (c\<lparr>stk := ws, cmp := None\<rparr>)"
  using index_word [of k] by simp

lemma return_runs:
  assumes frame: "frame_at ret fd env vs" "length env \<le> 1024" and k: "k = length env - fd"
    and c: "eip c = l" "stk c = v # vs @ rest"
    and code: "code_at mem l (encode PopEax @ encode (AddEsp (4 * of_nat k)) @ encode Ret)"
  shows "ends_at mem c ret fd rest l' (Returns v)"
proof -
  have code: "code_at mem l (encode PopEax)" "code_at mem (l + 1) (encode (AddEsp (4 * of_nat k)))"
    "code_at mem (l + 7) (encode Ret)"
    using code unfolding code_at_append by (simp_all add: add.assoc)
  let ?args = "drop (Suc k) vs"
  let ?c1 = "c\<lparr>eip := l + 1, eax := v, stk := vs @ rest\<rparr>"
  let ?c2 = "?c1\<lparr>eip := l + 7, stk := ret # ?args @ rest, cmp := None\<rparr>"
  let ?d = "?c2\<lparr>eip := ret, stk := ?args @ rest\<rparr>"
  have len: "k \<le> length vs" "k < 2 ^ 30" "length ?args = fd - 1"
    using frame(1,2) frame_length [OF frame(1)] by (auto simp: k frame_at_def)
  have vs: "vs @ rest = take k vs @ ret # ?args @ rest"
    using frame_ret [OF frame(1)] append_take_drop_id [of k vs] append_assoc [of "take k vs" "drop k vs" rest] by (simp add: k)
  have on: "l + 1 + of_nat (length (encode (AddEsp (4 * of_nat k)))) = l + 7" by simp
  have drop: "exec mem (AddEsp (4 * of_nat k)) (?c1\<lparr>eip := l + 1 + of_nat (length (encode (AddEsp (4 * of_nat k))))\<rparr>) = Some ?c2"
    unfolding on
  proof (rule drop_step)
    show "stk (?c1\<lparr>eip := l + 7\<rparr>) = take k vs @ ret # ?args @ rest" by (rule trans [OF _ vs]) simp
  qed (use len in simp_all)
  have "runs mem ?c2 ?d" by (rule step_at [OF code(3) _ _ runs_refl]) simp_all
  then have "runs mem ?c1 ?d" by (rule step_at [OF code(2) _ drop, rotated]) simp
  then have "runs mem c ?d" by (rule step_at [OF code(1) c(1), rotated]) (use c in simp)
  then show ?thesis unfolding ends_at_def outcome.case using len(3) by (intro exI [of _ ?d] exI [of _ ?args]) simp
qed

text \<open>The address of a local variable, from the stack pointer.\<close>

lemma address_runs:
  assumes "position x ns = Some p" "eip c = l" "code_at mem l (address_code T ns x)"
  shows "\<exists>d. runs mem c d \<and> eip d = l + of_nat (length (address_code T ns x)) \<and>
    stk d = (esp c + 4 * of_nat p) # stk c \<and> bottom d = bottom c"
proof -
  have code: "code_at mem l (encode MovEaxEsp)" "code_at mem (l + 2) (encode (AddEaxImm (4 * of_nat p)))"
    "code_at mem (l + 7) (encode PushEax)"
    using assms(1,3) unfolding address_code_def by (simp_all only: option.case code_at_append) (simp_all add: add.assoc)
  let ?c1 = "c\<lparr>eip := l + 2, eax := esp c\<rparr>"
  let ?c2 = "?c1\<lparr>eip := l + 7, eax := esp c + 4 * of_nat p, cmp := None\<rparr>"
  let ?d = "?c2\<lparr>eip := l + 8, stk := (esp c + 4 * of_nat p) # stk c\<rparr>"
  have "runs mem ?c2 ?d" by (rule step_at [OF code(3) _ _ runs_refl]) (simp_all add: push_def)
  then have "runs mem ?c1 ?d" by (rule step_at [OF code(2), rotated 2]) simp_all
  then have "runs mem c ?d" by (rule step_at [OF code(1) assms(2), rotated]) (simp add: esp_def)
  then show ?thesis using assms(1) by (intro exI [of _ ?d]) (simp add: address_code_def)
qed

lemma store_step:
  assumes "a = b - 4 * of_nat (length (vs @ rest)) + 4 * of_nat p" "p < length vs" "p < 2 ^ 30"
    and "stk c = vs @ rest" "eax c = a" "bottom c = b" "ecx c = v"
  shows "exec mem StoreEcx c = Some (c\<lparr>stk := vs[p := v] @ rest\<rparr>)"
proof -
  have "eax c - esp c = 4 * of_nat p" using assms(1,4-6) by (simp add: esp_def)
  with index_word [OF assms(3)] assms(2,4,7) show ?thesis by (simp add: Let_def list_update_append)
qed

text \<open>The value and the address are popped, the word at the address is set.\<close>

lemma store_runs:
  assumes c: "eip c = l" "stk c = a # v # vs @ rest" "a = bottom c - 4 * of_nat (length (vs @ rest)) + 4 * of_nat p"
    and p: "p < length vs" "length vs < 2 ^ 30"
    and code: "code_at mem l (encode PopEax @ encode PopEcx @ encode StoreEcx @ encode PushEcx @ encode (AddEsp8 4))"
  shows "\<exists>d. runs mem c d \<and> eip d = l + 8 \<and> stk d = vs[p := v] @ rest"
proof -
  have code: "code_at mem l (encode PopEax)" "code_at mem (l + 1) (encode PopEcx)" "code_at mem (l + 2) (encode StoreEcx)"
    "code_at mem (l + 4) (encode PushEcx)" "code_at mem (l + 5) (encode (AddEsp8 4))"
    using code unfolding code_at_append by (simp_all add: add.assoc)
  let ?c1 = "c\<lparr>eip := l + 1, eax := a, stk := v # vs @ rest\<rparr>"
  let ?c2 = "?c1\<lparr>eip := l + 2, ecx := v, stk := vs @ rest\<rparr>"
  let ?c3 = "?c2\<lparr>eip := l + 4, stk := vs[p := v] @ rest\<rparr>"
  let ?c4 = "?c3\<lparr>eip := l + 5, stk := v # vs[p := v] @ rest\<rparr>"
  let ?d = "?c4\<lparr>eip := l + 8, cmp := None, stk := vs[p := v] @ rest\<rparr>"
  have "runs mem ?c4 ?d" by (rule step_at [OF code(5) _ _ runs_refl]) simp_all
  then have "runs mem ?c3 ?d" by (rule step_at [OF code(4), rotated 2]) (simp_all add: push_def)
  then have after: "runs mem ?c3 ?d" .
  have store: "exec mem StoreEcx (?c2\<lparr>eip := l + 2 + of_nat (length (encode StoreEcx))\<rparr>) = Some ?c3"
  proof -
    have "l + 2 + of_nat (length (encode StoreEcx)) = l + 4" by simp
    then show ?thesis by (simp only:) (rule store_step [OF c(3) p(1)], use p in simp_all)
  qed
  have "runs mem ?c2 ?d" by (rule step_at [OF code(3) _ store after]) simp
  then have "runs mem ?c1 ?d" by (rule step_at [OF code(2), rotated 2]) simp_all
  then have "runs mem c ?d" by (rule step_at [OF code(1) c(1), rotated]) (use c in simp)
  then show ?thesis by (intro exI [of _ ?d]) simp
qed

text \<open>All that the machine and its memory have to provide for code in a function.\<close>

definition ready :: "memory \<Rightarrow> table \<Rightarrow> valuation \<Rightarrow> meanings \<Rightarrow> bool" where
  "ready mem T globals funs \<longleftrightarrow> globals_at mem (location T) globals \<and> provides mem (location T) funs"

lemma exp_code_runs:
  assumes "exp_ok T (map fst env) e" "sem (valuation_of globals env) funs e = Some v" "frame_at ret fd env vs" "ready mem T globals funs"
    and "eip c = l" "stk c = vs @ rest" "code_at mem l (code T (map fst env) e @ bs)" and n: "n = length (code T (map fst env) e)"
  obtains d where "runs mem c d" "eip d = l + of_nat n" "stk d = v # vs @ rest" "code_at mem (l + of_nat n) bs"
  using exp_runs [OF assms(1-3) _ _ assms(5,6)] assms(4,7) by (auto simp: ready_def code_at_append n)

lemma exp_ok_length: "exp_ok T ns e \<Longrightarrow> length ns \<le> 1024"
  by (simp add: exp_ok_def)

lemma simple_runs:
  assumes run: "run_simple globals funs s env = Some out" and ok: "simple_ok T (map fst env) s"
    and frame: "frame_at ret fd env vs" and r: "ready mem T globals funs"
    and c: "eip c = l" "stk c = vs @ rest" "code_at mem l (simple_code T fd (map fst env) s)"
  shows "ends_at mem c ret fd rest (l + of_nat (simple_size (map fst env) s)) out"
proof (cases s)
  case (Return e)
  obtain v where v: "sem (valuation_of globals env) funs e = Some v" "out = Returns v" using run by (auto simp: Return)
  have e: "exp_ok T (map fst env) e" using ok by (simp add: Return)
  let ?n = "length (code T (map fst env) e)"
  obtain d where d: "runs mem c d" "eip d = l + of_nat ?n" "stk d = v # vs @ rest"
    and code: "code_at mem (l + of_nat ?n) (encode PopEax @ encode (AddEsp (4 * of_nat (length env - fd))) @ encode Ret)"
    by (rule exp_code_runs [OF e v(1) frame r c(1,2), of "encode PopEax @ encode (AddEsp (4 * of_nat (length env - fd))) @ encode Ret", OF _ refl])
      (use c(3) in \<open>simp_all add: Return del: encode.simps\<close>)
  have "ends_at mem d ret fd rest (l + of_nat (simple_size (map fst env) s)) (Returns v)"
    using return_runs [OF frame _ refl d(2,3) code] exp_ok_length [OF e] by simp
  with d(1) v(2) show ?thesis by (simp add: ends_at_runs)
next
  case (Declare x)
  let ?d = "c\<lparr>eip := l + 3, stk := below c 0 # vs @ rest, below := \<lambda>i. below c (Suc i), cmp := None\<rparr>"
  have "runs mem c ?d"
    by (rule step_at [OF _ c(1) _ runs_refl, of _ "SubEsp8 4"]) (use c in \<open>simp_all add: Declare take_words_def\<close>)
  moreover have "frame_at ret fd ((x, None) # env) (below c 0 # vs)"
    using frame_declare [OF frame] ok by (simp add: Declare plain_name_def)
  ultimately show ?thesis using run unfolding ends_at_def
    by (auto simp: Declare simple_size_def intro!: exI [of _ ?d] exI [of _ "below c 0 # vs"])
next
  case (Assign x e)
  obtain v where v: "sem (valuation_of globals env) funs e = Some v" "x \<in> fst ` set env" "out = Falls (set_local x v env)"
    using run by (auto simp: Assign split: option.splits if_splits)
  have e: "exp_ok T (map fst env) e" "plain_name x" using ok by (simp_all add: Assign)
  let ?n = "length (code T (map fst env) e)" and ?m = "length (address_code T (TEMP # map fst env) x)"
  let ?tail = "encode PopEax @ encode PopEcx @ encode StoreEcx @ encode PushEcx @ encode (AddEsp8 4)"
  obtain p where p: "position x (map fst env) = Some p" "p < length env" using set_local_position [OF v(2)] by blast
  have "position x (TEMP # map fst env) = Some (Suc p)" using p(1) e(2) by (auto simp: position_simps plain_name_def name_ok_def TEMP_def)
  note address = address_runs [OF this]
  obtain d where d: "runs mem c d" "eip d = l + of_nat ?n" "stk d = v # vs @ rest"
    and code: "code_at mem (l + of_nat ?n) (address_code T (TEMP # map fst env) x @ ?tail)"
    by (rule exp_code_runs [OF e(1) v(1) frame r c(1,2), of "address_code T (TEMP # map fst env) x @ ?tail", OF _ refl])
      (use c(3) in \<open>simp_all add: Assign del: encode.simps\<close>)
  obtain d1 where d1: "runs mem d d1" "eip d1 = l + of_nat ?n + of_nat ?m" "stk d1 = (esp d + 4 * of_nat (Suc p)) # stk d" "bottom d1 = bottom d"
    using address [OF d(2)] code unfolding code_at_append by blast
  have at: "esp d + 4 * of_nat (Suc p) = bottom d1 - 4 * of_nat (length (vs @ rest)) + 4 * of_nat p"
    by (simp add: esp_def d(3) d1(4))
  have len: "p < length vs" "length vs < 2 ^ 30" using p(2) frame_length [OF frame] exp_ok_length [OF e(1)] by simp_all
  obtain d2 where d2: "runs mem d1 d2" "eip d2 = l + of_nat ?n + of_nat ?m + 8" "stk d2 = vs[p := v] @ rest"
    using store_runs [OF d1(2) _ at len] code d1(3) d(3) unfolding code_at_append by (auto simp del: encode.simps)
  have "x \<noteq> RET" using e(2) by (simp add: plain_name_def)
  then have "frame_at ret fd (set_local x v env) (vs[p := v])" using frame_assign [OF frame _ p(1) v(2)] by simp
  moreover have "runs mem c d2" using d(1) d1(1) d2(1) by (blast intro: runs_trans)
  moreover have "l + of_nat (simple_size (map fst env) s) = l + of_nat ?n + of_nat ?m + 8"
    by (simp add: Assign length_simple_code [of T fd, symmetric])
  ultimately show ?thesis using d2(2,3) unfolding ends_at_def v(3) outcome.case by (intro exI [of _ d2] exI [of _ "vs[p := v]"]) simp
next
  case (Discard e)
  obtain v where v: "sem (valuation_of globals env) funs e = Some v" "out = Falls env" using run by (auto simp: Discard)
  have e: "exp_ok T (map fst env) e" using ok by (simp add: Discard)
  let ?n = "length (code T (map fst env) e)"
  obtain d where d: "runs mem c d" "eip d = l + of_nat ?n" "stk d = v # vs @ rest"
    and code: "code_at mem (l + of_nat ?n) (encode (AddEsp8 4))"
    by (rule exp_code_runs [OF e v(1) frame r c(1,2), of "encode (AddEsp8 4)", OF _ refl])
      (use c(3) in \<open>simp_all add: Discard del: encode.simps\<close>)
  let ?d = "d\<lparr>eip := l + of_nat ?n + 3, stk := vs @ rest, cmp := None\<rparr>"
  have "runs mem d ?d" by (rule step_at [OF code d(2) _ runs_refl]) (simp add: d(3))
  with d(1) have "runs mem c ?d" by (rule runs_trans)
  moreover have "l + of_nat (simple_size (map fst env) s) = l + of_nat ?n + 3"
    by (simp add: Discard length_simple_code [of T fd, symmetric])
  ultimately show ?thesis using frame unfolding ends_at_def v(2) outcome.case by (intro exI [of _ ?d] exI [of _ vs]) simp
qed

section \<open>Conditionals and blocks\<close>

lemma test_runs:
  assumes "exp_ok T (map fst env) e" "sem (valuation_of globals env) funs e = Some v" "frame_at ret fd env vs" "ready mem T globals funs"
    and c: "eip c = l" "stk c = vs @ rest" "code_at mem l (test_code T (map fst env) lab l e @ bs)"
  obtains d where "runs mem c d" "stk d = vs @ rest" "eip d = (if v = 0 then label_of T lab else l + of_nat (test_size (map fst env) e))"
    "code_at mem (l + of_nat (test_size (map fst env) e)) bs"
proof -
  let ?n = "length (code T (map fst env) e)" and ?size = "test_size (map fst env) e"
  let ?jump = "JeNear (label_of T lab - (l + of_nat ?size))"
  obtain d where d: "runs mem c d" "eip d = l + of_nat ?n" "stk d = v # vs @ rest"
    and code: "code_at mem (l + of_nat ?n) (encode PopEax @ encode (CmpEax 0) @ encode ?jump @ bs)"
    by (rule exp_code_runs [OF assms(1-4) c(1,2), of "encode PopEax @ encode (CmpEax 0) @ encode ?jump @ bs", OF _ refl])
      (use c(3) in \<open>simp_all add: test_code_def del: encode.simps\<close>)
  have size: "l + of_nat ?n + 10 = l + of_nat ?size" by (simp add: test_size_def length_exp_code [of T _ _ None])
  have code: "code_at mem (l + of_nat ?n) (encode PopEax)" "code_at mem (l + of_nat ?n + 1) (encode (CmpEax 0))"
    "code_at mem (l + of_nat ?n + 4) (encode ?jump)" "code_at mem (l + of_nat ?n + 10) bs"
    using code unfolding code_at_append by (simp_all add: add.assoc)
  let ?d1 = "d\<lparr>eip := l + of_nat ?n + 1, eax := v, stk := vs @ rest\<rparr>"
  let ?d2 = "?d1\<lparr>eip := l + of_nat ?n + 4, cmp := Some (v, 0)\<rparr>"
  let ?d3 = "?d2\<lparr>eip := if v = 0 then label_of T lab else l + of_nat ?size\<rparr>"
  have on: "l + of_nat ?n + 4 + of_nat (length (encode ?jump)) = l + of_nat ?size"
    unfolding size [symmetric] by simp
  have jump: "exec mem ?jump (?d2\<lparr>eip := l + of_nat ?n + 4 + of_nat (length (encode ?jump))\<rparr>) = Some ?d3"
    unfolding on by (simp add: holds_cond_def)
  have "runs mem ?d2 ?d3" by (rule step_at [OF code(3) _ jump runs_refl]) simp
  then have "runs mem ?d1 ?d3" by (rule step_at [OF code(2), rotated 2]) simp_all
  then have "runs mem d ?d3" by (rule step_at [OF code(1) d(2), rotated]) (simp add: d(3))
  with d(1) have "runs mem c ?d3" by (rule runs_trans)
  then show thesis by (rule that) (use code(4) size in simp_all)
qed

lemma jump_runs:
  assumes "eip c = l" "code_at mem l (jump_code T lab l)"
  shows "runs mem c (c\<lparr>eip := label_of T lab\<rparr>)"
  by (rule step_at [OF assms(2) [unfolded jump_code_def] assms(1) _ runs_refl]) simp

text \<open>The end of a block: from the variables of the block to those before it.\<close>

lemma close_runs:
  assumes "frame_at ret fd env' vs'" "map fst env' = body_names (map fst env) b" "fd \<le> length env" "length env \<le> length env'"
    and "length env' \<le> 1024" and c: "eip c = l" "stk c = vs' @ rest" "code_at mem l (close_code (map fst env) b)"
  shows "ends_at mem c ret fd rest (l + 6) (Falls (drop (length env' - length env) env'))"
proof -
  let ?k = "length env' - length env"
  have k: "length (body_names (map fst env) b) - length (map fst env) = ?k" by (simp flip: assms(2))
  have on: "l + of_nat (length (encode (AddEsp (4 * of_nat ?k)))) = l + 6" by simp
  let ?d = "c\<lparr>eip := l + 6, stk := drop ?k vs' @ rest, cmp := None\<rparr>"
  have exec: "exec mem (AddEsp (4 * of_nat ?k)) (c\<lparr>eip := l + of_nat (length (encode (AddEsp (4 * of_nat ?k))))\<rparr>) = Some ?d"
    unfolding on
  proof (rule drop_step)
    show "stk (c\<lparr>eip := l + 6\<rparr>) = take ?k vs' @ drop ?k vs' @ rest" using c(2) by simp
  qed (use assms(5) frame_length [OF assms(1)] in simp_all)
  have "runs mem c ?d" by (rule step_at [OF c(3) [unfolded close_code_def k] c(1) exec runs_refl])
  moreover have "frame_at ret fd (drop ?k env') (drop ?k vs')" by (rule frame_leave [OF assms(1)]) (use assms(3,4) in simp)
  ultimately show ?thesis unfolding ends_at_def outcome.case by (intro exI [of _ ?d] exI [of _ "drop ?k vs'"]) simp
qed

lemma ends_at_then:
  assumes "ends_at mem c ret fd rest l out" "and_then (Some out) f = Some out'"
    and "\<And>d env vs. out = Falls env \<Longrightarrow> eip d = l \<Longrightarrow> stk d = vs @ rest \<Longrightarrow> frame_at ret fd env vs \<Longrightarrow> f env = Some out' \<Longrightarrow>
      ends_at mem d ret fd rest l' out'"
  shows "ends_at mem c ret fd rest l' out'"
proof (cases out)
  case (Falls env)
  with assms(1) obtain d vs where d: "runs mem c d" "eip d = l" "stk d = vs @ rest" "frame_at ret fd env vs"
    by (auto simp: ends_at_def)
  have "f env = Some out'" using assms(2) Falls by (simp add: and_then_def)
  from assms(3) [OF Falls d(2-4) this] d(1) show ?thesis by (rule ends_at_runs [rotated])
next
  case (Returns v)
  then have "out' = Returns v" using assms(2) by (simp add: and_then_def)
  with assms(1) Returns show ?thesis by (simp add: ends_at_def)
qed

text \<open>The names of the variables after a body, and their number.\<close>

lemma simple_falls: "run_simple globals funs s env = Some (Falls env') \<Longrightarrow> map fst env' = simple_names (map fst env) s"
  by (cases s) (auto split: option.splits if_splits)

lemma map_fst_leave:
  assumes "leave_block env out = Some (Falls env')" "\<And>env1. out = Some (Falls env1) \<Longrightarrow> map fst env1 = us @ map fst env"
  shows "map fst env' = map fst env"
proof -
  obtain env1 where out: "out = Some (Falls env1)" "env' = drop (length env1 - length env) env1"
    using assms(1) by (auto simp: leave_block_def split: option.splits outcome.splits)
  have m: "map fst env1 = us @ map fst env" by (rule assms(2) [OF out(1)])
  then have "length env1 - length env = length us" by (metis add_diff_cancel_right' length_append length_map)
  with m out(2) show ?thesis by (simp add: drop_map [symmetric])
qed

lemma body_names_append: "\<exists>us. body_names ns b = us @ ns"
proof (induction b arbitrary: ns rule: body.induct [where ?P2.0 = "\<lambda>_. True"])
  case (Step s b)
  obtain us where "simple_names ns s = us @ ns" by (cases s) auto
  with Step [of "simple_names ns s"] show ?case by auto
qed simp_all

lemma body_falls:
  "run_body globals funs b env = Some (Falls env') \<Longrightarrow> map fst env' = body_names (map fst env) b"
  "run_branches globals funs br env = Some (Falls env') \<Longrightarrow> map fst env' = map fst env"
proof (induction b and br arbitrary: env env' and env env')
  case (Step s b)
  then show ?case by (auto simp: and_then_def dest: simple_falls split: option.splits outcome.splits)
next
  case (Cond e b br rest)
  have block: "leave_block env (run_body globals funs b env) = Some (Falls env1) \<Longrightarrow> map fst env1 = map fst env" for env1
    using map_fst_leave Cond.IH(1) body_names_append [of "map fst env" b] by metis
  from Cond.prems show ?case
    by (auto simp: and_then_def dest!: Cond.IH(3) dest: Cond.IH(2) block split: option.splits outcome.splits if_splits)
next
  case (Else b)
  then show ?case using map_fst_leave body_names_append [of "map fst env" b] by (metis run_branches.simps(2))
next
  case (Elseif e b br)
  have block: "leave_block env (run_body globals funs b env) = Some (Falls env1) \<Longrightarrow> map fst env1 = map fst env" for env1
    using map_fst_leave Elseif.IH(1) body_names_append [of "map fst env" b] by metis
  from Elseif.prems show ?case by (auto dest: Elseif.IH(2) block split: option.splits if_splits)
qed simp_all

lemma body_names_length:
  "body_ok_c T ns b \<Longrightarrow> length ns \<le> 1024 \<Longrightarrow> length ns \<le> length (body_names ns b) \<and> length (body_names ns b) \<le> 1024"
proof (induction b arbitrary: ns rule: body.induct [where ?P2.0 = "\<lambda>_. True"])
  case (Step s b)
  then show ?case using Step.IH [of "simple_names ns s"] by (cases s) auto
qed simp_all

section \<open>Bodies\<close>

lemma label_ends:
  assumes "labels_at T (branches_symbols ns els fi lab l br)"
  shows "label_of T els = l" "label_of T fi = l + of_nat (branches_size ns br)"
proof -
  have "location T x = Some a" if "(x, a) \<in> set (branches_symbols ns els fi lab l br)" for x a
    using assms that by (auto simp: labels_at_def)
  then show "label_of T els = l" "label_of T fi = l + of_nat (branches_size ns br)"
    using branches_label_ends [where els = els and l = l and ns = ns and fi = fi and lab = lab and br = br] by (simp_all add: label_of_def)
qed

definition body_works :: "memory \<Rightarrow> table \<Rightarrow> valuation \<Rightarrow> meanings \<Rightarrow> i32 \<Rightarrow> nat \<Rightarrow> i32 list \<Rightarrow> body \<Rightarrow> bool" where
  "body_works mem T globals funs ret fd rest b \<longleftrightarrow> (\<forall>env out vs c l lab.
     run_body globals funs b env = Some out \<longrightarrow> body_ok_c T (map fst env) b \<longrightarrow> frame_at ret fd env vs \<longrightarrow> length env \<le> 1024 \<longrightarrow>
     eip c = l \<longrightarrow> stk c = vs @ rest \<longrightarrow> code_at mem l (body_code T fd (map fst env) lab l b) \<longrightarrow>
     labels_at T (body_symbols (map fst env) lab l b) \<longrightarrow> ends_at mem c ret fd rest (l + of_nat (body_size (map fst env) b)) out)"

definition branches_work :: "memory \<Rightarrow> table \<Rightarrow> valuation \<Rightarrow> meanings \<Rightarrow> i32 \<Rightarrow> nat \<Rightarrow> i32 list \<Rightarrow> branches \<Rightarrow> bool" where
  "branches_work mem T globals funs ret fd rest br \<longleftrightarrow> (\<forall>env out vs c l els fi lab.
     run_branches globals funs br env = Some out \<longrightarrow> branches_ok T (map fst env) br \<longrightarrow> frame_at ret fd env vs \<longrightarrow> length env \<le> 1024 \<longrightarrow>
     eip c = l \<longrightarrow> stk c = vs @ rest \<longrightarrow> code_at mem l (branches_code T fd (map fst env) fi lab l br) \<longrightarrow>
     labels_at T (branches_symbols (map fst env) els fi lab l br) \<longrightarrow>
     ends_at mem c ret fd rest (l + of_nat (branches_size (map fst env) br)) out)"

text \<open>A block, and the jump behind it.\<close>

lemma block_runs:
  assumes b: "body_works mem T globals funs ret fd rest b" and run: "leave_block env (run_body globals funs b env) = Some out"
    and ok: "body_ok_c T (map fst env) b" "frame_at ret fd env vs" "length env \<le> 1024"
    and c: "eip c = l" "stk c = vs @ rest"
    and code: "code_at mem l (body_code T fd (map fst env) lab l b @ close_code (map fst env) b @ jump_code T fi l2 @ after)"
    and labels: "labels_at T (body_symbols (map fst env) lab l b)" and l2: "l2 = l + of_nat (body_size (map fst env) b + 6)"
  shows "ends_at mem c ret fd rest (label_of T fi) out"
proof -
  let ?n = "body_size (map fst env) b"
  have code: "code_at mem l (body_code T fd (map fst env) lab l b)" "code_at mem (l + of_nat ?n) (close_code (map fst env) b)"
    "code_at mem l2 (jump_code T fi l2)"
    using code unfolding code_at_append length_body_code length_jump_close l2 by (simp_all add: add.assoc)
  obtain out1 where out1: "run_body globals funs b env = Some out1" using run by (cases "run_body globals funs b env") (auto simp: leave_block_def)
  have ends: "ends_at mem c ret fd rest (l + of_nat ?n) out1"
    using b [unfolded body_works_def, rule_format, OF out1 ok c code(1) labels] .
  show ?thesis
  proof (cases out1)
    case (Falls env1)
    then have out: "out = Falls (drop (length env1 - length env) env1)" using run out1 by (simp add: leave_block_def)
    obtain d vs1 where d: "runs mem c d" "eip d = l + of_nat ?n" "stk d = vs1 @ rest" "frame_at ret fd env1 vs1"
      using ends Falls by (auto simp: ends_at_def)
    have names: "map fst env1 = body_names (map fst env) b" by (rule body_falls(1) [of globals funs]) (simp add: out1 Falls)
    have len: "length env \<le> length env1" "length env1 \<le> 1024"
      using body_names_length [OF ok(1)] ok(3) by (simp_all flip: names)
    have "ends_at mem d ret fd rest (l + of_nat ?n + 6) out"
      unfolding out by (rule close_runs [OF d(4) names _ len d(2,3) code(2)]) (use ok(2) in \<open>simp add: frame_at_def\<close>)
    then obtain d1 vs2 where d1: "runs mem d d1" "eip d1 = l2" "stk d1 = vs2 @ rest" "frame_at ret fd (drop (length env1 - length env) env1) vs2"
      by (auto simp: ends_at_def out l2 add.assoc)
    have "runs mem d1 (d1\<lparr>eip := label_of T fi\<rparr>)" by (rule jump_runs [OF d1(2) code(3)])
    then have "runs mem c (d1\<lparr>eip := label_of T fi\<rparr>)" using d(1) d1(1) by (blast intro: runs_trans)
    then show ?thesis using d1(3,4) unfolding ends_at_def out outcome.case
      by (intro exI [of _ "d1\<lparr>eip := label_of T fi\<rparr>"] exI [of _ vs2]) simp
  next
    case (Returns v)
    then have "out = Returns v" using run out1 by (simp add: leave_block_def)
    with ends Returns show ?thesis by (simp add: ends_at_def)
  qed
qed

text \<open>A test with its block, and what follows if it fails; \<open>els\<close> is the label behind the jump.\<close>

lemma branch_runs:
  assumes b: "body_works mem T globals funs ret fd rest b"
    and v: "sem (valuation_of globals env) funs e = Some v"
    and run: "(if v \<noteq> 0 then leave_block env (run_body globals funs b env) else other) = Some out"
    and ok: "exp_ok T (map fst env) e" "body_ok_c T (map fst env) b" "frame_at ret fd env vs" "length env \<le> 1024" and r: "ready mem T globals funs"
    and c: "eip c = l" "stk c = vs @ rest"
    and code: "code_at mem l (test_code T (map fst env) els l e @ body_code T fd (map fst env) lab l1 b @ close_code (map fst env) b @
      jump_code T fi l2 @ after)"
    and l: "l1 = l + of_nat (test_size (map fst env) e)" "l2 = l1 + of_nat (body_size (map fst env) b + 6)" "label_of T els = l2 + 5"
    and labels: "labels_at T (body_symbols (map fst env) lab l1 b)"
    and others: "\<And>d. other = Some out \<Longrightarrow> eip d = l2 + 5 \<Longrightarrow> stk d = vs @ rest \<Longrightarrow> code_at mem (l2 + 5) after \<Longrightarrow>
      ends_at mem d ret fd rest (label_of T fi) out"
  shows "ends_at mem c ret fd rest (label_of T fi) out"
proof -
  obtain d where d: "runs mem c d" "stk d = vs @ rest" "eip d = (if v = 0 then label_of T els else l1)"
    and code: "code_at mem l1 (body_code T fd (map fst env) lab l1 b @ close_code (map fst env) b @ jump_code T fi l2 @ after)"
    by (rule test_runs [OF ok(1) v ok(3) r c code]) (simp add: l(1))
  have "ends_at mem d ret fd rest (label_of T fi) out"
  proof (cases "v = 0")
    case True
    have "code_at mem (l2 + 5) after"
      using code unfolding code_at_append length_body_code length_jump_close l(2) by (simp add: add.assoc)
    with others [of d] True run d(2,3) l(3) show ?thesis by simp
  next
    case False
    have "eip d = l1" using False d(3) by simp
    from block_runs [OF b _ ok(2-4) this d(2) code labels l(2)] False run show ?thesis by simp
  qed
  with d(1) show ?thesis by (rule ends_at_runs)
qed

lemma bodies_work:
  assumes r: "ready mem T globals funs"
  shows "body_works mem T globals funs ret fd rest b" "branches_work mem T globals funs ret fd rest br"
proof (induction b and br)
  case Done
  show ?case unfolding body_works_def
  proof (intro allI impI)
    fix env :: locals and out vs and c :: cpu and l :: i32 and lab
    assume "run_body globals funs Done env = Some out" "frame_at ret fd env vs" "eip c = l" "stk c = vs @ rest"
    then show "ends_at mem c ret fd rest (l + of_nat (body_size (map fst env) Done)) out"
      by (auto simp: ends_at_def intro!: exI [of _ c] exI [of _ vs] runs_refl)
  qed
next
  case (Step s b)
  show ?case unfolding body_works_def
  proof (intro allI impI)
    fix env :: locals and out vs and c :: cpu and l :: i32 and lab
    let ?ns = "map fst env" and ?l = "l + of_nat (simple_size (map fst env) s)"
    assume run: "run_body globals funs (Step s b) env = Some out" and ok: "body_ok_c T ?ns (Step s b)" "frame_at ret fd env vs" "length env \<le> 1024"
      and c: "eip c = l" "stk c = vs @ rest" and code: "code_at mem l (body_code T fd ?ns lab l (Step s b))"
      and labels: "labels_at T (body_symbols ?ns lab l (Step s b))"
    have code: "code_at mem l (simple_code T fd ?ns s)" "code_at mem ?l (body_code T fd (simple_names ?ns s) lab ?l b)"
      using code unfolding body_code.simps code_at_append length_simple_code by simp_all
    obtain out1 where out1: "run_simple globals funs s env = Some out1" using run by (cases "run_simple globals funs s env") (auto simp: and_then_def)
    have simple: "ends_at mem c ret fd rest ?l out1"
      using simple_runs [OF out1 _ ok(2) r c code(1)] ok(1) by simp
    show "ends_at mem c ret fd rest (l + of_nat (body_size ?ns (Step s b))) out"
    proof (rule ends_at_then [OF simple])
      show "and_then (Some out1) (run_body globals funs b) = Some out" using run by (simp add: out1)
      fix d :: cpu and env1 vs1
      assume d: "out1 = Falls env1" "eip d = ?l" "stk d = vs1 @ rest" "frame_at ret fd env1 vs1" "run_body globals funs b env1 = Some out"
      have names: "map fst env1 = simple_names ?ns s" by (rule simple_falls [of globals funs]) (simp add: out1 d(1))
      have "length env1 \<le> 1024"
        using names ok(1,3) by (cases s) (auto dest: map_eq_imp_length_eq)
      then have "ends_at mem d ret fd rest (?l + of_nat (body_size (map fst env1) b)) out"
        using Step [unfolded body_works_def, rule_format, OF d(5) _ d(4) _ d(2,3), of lab] ok(1) code(2) labels by (simp add: names)
      then show "ends_at mem d ret fd rest (l + of_nat (body_size ?ns (Step s b))) out" by (simp add: names add.assoc)
    qed
  qed
next
  case (Cond e b br after)
  show ?case unfolding body_works_def
  proof (intro allI impI)
    fix env :: locals and out vs and c :: cpu and l :: i32 and lab
    let ?ns = "map fst env"
    let ?l1 = "l + of_nat (test_size ?ns e)" let ?l2 = "?l1 + of_nat (body_size ?ns b + 6)" let ?lab1 = "lab + 2 + body_labels b"
    let ?l3 = "?l2 + 5 + of_nat (branches_size ?ns br)" let ?lab2 = "?lab1 + branches_labels br"
    assume run: "run_body globals funs (Cond e b br after) env = Some out" and ok: "body_ok_c T ?ns (Cond e b br after)" "frame_at ret fd env vs" "length env \<le> 1024"
      and c: "eip c = l" "stk c = vs @ rest" and code: "code_at mem l (body_code T fd ?ns lab l (Cond e b br after))"
      and labels: "labels_at T (body_symbols ?ns lab l (Cond e b br after))"
    let ?rest = "branches_code T fd ?ns (lab + 1) ?lab1 (?l2 + 5) br @ body_code T fd ?ns ?lab2 ?l3 after"
    have code: "code_at mem l (test_code T ?ns lab l e @ body_code T fd ?ns (lab + 2) ?l1 b @ close_code ?ns b @ jump_code T (lab + 1) ?l2 @ ?rest)"
      using code by (simp only: body_code.simps Let_def)
    have labels: "labels_at T (body_symbols ?ns (lab + 2) ?l1 b)" "labels_at T (branches_symbols ?ns lab (lab + 1) ?lab1 (?l2 + 5) br)"
        "labels_at T (body_symbols ?ns ?lab2 ?l3 after)"
      using labels by (simp_all only: body_symbols.simps Let_def labels_at_simps)
    note ends = label_ends [OF labels(2)]
    obtain v where v: "sem (valuation_of globals env) funs e = Some v" using run by (cases "sem (valuation_of globals env) funs e") (auto simp: and_then_def)
    let ?branch = "if v \<noteq> 0 then leave_block env (run_body globals funs b env) else run_branches globals funs br env"
    obtain out1 where out1: "?branch = Some out1" using run v by (cases ?branch) (auto simp: and_then_def)
    have oks: "exp_ok T ?ns e" "body_ok_c T ?ns b" "branches_ok T ?ns br" "body_ok_c T ?ns after" using ok(1) by simp_all
    have rest: "code_at mem ?l3 (body_code T fd ?ns ?lab2 ?l3 after)"
      using code unfolding code_at_append length_body_code length_jump_close length_test_code by (simp add: add.assoc)
    have branch: "ends_at mem c ret fd rest ?l3 out1"
      unfolding ends(2) [symmetric]
    proof (rule branch_runs [OF Cond.IH(1) v out1 oks(1,2) ok(2,3) r c code refl refl ends(1) labels(1)])
      fix d :: cpu
      assume d: "run_branches globals funs br env = Some out1" "eip d = ?l2 + 5" "stk d = vs @ rest" "code_at mem (?l2 + 5) ?rest"
      then have "code_at mem (?l2 + 5) (branches_code T fd ?ns (lab + 1) ?lab1 (?l2 + 5) br)" by (simp only: code_at_append)
      from Cond.IH(2) [unfolded branches_work_def, rule_format, OF d(1) oks(3) ok(2,3) d(2,3) this labels(2)]
      show "ends_at mem d ret fd rest (label_of T (lab + 1)) out1" by (simp only: ends(2))
    qed
    show "ends_at mem c ret fd rest (l + of_nat (body_size ?ns (Cond e b br after))) out"
    proof (rule ends_at_then [OF branch])
      show "and_then (Some out1) (run_body globals funs after) = Some out" using run out1 by (simp add: v)
      fix d :: cpu and env1 vs1
      assume d: "out1 = Falls env1" "eip d = ?l3" "stk d = vs1 @ rest" "frame_at ret fd env1 vs1" "run_body globals funs after env1 = Some out"
      have names: "map fst env1 = ?ns"
      proof (cases "v = 0")
        case True
        with out1 d(1) body_falls(2) show ?thesis by auto
      next
        case False
        obtain us where "body_names ?ns b = us @ ?ns" using body_names_append by blast
        with False out1 d(1) map_fst_leave [of env "run_body globals funs b env" env1 us] body_falls(1) [of globals funs b env] show ?thesis by auto
      qed
      then have "length env1 \<le> 1024" using ok(3) by (auto dest: map_eq_imp_length_eq)
      then have "ends_at mem d ret fd rest (?l3 + of_nat (body_size ?ns after)) out"
        using Cond.IH(3) [unfolded body_works_def, rule_format, OF d(5) _ d(4) _ d(2,3), of ?lab2] oks(4) rest labels(3) by (simp add: names)
      then show "ends_at mem d ret fd rest (l + of_nat (body_size ?ns (Cond e b br after))) out" by (simp add: add.assoc)
    qed
  qed
next
  case NoElse
  show ?case unfolding branches_work_def
  proof (intro allI impI)
    fix env :: locals and out vs and c :: cpu and l :: i32 and els fi lab
    assume "run_branches globals funs NoElse env = Some out" "frame_at ret fd env vs" "eip c = l" "stk c = vs @ rest"
    then show "ends_at mem c ret fd rest (l + of_nat (branches_size (map fst env) NoElse)) out"
      by (auto simp: ends_at_def intro!: exI [of _ c] exI [of _ vs] runs_refl)
  qed
next
  case (Else b)
  show ?case unfolding branches_work_def
  proof (intro allI impI)
    fix env :: locals and out vs and c :: cpu and l :: i32 and els fi lab
    let ?ns = "map fst env"
    assume run: "run_branches globals funs (Else b) env = Some out" and ok: "branches_ok T ?ns (Else b)" "frame_at ret fd env vs" "length env \<le> 1024"
      and c: "eip c = l" "stk c = vs @ rest" and code: "code_at mem l (branches_code T fd ?ns fi lab l (Else b))"
      and labels: "labels_at T (branches_symbols ?ns els fi lab l (Else b))"
    have "ends_at mem c ret fd rest (label_of T fi) out"
      by (rule block_runs [OF Else _ _ ok(2,3) c, of out lab fi "l + of_nat (body_size ?ns b + 6)" "[]"])
        (use run ok(1) code labels in simp_all)
    then show "ends_at mem c ret fd rest (l + of_nat (branches_size ?ns (Else b))) out" by (simp only: label_ends(2) [OF labels])
  qed
next
  case (Elseif e b br)
  show ?case unfolding branches_work_def
  proof (intro allI impI)
    fix env :: locals and out vs and c :: cpu and l :: i32 and els fi lab
    let ?ns = "map fst env"
    let ?l1 = "l + of_nat (test_size ?ns e)" let ?l2 = "?l1 + of_nat (body_size ?ns b + 6)" let ?lab1 = "lab + 1 + body_labels b"
    assume run: "run_branches globals funs (Elseif e b br) env = Some out" and ok: "branches_ok T ?ns (Elseif e b br)" "frame_at ret fd env vs" "length env \<le> 1024"
      and c: "eip c = l" "stk c = vs @ rest" and code: "code_at mem l (branches_code T fd ?ns fi lab l (Elseif e b br))"
      and all: "labels_at T (branches_symbols ?ns els fi lab l (Elseif e b br))"
    let ?rest = "branches_code T fd ?ns fi ?lab1 (?l2 + 5) br"
    have code: "code_at mem l (test_code T ?ns lab l e @ body_code T fd ?ns (lab + 1) ?l1 b @ close_code ?ns b @ jump_code T fi ?l2 @ ?rest)"
      using code by (simp only: branches_code.simps Let_def)
    have labels: "labels_at T (body_symbols ?ns (lab + 1) ?l1 b)" "labels_at T (branches_symbols ?ns lab fi ?lab1 (?l2 + 5) br)"
      using all by (simp_all only: branches_symbols.simps Let_def labels_at_simps)
    note ends = label_ends [OF labels(2)]
    obtain v where v: "sem (valuation_of globals env) funs e = Some v" using run by (cases "sem (valuation_of globals env) funs e") auto
    have run: "(if v \<noteq> 0 then leave_block env (run_body globals funs b env) else run_branches globals funs br env) = Some out"
      using run by (simp only: run_branches.simps v option.case)
    have oks: "exp_ok T ?ns e" "body_ok_c T ?ns b" "branches_ok T ?ns br" using ok(1) by simp_all
    have "ends_at mem c ret fd rest (label_of T fi) out"
    proof (rule branch_runs [OF Elseif.IH(1) v run oks(1,2) ok(2,3) r c code refl refl ends(1) labels(1)])
      fix d :: cpu
      assume d: "run_branches globals funs br env = Some out" "eip d = ?l2 + 5" "stk d = vs @ rest" "code_at mem (?l2 + 5) ?rest"
      from Elseif.IH(2) [unfolded branches_work_def, rule_format, OF d(1) oks(3) ok(2,3) d(2,3,4) labels(2)]
      show "ends_at mem d ret fd rest (label_of T fi) out" by (simp only: ends(2))
    qed
    then show "ends_at mem c ret fd rest (l + of_nat (branches_size ?ns (Elseif e b br))) out" by (simp only: label_ends(2) [OF all])
  qed
qed

section \<open>Functions\<close>

lemma program_part:
  assumes "u \<in> set us" "code_at mem l (units_code T lab l us)" "labels_at T (units_symbols lab l us)"
  shows "\<exists>lab' l'. code_at mem l' (unit_code T lab' l' u) \<and> labels_at T (unit_symbols lab' l' u)"
  using assms
proof (induction us arbitrary: lab l)
  case (Cons u' us)
  from Cons.prems(2) have "code_at mem l (unit_code T lab l u')"
    "code_at mem (l + of_nat (unit_size u')) (units_code T (lab + unit_labels u') (l + of_nat (unit_size u')) us)"
    by (simp_all add: code_at_append length_unit_code)
  with Cons show ?case by auto
qed simp

lemma function_of_Some: "function_of us f = Some (params, b) \<Longrightarrow> Function f params b \<in> set us"
  by (induction us f rule: function_of.induct) (auto split: if_splits)

lemma load_bytes: "code_at mem l (bytes32 v) \<Longrightarrow> load mem l = Some v"
  using le32_bytes32 [of v "[]"] by (simp add: code_at_def load_def)

lemma map_of_frame: "list_all2 (word_shows ret) (zip params (map Some vs)) vs \<or> length vs \<noteq> length params"
proof (cases "length vs = length params")
  case True
  then have "list_all2 (word_shows ret) (zip params (map Some vs)) vs"
    by (induction vs params rule: list_induct2) (simp_all add: word_shows_def)
  then show ?thesis ..
qed simp

lemma functions_answer:
  assumes code: "code_at mem l (units_code T lab l us)" and labels: "labels_at T (units_symbols lab l us)"
    and ok: "list_all (unit_ok T) us"
  shows "provides mem (location T) (call us n)"
proof (induction n)
  case 0
  then show ?case by (simp add: provides_def)
next
  case (Suc n)
  have globals: "globals_at mem (location T) (globals_of us)"
    unfolding globals_at_def
  proof (intro allI impI)
    fix x v
    assume "globals_of us x = Some v"
    then have x: "Global x \<in> set us" "v = 0" by (auto simp: globals_of_def split: if_splits)
    with program_part [OF x(1) code labels] load_bytes show "\<exists>l. location T x = Some l \<and> load mem l = Some v" by auto
  qed
  with Suc have ready: "ready mem T (globals_of us) (call us n)" by (simp add: ready_def)
  show ?case unfolding provides_def
  proof (intro allI impI)
    fix f vs v
    assume run: "call us (Suc n) f vs = Some v"
    then obtain params b where f: "function_of us f = Some (params, b)" "length vs = length params"
      "run_body (globals_of us) (call us n) b (frame params vs) = Some (Returns v)"
      by (auto split: option.splits if_splits outcome.splits)
    have mem: "Function f params b \<in> set us" by (rule function_of_Some [OF f(1)])
    obtain lab' l' where at: "code_at mem l' (function_code T params lab' l' b)" "location T f = Some l'"
        "labels_at T (body_symbols (RET # params) lab' l' b)"
      using program_part [OF mem code labels] by auto
    have oks: "body_ok_c T (RET # params) b" "length params < 1024" using ok mem by (auto simp: list.pred_set)
    have names: "map fst (frame params vs) = RET # params" "length (frame params vs) = length params + 1"
      using f(2) by (simp_all add: frame_def)
    have "answers mem l' vs v"
      unfolding answers_def
    proof (intro allI impI)
      fix c :: cpu and ret rest
      assume c: "eip c = l' \<and> stk c = ret # vs @ rest"
      have frame: "frame_at ret (length params + 1) (frame params vs) (ret # vs)"
        using map_of_frame [of ret params vs] f(2) by (simp add: frame_at_def frame_def word_shows_def)
      have body: "code_at mem l' (body_code T (length params + 1) (map fst (frame params vs)) lab' l' b)"
        using at(1) unfolding function_code_def names code_at_append by simp
      have "ends_at mem c ret (length params + 1) rest (l' + of_nat (body_size (map fst (frame params vs)) b)) (Returns v)"
        by (rule bodies_work(1) [OF ready, unfolded body_works_def, rule_format, OF f(3) _ frame _ _ _ body])
          (use oks at(3) c names in simp_all)
      then show "\<exists>d args'. runs mem c d \<and> eip d = ret \<and> eax d = v \<and> stk d = args' @ rest \<and> length args' = length vs"
        using f(2) by (auto simp: ends_at_def)
    qed
    with at(2) show "\<exists>l. location T f = Some l \<and> answers mem l vs v" by blast
  qed
qed

end
