(* ===== verification/CcBlock.thy ===== *)
theory CcBlock
  imports CcEmit CcRun
begin

text \<open>
  What the compiler does on the text of a block, in either pass: labels and symbols, the tests of conditionals, the
  heads of branches, and by induction the bodies of functions.
\<close>

section \<open>Symbols and labels\<close>

lemma find_symbol_c_find:
  "find_symbol_c x s = (case find (\<lambda>i. symbol_names s i = x) [0..<symbol_num s] of None \<Rightarrow> SYMBOL_TABLE_LEN_c | Some i \<Rightarrow> i)"
proof -
  have "symbol_idx_loop (symbol_names s) (symbol_num s) x k = (case find (\<lambda>i. symbol_names s i = x) [k..<symbol_num s] of None \<Rightarrow> symbol_num s | Some i \<Rightarrow> i)"
    if "k \<le> symbol_num s" for k
    using that
  proof (induction "symbol_num s - k" arbitrary: k)
    case 0
    then show ?case by (simp add: symbol_idx_loop.simps)
  next
    case (Suc d)
    then have k: "k < symbol_num s" "d = symbol_num s - (k + 1)" by simp_all
    from Suc.hyps(1) [OF k(2)] k(1) show ?case by (subst symbol_idx_loop.simps) (simp add: upt_conv_Cons)
  qed
  from this [of 0] show ?thesis
    by (cases "find (\<lambda>i. symbol_names s i = x) [0..<symbol_num s]") (auto simp: find_symbol_c_def Let_def, auto simp: find_Some_iff)
qed

lemma known_symbol:
  assumes "in_pass (Some T) s" "location (Some T) x = Some l"
  shows "find_symbol_c x s < symbol_num s" "find_symbol_c x s \<noteq> SYMBOL_TABLE_LEN_c" "symbol_locs s (find_symbol_c x s) = l"
proof -
  obtain i where i: "find (\<lambda>i. symbol_names s i = x) [0..<symbol_num s] = Some i" "symbol_locs s i = l"
    using assms by (auto simp: in_pass_def location_def)
  then have "i < symbol_num s" by (auto simp: find_Some_iff)
  then show "find_symbol_c x s < symbol_num s" "find_symbol_c x s \<noteq> SYMBOL_TABLE_LEN_c" "symbol_locs s (find_symbol_c x s) = l"
    using i assms(1) by (simp_all add: find_symbol_c_find in_pass_def)
qed

lemma does_get_symbol:
  assumes "location T x = Some l"
  shows "does T (get_symbol_c x) l ns [] ns"
  unfolding does_def
proof (intro allI impI)
  fix s
  assume s: "in_pass T s \<and> vars_are s ns"
  have "get_symbol_c x s = Inr (l, s)"
  proof (cases T)
    case None
    with s assms show ?thesis by (simp add: get_symbol_c_def bindM_eval in_pass_def location_def)
  next
    case (Some U)
    with known_symbol [of U s x l] s assms show ?thesis by (simp add: get_symbol_c_def bindM_eval in_pass_def thenM_def)
  qed
  then show "\<exists>t. get_symbol_c x s = Inr (l, t) \<and> moved s t [] ns" using s moved_emit [where bs = "[]"] by auto
qed

text \<open>A symbol for the current address: the first pass enters it, the second one finds it there.\<close>

lemma acts_symbol:
  assumes s: "in_pass T s" "vars_are s ns" "room_for T s ((x, l) # syms)" "l = current_loc s"
    and on: "c_text s = pre @ w @ post" "length w = n"
  shows "acts T (add_symbol_c x l) () s pre n post [] [(x, l)] ns (lab_id s)"
proof -
  have x: "0 < length x" "length x < MAX_ID_LEN" using s(3) by (auto simp: room_for_def)
  show ?thesis
  proof (cases T)
    case None
    let ?n = "symbol_num s"
    let ?t = "s\<lparr>symbol_num := ?n + 1, symbol_names := (symbol_names s)(?n := x), symbol_locs := (symbol_locs s)(?n := l)\<rparr>"
    have room: "x \<notin> fst ` set (entries s)" "?n < SYMBOL_TABLE_LEN_c" using s(3) by (auto simp: room_for_def None entries_def)
    then have "find_symbol_c x s = SYMBOL_TABLE_LEN_c"
      by (force simp: find_symbol_c_find entries_def find_Some_iff split: option.split)
    then have run: "add_symbol_c x l s = Inr ((), ?t)" using x room(2) s(1) None
      by (simp add: add_symbol_c_def in_pass_def thenM_def bindM_eval)
    have "entries ?t = entries s @ [(x, l)]" by (simp add: entries_def)
    moreover have "vars_are ?t ns" using s(2) by (auto simp: vars_are_def names_c_def)
    ultimately have "moves T s ?t [] [(x, l)] ns (lab_id s)" using s(1) None room(2)
      by (simp add: moves_def in_pass_def)
    with run show ?thesis unfolding acts_def using on by (intro exI [of _ ?t] exI [of _ w]) simp
  next
    case (Some U)
    have "location T x = Some l" using s(3) by (simp add: room_for_def Some)
    then have "add_symbol_c x l s = Inr ((), s)" using x s(1) known_symbol [of U s x l] Some
      by (simp add: add_symbol_c_def in_pass_def thenM_def bindM_eval)
    moreover have "moves T s s [] [(x, l)] ns (lab_id s)" using s(1,2) Some by (simp add: moves_def)
    ultimately show ?thesis unfolding acts_def using on by auto
  qed
qed

lemma acts_place:
  assumes "in_pass T s" "vars_are s ns" "room_for T s ((gen_lab lab, current_loc s) # syms)" "c_text s = pre @ w @ post" "length w = n"
  shows "acts T (place_lab lab) () s pre n post [] [(gen_lab lab, current_loc s)] ns (lab_id s)"
  unfolding place_lab_def by (rule acts_get, rule acts_symbol [OF assms(1-3) refl assms(4,5)])

text \<open>The labels that are open before a statement are placed there.\<close>

definition pending :: "labels \<Rightarrow> i32 \<Rightarrow> symbols" where
  "pending labs l = (if fst labs = 0 then [] else [(gen_lab (fst labs), l)]) @ (if snd labs = 0 then [] else [(gen_lab (snd labs), l)])"

lemma acts_nothing: "in_pass T s \<Longrightarrow> vars_are s ns \<Longrightarrow> c_text s = pre @ w @ post \<Longrightarrow> length w = n \<Longrightarrow> acts T (retM r) r s pre n post [] [] ns (lab_id s)"
  unfolding acts_def using moves_refl [of T s ns] by auto

lemma acts_then_ret: "acts T m x s pre n post bs syms ns lab \<Longrightarrow> acts T (thenM m (retM r)) r s pre n post bs syms ns lab"
  by (auto simp: acts_def thenM_def bindM_eval)

lemma acts_when_place:
  assumes "in_pass T s" "vars_are s ns" "room_for T s ((if lab = 0 then [] else [(gen_lab lab, current_loc s)]) @ syms)"
    "c_text s = pre @ w @ post" "length w = n"
  shows "acts T (whenM (lab \<noteq> 0) (place_lab lab)) () s pre n post [] (if lab = 0 then [] else [(gen_lab lab, current_loc s)]) ns (lab_id s)"
proof (cases "lab = 0")
  case True
  then show ?thesis using acts_nothing [OF assms(1,2,4,5)] by (simp add: whenM_def)
next
  case False
  then show ?thesis using acts_place [OF assms(1,2) _ assms(4,5), of lab syms] assms(3) by (simp add: whenM_def)
qed

lemma moves_loc: "moves T s t [] syms ns lab \<Longrightarrow> current_loc t = current_loc s"
  by (simp add: moves_def)

lemma acts_fi:
  assumes s: "in_pass T s" "vars_are s ns" "room_for T s (pending labs (current_loc s) @ syms)" and on: "c_text s = pre @ w @ post" "length w = n"
  shows "acts T (process_fi labs) (0, 0) s pre n post [] (pending labs (current_loc s)) ns (lab_id s)"
proof -
  obtain e f where labs: "labs = (e, f)" by fastforce
  let ?se = "if e = 0 then [] else [(gen_lab e, current_loc s)]" and ?sf = "if f = 0 then [] else [(gen_lab f, current_loc s)]"
  have p: "pending labs (current_loc s) = ?se @ ?sf" by (simp add: pending_def labs)
  have "acts T (thenM (whenM (e \<noteq> 0) (place_lab e)) (thenM (whenM (f \<noteq> 0) (place_lab f)) (retM ()))) () s pre n post ([] @ []) (?se @ ?sf) ns (lab_id s)"
  proof (rule acts_then)
    show "acts T (whenM (e \<noteq> 0) (place_lab e)) () s pre n post [] ?se ns (lab_id s)"
      by (rule acts_when_place [OF s(1,2) _ on]) (use s(3) in \<open>simp add: p\<close>)
    fix t v
    assume t: "c_text t = pre @ v @ post" "length v = n" "moves T s t [] ?se ns (lab_id s)"
    note st = moves_state [OF t(3)] moves_loc [OF t(3)]
    have room: "room_for T t (?sf @ syms)" using moves_room [OF t(3), of "?sf @ syms"] s(3) by (simp add: p)
    have "acts T (whenM (f \<noteq> 0) (place_lab f)) () t pre n post [] ?sf ns (lab_id t)"
      by (rule acts_when_place [of T t ns f syms pre v post n, unfolded st(2)]) (use st(1) t(1,2) room in simp_all)
    then have "acts T (whenM (f \<noteq> 0) (place_lab f)) () t pre n post [] ?sf ns (lab_id s)" by (simp only: st(1))
    then show "acts T (thenM (whenM (f \<noteq> 0) (place_lab f)) (retM ())) () t pre n post [] ?sf ns (lab_id s)" by (rule acts_then_ret)
  qed
  then have "acts T (thenM (doM [whenM (e \<noteq> 0) (place_lab e), whenM (f \<noteq> 0) (place_lab f)]) (retM (0, 0))) (0, 0) s pre n post
      ([] @ []) (?se @ ?sf) ns (lab_id s)"
    unfolding doM.simps by (rule acts_then_ret)
  then show ?thesis by (simp add: process_fi_def labs p [unfolded labs])
qed

lemma acts_gen_id:
  assumes "in_pass T s" "vars_are s ns" "c_text s = pre @ w @ post" "length w = n"
  shows "acts T gen_id (lab_id s) s pre n post [] [] ns (lab_id s + 1)"
  unfolding acts_def using assms
  by (intro exI [of _ "s\<lparr>lab_id := lab_id s + 1\<rparr>"] exI [of _ w])
    (simp add: gen_id_def bindM_eval thenM_def moves_def state_simps entries_def)

text \<open>The displacement of a jump, and the test of a conditional.\<close>

lemma acts_disp:
  assumes "location T (gen_lab lab) = Some l" "in_pass T s" "vars_are s ns" "c_text s = pre @ w @ post" "length w = n"
  shows "acts T (emit_disp lab) () s pre n post (bytes32 (l - 4 - current_loc s)) [] ns (lab_id s)"
proof -
  have "acts T (emit_disp lab) () s pre n post ([] @ bytes32 (l - 4 - current_loc s)) ([] @ []) ns (lab_id s)"
    unfolding emit_disp_def
  proof (rule acts_bind, rule acts_does [OF does_get_symbol [OF assms(1)] assms(2-5)], rule acts_get)
    fix t v
    assume t: "c_text t = pre @ v @ post" "length v = n" "moves T s t [] [] ns (lab_id s)"
    note st = moves_state [OF t(3)] moves_loc [OF t(3)]
    have "acts T (emit32 (l - 4 - current_loc t)) () t pre n post (bytes32 (l - 4 - current_loc t)) [] ns (lab_id t)"
      by (rule acts_does [OF does_emit(2)]) (use st t in auto)
    then show "acts T (emit32 (l - 4 - current_loc t)) () t pre n post (bytes32 (l - 4 - current_loc s)) [] ns (lab_id s)" using st by simp
  qed
  then show ?thesis by simp
qed

lemma acts_test:
  assumes e: "exp_ok T ns e" "source e src" and s: "in_pass T s" "vars_are s ns" "location T (gen_lab lab) \<noteq> None"
    and on: "c_text s = pre @ src @ NUL # post"
  shows "acts T (if_test (length pre) lab) () s pre (length src + 1) post (test_code T ns lab (current_loc s) e) [] ns (lab_id s)"
proof -
  let ?n = "length src + 1" and ?l = "current_loc s + of_nat (length (code T ns e)) + 6"
  let ?row = "[pop_var_c, emit 0x58, emits [0x83, 0xf8, 0x00], emits [0x0f, 0x84]]"
  let ?bs = "code T ns e @ [0x58, 0x83, 0xf8, 0x00, 0x0f, 0x84]"
  obtain l where l: "location T (gen_lab lab) = Some l" using s(3) by auto
  have "does T (doM ?row) () (TEMP # ns) ([] @ [0x58] @ [0x83, 0xf8, 0x00] @ [0x0f, 0x84] @ []) ns"
    by (rule does_row does_pop does_emit)+
  from acts_then_does [OF acts_expression [OF e s(1,2) on] this]
  have first: "acts T (thenM (compile_expression (length pre)) (doM ?row)) () s pre ?n post ?bs [] ns (lab_id s)" by simp
  have "acts T (thenM (thenM (compile_expression (length pre)) (doM ?row)) (emit_disp lab)) () s pre ?n post (?bs @ bytes32 (l - 4 - ?l)) ([] @ []) ns (lab_id s)"
  proof (rule acts_then [OF first])
    fix t v
    assume t: "c_text t = pre @ v @ post" "length v = ?n" "moves T s t ?bs [] ns (lab_id s)"
    have "current_loc t = ?l" using t(3) by (simp add: moves_def)
    then show "acts T (emit_disp lab) () t pre ?n post (bytes32 (l - 4 - ?l)) [] ns (lab_id s)"
      using acts_disp [OF l _ _ t(1,2)] moves_state [OF t(3)] by auto
  qed
  moreover have "l - 4 - ?l = l - (current_loc s + of_nat (test_size ns e))"
    by (simp add: test_size_def length_exp_code [of T _ _ None])
  ultimately have "acts T (thenM (thenM (compile_expression (length pre)) (doM ?row)) (emit_disp lab)) () s pre ?n post (test_code T ns lab (current_loc s) e) [] ns (lab_id s)"
    by (simp add: test_code_def label_of_def l)
  moreover have "if_test (length pre) lab u = thenM (thenM (compile_expression (length pre)) (doM ?row)) (emit_disp lab) u" for u
    by (simp add: if_test_def thenM_def bindM_eval split: sum.split)
  ultimately show ?thesis by (simp add: acts_def)
qed

section \<open>Heads\<close>

lemma find_char_pass:
  "c \<notin> set k \<Longrightarrow> NUL \<notin> set k \<Longrightarrow> length pre + length k \<le> e \<Longrightarrow>
     find_char_c_loop (pre @ k @ post) b e c (length pre) = find_char_c_loop (pre @ k @ post) b e c (length pre + length k)"
proof (induction k arbitrary: pre)
  case (Cons d k)
  have "find_char_c_loop (pre @ (d # k) @ post) b e c (length pre) = find_char_c_loop ((pre @ [d]) @ k @ post) b e c (length (pre @ [d]))"
    using Cons.prems by (subst find_char_c_loop.simps) auto
  with Cons.IH [of "pre @ [d]"] Cons.prems show ?case by simp
qed simp

lemma find_char_first: "c \<notin> set k \<Longrightarrow> NUL \<notin> set k \<Longrightarrow> length pre + length k < e \<Longrightarrow>
    find_char_c (pre @ k @ c # post) (length pre) e c = Inr (Some (length k))"
  using find_char_pass [of c k pre e "c # post" "length pre"]
  by (simp add: find_char_c_def) (subst find_char_c_loop.simps, simp add: rd_def nth_append)

lemma find_char_none: "c \<notin> set k \<Longrightarrow> NUL \<notin> set k \<Longrightarrow> c \<noteq> NUL \<Longrightarrow> length pre + length k \<le> e \<Longrightarrow>
    find_char_c (pre @ k @ NUL # post) (length pre) e c = Inr None"
  using find_char_pass [of c k pre e "NUL # post" "length pre"]
  by (simp add: find_char_c_def) (subst find_char_c_loop.simps, simp add: rd_def nth_append)

lemma filter_blanks [simp]: "filter (\<lambda>c. \<not> is_whitespace_c c) (blanks k) = []"
  by (simp add: blanks_def is_whitespace_c_def)

lemma filter_whole: "\<forall>c\<in>set k. \<not> is_whitespace_c c \<Longrightarrow> filter (\<lambda>c. \<not> is_whitespace_c c) k = k"
  by simp

text \<open>The spaces of a head are removed, after a terminator has taken the place of its brace.\<close>

lemma head_squeezed:
  assumes on: "c_text s = pre @ h @ c # post" and h: "NUL \<notin> set h" "filter (\<lambda>c. \<not> is_whitespace_c c) h = sq"
  obtains g where "doM [poke_text (length pre + length h) NUL, edit (\<lambda>m. remove_spaces_c m (length pre) None)] s =
      Inr ((), s\<lparr>c_text := pre @ sq @ NUL # g @ post\<rparr>)" "length g + length sq = length h"
proof -
  have poke: "wr (c_text s) (length pre + length h) NUL = Inr (pre @ h @ NUL # post)"
    unfolding on using wr_split [of "length pre + length h" "pre @ h" c post NUL] by simp
  obtain g where "remove_spaces_c (pre @ h @ NUL # post) (length pre) None = Inr (pre @ sq @ NUL # g @ post)" "length g + length sq = length h"
    using remove_spaces_text [OF h(1), of pre post] h(2) by auto
  with that poke show thesis by (simp add: poke_text_def edit_def bindM_step thenM_step)
qed

lemma split_head_bare:
  assumes on: "c_text s = pre @ h @ c # post" and h: "h = blanks i @ k @ blanks j"
    and k: "\<forall>c\<in>set k. \<not> is_whitespace_c c" "NUL \<notin> set k" "CHR ''('' \<notin> set k"
  obtains g where "split_head (length pre) (length pre + length h) s = Inr (None, s\<lparr>c_text := pre @ k @ NUL # g @ post\<rparr>)"
    "length g + length k = length h"
proof -
  obtain g where g: "doM [poke_text (length pre + length h) NUL, edit (\<lambda>m. remove_spaces_c m (length pre) None)] s =
      Inr ((), s\<lparr>c_text := pre @ k @ NUL # g @ post\<rparr>)" "length g + length k = length h"
    using head_squeezed [OF on, of k] k filter_whole [OF k(1)] by (auto simp: h)
  have none: "find_char_c (pre @ k @ NUL # g @ post) (length pre) (length pre + length h) (CHR ''('') = Inr None"
    by (rule find_char_none [OF k(3,2)]) (simp_all add: h)
  have "split_head (length pre) (length pre + length h) s = Inr (None, s\<lparr>c_text := pre @ k @ NUL # g @ post\<rparr>)"
    unfolding split_head_def by (rule trans, rule thenM_step, rule g(1)) (simp add: bindM_eval none)
  with that g(2) show thesis by blast
qed

lemma split_head_parens:
  assumes on: "c_text s = pre @ h @ c # post" and h: "h = blanks i @ k @ blanks j @ CHR ''('' # src @ CHR '')'' # blanks l"
    and k: "\<forall>c\<in>set k. \<not> is_whitespace_c c" "NUL \<notin> set k" "CHR ''('' \<notin> set k"
    and src: "NUL \<notin> set src" "filter (\<lambda>c. \<not> is_whitespace_c c) src = sq" "balanced (CHR ''('') (CHR '')'') sq"
  obtains g where "split_head (length pre) (length pre + length h) s =
      Inr (Some (length pre + length k, length pre + length k + 1 + length sq), s\<lparr>c_text := pre @ k @ NUL # sq @ NUL # NUL # g @ post\<rparr>)"
    "length g + length k + length sq + 2 = length h"
proof -
  let ?h = "k @ CHR ''('' # sq @ '')''" and ?e = "length pre + length h"
  have "NUL \<notin> set h" using k(2) src(1) by (simp add: h)
  moreover have "filter (\<lambda>c. \<not> is_whitespace_c c) h = ?h" using filter_whole [OF k(1)] by (simp add: h src(2)) (simp add: is_whitespace_c_def)
  ultimately obtain g where g: "doM [poke_text ?e NUL, edit (\<lambda>m. remove_spaces_c m (length pre) None)] s =
      Inr ((), s\<lparr>c_text := pre @ ?h @ NUL # g @ post\<rparr>)" "length g + length ?h = length h"
    using head_squeezed [OF on] by blast
  let ?m = "pre @ k @ CHR ''('' # sq @ CHR '')'' # NUL # g @ post" and ?o = "length pre + length k"
  have first: "find_char_c ?m (length pre) ?e (CHR ''('') = Inr (Some (length k))"
    by (rule find_char_first [OF k(3,2)]) (use g(2) in simp)
  have "find_matching (CHR ''('') (CHR '')'') ((pre @ k) @ CHR ''('' # sq @ CHR '')'' # NUL # g @ post) (length (pre @ k)) ?e =
      Inr (Some (length (pre @ k) + length sq + 1))"
    by (rule matching_balanced [OF src(3)]) (use g(2) in simp_all)
  then have last: "find_matching (CHR ''('') (CHR '')'') ?m ?o ?e = Inr (Some (?o + length sq + 1))" by simp
  have nul: "rd ?m (?o + length sq + 1 + 1) = Inr NUL"
    using rd_split [of "?o + length sq + 1 + 1" "pre @ k @ CHR ''('' # sq @ '')''" NUL "g @ post"] by simp
  have open': "wr ?m ?o NUL = Inr (pre @ k @ NUL # sq @ CHR '')'' # NUL # g @ post)"
    using wr_split [of ?o "pre @ k" "CHR ''(''" "sq @ CHR '')'' # NUL # g @ post" NUL] by simp
  have closed: "wr (pre @ k @ NUL # sq @ CHR '')'' # NUL # g @ post) (?o + length sq + 1) NUL = Inr (pre @ k @ NUL # sq @ NUL # NUL # g @ post)"
    using wr_split [of "?o + length sq + 1" "pre @ k @ NUL # sq" "CHR '')''" "NUL # g @ post" NUL] by simp
  have "split_head (length pre) ?e s = Inr (Some (?o, ?o + length sq + 1), s\<lparr>c_text := pre @ k @ NUL # sq @ NUL # NUL # g @ post\<rparr>)"
    unfolding split_head_def
    by (rule trans, rule thenM_step, rule g(1))
      (use first last nul open' closed in \<open>simp add: bindM_eval peek_run poke_text_def edit_def thenM_def\<close>)
  with that g(2) show thesis by simp
qed

section \<open>Blocks\<close>

text \<open>Two actions on the text, the second one behind the first.\<close>

lemma acts_split:
  assumes "acts T m x s pre n (v @ post) bs xs ns lab"
    and "\<And>t w. c_text t = (pre @ w) @ v @ post \<Longrightarrow> length w = n \<Longrightarrow> moves T s t bs xs ns lab \<Longrightarrow> acts T (f x) r t (pre @ w) k post cs ys ms lab'"
  shows "acts T (bindM m f) r s pre (n + k) post (bs @ cs) (xs @ ys) ms lab'"
proof -
  obtain t w where t: "m s = Inr (x, t)" "c_text t = (pre @ w) @ v @ post" "length w = n" "moves T s t bs xs ns lab"
    using assms(1) unfolding acts_def by auto
  obtain u v where "f x t = Inr (r, u)" "c_text u = (pre @ w) @ v @ post" "length v = k" "moves T t u cs ys ms lab'"
    using assms(2) [OF t(2-4)] unfolding acts_def by blast
  with t(1,3,4) show ?thesis unfolding acts_def
    by (intro exI [of _ u] exI [of _ "w @ v"]) (auto simp: bindM_eval intro: moves_trans)
qed

lemma does_pop_to: "does T (pop_to_depth (int (length ns))) () (vs @ ns) [] ns"
  unfolding does_def
proof (intro allI impI)
  fix s
  assume s: "in_pass T s \<and> vars_are s (vs @ ns)"
  let ?t = "s\<lparr>c_stack_depth := int (length ns)\<rparr>"
  have d: "c_stack_depth s = int (length vs + length ns)" and names: "names_c s = vs @ ns" using s by (simp_all add: vars_are_def)
  have "rev [0..<length vs + length ns] = rev [length ns..<length vs + length ns] @ rev [0..<length ns]"
    using upt_add_eq_append [of 0 "length ns" "length vs"] by (simp add: add.commute flip: rev_append)
  moreover have "nat (c_stack_depth s) = length vs + length ns" using d by simp
  ultimately have "map (c_stack_vars s) (rev [length ns..<length vs + length ns]) @ names_c ?t = vs @ ns"
    using names by (simp add: names_c_def del: upt_Suc)
  then have "names_c ?t = ns" by (simp add: append_eq_append_conv)
  then have "vars_are ?t ns" by (simp add: vars_are_def)
  then show "\<exists>t. pop_to_depth (int (length ns)) s = Inr ((), t) \<and> moved s t [] ns"
    by (auto simp: pop_to_depth_def moved_def intro!: exI [of _ "c_stack_vars s"])
qed

text \<open>A block: its variables are dropped at its end.\<close>

lemma acts_block:
  assumes loop: "acts T (bindM (loop b e (0, 0)) process_fi) r (s\<lparr>c_block_depth := c_block_depth s + 1\<rparr>) pre k post cs ys (vs @ ns) lab"
    and s: "vars_are s ns" "1 \<le> c_block_depth s"
  shows "acts T (compile_block loop b e) () s pre k post (cs @ encode (AddEsp (4 * of_nat (length vs)))) ys ns lab"
proof -
  let ?s = "s\<lparr>c_block_depth := c_block_depth s + 1\<rparr>"
  obtain t w where t: "bindM (loop b e (0, 0)) process_fi ?s = Inr (r, t)" "c_text t = pre @ w @ post" "length w = k" "moves T ?s t cs ys (vs @ ns) lab"
    using loop unfolding acts_def by blast
  have vars: "in_pass T t" "vars_are t (vs @ ns)" "c_block_depth t = c_block_depth s + 1" using t(4) by (simp_all add: moves_def)
  let ?row = "doM [pop_to_depth (int (length ns)), emits [0x81, 0xc4], emit32 (4 * of_nat (length vs))]"
  have "does T ?row () (vs @ ns) ([] @ [0x81, 0xc4] @ bytes32 (4 * of_nat (length vs)) @ []) ns"
    by (rule does_row does_pop_to does_emit)+
  from acts_does [OF this vars(1,2) t(2,3)] obtain u v where u: "?row t = Inr ((), u)" "c_text u = pre @ v @ post" "length v = k"
    "moves T t u ([] @ [0x81, 0xc4] @ bytes32 (4 * of_nat (length vs)) @ []) [] ns (lab_id t)"
    unfolding acts_def by blast
  have "of_int (4 * (c_stack_depth t - int (length ns))) = (4 * of_nat (length vs) :: i32)" using vars(2) by (simp add: vars_are_def)
  then have "close_block (int (length ns)) t = Inr ((), u)" using u(1) vars(3) s(2) by (simp add: close_block_def bindM_eval whenM_def)
  moreover have loop: "loop b e (0, 0) ?s = Inr (x, y) \<Longrightarrow> process_fi x y = Inr (r, t)" "loop b e (0, 0) ?s \<noteq> Inl err" for x y err
    using t(1) by (simp_all add: bindM_eval split: sum.splits)
  ultimately have "compile_block loop b e s = Inr ((), u\<lparr>c_block_depth := c_block_depth u - 1\<rparr>)"
    using s(1) by (cases "loop b e (0, 0) ?s") (auto simp: compile_block_def thenM_def bindM_eval vars_are_def)
  moreover have "moves T s (u\<lparr>c_block_depth := c_block_depth u - 1\<rparr>) (cs @ encode (AddEsp (4 * of_nat (length vs)))) ys ns lab"
    using moves_trans [OF t(4) u(4)] moves_state [OF t(4)] by (auto simp: moves_def state_simps entries_def)
  ultimately show ?thesis using u(2,3) unfolding acts_def by auto
qed

text \<open>A block with a head, inside a function.\<close>

lemma acts_with_head:
  assumes head: "acts T (bindM (split_head (length pre) bb) (\<lambda>p. branch_head (length pre) p labs)) labs' s pre n (v @ post) bs xs ns lab"
    and s: "1 < c_block_depth s" "location T (gen_lab (snd labs')) \<noteq> None"
    and block: "\<And>t w. c_text t = (pre @ w) @ v @ post \<Longrightarrow> length w = n \<Longrightarrow> moves T s t bs xs ns lab \<Longrightarrow>
      acts T (block (bb + 1) (be - 1)) () t (pre @ w) k post cs ys ns lab'"
  shows "acts T (compile_block_with_head block (length pre) bb be labs) labs' s pre (n + k) post
    (bs @ cs @ jump_code T (snd labs') (current_loc s + of_nat (length bs) + of_nat (length cs))) (xs @ ys) ns lab'"
proof -
  let ?head = "bindM (split_head (length pre) bb) (\<lambda>p. branch_head (length pre) p labs)"
  let ?m = "bindM ?head (\<lambda>labs. thenM (block (bb + 1) (be - 1)) (retM labs))"
  obtain l where l: "location T (gen_lab (snd labs')) = Some l" using s(2) by auto
  have first: "acts T ?m labs' s pre (n + k) post (bs @ cs) (xs @ ys) ns lab'"
    by (rule acts_split [OF head], rule acts_then_ret, rule block)
  let ?j = "jump_code T (snd labs') (current_loc s + of_nat (length bs) + of_nat (length cs))"
  have both: "acts T (bindM ?m (\<lambda>labs. thenM (process_if_end labs) (retM labs))) labs' s pre (n + k) post ((bs @ cs) @ ?j) ((xs @ ys) @ []) ns lab'"
  proof (rule acts_bind [OF first], rule acts_then_ret)
    fix t w
    assume t: "c_text t = pre @ w @ post" "length w = n + k" "moves T s t (bs @ cs) (xs @ ys) ns lab'"
    have loc: "current_loc t = current_loc s + of_nat (length bs) + of_nat (length cs)" using t(3) by (simp add: moves_def)
    have "acts T (thenM (emit 0xe9) (emit_disp (snd labs'))) () t pre (n + k) post ([0xe9] @ bytes32 (l - 4 - (current_loc t + 1))) ([] @ []) ns lab'"
    proof (rule acts_then)
      show "acts T (emit 0xe9) () t pre (n + k) post [0xe9] [] ns lab'"
        using acts_does [OF does_emit(1) _ _ t(1,2)] moves_state [OF t(3)] by blast
      fix u y
      assume u: "c_text u = pre @ y @ post" "length y = n + k" "moves T t u [0xe9] [] ns lab'"
      have "current_loc u = current_loc t + 1" using u(3) by (simp add: moves_def)
      then show "acts T (emit_disp (snd labs')) () u pre (n + k) post (bytes32 (l - 4 - (current_loc t + 1))) [] ns lab'"
        using acts_disp [OF l _ _ u(1,2)] moves_state [OF u(3)] by auto
    qed
    moreover have "[0xe9] @ bytes32 (l - 4 - (current_loc t + 1)) = ?j"
      by (simp add: jump_code_def label_of_def l loc diff_diff_add ac_simps)
    ultimately have "acts T (thenM (emit 0xe9) (emit_disp (snd labs'))) () t pre (n + k) post ?j [] ns lab'" by simp
    moreover have "process_if_end labs' t = thenM (emit 0xe9) (emit_disp (snd labs')) t"
      by (simp add: process_if_end_def thenM_def bindM_eval split: sum.split)
    ultimately show "acts T (process_if_end labs') () t pre (n + k) post ?j [] ns lab'" by (simp add: acts_def)
  qed
  have "compile_block_with_head block (length pre) bb be labs s = bindM ?m (\<lambda>labs. thenM (process_if_end labs) (retM labs)) s"
  proof -
    obtain t w where t: "?head s = Inr (labs', t)" "c_text t = (pre @ w) @ v @ post" "length w = n" "moves T s t bs xs ns lab"
      using head unfolding acts_def by auto
    obtain p u where u: "split_head (length pre) bb s = Inr (p, u)" "branch_head (length pre) p labs u = Inr (labs', t)"
      using t(1) by (auto simp: bindM_eval split: sum.splits)
    obtain y where y: "block (bb + 1) (be - 1) t = Inr ((), y)" "moves T t y cs ys ns lab'"
      using block [OF t(2-4)] unfolding acts_def by blast
    have "c_block_depth u = c_block_depth s" using kept_heads(1) u(1) by (auto simp: steps_def kept_rel_def)
    moreover have "c_block_depth y = c_block_depth s" using t(4) y(2) by (simp add: moves_def)
    ultimately show ?thesis using s(1) u y(1) t(1) by (simp add: compile_block_with_head_def bindM_eval thenM_def whenM_def)
  qed
  with both show ?thesis by (simp add: acts_def)
qed

text \<open>The heads of the branches.\<close>

lemma head_parts:
  assumes h: "head_text k e h" and e: "readable e" and on: "c_text s = pre @ h @ c # post"
    and k: "\<forall>c\<in>set k. \<not> is_whitespace_c c" "NUL \<notin> set k" "CHR ''('' \<notin> set k"
  obtains sq g where "source e sq"
    "split_head (length pre) (length pre + length h) s =
      Inr (Some (length pre + length k, length pre + length k + 1 + length sq), s\<lparr>c_text := pre @ k @ NUL # sq @ NUL # NUL # g @ post\<rparr>)"
    "length g + length k + length sq + 2 = length h"
proof -
  obtain i j l src where h': "source e src" "h = blanks i @ k @ blanks j @ CHR ''('' # src @ CHR '')'' # blanks l"
    using h by (auto simp: head_text_def)
  let ?sq = "filter (\<lambda>c. \<not> is_whitespace_c c) src"
  note sq = source_squeezed [OF e h'(1)]
  from split_head_parens [OF on h'(2) k _ refl] obtain g where "split_head (length pre) (length pre + length h) s =
      Inr (Some (length pre + length k, length pre + length k + 1 + length ?sq), s\<lparr>c_text := pre @ k @ NUL # ?sq @ NUL # NUL # g @ post\<rparr>)"
    "length g + length k + length ?sq + 2 = length h"
    using source_chars [OF e h'(1)] source_chars [OF e sq] by (auto simp: inert_def)
  with that [OF sq] show thesis by blast
qed

lemma acts_test_at:
  assumes e: "exp_ok T ns e" "source e sq" and s: "in_pass T s" "vars_are s ns" "location T (gen_lab lab) \<noteq> None"
    and on: "c_text s = pre @ w @ post" "w = k @ NUL # sq @ NUL # NUL # g" "p = length pre + length k + 1" "length w = n"
  shows "acts T (if_test p lab) () s pre n post (test_code T ns lab (current_loc s) e) [] ns (lab_id s)"
proof -
  have "acts T (if_test (length (pre @ k @ [NUL])) lab) () s (pre @ k @ [NUL]) (length sq + 1) ((NUL # g) @ post) (test_code T ns lab (current_loc s) e) [] ns (lab_id s)"
    by (rule acts_test [OF e s]) (simp add: on)
  from acts_within [OF this, of n] on(2-4) show ?thesis by (simp add: add.assoc)
qed

text \<open>Actions that leave the text as it is.\<close>

lemma acts_still:
  assumes "acts T m x s (c_text s) 0 [] bs xs ns lab"
    and "\<And>t. c_text t = c_text s \<Longrightarrow> moves T s t bs xs ns lab \<Longrightarrow> acts T (f x) r t pre n post cs ys ms lab'"
  shows "acts T (bindM m f) r s pre n post (bs @ cs) (xs @ ys) ms lab'"
proof -
  obtain t where t: "m s = Inr (x, t)" "c_text t = c_text s" "moves T s t bs xs ns lab" using assms(1) unfolding acts_def by auto
  with assms(2) [OF t(2,3)] show ?thesis unfolding acts_def by (auto simp: bindM_eval intro: moves_trans)
qed

lemma room_state:
  "room_for T (s\<lparr>c_text := m\<rparr>) syms = room_for T s syms" "room_for T (s\<lparr>c_block_depth := d\<rparr>) syms = room_for T s syms"
  by (cases T; simp add: room_for_def entries_def)+

lemma room_append: "room_for T s (xs @ ys) \<Longrightarrow> room_for T s xs"
  by (cases T) (auto simp: room_for_def)

text \<open>A test with a new label.\<close>

lemma acts_new_test:
  assumes e: "exp_ok T ns e" "source e sq" and s: "in_pass T s" "vars_are s ns" "location T (gen_lab (lab_id s)) \<noteq> None"
    and on: "c_text s = pre @ w @ post" "w = k @ NUL # sq @ NUL # NUL # g" "p = length pre + length k + 1" "length w = n"
  shows "acts T (bindM gen_id (\<lambda>e. thenM (if_test p e) (retM (e, f)))) (lab_id s, f) s pre n post
    (test_code T ns (lab_id s) (current_loc s) e) [] ns (lab_id s + 1)"
    "acts T (bindM gen_id (\<lambda>e. bindM gen_id (\<lambda>f. thenM (if_test p e) (retM (e, f))))) (lab_id s, lab_id s + 1) s pre n post
    (test_code T ns (lab_id s) (current_loc s) e) [] ns (lab_id s + 2)"
proof -
  let ?code = "test_code T ns (lab_id s) (current_loc s) e"
  have gen: "acts T gen_id (lab_id t) t (c_text t) 0 [] [] [] ns (lab_id t + 1)" if "in_pass T t" "vars_are t ns" for t
    by (rule acts_gen_id [OF that, of _ "[]"]) simp_all
  have test: "acts T (thenM (if_test p (lab_id s)) (retM r)) r t pre n post ?code [] ns (lab_id t)"
    if t: "in_pass T t" "vars_are t ns" "c_text t = c_text s" "current_loc t = current_loc s" for t r
    by (rule acts_then_ret, rule acts_test_at [OF e t(1,2) s(3) _ on(2-4), unfolded t(4)]) (simp add: t(3) on(1))
  have "acts T (bindM gen_id (\<lambda>e. thenM (if_test p e) (retM (e, f)))) (lab_id s, f) s pre n post ([] @ ?code) ([] @ []) ns (lab_id s + 1)"
    by (rule acts_still [OF gen [OF s(1,2)]]) (metis test moves_state moves_loc)
  then show "acts T (bindM gen_id (\<lambda>e. thenM (if_test p e) (retM (e, f)))) (lab_id s, f) s pre n post ?code [] ns (lab_id s + 1)" by simp
  have "acts T (bindM gen_id (\<lambda>e. bindM gen_id (\<lambda>f. thenM (if_test p e) (retM (e, f))))) (lab_id s, lab_id s + 1) s pre n post
      ([] @ [] @ ?code) ([] @ [] @ []) ns (lab_id s + 2)"
  proof (rule acts_still [OF gen [OF s(1,2)]])
    fix t
    assume t: "c_text t = c_text s" "moves T s t [] [] ns (lab_id s + 1)"
    note st = moves_state [OF t(2)] moves_loc [OF t(2)]
    have "acts T (bindM gen_id (\<lambda>f. thenM (if_test p (lab_id s)) (retM (lab_id s, f)))) (lab_id s, lab_id t) t pre n post
        ([] @ ?code) ([] @ []) ns (lab_id t + 1)"
    proof (rule acts_still [OF gen])
      fix u
      assume u: "c_text u = c_text t" "moves T t u [] [] ns (lab_id t + 1)"
      show "acts T (thenM (if_test p (lab_id s)) (retM (lab_id s, lab_id t))) (lab_id s, lab_id t) u pre n post ?code [] ns (lab_id t + 1)"
        using test [of u] moves_state [OF u(2)] moves_loc [OF u(2)] st t(1) u(1) by simp
    qed (use st in simp_all)
    then show "acts T (bindM gen_id (\<lambda>f. thenM (if_test p (lab_id s)) (retM (lab_id s, f)))) (lab_id s, lab_id s + 1) t pre n post
        ([] @ ?code) ([] @ []) ns (lab_id s + 2)" using st by simp
  qed
  then show "acts T (bindM gen_id (\<lambda>e. bindM gen_id (\<lambda>f. thenM (if_test p e) (retM (e, f))))) (lab_id s, lab_id s + 1) s pre n post
      ?code [] ns (lab_id s + 2)" by simp
qed

lemma branch_if:
  "length k = 2 \<Longrightarrow> k = ''if'' \<Longrightarrow> c_text s = pre @ k @ post \<Longrightarrow> branch_head (length pre) (Some (length pre + length k, z)) labs s = process_if (length pre + length k + 1) labs s"
  using strncmp2_window [of pre k post "''if''"] by (simp add: branch_head_def bindM_eval)

lemma branch_elseif:
  "k = ''elseif'' \<Longrightarrow> c_text s = pre @ k @ post \<Longrightarrow> branch_head (length pre) (Some (length pre + length k, z)) labs s = process_elseif (length pre + length k + 1) labs s"
  using strncmp2_window [of pre k post "''if''"] strncmp2_window [of pre k post "''elseif''"] by (simp add: branch_head_def bindM_eval)

text \<open>The head of a conditional closes the one before it, and takes two labels.\<close>

lemma acts_if:
  assumes h: "head_text ''if'' e h" "exp_ok T ns e" and s: "in_pass T s" "vars_are s ns" "room_for T s (pending labs (current_loc s) @ syms)"
    "location T (gen_lab (lab_id s)) \<noteq> None" and on: "c_text s = pre @ h @ c # post"
  shows "acts T (bindM (split_head (length pre) (length pre + length h)) (\<lambda>p. branch_head (length pre) p labs)) (lab_id s, lab_id s + 1) s pre (length h + 1) post
    (test_code T ns (lab_id s) (current_loc s) e) (pending labs (current_loc s)) ns (lab_id s + 2)"
proof -
  let ?k = "''if''"
  have "readable e" using h(2) by (simp add: exp_ok_def)
  from head_parts [OF h(1) this on] obtain sq g where sq: "source e sq" "split_head (length pre) (length pre + length h) s =
      Inr (Some (length pre + length ?k, length pre + length ?k + 1 + length sq), s\<lparr>c_text := pre @ ?k @ NUL # sq @ NUL # NUL # g @ post\<rparr>)"
    "length g + length ?k + length sq + 2 = length h" by (auto simp: is_whitespace_c_def)
  let ?w = "?k @ NUL # sq @ NUL # NUL # g" and ?p = "length pre + length ?k + 1"
  let ?s = "s\<lparr>c_text := pre @ ?w @ post\<rparr>"
  have n: "length ?w = length h + 1" using sq(3) by simp
  have st: "in_pass T ?s" "vars_are ?s ns" "c_text ?s = pre @ ?w @ post" "room_for T ?s (pending labs (current_loc ?s) @ syms)"
    using s by (simp_all add: state_simps room_state)
  have "acts T (process_if ?p labs) (lab_id s, lab_id s + 1) ?s pre (length h + 1) post ([] @ test_code T ns (lab_id s) (current_loc s) e)
      (pending labs (current_loc s) @ []) ns (lab_id s + 2)"
    unfolding process_if_def
  proof (rule acts_still)
    show "acts T (process_fi labs) (0, 0) ?s (c_text ?s) 0 [] [] (pending labs (current_loc s)) ns (lab_id s)"
      using acts_fi [of T ?s ns labs syms "c_text ?s" "[]" "[]" 0] st by simp
    fix t
    assume t: "c_text t = c_text ?s" "moves T ?s t [] (pending labs (current_loc s)) ns (lab_id s)"
    have lab: "lab_id t = lab_id s" "in_pass T t" "vars_are t ns" "current_loc t = current_loc s"
      using moves_state [OF t(2)] moves_loc [OF t(2)] by simp_all
    show "acts T (bindM gen_id (\<lambda>else_lab. bindM gen_id (\<lambda>fi_lab. thenM (if_test ?p else_lab) (retM (else_lab, fi_lab))))) (lab_id s, lab_id s + 1) t pre
        (length h + 1) post (test_code T ns (lab_id s) (current_loc s) e) [] ns (lab_id s + 2)"
      by (rule acts_new_test(2) [OF h(2) sq(1) lab(2,3), where w = ?w and k = ?k and g = g, unfolded lab(1,4)]) (use s(4) n t(1) in simp_all)
  qed
  moreover have "bindM (split_head (length pre) (length pre + length h)) (\<lambda>p. branch_head (length pre) p labs) s = process_if ?p labs ?s"
    using branch_if [of ?k ?s pre "NUL # sq @ NUL # NUL # g @ post"] sq(2) by (simp add: bindM_eval)
  ultimately show ?thesis by (simp add: acts_def moves_text)
qed

text \<open>The other branches begin with the label of the test before them.\<close>

lemma acts_process_else:
  assumes "in_pass T s" "vars_are s ns" "room_for T s ((gen_lab els, current_loc s) # syms)" "0 < els" "c_text s = pre @ w @ post" "length w = n"
  shows "acts T (process_else (els, fi)) (0, fi) s pre n post [] [(gen_lab els, current_loc s)] ns (lab_id s)"
proof -
  have "process_else (els, fi) s = thenM (place_lab els) (retM (0, fi)) s"
    using assms(4) by (simp add: process_else_def thenM_def bindM_eval split: sum.split)
  then show ?thesis by (rule acts_state) (rule acts_then_ret [OF acts_place [OF assms(1-3,5,6)]])
qed

lemma acts_else:
  assumes h: "h = blanks i @ ''else'' @ blanks j" and s: "in_pass T s" "vars_are s ns" "room_for T s ((gen_lab els, current_loc s) # syms)" "0 < els"
    and on: "c_text s = pre @ h @ c # post"
  shows "acts T (bindM (split_head (length pre) (length pre + length h)) (\<lambda>p. branch_head (length pre) p (els, fi))) (0, fi) s pre (length h + 1) post
    [] [(gen_lab els, current_loc s)] ns (lab_id s)"
proof -
  let ?k = "''else''"
  obtain g where g: "split_head (length pre) (length pre + length h) s = Inr (None, s\<lparr>c_text := pre @ ?k @ NUL # g @ post\<rparr>)"
    "length g + length ?k = length h"
    using split_head_bare [OF on h] by (auto simp: is_whitespace_c_def)
  let ?s = "s\<lparr>c_text := pre @ (?k @ NUL # g) @ post\<rparr>"
  have "text_at (length pre) ?s = Inr (?k, ?s)"
    using cstr_split [of ?k "length pre" pre "g @ post"] terminated_split [of "length pre" pre ?k "g @ post"]
    by (simp add: text_at_def bindM_eval)
  then have "bindM (split_head (length pre) (length pre + length h)) (\<lambda>p. branch_head (length pre) p (els, fi)) s = process_else (els, fi) ?s"
    using g(1) by (simp add: bindM_eval branch_head_def)
  moreover have "acts T (process_else (els, fi)) (0, fi) ?s pre (length h + 1) post [] [(gen_lab els, current_loc ?s)] ns (lab_id ?s)"
    by (rule acts_process_else [where w = "?k @ NUL # g"]) (use s g(2) in \<open>simp_all add: state_simps room_state\<close>)
  ultimately show ?thesis by (simp add: acts_def moves_text)
qed

lemma acts_elseif:
  assumes h: "head_text ''elseif'' e h" "exp_ok T ns e" and s: "in_pass T s" "vars_are s ns" "room_for T s ((gen_lab els, current_loc s) # syms)" "0 < els"
    "location T (gen_lab (lab_id s)) \<noteq> None" and on: "c_text s = pre @ h @ c # post"
  shows "acts T (bindM (split_head (length pre) (length pre + length h)) (\<lambda>p. branch_head (length pre) p (els, fi))) (lab_id s, fi) s pre (length h + 1) post
    (test_code T ns (lab_id s) (current_loc s) e) [(gen_lab els, current_loc s)] ns (lab_id s + 1)"
proof -
  let ?k = "''elseif''"
  have "readable e" using h(2) by (simp add: exp_ok_def)
  from head_parts [OF h(1) this on] obtain sq g where sq: "source e sq" "split_head (length pre) (length pre + length h) s =
      Inr (Some (length pre + length ?k, length pre + length ?k + 1 + length sq), s\<lparr>c_text := pre @ ?k @ NUL # sq @ NUL # NUL # g @ post\<rparr>)"
    "length g + length ?k + length sq + 2 = length h" by (auto simp: is_whitespace_c_def)
  let ?w = "?k @ NUL # sq @ NUL # NUL # g" and ?p = "length pre + length ?k + 1"
  let ?s = "s\<lparr>c_text := pre @ ?w @ post\<rparr>"
  have n: "length ?w = length h + 1" using sq(3) by simp
  have "acts T (process_elseif ?p (els, fi)) (lab_id s, fi) ?s pre (length h + 1) post ([] @ test_code T ns (lab_id s) (current_loc s) e)
      ([(gen_lab els, current_loc s)] @ []) ns (lab_id s + 1)"
    unfolding process_elseif_def
  proof (rule acts_still)
    show "acts T (process_else (els, fi)) (0, fi) ?s (c_text ?s) 0 [] [] [(gen_lab els, current_loc s)] ns (lab_id s)"
      using acts_process_else [of T ?s ns els syms "c_text ?s" "[]" "[]" 0 fi] s by (simp add: state_simps room_state)
    fix t
    assume t: "c_text t = c_text ?s" "moves T ?s t [] [(gen_lab els, current_loc s)] ns (lab_id s)"
    have lab: "lab_id t = lab_id s" "in_pass T t" "vars_are t ns" "current_loc t = current_loc s"
      using moves_state [OF t(2)] moves_loc [OF t(2)] by simp_all
    show "acts T (bindM gen_id (\<lambda>else_lab. thenM (if_test ?p else_lab) (retM (else_lab, snd (0 :: nat, fi))))) (lab_id s, fi) t pre
        (length h + 1) post (test_code T ns (lab_id s) (current_loc s) e) [] ns (lab_id s + 1)"
      unfolding snd_conv
      by (rule acts_new_test(1) [OF h(2) sq(1) lab(2,3), where w = ?w and k = ?k and g = g, unfolded lab(1,4)]) (use s(5) n t(1) in simp_all)
  qed
  moreover have "bindM (split_head (length pre) (length pre + length h)) (\<lambda>p. branch_head (length pre) p (els, fi)) s = process_elseif ?p (els, fi) ?s"
    using branch_elseif [of ?k ?s pre "NUL # sq @ NUL # NUL # g @ post"] sq(2) by (simp add: bindM_eval)
  ultimately show ?thesis by (simp add: acts_def moves_text)
qed

section \<open>The loop over a block\<close>

lemma loop_done:
  assumes "c_text s = pre @ blanks k @ c # post"
  obtains g where "block_loop_c (Suc n) (length pre) (length pre + k) labs s = Inr (labs, s\<lparr>c_text := pre @ NUL # g @ post\<rparr>)" "length g = k"
proof -
  have chars: "NUL \<notin> set (blanks k)" "CHR '';'' \<notin> set (blanks k)" "CHR ''{'' \<notin> set (blanks k)" by (simp_all add: blanks_def)
  note none = find_char_text [OF chars(1), of pre "c # post" "CHR '';''"] find_char_text [OF chars(1), of pre "c # post" "CHR ''{''"]
  have poke: "wr (c_text s) (length pre + k) NUL = Inr (pre @ blanks k @ NUL # post)"
    unfolding assms using wr_split [of "length pre + k" "pre @ blanks k" c post NUL] by (simp add: blanks_simps)
  obtain g where g: "trimstr_c (pre @ blanks k @ NUL # post) (length pre) = Inr (pre @ NUL # g @ post)" "length g = k"
    using trimstr_text [of "[]" 0 pre k post] by (auto simp: blanks_simps)
  have cut: "doM [poke_text (length pre + k) NUL, edit (\<lambda>m. trimstr_c m (length pre))] s = Inr ((), s\<lparr>c_text := pre @ NUL # g @ post\<rparr>)"
    using poke g(1) by (simp add: poke_text_def edit_def bindM_step thenM_step)
  have "block_loop_c (Suc n) (length pre) (length pre + k) labs s = thenM (doM [poke_text (length pre + k) NUL, edit (\<lambda>m. trimstr_c m (length pre))])
      (bindM (peek_text (length pre)) (\<lambda>c. thenM (assertM (c = NUL)) (retM labs))) s"
    using none chars(2,3) by (simp add: bindM_eval assms blanks_simps del: doM.simps)
  also have "\<dots> = Inr (labs, s\<lparr>c_text := pre @ NUL # g @ post\<rparr>)"
    by (rule trans, rule thenM_step, rule cut) (simp add: bindM_eval peek_run thenM_def)
  finally show thesis using that g(2) by simp
qed

text \<open>The end of a text.\<close>

lemma acts_end:
  assumes s: "in_pass T s" "vars_are s ns" "room_for T s (pending labs (current_loc s) @ syms)" and on: "c_text s = pre @ blanks k @ c # post"
  shows "acts T (bindM (block_loop_c (Suc n) (length pre) (length pre + k) labs) process_fi) (0, 0) s pre (k + 1) post
    [] (pending labs (current_loc s)) ns (lab_id s)"
proof -
  obtain g where g: "block_loop_c (Suc n) (length pre) (length pre + k) labs s = Inr (labs, s\<lparr>c_text := pre @ NUL # g @ post\<rparr>)" "length g = k"
    using loop_done [OF on] by metis
  let ?s = "s\<lparr>c_text := pre @ NUL # g @ post\<rparr>"
  have "acts T (process_fi labs) (0, 0) ?s pre (k + 1) post [] (pending labs (current_loc ?s)) ns (lab_id ?s)"
    by (rule acts_fi [where syms = syms and w = "NUL # g"])
      (use s g(2) in \<open>simp_all add: state_simps room_state\<close>)
  then show ?thesis using g(1) by (simp add: acts_def bindM_eval moves_text del: block_loop_c.simps)
qed

lemma loop_statement:
  assumes on: "c_text s = pre @ (u @ CHR '';'' # w) @ post" and u: "inert u" "NUL \<notin> set w" and e: "e = length pre + length u + 1 + length w"
  shows "block_loop_c (Suc n) (length pre) e labs s = bindM (process_fi labs) (\<lambda>labs.
    thenM (compile_statement (length pre) (length pre + length u)) (block_loop_c n (length pre + length u + 1) e labs)) s"
proof -
  let ?t = "u @ CHR '';'' # w"
  have t: "NUL \<notin> set ?t" "CHR '';'' \<notin> set u" "CHR ''{'' \<notin> set u" using u by (auto simp: inert_def)
  note found = find_char_text [OF t(1), of pre post, folded on]
  have semi: "find_char_c (c_text s) (length pre) e (CHR '';'') = Inr (Some (length u))"
    using found [of "CHR '';''"] takeWhile_before [OF t(2)] by (simp add: e add.assoc)
  obtain b where b: "find_char_c (c_text s) (length pre) e (CHR ''{'') = Inr b" "b = None \<or> (\<exists>p. b = Some p \<and> length u < p)"
    using found [of "CHR ''{''"] takeWhile_later [OF t(3), of "CHR '';''" w] by (auto simp: e add.assoc split: if_splits)
  from b(2) semi b(1) show ?thesis by (auto simp: bindM_eval Let_def)
qed

lemma loop_block:
  assumes on: "c_text s = pre @ (h @ block_text u @ w) @ post" and h: "inert h" "NUL \<notin> set u" "NUL \<notin> set w" "balanced (CHR ''{'') (CHR ''}'') u"
    and e: "e = length pre + length h + length u + 3 + length w"
  shows "block_loop_c (Suc n) (length pre) e labs s =
    bindM (compile_block_with_head (compile_block (block_loop_c n)) (length pre) (length pre + length h) (length pre + length h + length u + 2) labs)
      (\<lambda>labs. block_loop_c n (length pre + length h + length u + 3) e labs) s"
proof -
  let ?t = "h @ block_text u @ w"
  have t: "NUL \<notin> set ?t" "CHR '';'' \<notin> set h" "CHR ''{'' \<notin> set h" using h by (auto simp: inert_def block_text_def)
  note found = find_char_text [OF t(1), of pre post, folded on]
  have brace: "find_char_c (c_text s) (length pre) e (CHR ''{'') = Inr (Some (length h))"
    using found [of "CHR ''{''"] takeWhile_before [OF t(3)] by (simp add: e block_text_def add.assoc eval_nat_numeral)
  obtain a where a: "find_char_c (c_text s) (length pre) e (CHR '';'') = Inr a" "a = None \<or> (\<exists>p. a = Some p \<and> length h < p)"
    using found [of "CHR '';''"] takeWhile_later [OF t(2), of "CHR ''{''" "u @ '' }'' @ w"] by (auto simp: e block_text_def add.assoc eval_nat_numeral split: if_splits)
  have "balanced (CHR ''{'') (CHR ''}'') (u @ '' '')" by (rule balanced_append [OF h(4)]) (simp add: balanced_char)
  then have "find_matching (CHR ''{'') (CHR ''}'') ((pre @ h) @ CHR ''{'' # (u @ '' '') @ CHR ''}'' # w @ post) (length (pre @ h)) e =
      Inr (Some (length (pre @ h) + length (u @ '' '') + 1))"
    by (rule matching_balanced) (simp_all add: e)
  moreover have "c_text s = (pre @ h) @ CHR ''{'' # (u @ '' '') @ CHR ''}'' # w @ post" by (simp add: on block_text_def)
  ultimately have "find_matching (CHR ''{'') (CHR ''}'') (c_text s) (length pre + length h) e = Inr (Some (length pre + length h + length u + 2))"
    by (simp add: add.assoc)
  with a(2) brace a(1) show ?thesis by (auto simp: bindM_eval Let_def add.assoc eval_nat_numeral)
qed

section \<open>Bodies\<close>

text \<open>What the compiler does on the text of a body, with the labels that are open before it.\<close>

definition ready_in :: "table \<Rightarrow> nat \<Rightarrow> string list \<Rightarrow> cc \<Rightarrow> bool" where
  "ready_in T fd ns s \<longleftrightarrow> in_pass T s \<and> vars_are s ns \<and> 1 < c_block_depth s \<and> ret_depth s = int fd \<and> fd \<le> length ns \<and> 0 < lab_id s"

definition body_acts :: "table \<Rightarrow> nat \<Rightarrow> body \<Rightarrow> bool" where
  "body_acts T fd b \<longleftrightarrow> (\<forall>ns t pre c post s labs n. body_ok_c T ns b \<longrightarrow> body_text b t \<longrightarrow> length t < n \<longrightarrow> ready_in T fd ns s \<longrightarrow>
     c_text s = pre @ t @ c # post \<longrightarrow>
     room_for T s (pending labs (current_loc s) @ body_symbols ns (lab_id s) (current_loc s) b) \<longrightarrow>
     acts T (bindM (block_loop_c n (length pre) (length pre + length t) labs) process_fi) (0, 0) s pre (length t + 1) post
       (body_code T fd ns (lab_id s) (current_loc s) b) (pending labs (current_loc s) @ body_symbols ns (lab_id s) (current_loc s) b)
       (body_names ns b) (lab_id s + body_labels b))"

definition branches_act :: "table \<Rightarrow> nat \<Rightarrow> branches \<Rightarrow> bool" where
  "branches_act T fd br \<longleftrightarrow> (\<forall>rest ns v w pre c post s els fi n. body_acts T fd rest \<longrightarrow> branches_ok T ns br \<longrightarrow> body_ok_c T ns rest \<longrightarrow>
     branches_text br v \<longrightarrow> body_text rest w \<longrightarrow> length (v @ w) < n \<longrightarrow> ready_in T fd ns s \<longrightarrow> 0 < els \<longrightarrow> 0 < fi \<longrightarrow>
     c_text s = pre @ (v @ w) @ c # post \<longrightarrow>
     room_for T s (branches_symbols ns els fi (lab_id s) (current_loc s) br @
       body_symbols ns (lab_id s + branches_labels br) (current_loc s + of_nat (branches_size ns br)) rest) \<longrightarrow>
     acts T (bindM (block_loop_c n (length pre) (length pre + length (v @ w)) (els, fi)) process_fi) (0, 0) s pre (length (v @ w) + 1) post
       (branches_code T fd ns fi (lab_id s) (current_loc s) br @
        body_code T fd ns (lab_id s + branches_labels br) (current_loc s + of_nat (branches_size ns br)) rest)
       (branches_symbols ns els fi (lab_id s) (current_loc s) br @
        body_symbols ns (lab_id s + branches_labels br) (current_loc s + of_nat (branches_size ns br)) rest)
       (body_names ns rest) (lab_id s + branches_labels br + body_labels rest))"

lemma bindM_assoc: "bindM (bindM m f) g = bindM m (\<lambda>x. bindM (f x) g)"
  by (rule ext) (simp add: bindM_eval split: sum.split)

lemma bindM_thenM: "bindM (thenM m m') g = thenM m (bindM m' g)"
  by (simp add: thenM_def bindM_assoc)

lemma length_block_text: "length (block_text u) = length u + 3"
  unfolding block_text_def by simp

lemma moves_ready: "moves T s t bs syms ns' lab \<Longrightarrow> ready_in T fd ns s \<Longrightarrow> fd \<le> length ns' \<Longrightarrow> 0 < lab \<Longrightarrow> ready_in T fd ns' t"
  by (simp add: moves_def ready_in_def)

lemma room_known: "room_for T s syms \<Longrightarrow> (x, l) \<in> set syms \<Longrightarrow> location T x \<noteq> None"
  by (cases T) (auto simp: room_for_def labels_at_def location_def)

text \<open>A block with its head, and what follows it.\<close>

lemma acts_branch:
  fixes s :: cc and bs :: "byte list" and b :: body and ns :: "string list" and lab :: nat
  defines "l1 \<equiv> current_loc s + of_nat (length bs)"
  assumes on: "c_text s = pre @ (h @ block_text u @ w) @ c # post" and h: "inert h" "NUL \<notin> set w"
    and head: "acts T (bindM (split_head (length pre) (length pre + length h)) (\<lambda>p. branch_head (length pre) p labs)) labs' s pre (length h + 1)
      ((u @ '' }'') @ w @ c # post) bs xs ns lab"
    and body: "body_acts T fd b" "body_ok_c T ns b" "body_text b u" "length u < n"
    and s: "ready_in T fd ns s" "0 < lab" "location T (gen_lab (snd labs')) \<noteq> None" "room_for T s (xs @ body_symbols ns lab l1 b @ syms)"
    and rest: "\<And>t pre'. c_text t = pre' @ w @ c # post \<Longrightarrow> length pre' = length pre + length h + length u + 3 \<Longrightarrow>
      moves T s t (bs @ (body_code T fd ns lab l1 b @ close_code ns b) @ jump_code T (snd labs') (l1 + of_nat (body_size ns b + 6)))
        (xs @ body_symbols ns lab l1 b) ns (lab + body_labels b) \<Longrightarrow>
      acts T (bindM (block_loop_c n (length pre') (length pre' + length w) labs') process_fi) r t pre' (length w + 1) post cs ys ms lab'"
  shows "acts T (bindM (block_loop_c (Suc n) (length pre) (length pre + length (h @ block_text u @ w)) labs) process_fi) r s pre
    (length (h @ block_text u @ w) + 1) post
    ((bs @ (body_code T fd ns lab l1 b @ close_code ns b) @ jump_code T (snd labs') (l1 + of_nat (body_size ns b + 6))) @ cs)
    ((xs @ body_symbols ns lab l1 b) @ ys) ms lab'"
proof -
  let ?bb = "length pre + length h" and ?be = "length pre + length h + length u + 2" and ?e = "length pre + length (h @ block_text u @ w)"
  have u: "NUL \<notin> set u" "balanced (CHR ''{'') (CHR ''}'') u" using body_braces(1) [OF body(2,3)] by simp_all
  have len: "length (h @ block_text u @ w) = length h + length u + 3 + length w" by (simp add: length_block_text)
  have e: "?e = length pre + length h + length u + 3 + length w" by (simp add: length_block_text)
  obtain vs where names: "body_names ns b = vs @ ns" using body_names_append by blast
  have first: "acts T (compile_block_with_head (compile_block (block_loop_c n)) (length pre) ?bb ?be labs) labs' s pre (length h + 1 + (length u + 2)) (w @ c # post)
      (bs @ (body_code T fd ns lab l1 b @ close_code ns b) @
        jump_code T (snd labs') (current_loc s + of_nat (length bs) + of_nat (length (body_code T fd ns lab l1 b @ close_code ns b))))
      (xs @ body_symbols ns lab l1 b) ns (lab + body_labels b)"
  proof (rule acts_with_head [OF head _ s(3)])
    show "1 < c_block_depth s" using s(1) by (simp add: ready_in_def)
    fix t y
    assume t: "c_text t = (pre @ y) @ (u @ '' }'') @ w @ c # post" "length y = length h + 1" "moves T s t bs xs ns lab"
    let ?t = "t\<lparr>c_block_depth := c_block_depth t + 1\<rparr>"
    have rt: "ready_in T fd ns t" using moves_ready [OF t(3) s(1)] s(1,2) by (simp add: ready_in_def)
    then have rt': "ready_in T fd ns ?t" by (simp add: ready_in_def state_simps)
    have st: "lab_id t = lab" "current_loc t = l1" "c_block_depth t = c_block_depth s" using t(3) by (simp_all add: moves_def l1_def)
    have room: "room_for T ?t (body_symbols ns lab l1 b)" using room_append [OF moves_room [OF t(3) s(4)]] by (simp add: room_state)
    have "acts T (bindM (block_loop_c n (length (pre @ y)) (length (pre @ y) + length u) (0, 0)) process_fi) (0, 0) ?t (pre @ y) (length u + 1) (CHR ''}'' # w @ c # post)
        (body_code T fd ns (lab_id ?t) (current_loc ?t) b) (pending (0, 0) (current_loc ?t) @ body_symbols ns (lab_id ?t) (current_loc ?t) b)
        (body_names ns b) (lab_id ?t + body_labels b)"
      by (rule body(1) [unfolded body_acts_def, rule_format, OF body(2-4) rt'])
        (use room in \<open>simp_all add: t(1) st pending_def\<close>)
    then have "acts T (bindM (block_loop_c n (length (pre @ y)) (length (pre @ y) + length u) (0, 0)) process_fi) (0, 0) ?t (pre @ y) (length u + 1) (CHR ''}'' # w @ c # post)
        (body_code T fd ns lab l1 b) (body_symbols ns lab l1 b) (vs @ ns) (lab + body_labels b)"
      by (simp add: st pending_def names)
    from acts_block [where vs = vs and ns = ns and loop = "block_loop_c n", OF this] rt
    have "acts T (compile_block (block_loop_c n) (length (pre @ y)) (length (pre @ y) + length u)) () t (pre @ y) (length u + 1) (CHR ''}'' # w @ c # post)
        (body_code T fd ns lab l1 b @ close_code ns b) (body_symbols ns lab l1 b) ns (lab + body_labels b)"
      by (simp add: ready_in_def close_code_def names)
    then have "acts T (compile_block (block_loop_c n) (length (pre @ y)) (length (pre @ y) + length u)) () t (pre @ y) (length u + 2) (w @ c # post)
        (body_code T fd ns lab l1 b @ close_code ns b) (body_symbols ns lab l1 b) ns (lab + body_labels b)"
      by - (rule acts_within [where u = "[]" and v = "''}''"], simp_all)
    then show "acts T (compile_block (block_loop_c n) (?bb + 1) (?be - 1)) () t (pre @ y) (length u + 2) (w @ c # post)
        (body_code T fd ns lab l1 b @ close_code ns b) (body_symbols ns lab l1 b) ns (lab + body_labels b)"
      by (simp add: t(2) add.assoc eval_nat_numeral)
  qed
  have "acts T (bindM (compile_block_with_head (compile_block (block_loop_c n)) (length pre) ?bb ?be labs)
      (\<lambda>labs. bindM (block_loop_c n (length pre + length h + length u + 3) ?e labs) process_fi)) r s pre
      (length h + 1 + (length u + 2) + (length w + 1)) post
      ((bs @ (body_code T fd ns lab l1 b @ close_code ns b) @ jump_code T (snd labs') (l1 + of_nat (body_size ns b + 6))) @ cs)
      ((xs @ body_symbols ns lab l1 b) @ ys) ms lab'"
  proof (rule acts_split [where v = "w @ [c]"])
    show "acts T (compile_block_with_head (compile_block (block_loop_c n)) (length pre) ?bb ?be labs) labs' s pre (length h + 1 + (length u + 2)) ((w @ [c]) @ post)
      (bs @ (body_code T fd ns lab l1 b @ close_code ns b) @ jump_code T (snd labs') (l1 + of_nat (body_size ns b + 6)))
      (xs @ body_symbols ns lab l1 b) ns (lab + body_labels b)"
      using first by (simp add: l1_def length_body_code)
    fix t y
    assume t: "c_text t = (pre @ y) @ (w @ [c]) @ post" "length y = length h + 1 + (length u + 2)"
      "moves T s t (bs @ (body_code T fd ns lab l1 b @ close_code ns b) @ jump_code T (snd labs') (l1 + of_nat (body_size ns b + 6)))
      (xs @ body_symbols ns lab l1 b) ns (lab + body_labels b)"
    have p: "length (pre @ y) = length pre + length h + length u + 3" using t(2) by simp
    from rest [OF _ p t(3)] t(1)
    show "acts T (bindM (block_loop_c n (length pre + length h + length u + 3) ?e labs') process_fi) r t (pre @ y) (length w + 1) post cs ys ms lab'"
      unfolding e p by simp
  qed
  moreover have "bindM (block_loop_c (Suc n) (length pre) ?e labs) process_fi s =
      bindM (compile_block_with_head (compile_block (block_loop_c n)) (length pre) ?bb ?be labs)
      (\<lambda>labs. bindM (block_loop_c n (length pre + length h + length u + 3) ?e labs) process_fi) s"
    using loop_block [OF on h(1) u(1) h(2) u(2) e, of n labs] unfolding bindM_eval [of "block_loop_c (Suc n) _ _ _"] bindM_assoc [symmetric]
    by (simp only: bindM_eval [of _ process_fi])
  ultimately show ?thesis by (simp add: acts_def length_block_text add.assoc eval_nat_numeral)
qed

text \<open>The induction over bodies and branches.\<close>

lemma body_acts_Done: "body_acts T fd Done"
  unfolding body_acts_def
proof (intro allI impI)
  fix ns :: "string list" and t pre :: string and c post and s :: cc and labs n
  assume t: "body_text Done t" "length t < n" and s: "ready_in T fd ns s" and on: "c_text s = pre @ t @ c # post"
    and room: "room_for T s (pending labs (current_loc s) @ body_symbols ns (lab_id s) (current_loc s) Done)"
  obtain k where k: "t = blanks k" using t(1) by auto
  obtain n' where n: "n = Suc n'" using t(2) by (cases n) auto
  have "acts T (bindM (block_loop_c (Suc n') (length pre) (length pre + k) labs) process_fi) (0, 0) s pre (k + 1) post
      [] (pending labs (current_loc s)) ns (lab_id s)"
    by (rule acts_end [where syms = "[]"]) (use s room on in \<open>simp_all add: ready_in_def k\<close>)
  then show "acts T (bindM (block_loop_c n (length pre) (length pre + length t) labs) process_fi) (0, 0) s pre (length t + 1) post
      (body_code T fd ns (lab_id s) (current_loc s) Done) (pending labs (current_loc s) @ body_symbols ns (lab_id s) (current_loc s) Done)
      (body_names ns Done) (lab_id s + body_labels Done)"
    by (simp add: n k blanks_simps del: block_loop_c.simps)
qed

lemma simple_names_length: "length ns \<le> length (simple_names ns st)"
  by (cases st) simp_all

lemma body_acts_Step:
  assumes IH: "body_acts T fd b"
  shows "body_acts T fd (Step st b)"
  unfolding body_acts_def
proof (intro allI impI)
  fix ns :: "string list" and t pre :: string and c post and s :: cc and labs n
  let ?l = "current_loc s" and ?lab = "lab_id s" and ?ns = "simple_names ns st"
  let ?l' = "?l + of_nat (simple_size ns st)"
  assume ok: "body_ok_c T ns (Step st b)" and t: "body_text (Step st b) t" "length t < n" and s: "ready_in T fd ns s" and on: "c_text s = pre @ t @ c # post"
    and room: "room_for T s (pending labs ?l @ body_symbols ns ?lab ?l (Step st b))"
  obtain u w where u: "simple_text st u" "body_text b w" "t = u @ CHR '';'' # w" using t(1) by auto
  obtain n' where n: "n = Suc n'" using t(2) by (cases n) auto
  have st: "simple_ok T ns st" "body_ok_c T ?ns b" using ok by simp_all
  have chars: "inert u" "NUL \<notin> set w" using simple_inert [OF st(1) u(1)] body_braces(1) [OF st(2) u(2)] by simp_all
  let ?e = "length pre + length t"
  have e: "?e = length pre + length u + 1 + length w" by (simp add: u(3))
  have "acts T (bindM (process_fi labs) (\<lambda>labs. thenM (compile_statement (length pre) (length pre + length u))
      (bindM (block_loop_c n' (length pre + length u + 1) ?e labs) process_fi))) (0, 0) s pre (length t + 1) post
      ([] @ simple_code T fd ns st @ body_code T fd ?ns ?lab ?l' b) (pending labs ?l @ [] @ body_symbols ?ns ?lab ?l' b)
      (body_names ?ns b) (?lab + body_labels b)"
  proof (rule acts_still)
    show "acts T (process_fi labs) (0, 0) s (c_text s) 0 [] [] (pending labs ?l) ns ?lab"
      by (rule acts_fi [where w = "[]"]) (use s room in \<open>simp_all add: ready_in_def\<close>)
    fix s1
    assume s1: "c_text s1 = c_text s" "moves T s s1 [] (pending labs ?l) ns ?lab"
    have r1: "ready_in T fd ns s1" using moves_ready [OF s1(2) s] s by (simp add: ready_in_def)
    have eq1: "lab_id s1 = ?lab" "current_loc s1 = ?l" using s1(2) by (simp_all add: moves_def)
    have room1: "room_for T s1 (body_symbols ?ns ?lab ?l' b)" using moves_room [OF s1(2) room] by simp
    have "acts T (bindM (compile_statement (length pre) (length pre + length u))
        (\<lambda>_. bindM (block_loop_c n' (length pre + length u + 1) ?e (0, 0)) process_fi)) (0, 0) s1 pre (length u + 1 + (length w + 1)) post
        (simple_code T fd ns st @ body_code T fd ?ns ?lab ?l' b) ([] @ body_symbols ?ns ?lab ?l' b) (body_names ?ns b) (?lab + body_labels b)"
    proof (rule acts_split [where v = "w @ [c]"])
      show "acts T (compile_statement (length pre) (length pre + length u)) () s1 pre (length u + 1) ((w @ [c]) @ post) (simple_code T fd ns st) [] ?ns ?lab"
        using acts_simple [OF st(1) u(1), of s1 fd pre "CHR '';''" "w @ c # post"] r1 on by (simp add: ready_in_def eq1 s1(1) u(3))
      fix s2 y
      assume s2: "c_text s2 = (pre @ y) @ (w @ [c]) @ post" "length y = length u + 1" "moves T s1 s2 (simple_code T fd ns st) [] ?ns ?lab"
      have r2: "ready_in T fd ?ns s2" using moves_ready [OF s2(3) r1] r1 simple_names_length [of ns st] s by (simp add: ready_in_def)
      have eq2: "lab_id s2 = ?lab" "current_loc s2 = ?l'" using s2(3) by (simp_all add: moves_def eq1 length_simple_code)
      have room2: "room_for T s2 (pending (0, 0) (current_loc s2) @ body_symbols ?ns (lab_id s2) (current_loc s2) b)"
        using moves_room [OF s2(3), of "body_symbols ?ns ?lab ?l' b"] room1 by (simp add: eq2 pending_def)
      have "acts T (bindM (block_loop_c n' (length (pre @ y)) (length (pre @ y) + length w) (0, 0)) process_fi) (0, 0) s2 (pre @ y) (length w + 1) post
          (body_code T fd ?ns (lab_id s2) (current_loc s2) b) (pending (0, 0) (current_loc s2) @ body_symbols ?ns (lab_id s2) (current_loc s2) b)
          (body_names ?ns b) (lab_id s2 + body_labels b)"
        by (rule IH [unfolded body_acts_def, rule_format, OF st(2) u(2) _ r2 _ room2]) (use t(2) s2(1) in \<open>simp_all add: n u(3)\<close>)
      then show "acts T (bindM (block_loop_c n' (length pre + length u + 1) ?e (0, 0)) process_fi) (0, 0) s2 (pre @ y) (length w + 1) post
          (body_code T fd ?ns ?lab ?l' b) (body_symbols ?ns ?lab ?l' b) (body_names ?ns b) (?lab + body_labels b)"
        by (simp add: eq2 pending_def s2(2) e)
    qed
    then show "acts T (thenM (compile_statement (length pre) (length pre + length u)) (bindM (block_loop_c n' (length pre + length u + 1) ?e (0, 0)) process_fi))
        (0, 0) s1 pre (length t + 1) post (simple_code T fd ns st @ body_code T fd ?ns ?lab ?l' b) ([] @ body_symbols ?ns ?lab ?l' b)
        (body_names ?ns b) (?lab + body_labels b)"
      unfolding thenM_def by (simp add: u(3) add.assoc)
  qed
  moreover have "bindM (block_loop_c n (length pre) ?e labs) process_fi s = bindM (process_fi labs)
      (\<lambda>labs. thenM (compile_statement (length pre) (length pre + length u)) (bindM (block_loop_c n' (length pre + length u + 1) ?e labs) process_fi)) s"
    unfolding n bindM_thenM [symmetric] bindM_assoc [symmetric] bindM_eval [of _ process_fi]
    by (subst loop_statement [OF _ chars e, of s "c # post" n' labs]) (simp_all add: on u(3))
  ultimately show "acts T (bindM (block_loop_c n (length pre) ?e labs) process_fi) (0, 0) s pre (length t + 1) post
      (body_code T fd ns ?lab ?l (Step st b)) (pending labs ?l @ body_symbols ns ?lab ?l (Step st b))
      (body_names ns (Step st b)) (?lab + body_labels (Step st b))"
    by (simp add: acts_def)
qed

lemma inert_words: "inert ''if''" "inert ''elseif''" "inert ''else''"
  by simp_all

lemma body_acts_Cond:
  assumes IHb: "body_acts T fd b" and IHbr: "branches_act T fd br" and IHr: "body_acts T fd rest"
  shows "body_acts T fd (Cond e b br rest)"
  unfolding body_acts_def
proof (intro allI impI)
  fix ns :: "string list" and t pre :: string and c post and s :: cc and labs n
  let ?l = "current_loc s" and ?lab = "lab_id s"
  let ?l1 = "?l + of_nat (test_size ns e)"
  let ?l2 = "?l1 + of_nat (body_size ns b + 6)" and ?lab1 = "?lab + 2 + body_labels b"
  let ?l3 = "?l2 + 5" and ?lab3 = "?lab1 + branches_labels br"
  let ?l4 = "?l3 + of_nat (branches_size ns br)"
  let ?test = "test_code T ns ?lab ?l e" and ?syms = "pending labs ?l" and ?p = "pending labs ?l"
  let ?first = "?test @ (body_code T fd ns (?lab + 2) ?l1 b @ close_code ns b) @ jump_code T (?lab + 1) ?l2"
  let ?others = "branches_code T fd ns (?lab + 1) ?lab1 ?l3 br @ body_code T fd ns ?lab3 ?l4 rest"
  let ?osyms = "branches_symbols ns ?lab (?lab + 1) ?lab1 ?l3 br @ body_symbols ns ?lab3 ?l4 rest"
  assume ok: "body_ok_c T ns (Cond e b br rest)" and t: "body_text (Cond e b br rest) t" "length t < n" and s: "ready_in T fd ns s"
    and on: "c_text s = pre @ t @ c # post" and room: "room_for T s (?p @ body_symbols ns ?lab ?l (Cond e b br rest))"
  obtain h u v w where h: "head_text ''if'' e h" "body_text b u" "branches_text br v" "body_text rest w" "t = h @ block_text u @ v @ w"
    using t(1) by auto
  obtain n' where n: "n = Suc n'" using t(2) by (cases n) auto
  have oks: "exp_ok T ns e" "body_ok_c T ns b" "branches_ok T ns br" "body_ok_c T ns rest" using ok by simp_all
  have syms: "body_symbols ns ?lab ?l (Cond e b br rest) = body_symbols ns (?lab + 2) ?l1 b @ ?osyms" by (simp only: body_symbols.simps Let_def)
  have codes: "body_code T fd ns ?lab ?l (Cond e b br rest) = ?first @ ?others" by (simp only: body_code.simps Let_def append_assoc)
  have ends: "body_names ns (Cond e b br rest) = body_names ns rest" "?lab + body_labels (Cond e b br rest) = ?lab3 + body_labels rest" by simp_all
  have room: "room_for T s (?p @ body_symbols ns (?lab + 2) ?l1 b @ ?osyms)" using room unfolding syms .
  have known: "location T (gen_lab ?lab) \<noteq> None" "location T (gen_lab (?lab + 1)) \<noteq> None"
    by (rule room_known [OF room], use branches_label_ends in force)+
  have inside: "inert h" "NUL \<notin> set (v @ w)"
    using head_inert [OF _ inert_words(1) h(1)] oks(1) body_braces(2) [OF oks(3) h(3)] body_braces(1) [OF oks(4) h(4)] by (simp_all add: exp_ok_def)
  have bs: "of_nat (length ?test) = (of_nat (test_size ns e) :: i32)" by simp
  have "acts T (bindM (block_loop_c (Suc n') (length pre) (length pre + length (h @ block_text u @ v @ w)) labs) process_fi) (0, 0) s pre
      (length (h @ block_text u @ v @ w) + 1) post (?first @ ?others) ((?p @ body_symbols ns (?lab + 2) ?l1 b) @ ?osyms)
      (body_names ns rest) (?lab3 + body_labels rest)"
  proof (rule acts_branch [where labs' = "(?lab, ?lab + 1)" and bs = ?test and s = s and lab = "?lab + 2" and b = b and ns = ns, unfolded bs snd_conv])
    show "c_text s = pre @ (h @ block_text u @ v @ w) @ c # post" using on by (simp add: h(5))
    then show "acts T (bindM (split_head (length pre) (length pre + length h)) (\<lambda>p. branch_head (length pre) p labs)) (?lab, ?lab + 1) s pre (length h + 1)
        ((u @ '' }'') @ (v @ w) @ c # post) ?test ?p ns (?lab + 2)"
      using acts_if [OF h(1) oks(1) _ _ room known(1), of pre "CHR ''{''" "(u @ '' }'') @ (v @ w) @ c # post"] s
      by (simp add: ready_in_def block_text_def)
    show "room_for T s (?p @ body_symbols ns (?lab + 2) ?l1 b @ ?osyms)" by (rule room)
    fix t' pre'
    assume t': "c_text t' = pre' @ (v @ w) @ c # post" "moves T s t' ?first (?p @ body_symbols ns (?lab + 2) ?l1 b) ns (?lab + 2 + body_labels b)"
    have r: "ready_in T fd ns t'" using moves_ready [OF t'(2) s] s by (simp add: ready_in_def)
    have eq: "lab_id t' = ?lab1" "current_loc t' = ?l3" using t'(2) by (simp_all add: moves_def length_body_code add.assoc)
    have "acts T (bindM (block_loop_c n' (length pre') (length pre' + length (v @ w)) (?lab, ?lab + 1)) process_fi) (0, 0) t' pre' (length (v @ w) + 1) post
       (branches_code T fd ns (?lab + 1) (lab_id t') (current_loc t') br @
        body_code T fd ns (lab_id t' + branches_labels br) (current_loc t' + of_nat (branches_size ns br)) rest)
       (branches_symbols ns ?lab (?lab + 1) (lab_id t') (current_loc t') br @
        body_symbols ns (lab_id t' + branches_labels br) (current_loc t' + of_nat (branches_size ns br)) rest)
       (body_names ns rest) (lab_id t' + branches_labels br + body_labels rest)"
    proof (rule IHbr [unfolded branches_act_def, rule_format, OF IHr oks(3,4) h(3,4) _ r])
      show "length (v @ w) < n'" using t(2) by (simp add: n h(5) length_block_text)
      show "0 < ?lab" using s by (simp add: ready_in_def)
      show "room_for T t' (branches_symbols ns ?lab (?lab + 1) (lab_id t') (current_loc t') br @
          body_symbols ns (lab_id t' + branches_labels br) (current_loc t' + of_nat (branches_size ns br)) rest)"
        unfolding eq by (rule moves_room [OF t'(2)]) (use room in simp)
    qed (use t'(1) in simp_all)
    then show "acts T (bindM (block_loop_c n' (length pre') (length pre' + length (v @ w)) (?lab, ?lab + 1)) process_fi) (0, 0) t' pre' (length (v @ w) + 1) post
        ?others ?osyms (body_names ns rest) (?lab3 + body_labels rest)"
      unfolding eq .
  qed (use s inside IHb oks h(2) known t(2) in \<open>simp_all add: ready_in_def n h(5) length_block_text\<close>)
  then show "acts T (bindM (block_loop_c n (length pre) (length pre + length t) labs) process_fi) (0, 0) s pre (length t + 1) post
      (body_code T fd ns ?lab ?l (Cond e b br rest)) (?p @ body_symbols ns ?lab ?l (Cond e b br rest))
      (body_names ns (Cond e b br rest)) (?lab + body_labels (Cond e b br rest))"
    unfolding n h(5) syms codes ends append_assoc .
qed

lemma branches_act_NoElse: "branches_act T fd NoElse"
  unfolding branches_act_def
proof (intro allI impI)
  fix rest :: body and ns :: "string list" and v w pre :: string and c post and s :: cc and els fi n
  let ?l = "current_loc s" and ?lab = "lab_id s"
  assume IH: "body_acts T fd rest" and ok: "body_ok_c T ns rest" and t: "branches_text NoElse v" "body_text rest w" "length (v @ w) < n"
    and s: "ready_in T fd ns s" "0 < els" "0 < fi" and on: "c_text s = pre @ (v @ w) @ c # post"
    and room: "room_for T s (branches_symbols ns els fi ?lab ?l NoElse @ body_symbols ns (?lab + branches_labels NoElse) (?l + of_nat (branches_size ns NoElse)) rest)"
  have v: "v = []" using t(1) by simp
  have p: "pending (els, fi) ?l = [(gen_lab els, ?l), (gen_lab fi, ?l)]" using s(2,3) by (simp add: pending_def)
  have "acts T (bindM (block_loop_c n (length pre) (length pre + length w) (els, fi)) process_fi) (0, 0) s pre (length w + 1) post
      (body_code T fd ns ?lab ?l rest) (pending (els, fi) ?l @ body_symbols ns ?lab ?l rest) (body_names ns rest) (?lab + body_labels rest)"
    by (rule IH [unfolded body_acts_def, rule_format, OF ok t(2) _ s(1)]) (use t(3) on room in \<open>simp_all add: v p\<close>)
  then show "acts T (bindM (block_loop_c n (length pre) (length pre + length (v @ w)) (els, fi)) process_fi) (0, 0) s pre (length (v @ w) + 1) post
       (branches_code T fd ns fi ?lab ?l NoElse @ body_code T fd ns (?lab + branches_labels NoElse) (?l + of_nat (branches_size ns NoElse)) rest)
       (branches_symbols ns els fi ?lab ?l NoElse @ body_symbols ns (?lab + branches_labels NoElse) (?l + of_nat (branches_size ns NoElse)) rest)
       (body_names ns rest) (?lab + branches_labels NoElse + body_labels rest)"
    by (simp add: v p)
qed

lemma branches_act_Else:
  assumes IHb: "body_acts T fd b"
  shows "branches_act T fd (Else b)"
  unfolding branches_act_def
proof (intro allI impI)
  fix rest :: body and ns :: "string list" and v w pre :: string and c post and s :: cc and els fi n
  let ?l = "current_loc s" and ?lab = "lab_id s"
  let ?l2 = "?l + of_nat (body_size ns b + 6)" and ?lab1 = "?lab + body_labels b"
  let ?l3 = "?l2 + 5"
  let ?first = "[] @ (body_code T fd ns ?lab ?l b @ close_code ns b) @ jump_code T fi ?l2" and ?x = "[(gen_lab els, ?l)]"
  let ?bsyms = "body_symbols ns ?lab ?l b" and ?osyms = "(gen_lab fi, ?l3) # body_symbols ns ?lab1 ?l3 rest"
  assume IH: "body_acts T fd rest" and oks: "branches_ok T ns (Else b)" "body_ok_c T ns rest" and t: "branches_text (Else b) v" "body_text rest w" "length (v @ w) < n"
    and s: "ready_in T fd ns s" "0 < els" "0 < fi" and on: "c_text s = pre @ (v @ w) @ c # post"
    and room0: "room_for T s (branches_symbols ns els fi ?lab ?l (Else b) @ body_symbols ns (?lab + branches_labels (Else b)) (?l + of_nat (branches_size ns (Else b))) rest)"
  obtain i j u where u: "body_text b u" "v = (blanks i @ ''else'' @ blanks j) @ block_text u" using t(1) by auto
  let ?h = "blanks i @ ''else'' @ blanks j"
  obtain n' where n: "n = Suc n'" using t(3) by (cases n) auto
  have loc: "?l + of_nat (branches_size ns (Else b)) = ?l3" by (simp add: add.assoc)
  have syms: "branches_symbols ns els fi ?lab ?l (Else b) @ body_symbols ns (?lab + branches_labels (Else b)) (?l + of_nat (branches_size ns (Else b))) rest =
      (?x @ ?bsyms) @ ?osyms" unfolding loc by simp
  have codes: "branches_code T fd ns fi ?lab ?l (Else b) @ body_code T fd ns (?lab + branches_labels (Else b)) (?l + of_nat (branches_size ns (Else b))) rest =
      ?first @ body_code T fd ns ?lab1 ?l3 rest" unfolding loc by simp
  have room: "room_for T s (?x @ ?bsyms @ ?osyms)" using room0 unfolding syms by simp
  have known: "location T (gen_lab fi) \<noteq> None" by (rule room_known [OF room, of _ ?l3]) simp
  have inside: "NUL \<notin> set w" using body_braces(1) [OF oks(2) t(2)] by simp
  have zero: "current_loc s + of_nat (length ([] :: byte list)) = ?l" by simp
  have "acts T (bindM (block_loop_c (Suc n') (length pre) (length pre + length (?h @ block_text u @ w)) (els, fi)) process_fi) (0, 0) s pre
      (length (?h @ block_text u @ w) + 1) post (?first @ body_code T fd ns ?lab1 ?l3 rest) ((?x @ ?bsyms) @ ?osyms)
      (body_names ns rest) (?lab1 + body_labels rest)"
  proof (rule acts_branch [where labs' = "(0, fi)" and bs = "[]" and s = s and lab = ?lab and b = b and ns = ns, unfolded zero snd_conv])
    show on': "c_text s = pre @ (?h @ block_text u @ w) @ c # post" using on by (simp add: u(2))
    show "acts T (bindM (split_head (length pre) (length pre + length ?h)) (\<lambda>p. branch_head (length pre) p (els, fi))) (0, fi) s pre (length ?h + 1)
        ((u @ '' }'') @ w @ c # post) [] ?x ns ?lab"
      by (rule acts_else [OF refl]) (use s on' room in \<open>simp_all add: ready_in_def block_text_def\<close>)
    show "room_for T s (?x @ ?bsyms @ ?osyms)" by (rule room)
    fix t' pre'
    assume t': "c_text t' = pre' @ w @ c # post" "moves T s t' ?first (?x @ ?bsyms) ns (?lab + body_labels b)"
    have r: "ready_in T fd ns t'" using moves_ready [OF t'(2) s(1)] s(1) by (simp add: ready_in_def)
    have eq: "lab_id t' = ?lab1" "current_loc t' = ?l3" using t'(2) by (simp_all add: moves_def length_body_code add.assoc)
    have p: "pending (0, fi) (current_loc t') @ body_symbols ns (lab_id t') (current_loc t') rest = ?osyms" using s(3) by (simp add: pending_def eq)
    have "acts T (bindM (block_loop_c n' (length pre') (length pre' + length w) (0, fi)) process_fi) (0, 0) t' pre' (length w + 1) post
       (body_code T fd ns (lab_id t') (current_loc t') rest) (pending (0, fi) (current_loc t') @ body_symbols ns (lab_id t') (current_loc t') rest)
       (body_names ns rest) (lab_id t' + body_labels rest)"
    proof (rule IH [unfolded body_acts_def, rule_format, OF oks(2) t(2) _ r t'(1)])
      show "room_for T t' (pending (0, fi) (current_loc t') @ body_symbols ns (lab_id t') (current_loc t') rest)"
        unfolding p by (rule moves_room [OF t'(2)]) (use room in simp)
    qed (use t(3) in \<open>simp add: n u(2) length_block_text\<close>)
    then show "acts T (bindM (block_loop_c n' (length pre') (length pre' + length w) (0, fi)) process_fi) (0, 0) t' pre' (length w + 1) post
        (body_code T fd ns ?lab1 ?l3 rest) ?osyms (body_names ns rest) (?lab1 + body_labels rest)"
      unfolding p unfolding eq .
  qed (use s inside IHb oks u known t(3) in \<open>simp_all add: ready_in_def n length_block_text\<close>)
  then show "acts T (bindM (block_loop_c n (length pre) (length pre + length (v @ w)) (els, fi)) process_fi) (0, 0) s pre (length (v @ w) + 1) post
       (branches_code T fd ns fi ?lab ?l (Else b) @ body_code T fd ns (?lab + branches_labels (Else b)) (?l + of_nat (branches_size ns (Else b))) rest)
       (branches_symbols ns els fi ?lab ?l (Else b) @ body_symbols ns (?lab + branches_labels (Else b)) (?l + of_nat (branches_size ns (Else b))) rest)
       (body_names ns rest) (?lab + branches_labels (Else b) + body_labels rest)"
    unfolding loc branches_labels.simps syms [unfolded loc branches_labels.simps] codes [unfolded loc branches_labels.simps] n u(2) append_assoc .
qed

lemma branches_act_Elseif:
  assumes IHb: "body_acts T fd b" and IHbr: "branches_act T fd br"
  shows "branches_act T fd (Elseif e b br)"
  unfolding branches_act_def
proof (intro allI impI)
  fix rest :: body and ns :: "string list" and v w pre :: string and c post and s :: cc and els fi n
  let ?l = "current_loc s" and ?lab = "lab_id s"
  let ?l1 = "?l + of_nat (test_size ns e)"
  let ?l2 = "?l1 + of_nat (body_size ns b + 6)" and ?lab1 = "?lab + 1 + body_labels b"
  let ?l3 = "?l2 + 5" and ?lab3 = "?lab1 + branches_labels br"
  let ?l4 = "?l3 + of_nat (branches_size ns br)"
  let ?test = "test_code T ns ?lab ?l e" and ?x = "[(gen_lab els, ?l)]"
  let ?first = "?test @ (body_code T fd ns (?lab + 1) ?l1 b @ close_code ns b) @ jump_code T fi ?l2"
  let ?others = "branches_code T fd ns fi ?lab1 ?l3 br @ body_code T fd ns ?lab3 ?l4 rest"
  let ?bsyms = "body_symbols ns (?lab + 1) ?l1 b"
  let ?osyms = "branches_symbols ns ?lab fi ?lab1 ?l3 br @ body_symbols ns ?lab3 ?l4 rest"
  assume IH: "body_acts T fd rest" and oks0: "branches_ok T ns (Elseif e b br)" and okr: "body_ok_c T ns rest"
    and t: "branches_text (Elseif e b br) v" "body_text rest w" "length (v @ w) < n"
    and s: "ready_in T fd ns s" "0 < els" "0 < fi" and on: "c_text s = pre @ (v @ w) @ c # post"
    and room0: "room_for T s (branches_symbols ns els fi ?lab ?l (Elseif e b br) @
      body_symbols ns (?lab + branches_labels (Elseif e b br)) (?l + of_nat (branches_size ns (Elseif e b br))) rest)"
  obtain h u v' where h: "head_text ''elseif'' e h" "body_text b u" "branches_text br v'" "v = h @ block_text u @ v'" using t(1) by auto
  obtain n' where n: "n = Suc n'" using t(3) by (cases n) auto
  have oks: "exp_ok T ns e" "body_ok_c T ns b" "branches_ok T ns br" using oks0 by simp_all
  have loc: "?l + of_nat (branches_size ns (Elseif e b br)) = ?l4" "?lab + branches_labels (Elseif e b br) = ?lab3" by (simp_all add: ac_simps)
  have syms: "branches_symbols ns els fi ?lab ?l (Elseif e b br) @
      body_symbols ns (?lab + branches_labels (Elseif e b br)) (?l + of_nat (branches_size ns (Elseif e b br))) rest = (?x @ ?bsyms) @ ?osyms"
    unfolding loc by (simp only: branches_symbols.simps Let_def append_assoc append_Cons append_Nil)
  have codes: "branches_code T fd ns fi ?lab ?l (Elseif e b br) @
      body_code T fd ns (?lab + branches_labels (Elseif e b br)) (?l + of_nat (branches_size ns (Elseif e b br))) rest = ?first @ ?others"
    unfolding loc by (simp only: branches_code.simps Let_def append_assoc)
  have room: "room_for T s (?x @ ?bsyms @ ?osyms)" using room0 unfolding syms by simp
  have known: "location T (gen_lab ?lab) \<noteq> None" "location T (gen_lab fi) \<noteq> None"
    by (rule room_known [OF room], use branches_label_ends in force)+
  have inside: "inert h" "NUL \<notin> set (v' @ w)"
    using head_inert [OF _ inert_words(2) h(1)] oks(1) body_braces(2) [OF oks(3) h(3)] body_braces(1) [OF okr t(2)] by (simp_all add: exp_ok_def)
  have bs: "of_nat (length ?test) = (of_nat (test_size ns e) :: i32)" by simp
  have "acts T (bindM (block_loop_c (Suc n') (length pre) (length pre + length (h @ block_text u @ v' @ w)) (els, fi)) process_fi) (0, 0) s pre
      (length (h @ block_text u @ v' @ w) + 1) post (?first @ ?others) ((?x @ ?bsyms) @ ?osyms)
      (body_names ns rest) (?lab3 + body_labels rest)"
  proof (rule acts_branch [where labs' = "(?lab, fi)" and bs = ?test and s = s and lab = "?lab + 1" and b = b and ns = ns, unfolded bs snd_conv])
    show on': "c_text s = pre @ (h @ block_text u @ v' @ w) @ c # post" using on by (simp add: h(4))
    show "acts T (bindM (split_head (length pre) (length pre + length h)) (\<lambda>p. branch_head (length pre) p (els, fi))) (?lab, fi) s pre (length h + 1)
        ((u @ '' }'') @ (v' @ w) @ c # post) ?test ?x ns (?lab + 1)"
      by (rule acts_elseif [OF h(1) oks(1)]) (use s on' room known(1) in \<open>simp_all add: ready_in_def block_text_def\<close>)
    show "room_for T s (?x @ ?bsyms @ ?osyms)" by (rule room)
    fix t' pre'
    assume t': "c_text t' = pre' @ (v' @ w) @ c # post" "moves T s t' ?first (?x @ ?bsyms) ns (?lab + 1 + body_labels b)"
    have r: "ready_in T fd ns t'" using moves_ready [OF t'(2) s(1)] s(1) by (simp add: ready_in_def)
    have eq: "lab_id t' = ?lab1" "current_loc t' = ?l3" using t'(2) by (simp_all add: moves_def length_body_code add.assoc)
    have "acts T (bindM (block_loop_c n' (length pre') (length pre' + length (v' @ w)) (?lab, fi)) process_fi) (0, 0) t' pre' (length (v' @ w) + 1) post
       (branches_code T fd ns fi (lab_id t') (current_loc t') br @
        body_code T fd ns (lab_id t' + branches_labels br) (current_loc t' + of_nat (branches_size ns br)) rest)
       (branches_symbols ns ?lab fi (lab_id t') (current_loc t') br @
        body_symbols ns (lab_id t' + branches_labels br) (current_loc t' + of_nat (branches_size ns br)) rest)
       (body_names ns rest) (lab_id t' + branches_labels br + body_labels rest)"
    proof (rule IHbr [unfolded branches_act_def, rule_format, OF IH oks(3) okr h(3) t(2) _ r])
      show "length (v' @ w) < n'" using t(3) by (simp add: n h(4) length_block_text)
      show "0 < ?lab" using s by (simp add: ready_in_def)
      show "room_for T t' (branches_symbols ns ?lab fi (lab_id t') (current_loc t') br @
          body_symbols ns (lab_id t' + branches_labels br) (current_loc t' + of_nat (branches_size ns br)) rest)"
        unfolding eq by (rule moves_room [OF t'(2)]) (use room in simp)
    qed (use t'(1) s(3) in simp_all)
    then show "acts T (bindM (block_loop_c n' (length pre') (length pre' + length (v' @ w)) (?lab, fi)) process_fi) (0, 0) t' pre' (length (v' @ w) + 1) post
        ?others ?osyms (body_names ns rest) (?lab3 + body_labels rest)"
      unfolding eq .
  qed (use s inside IHb oks h(2) known t(3) in \<open>simp_all add: ready_in_def n h(4) length_block_text\<close>)
  then show "acts T (bindM (block_loop_c n (length pre) (length pre + length (v @ w)) (els, fi)) process_fi) (0, 0) s pre (length (v @ w) + 1) post
       (branches_code T fd ns fi ?lab ?l (Elseif e b br) @ body_code T fd ns (?lab + branches_labels (Elseif e b br)) (?l + of_nat (branches_size ns (Elseif e b br))) rest)
       (branches_symbols ns els fi ?lab ?l (Elseif e b br) @ body_symbols ns (?lab + branches_labels (Elseif e b br)) (?l + of_nat (branches_size ns (Elseif e b br))) rest)
       (body_names ns rest) (?lab + branches_labels (Elseif e b br) + body_labels rest)"
    unfolding loc syms [unfolded loc] codes [unfolded loc] n h(4) append_assoc .
qed

lemma bodies_act: "body_acts T fd b" "branches_act T fd br"
  by (induction b and br)
    (rule body_acts_Done body_acts_Step body_acts_Cond branches_act_NoElse branches_act_Else branches_act_Elseif; assumption)+

end
