(* ===== verification/CcWhole.thy ===== *)
theory CcWhole
  imports CcBlock
begin

text \<open>
  The C compiler on a whole program: heads of functions, the units of a program, the two stages of \<open>main\<close>, and
  the theorem that what it writes, loaded at \<open>0x100000\<close>, answers every call as the program means it.
\<close>

section \<open>Functions\<close>

lemma text_at_name:
  assumes "c_text s = pre @ x @ NUL # post" "NUL \<notin> set x" "p = length pre"
  shows "text_at p s = Inr (x, s)"
  using cstr_split [OF assms(2), of p pre post] terminated_split [of p pre x post] assms by (simp add: text_at_def bindM_eval)

text \<open>The parameters, from the last to the first: each comma becomes a terminator.\<close>

lemma acts_push_params:
  assumes "\<forall>p\<in>set ps. p \<noteq> [] \<and> length p < MAX_ID_LEN \<and> NUL \<notin> set p \<and> CHR '','' \<notin> set p" "length ps + length ns \<le> 1024"
    "in_pass T s" "vars_are s ns" "c_text s = pre @ commas ps @ NUL # post"
  shows "acts T (push_params (length pre) (length pre + length (commas ps)) k) (k + length ps) s pre (length (commas ps)) (NUL # post)
    [] [] (ps @ ns) (lab_id s)"
  using assms
proof (induction ps arbitrary: ns s post k rule: rev_induct)
  case Nil
  then show ?case using acts_nothing [of T s ns pre "[]" "NUL # post" 0 k] by (simp add: acts_def push_params.simps [of "length pre" "length pre"])
next
  case (snoc x ps)
  let ?b = "length pre" and ?u = "commas ps"
  have x: "x \<noteq> []" "length x < MAX_ID_LEN" "NUL \<notin> set x" "\<forall>c\<in>set x. c \<noteq> CHR '',''" and ns: "length ns < 1024" using snoc.prems(1,2) by auto
  note push = does_push [OF ns x(1,2), of T]
  show ?case
  proof (cases "ps = []")
    case True
    have m: "c_text s = pre @ x @ NUL # post" using snoc.prems(5) by (simp add: True)
    have "find_char_back (c_text s) ?b (?b + length x) (CHR '','') = Inr None"
      unfolding m using char_back_skip [OF x(4) _ x(1), of ?b pre "NUL # post"] by simp
    then have "push_params ?b (?b + length x) k s = thenM (push_var_c x) (retM (k + 1)) s"
      using x(1) text_at_name [OF m x(3) refl] by (subst push_params.simps) (simp add: thenM_def bindM_eval)
    moreover have "acts T (thenM (push_var_c x) (retM (k + 1))) (k + 1) s pre (length x) (NUL # post) [] [] (x # ns) (lab_id s)"
      by (rule acts_then_ret, rule acts_does [OF push]) (use snoc.prems m in simp_all)
    ultimately show ?thesis by (simp add: True acts_def)
  next
    case False
    let ?w = "?u @ CHR '','' # x" and ?pre = "pre @ ?u @ '',''"
    have w: "commas (ps @ [x]) = ?w" using False by (simp add: commas_snoc)
    have m: "c_text s = pre @ ?w @ NUL # post" using snoc.prems(5) by (simp add: w)
    have "rd (?pre @ x @ NUL # post) (?b + length ?u) = Inr (CHR '','')" by (simp add: rd_def nth_append)
    then have "find_char_back (?pre @ x @ NUL # post) ?b (Suc (?b + length ?u)) (CHR '','') = Inr (Some (?b + length ?u))"
      by (simp only: find_char_back.simps bindR_simps if_True simp_thms)
    then have found: "find_char_back (c_text s) ?b (?b + length ?w) (CHR '','') = Inr (Some (?b + length ?u))"
      using char_back_skip [OF x(4) _ x(1), of ?b ?pre "NUL # post"] by (simp add: m add.assoc del: find_char_back.simps)
    let ?s = "s\<lparr>c_text := pre @ ?u @ NUL # x @ NUL # post\<rparr>"
    have poke: "poke_text (?b + length ?u) NUL s = Inr ((), ?s)"
      using wr_split [of "?b + length ?u" "pre @ ?u" "CHR '',''" "x @ NUL # post" NUL] by (simp add: poke_text_def edit_def bindM_eval m)
    have name: "text_at (?b + length ?u + 1) ?s = Inr (x, ?s)"
      by (rule text_at_name [OF _ x(3), of _ "pre @ ?u @ [NUL]" post]) simp_all
    have "push_params ?b (?b + length ?w) k s = bindM (push_var_c x) (\<lambda>_. push_params ?b (?b + length ?u) (k + 1)) ?s"
      using found poke name by (subst push_params.simps) (simp add: thenM_def bindM_eval)
    moreover have "acts T (bindM (push_var_c x) (\<lambda>_. push_params ?b (?b + length ?u) (k + 1))) (k + length (ps @ [x])) ?s pre (length ?w) (NUL # post)
        ([] @ []) ([] @ []) ((ps @ [x]) @ ns) (lab_id s)"
    proof (rule acts_still)
      show "acts T (push_var_c x) () ?s (c_text ?s) 0 [] [] [] (x # ns) (lab_id s)"
        using acts_does [OF push, of ?s "c_text ?s" "[]" "[]" 0] snoc.prems(3,4) by (simp add: state_simps)
      fix t
      assume t: "c_text t = c_text ?s" "moves T ?s t [] [] (x # ns) (lab_id s)"
      note st = moves_state [OF t(2)]
      have "acts T (push_params ?b (?b + length ?u) (k + 1)) (k + 1 + length ps) t pre (length ?u) (NUL # x @ NUL # post) [] [] (ps @ x # ns) (lab_id t)"
        by (rule snoc.IH) (use snoc.prems(1,2) st t(1) in simp_all)
      then have "acts T (push_params ?b (?b + length ?u) (k + 1)) (k + length (ps @ [x])) t (pre @ []) (length ?u) ((NUL # x) @ NUL # post) [] [] ((ps @ [x]) @ ns) (lab_id s)"
        using st by simp
      then show "acts T (push_params ?b (?b + length ?u) (k + 1)) (k + length (ps @ [x])) t pre (length ?w) (NUL # post) [] [] ((ps @ [x]) @ ns) (lab_id s)"
        by (rule acts_within) simp
    qed
    ultimately show ?thesis by (simp add: acts_def w moves_text)
  qed
qed

text \<open>Between the units of a program the depth of the return address does not matter.\<close>

definition acts_free :: "table \<Rightarrow> (cc, 'a) M \<Rightarrow> 'a \<Rightarrow> cc \<Rightarrow> string \<Rightarrow> nat \<Rightarrow> string \<Rightarrow> byte list \<Rightarrow> symbols \<Rightarrow> string list \<Rightarrow> nat \<Rightarrow> bool" where
  "acts_free T m r s pre n post bs syms ns lab \<longleftrightarrow> (\<exists>d t w. m s = Inr (r, t) \<and> c_text t = pre @ w @ post \<and> length w = n \<and>
     moves T (s\<lparr>ret_depth := d\<rparr>) t bs syms ns lab)"

lemma acts_freeI: "acts T m r s pre n post bs syms ns lab \<Longrightarrow> acts_free T m r s pre n post bs syms ns lab"
proof -
  assume a: "acts T m r s pre n post bs syms ns lab"
  have "s\<lparr>ret_depth := ret_depth s\<rparr> = s" by simp
  with a show ?thesis unfolding acts_def acts_free_def by metis
qed

lemma moves_free_trans: "moves T (s\<lparr>ret_depth := d\<rparr>) t bs xs ns lab \<Longrightarrow> moves T (t\<lparr>ret_depth := d'\<rparr>) u cs ys ms lab' \<Longrightarrow>
    moves T (s\<lparr>ret_depth := d'\<rparr>) u (bs @ cs) (xs @ ys) ms lab'"
  by (auto simp: moves_def entries_def add.assoc)

lemma room_free: "room_for T (s\<lparr>ret_depth := d\<rparr>) syms = room_for T s syms"
  by (cases T; simp add: room_for_def entries_def)

lemma acts_free_split:
  assumes "acts_free T m x s pre n (v @ post) bs xs ns lab"
    and "\<And>t w d. c_text t = (pre @ w) @ v @ post \<Longrightarrow> length w = n \<Longrightarrow> moves T (s\<lparr>ret_depth := d\<rparr>) t bs xs ns lab \<Longrightarrow>
      acts_free T (f x) r t (pre @ w) k post cs ys ms lab'"
  shows "acts_free T (bindM m f) r s pre (n + k) post (bs @ cs) (xs @ ys) ms lab'"
proof -
  obtain t w d where t: "m s = Inr (x, t)" "c_text t = (pre @ w) @ v @ post" "length w = n" "moves T (s\<lparr>ret_depth := d\<rparr>) t bs xs ns lab"
    using assms(1) unfolding acts_free_def by auto
  obtain u v d' where "f x t = Inr (r, u)" "c_text u = (pre @ w) @ v @ post" "length v = k" "moves T (t\<lparr>ret_depth := d'\<rparr>) u cs ys ms lab'"
    using assms(2) [OF t(2-4)] unfolding acts_free_def by blast
  with t(1,3,4) show ?thesis unfolding acts_free_def
    by (intro exI [of _ d'] exI [of _ u] exI [of _ "w @ v"]) (auto simp: bindM_eval intro: moves_free_trans)
qed

lemma does_all: "does T (repeatM (length ns) pop_var_c) () ns [] []"
  using does_pops [of T ns "[]"] by simp

lemma params_squeezed:
  assumes "params_text ps p" "list_all plain_name ps"
  shows "filter (\<lambda>c. \<not> is_whitespace_c c) p = commas ps" "inert p" "balanced (CHR ''('') (CHR '')'') (commas ps)"
proof -
  obtain k ks where p: "length ks = length (argument_tokens (map Variable ps))" "p = blanks k @ spaced (argument_tokens (map Variable ps)) ks"
    using assms(1) by (auto simp: params_text_def)
  have ok: "list_all atom_ok (map Variable ps)" using assms(2) by (auto simp: list.pred_set plain_name_def)
  have solid: "\<forall>t\<in>set (argument_tokens (map Variable ps)). solid t" using arguments_solid [OF ok] operand_solid by blast
  have "spaced (argument_tokens (map Variable ps)) (map (\<lambda>_. 0) (argument_tokens (map Variable ps))) = commas ps"
    by (induction ps rule: commas.induct) simp_all
  then show "filter (\<lambda>c. \<not> is_whitespace_c c) p = commas ps" using spaced_squeezed [OF solid p(1)] by (simp add: p(2))
  show "inert p" using spaced_inert [OF solid] by (simp add: p(2))
  show "balanced (CHR ''('') (CHR '')'') (commas ps)"
    using commas_chars [of _ ps] assms(2) name_chars operand_char_inert
    by (intro balanced_plain) (fastforce simp: list.pred_set plain_name_def)
qed

lemma plain_name_chars: "plain_name p \<Longrightarrow> p \<noteq> [] \<and> length p < MAX_ID_LEN \<and> NUL \<notin> set p \<and> CHR '','' \<notin> set p"
proof -
  have "\<not> is_id NUL" "\<not> is_id (CHR '','')" by (simp_all add: is_id_def schar_def uchar_def)
  then show "plain_name p \<Longrightarrow> ?thesis" unfolding plain_name_def name_ok_def by blast
qed

text \<open>The head of a function.\<close>

lemma function_head_run:
  assumes ps: "list_all plain_name ps" "length ps < 1024" and f: "NUL \<notin> set f"
    and s: "in_pass T s" "vars_are s []" "room_for T s ((f, current_loc s) # syms)"
    and on: "c_text s = pre @ f @ NUL # commas ps @ NUL # post" and p: "p = length pre + length f" "q = length pre + length f + 1 + length (commas ps)"
  shows "\<exists>t w. function_head (length pre) (Some (p, q)) (0, 0) s = Inr (length ps, t) \<and> c_text t = pre @ w @ NUL # post \<and>
    length w = length f + 1 + length (commas ps) \<and> moves T (s\<lparr>ret_depth := int (length ps + 1)\<rparr>) t [] [(f, current_loc s)] (RET # ps) (lab_id s)"
proof -
  let ?l = "current_loc s" and ?pre = "pre @ f @ [NUL]"
  have name: "text_at (length pre) s = Inr (f, s)" by (rule text_at_name [OF on f refl])
  obtain t1 where t1: "add_symbol_c f ?l s = Inr ((), t1)" "c_text t1 = c_text s" "moves T s t1 [] [(f, ?l)] [] (lab_id s)"
    using acts_symbol [OF s refl, of "c_text s" "[]" "[]" 0] unfolding acts_def by auto
  note st1 = moves_state [OF t1(3)]
  have "acts T (push_params (length ?pre) (length ?pre + length (commas ps)) 0) (0 + length ps) t1 ?pre (length (commas ps)) (NUL # post) [] [] (ps @ []) (lab_id t1)"
    by (rule acts_push_params) (use ps st1 t1(2) on plain_name_chars in \<open>simp_all add: list.pred_set\<close>)
  then obtain t2 w where t2: "push_params (p + 1) q 0 t1 = Inr (length ps, t2)" "c_text t2 = ?pre @ w @ NUL # post" "length w = length (commas ps)"
      "moves T t1 t2 [] [] ps (lab_id s)"
    unfolding acts_def by (auto simp: p st1)
  note st2 = moves_state [OF t2(4)]
  have "does T (push_var_c RET) () ps [] (RET # ps)" by (rule does_push [OF ps(2)]) (simp_all add: RET_def MAX_ID_LEN_def)
  then obtain t3 where t3: "push_var_c RET t2 = Inr ((), t3)" "c_text t3 = c_text t2" "moves T t2 t3 [] [] (RET # ps) (lab_id s)"
    using acts_does [of T "push_var_c RET" "()" ps "[]" "RET # ps" t2 "c_text t2" "[]" "[]" 0] st2 unfolding acts_def by auto
  let ?t = "t3\<lparr>ret_depth := c_stack_depth t3\<rparr>"
  have depth: "c_stack_depth t1 = 0" "c_stack_depth t3 = int (length ps + 1)" using st1 moves_state [OF t3(3)] by (simp_all add: vars_are_def)
  have "function_head (length pre) (Some (p, q)) (0, 0) s = Inr (length ps, ?t)"
    using name t1(1) t2(1) t3(1) depth(1) by (simp add: function_head_def thenM_def bindM_eval RET_def)
  moreover have "moves T s t3 [] [(f, ?l)] (RET # ps) (lab_id s)" using moves_trans [OF moves_trans [OF t1(3) t2(4)] t3(3)] by simp
  then have "moves T (s\<lparr>ret_depth := int (length ps + 1)\<rparr>) ?t [] [(f, ?l)] (RET # ps) (lab_id s)"
    using depth(2) by (cases T) (auto simp: moves_def entries_def in_pass_def vars_are_def names_c_def)
  ultimately show ?thesis using t2(2,3) t3(2) by (intro exI [of _ ?t] exI [of _ "f @ NUL # w"]) simp
qed

text \<open>A whole function, from its name to its closing brace.\<close>

lemma acts_function:
  assumes ok: "unit_ok T (Function f ps b)" and text': "params_text ps p" "body_text b u" "h = blanks i @ f @ blanks j @ CHR ''('' # p @ CHR '')'' # blanks k"
    and n: "length u < n" and s: "in_pass T s" "vars_are s []" "c_block_depth s = 1" "0 < lab_id s"
    and room: "room_for T s ((f, current_loc s) # body_symbols (RET # ps) (lab_id s) (current_loc s) b @ syms)"
    and on: "c_text s = pre @ (h @ block_text u) @ post"
  shows "acts_free T (compile_block_with_head (compile_block (block_loop_c n)) (length pre) (length pre + length h) (length pre + length h + length u + 2) (0, 0))
    (0, 0) s pre (length h + length u + 3) post (function_code T ps (lab_id s) (current_loc s) b)
    ((f, current_loc s) # body_symbols (RET # ps) (lab_id s) (current_loc s) b) [] (lab_id s + body_labels b)"
proof -
  let ?l = "current_loc s" and ?lab = "lab_id s" and ?ns = "RET # ps" and ?bb = "length pre + length h" and ?be = "length pre + length h + length u + 2"
  let ?post = "(u @ '' }'') @ post" and ?d = "int (length ps + 1)"
  have oks: "name_ok f" "list_all plain_name ps" "length ps < 1024" "body_ok_c T ?ns b" using ok by simp_all
  have f: "\<forall>c\<in>set f. \<not> is_whitespace_c c" "NUL \<notin> set f" "CHR ''('' \<notin> set f" using name_chars [OF oks(1)] operand_char_inert by auto
  note sq = params_squeezed [OF text'(1) oks(2)]
  have on': "c_text s = pre @ h @ CHR ''{'' # ?post" by (simp add: on block_text_def)
  obtain g where g: "split_head (length pre) ?bb s = Inr (Some (length pre + length f, length pre + length f + 1 + length (commas ps)),
      s\<lparr>c_text := pre @ f @ NUL # commas ps @ NUL # NUL # g @ ?post\<rparr>)" "length g + length f + length (commas ps) + 2 = length h"
    using split_head_parens [OF on' text'(3) f _ sq(1,3)] sq(2) by (auto simp: inert_def)
  let ?s = "s\<lparr>c_text := pre @ f @ NUL # commas ps @ NUL # NUL # g @ ?post\<rparr>"
  have fs: "in_pass T ?s" "vars_are ?s []" "room_for T ?s ((f, current_loc ?s) # body_symbols ?ns ?lab ?l b @ syms)"
    using room s by (simp_all add: room_state state_simps)
  obtain t w where t: "function_head (length pre) (Some (length pre + length f, length pre + length f + 1 + length (commas ps))) (0, 0) ?s = Inr (length ps, t)"
      "c_text t = pre @ w @ NUL # NUL # g @ ?post" "length w = length f + 1 + length (commas ps)" "moves T (?s\<lparr>ret_depth := ?d\<rparr>) t [] [(f, ?l)] ?ns ?lab"
    using function_head_run [OF oks(2,3) f(2) fs _ refl refl, of pre "NUL # g @ ?post"] by auto
  have m1: "moves T (s\<lparr>ret_depth := ?d\<rparr>) t [] [(f, ?l)] ?ns ?lab"
    using t(4) by (simp add: moves_def entries_def)
  let ?pre = "pre @ w @ NUL # NUL # g" and ?t = "t\<lparr>c_block_depth := c_block_depth t + 1\<rparr>"
  have p: "length ?pre = ?bb + 1" using t(3) g(2) by simp
  have st: "lab_id t = ?lab" "current_loc t = ?l" "c_block_depth t = 1" "ret_depth t = ?d" "in_pass T t" "vars_are t ?ns"
    using m1 s(3) by (simp_all add: moves_def)
  have r: "ready_in T (length ps + 1) ?ns ?t" using st s(4) by (simp add: ready_in_def state_simps)
  have room': "room_for T ?t (body_symbols ?ns ?lab ?l b)"
    using room_append [OF moves_room [OF m1, of "body_symbols ?ns ?lab ?l b @ syms"]] room by (simp add: room_free room_state)
  have "acts T (bindM (block_loop_c n (length ?pre) (length ?pre + length u) (0, 0)) process_fi) (0, 0) ?t ?pre (length u + 1) (CHR ''}'' # post)
      (body_code T (length ps + 1) ?ns (lab_id ?t) (current_loc ?t) b) (pending (0, 0) (current_loc ?t) @ body_symbols ?ns (lab_id ?t) (current_loc ?t) b)
      (body_names ?ns b) (lab_id ?t + body_labels b)"
    by (rule bodies_act(1) [unfolded body_acts_def, rule_format, OF oks(4) text'(2) n r]) (use room' t(2) in \<open>simp_all add: st pending_def\<close>)
  then have loop: "acts T (bindM (block_loop_c n (length ?pre) (length ?pre + length u) (0, 0)) process_fi) (0, 0) ?t ?pre (length u + 1) (CHR ''}'' # post)
      (body_code T (length ps + 1) ?ns ?lab ?l b) (body_symbols ?ns ?lab ?l b) (body_names ?ns b) (?lab + body_labels b)"
    by (simp add: st pending_def)
  obtain vs where names: "body_names ?ns b = vs @ ?ns" using body_names_append by blast
  have "acts T (compile_block (block_loop_c n) (length ?pre) (length ?pre + length u)) () t ?pre (length u + 1) (CHR ''}'' # post)
      (body_code T (length ps + 1) ?ns ?lab ?l b @ encode (AddEsp (4 * of_nat (length vs)))) (body_symbols ?ns ?lab ?l b) ?ns (?lab + body_labels b)"
    by (rule acts_block) (use loop names st in simp_all)
  moreover have "?bb + 1 = length ?pre" "?be - 1 = length ?pre + length u" using p by simp_all
  ultimately have "acts T (compile_block (block_loop_c n) (?bb + 1) (?be - 1)) () t ?pre (length u + 1) (CHR ''}'' # post)
      (body_code T (length ps + 1) ?ns ?lab ?l b @ close_code ?ns b) (body_symbols ?ns ?lab ?l b) ?ns (?lab + body_labels b)"
    by (simp only: close_code_def names) simp
  then obtain t2 w2 where t2: "compile_block (block_loop_c n) (?bb + 1) (?be - 1) t = Inr ((), t2)" "c_text t2 = ?pre @ w2 @ CHR ''}'' # post" "length w2 = length u + 1"
      "moves T t t2 (body_code T (length ps + 1) ?ns ?lab ?l b @ close_code ?ns b) (body_symbols ?ns ?lab ?l b) ?ns (?lab + body_labels b)"
    unfolding acts_def by blast
  let ?row = "doM [pop_var_c, emit 0xc3, repeatM (length ps) pop_var_c]"
  have "does T ?row () ?ns ([] @ [0xc3] @ [] @ []) []" by (rule does_row does_pop does_emit does_all)+
  from acts_does [OF this, of t2 "c_text t2" "[]" "[]" 0] moves_state [OF t2(4)]
  obtain t3 where t3: "?row t2 = Inr ((), t3)" "c_text t3 = c_text t2" "moves T t2 t3 [0xc3] [] [] (?lab + body_labels b)"
    unfolding acts_def by auto
  have "c_block_depth t2 = 1" "c_stack_depth t3 = 0" using t2(4) st(3) moves_state [OF t3(3)] by (simp_all add: moves_def vars_are_def)
  moreover have "doM [pop_var_c, emit 0xc3, repeatM (length ps) pop_var_c, bindM (getM c_stack_depth) (\<lambda>d. assertM (d = 0))] t2 = Inr ((), t3)"
    using t3(1) \<open>c_stack_depth t3 = 0\<close> by (auto simp: thenM_def bindM_eval split: sum.splits)
  ultimately have "compile_block_with_head (compile_block (block_loop_c n)) (length pre) ?bb ?be (0, 0) s = Inr ((0, 0), t3)"
    using g(1) t(1) t2(1) s(3) by (simp add: compile_block_with_head_def thenM_def bindM_eval whenM_def del: doM.simps)
  moreover have "moves T (s\<lparr>ret_depth := ?d\<rparr>) t3 (function_code T ps ?lab ?l b) ((f, ?l) # body_symbols ?ns ?lab ?l b) [] (?lab + body_labels b)"
    using moves_trans [OF moves_trans [OF m1 t2(4)] t3(3)] by (simp add: function_code_def)
  moreover have "c_text t3 = pre @ (w @ NUL # NUL # g @ w2 @ ''}'') @ post" "length (w @ NUL # NUL # g @ w2 @ ''}'') = length h + length u + 3"
    using t3(2) t2(2,3) t(3) g(2) by simp_all
  ultimately show ?thesis unfolding acts_free_def by blast
qed

text \<open>A variable of the program.\<close>

lemma acts_global:
  assumes x: "name_ok x" and t: "t = blanks i @ ''int '' @ blanks j @ x @ blanks k" and s: "in_pass T s" "vars_are s []" "c_block_depth s = 1"
    and room: "room_for T s ((x, current_loc s) # syms)" and on: "c_text s = pre @ t @ c # post"
  shows "acts T (compile_statement (length pre) (length pre + length t)) () s pre (length t + 1) post (bytes32 0) [(x, current_loc s)] [] (lab_id s)"
proof -
  have xc: "\<forall>c\<in>set x. \<not> is_whitespace_c c" "NUL \<notin> set x" "x \<noteq> []" using name_chars [OF x] operand_char_inert by auto
  show ?thesis
  proof (rule statement_trimmed [OF on, of i "''int '' @ blanks j @ x" k])
    show "t = blanks i @ (''int '' @ blanks j @ x) @ blanks k" by (simp add: t)
    fix g :: string
    let ?s = "s\<lparr>c_text := pre @ (''int '' @ blanks j @ x) @ NUL # g @ post\<rparr>"
    show "acts T (statement_at (length pre)) () ?s pre (length (''int '' @ blanks j @ x) + 1) (g @ post) (bytes32 0) [(x, current_loc s)] [] (lab_id s)"
    proof (rule int_at [OF x], simp, rule acts_get)
      fix h :: string
      let ?t = "?s\<lparr>c_text := pre @ (''int '' @ x @ NUL # h) @ g @ post\<rparr>" and ?w = "''int '' @ x @ NUL # h"
      have st: "in_pass T ?t" "vars_are ?t []" "room_for T ?t ((x, current_loc ?t) # syms)" "c_text ?t = pre @ ?w @ g @ post"
          "length ?w = length x + 5 + length h" using s room by (simp_all add: state_simps room_state eval_nat_numeral)
      have "acts T (bindM (getM current_loc) (add_symbol_c x)) () ?t pre (length x + 5 + length h) (g @ post) [] [(x, current_loc s)] [] (lab_id s)"
        by (rule acts_get) (use acts_symbol [OF st(1-3) refl st(4,5)] in simp)
      from acts_then_does [OF this does_emit(2) [of T 0 "[]"]]
      show "acts T (if c_block_depth ?t = 1 then thenM (bindM (getM current_loc) (add_symbol_c x)) (emit32 0)
          else doM [push_var_c x, emits [0x83, 0xec, 0x04]]) () ?t pre (length x + 5 + length h) (g @ post) (bytes32 0) [(x, current_loc s)] [] (lab_id s)"
        using s(3) by simp
    qed
  qed (use xc in \<open>simp_all add: is_whitespace_c_def\<close>)
qed

section \<open>Programs\<close>

lemma function_parts:
  assumes "unit_ok T (Function f ps b)" "unit_text (Function f ps b) v"
  obtains h u p i j k where "params_text ps p" "body_text b u" "h = blanks i @ f @ blanks j @ CHR ''('' # p @ CHR '')'' # blanks k"
    "v = h @ block_text u" "inert h" "NUL \<notin> set u" "balanced (CHR ''{'') (CHR ''}'') u"
proof -
  obtain i j k p u where v: "params_text ps p" "body_text b u" "v = (blanks i @ f @ blanks j @ CHR ''('' # p @ CHR '')'' # blanks k) @ block_text u"
    using assms(2) by auto
  have "inert f" "inert p" using assms(1) operand_inert [of f] name_chars [of f] params_squeezed(2) [OF v(1)] by auto
  moreover have "balanced (CHR ''{'') (CHR ''}'') u \<and> NUL \<notin> set u" by (rule body_braces(1) [OF _ v(2), of T "RET # ps"]) (use assms(1) in simp)
  ultimately show thesis by (intro that [OF v(1,2) refl v(3)]) simp_all
qed

lemma global_inert: "name_ok x \<Longrightarrow> inert (blanks i @ ''int '' @ blanks j @ x @ blanks k)"
  using operand_inert [of x] name_chars [of x] by simp

lemma program_no_nul: "list_all (unit_ok T) us \<Longrightarrow> program_text us t \<Longrightarrow> NUL \<notin> set t"
proof (induction us arbitrary: t)
  case (Cons v us)
  then obtain a w where t: "unit_text v a" "program_text us w" "t = a @ w" by auto
  have "NUL \<notin> set a"
  proof (cases v)
    case (Global x)
    then show ?thesis using Cons.prems(1) t(1) global_inert [of x] by (auto simp: inert_def)
  next
    case (Function f ps b)
    then obtain h u where "a = h @ block_text u" "inert h" "NUL \<notin> set u" using Cons.prems(1) t(1) function_parts [of T f ps b a]
      by (metis list.pred_inject(2))
    then show ?thesis by (auto simp: inert_def block_text_def)
  qed
  with Cons t show ?case by simp
qed auto

definition ready_out :: "table \<Rightarrow> cc \<Rightarrow> bool" where
  "ready_out T s \<longleftrightarrow> in_pass T s \<and> vars_are s [] \<and> c_block_depth s = 1 \<and> 0 < lab_id s"

lemma moves_ready_out: "moves T (s\<lparr>ret_depth := d\<rparr>) t bs syms [] lab \<Longrightarrow> ready_out T s \<Longrightarrow> 0 < lab \<Longrightarrow> ready_out T t"
  by (simp add: moves_def ready_out_def)

text \<open>One unit and what follows it.\<close>

lemma acts_unit:
  assumes ok: "unit_ok T v" and v: "unit_text v a" "NUL \<notin> set w" "length (a @ w) < Suc n" and s: "ready_out T s" "c_text s = pre @ (a @ w) @ c # post"
    and room: "room_for T s (unit_symbols (lab_id s) (current_loc s) v @ syms)"
    and rest: "\<And>t y d. c_text t = (pre @ y) @ w @ c # post \<Longrightarrow> length y = length a \<Longrightarrow>
      moves T (s\<lparr>ret_depth := d\<rparr>) t (unit_code T (lab_id s) (current_loc s) v) (unit_symbols (lab_id s) (current_loc s) v) [] (lab_id s + unit_labels v) \<Longrightarrow>
      acts_free T (bindM (block_loop_c n (length (pre @ y)) (length (pre @ y) + length w) (0, 0)) process_fi) r t (pre @ y) (length w + 1) post cs ys [] lab"
  shows "acts_free T (bindM (block_loop_c (Suc n) (length pre) (length pre + length (a @ w)) (0, 0)) process_fi) r s pre (length (a @ w) + 1) post
    (unit_code T (lab_id s) (current_loc s) v @ cs) (unit_symbols (lab_id s) (current_loc s) v @ ys) [] lab"
proof -
  let ?e = "length pre + length (a @ w)"
  have st: "in_pass T s" "vars_are s []" "c_block_depth s = 1" "0 < lab_id s" using s(1) by (simp_all add: ready_out_def)
  have on: "c_text s = pre @ (a @ w @ [c]) @ post" using s(2) by simp
  have "\<exists>t y d. block_loop_c (Suc n) (length pre) ?e (0, 0) s = block_loop_c n (length pre + length a) ?e (0, 0) t \<and>
      c_text t = pre @ y @ w @ c # post \<and> length y = length a \<and>
      moves T (s\<lparr>ret_depth := d\<rparr>) t (unit_code T (lab_id s) (current_loc s) v) (unit_symbols (lab_id s) (current_loc s) v) [] (lab_id s + unit_labels v)"
  proof (cases v)
    case (Global x)
    then obtain i j k where a: "a = (blanks i @ ''int '' @ blanks j @ x @ blanks k) @ '';''" using v(1) by auto
    let ?u = "blanks i @ ''int '' @ blanks j @ x @ blanks k"
    have x: "name_ok x" using ok Global by simp
    have m: "c_text s = pre @ (?u @ CHR '';'' # w) @ c # post" using s(2) by (simp add: a)
    have e: "?e = length pre + length ?u + 1 + length w" by (simp add: a)
    have len: "length pre + length ?u + 1 = length pre + length a" by (simp add: a)
    have "acts T (compile_statement (length pre) (length pre + length ?u)) () s pre (length ?u + 1) (w @ c # post) (bytes32 0) [(x, current_loc s)] [] (lab_id s)"
      by (rule acts_global [OF x refl st(1-3)]) (use room Global m in simp_all)
    from acts_freeI [OF this] obtain d t y where t: "compile_statement (length pre) (length pre + length ?u) s = Inr ((), t)"
      "c_text t = pre @ y @ w @ c # post" "length y = length a" "moves T (s\<lparr>ret_depth := d\<rparr>) t (bytes32 0) [(x, current_loc s)] [] (lab_id s)"
      unfolding acts_free_def by (auto simp: a)
    have fi: "process_fi (0, 0) s = Inr ((0, 0), s)" by (simp add: process_fi_def whenM_def thenM_def bindM_eval)
    have "block_loop_c (Suc n) (length pre) ?e (0, 0) s = block_loop_c n (length pre + length a) ?e (0, 0) t"
      unfolding loop_statement [OF m global_inert [OF x] v(2) e, of n "(0, 0)"] len by (simp only: bindM_eval thenM_def fi t(1) sum.case fst_conv snd_conv)
    then show ?thesis using t(2-4) Global by auto
  next
    case (Function f ps b)
    have va: "unit_ok T (Function f ps b)" "unit_text (Function f ps b) a" using ok v(1) unfolding Function .
    obtain h u p i j k where h: "params_text ps p" "body_text b u" "h = blanks i @ f @ blanks j @ CHR ''('' # p @ CHR '')'' # blanks k"
      "a = h @ block_text u" "inert h" "NUL \<notin> set u" "balanced (CHR ''{'') (CHR ''}'') u"
      by (rule function_parts [OF va])
    have m: "c_text s = pre @ (h @ block_text u @ w) @ c # post" using s(2) by (simp add: h(4))
    have e: "?e = length pre + length h + length u + 3 + length w" by (simp add: h(4) length_block_text)
    have len: "length pre + length h + length u + 3 = length pre + length a" by (simp add: h(4) length_block_text)
    have "acts_free T (compile_block_with_head (compile_block (block_loop_c n)) (length pre) (length pre + length h) (length pre + length h + length u + 2) (0, 0))
        (0, 0) s pre (length h + length u + 3) (w @ c # post) (function_code T ps (lab_id s) (current_loc s) b)
        ((f, current_loc s) # body_symbols (RET # ps) (lab_id s) (current_loc s) b) [] (lab_id s + body_labels b)"
      by (rule acts_function [OF _ h(1-3)]) (use ok Function st room m v(3) in \<open>simp_all add: h(4) length_block_text\<close>)
    then obtain d t y where t: "compile_block_with_head (compile_block (block_loop_c n)) (length pre) (length pre + length h) (length pre + length h + length u + 2) (0, 0) s = Inr ((0, 0), t)"
      "c_text t = pre @ y @ w @ c # post" "length y = length a" "moves T (s\<lparr>ret_depth := d\<rparr>) t (function_code T ps (lab_id s) (current_loc s) b)
        ((f, current_loc s) # body_symbols (RET # ps) (lab_id s) (current_loc s) b) [] (lab_id s + body_labels b)"
      unfolding acts_free_def by (auto simp: h(4) length_block_text)
    have "block_loop_c (Suc n) (length pre) ?e (0, 0) s = block_loop_c n (length pre + length a) ?e (0, 0) t"
      unfolding loop_block [OF m h(5,6) v(2) h(7) e, of n "(0, 0)"] len by (simp only: bindM_eval t(1) sum.case fst_conv snd_conv)
    then show ?thesis using t(2-4) Function by auto
  qed
  then obtain t y d where t: "block_loop_c (Suc n) (length pre) ?e (0, 0) s = block_loop_c n (length pre + length a) ?e (0, 0) t"
    "c_text t = pre @ y @ w @ c # post" "length y = length a"
    "moves T (s\<lparr>ret_depth := d\<rparr>) t (unit_code T (lab_id s) (current_loc s) v) (unit_symbols (lab_id s) (current_loc s) v) [] (lab_id s + unit_labels v)"
    by blast
  have "acts_free T (bindM (block_loop_c n (length (pre @ y)) (length (pre @ y) + length w) (0, 0)) process_fi) r t (pre @ y) (length w + 1) post cs ys [] lab"
    by (rule rest [OF _ t(3,4)]) (simp add: t(2))
  then obtain d' u z where u: "bindM (block_loop_c n (length pre + length a) ?e (0, 0)) process_fi t = Inr (r, u)"
    "c_text u = pre @ (y @ z) @ post" "length z = length w + 1" "moves T (t\<lparr>ret_depth := d'\<rparr>) u cs ys [] lab"
    unfolding acts_free_def by (auto simp: t(3) add.assoc)
  have "bindM (block_loop_c (Suc n) (length pre) ?e (0, 0)) process_fi s = Inr (r, u)"
    using u(1) unfolding bindM_eval [of _ process_fi] t(1) .
  with u(2,3) t(3) moves_free_trans [OF t(4) u(4)] show ?thesis
    unfolding acts_free_def by (intro exI [of _ d'] exI [of _ u] exI [of _ "y @ z"]) simp
qed

lemma acts_units:
  assumes "list_all (unit_ok T) us" "program_text us t" "length t < n" "ready_out T s" "c_text s = pre @ t @ c # post"
    "room_for T s (units_symbols (lab_id s) (current_loc s) us)"
  shows "acts_free T (bindM (block_loop_c n (length pre) (length pre + length t) (0, 0)) process_fi) (0, 0) s pre (length t + 1) post
    (units_code T (lab_id s) (current_loc s) us) (units_symbols (lab_id s) (current_loc s) us) [] (lab_id s + sum_list (map unit_labels us))"
  using assms
proof (induction us arbitrary: t n s pre)
  case Nil
  obtain k where k: "t = blanks k" using Nil.prems(2) by auto
  obtain n' where n: "n = Suc n'" using Nil.prems(3) by (cases n) auto
  have "acts T (bindM (block_loop_c (Suc n') (length pre) (length pre + k) (0, 0)) process_fi) (0, 0) s pre (k + 1) post
      [] (pending (0, 0) (current_loc s)) [] (lab_id s)"
    by (rule acts_end [where syms = "[]"]) (use Nil.prems(4-6) in \<open>simp_all add: ready_out_def k pending_def\<close>)
  from acts_freeI [OF this] show ?case by (simp add: n k pending_def blanks_simps del: block_loop_c.simps)
next
  case (Cons v us)
  let ?lab = "lab_id s" and ?l = "current_loc s"
  let ?lab' = "?lab + unit_labels v" and ?l' = "?l + of_nat (unit_size v)"
  obtain a w where t: "unit_text v a" "program_text us w" "t = a @ w" using Cons.prems(2) by auto
  obtain n' where n: "n = Suc n'" using Cons.prems(3) by (cases n) auto
  have ok: "unit_ok T v" "list_all (unit_ok T) us" using Cons.prems(1) by simp_all
  have "a \<noteq> []" using t(1) by (cases v) auto
  then have len: "length w < n'" using Cons.prems(3) by (cases a) (simp_all add: t(3) n)
  have room: "room_for T s (unit_symbols ?lab ?l v @ units_symbols ?lab' ?l' us)" using Cons.prems(6) by simp
  have "acts_free T (bindM (block_loop_c (Suc n') (length pre) (length pre + length (a @ w)) (0, 0)) process_fi) (0, 0) s pre (length (a @ w) + 1) post
    (unit_code T ?lab ?l v @ units_code T ?lab' ?l' us) (unit_symbols ?lab ?l v @ units_symbols ?lab' ?l' us) [] (?lab' + sum_list (map unit_labels us))"
  proof (rule acts_unit [OF ok(1) t(1) program_no_nul [OF ok(2) t(2)] _ Cons.prems(4) _ room])
    show "length (a @ w) < Suc n'" using Cons.prems(3) by (simp add: t(3) n)
    show "c_text s = pre @ (a @ w) @ c # post" using Cons.prems(5) by (simp add: t(3))
    fix t' y d
    assume t': "c_text t' = (pre @ y) @ w @ c # post"
      "moves T (s\<lparr>ret_depth := d\<rparr>) t' (unit_code T ?lab ?l v) (unit_symbols ?lab ?l v) [] ?lab'"
    have "0 < ?lab'" using Cons.prems(4) by (simp add: ready_out_def)
    then have r: "ready_out T t'" using moves_ready_out [OF t'(2) Cons.prems(4)] by simp
    have eq: "lab_id t' = ?lab'" "current_loc t' = ?l'" using t'(2) by (simp_all add: moves_def length_unit_code)
    have "room_for T t' (units_symbols (lab_id t') (current_loc t') us)"
      unfolding eq using moves_room [OF t'(2)] room by (simp add: room_free)
    from Cons.IH [OF ok(2) t(2) len r t'(1) this]
    show "acts_free T (bindM (block_loop_c n' (length (pre @ y)) (length (pre @ y) + length w) (0, 0)) process_fi) (0, 0) t' (pre @ y) (length w + 1) post
        (units_code T ?lab' ?l' us) (units_symbols ?lab' ?l' us) [] (?lab' + sum_list (map unit_labels us))"
      unfolding eq .
  qed
  then show ?case by (simp add: n t(3) add.assoc del: block_loop_c.simps)
qed

text \<open>The block of a whole program.\<close>

lemma program_block:
  assumes "list_all (unit_ok T) us" "program_text us t" "length t < n" "in_pass T s" "c_stack_depth s = 0" "c_block_depth s = 0" "0 < lab_id s"
    "c_text s = t @ c # post" "room_for T s (units_symbols (lab_id s) (current_loc s) us)"
  obtains d u where "compile_block (block_loop_c n) 0 (length t) s = Inr ((), u)"
    "moves T (s\<lparr>ret_depth := d\<rparr>) u (units_code T (lab_id s) (current_loc s) us) (units_symbols (lab_id s) (current_loc s) us) []
      (lab_id s + sum_list (map unit_labels us))"
proof -
  let ?s = "s\<lparr>c_block_depth := 1\<rparr>"
  have r: "ready_out T ?s" using assms(4,5,7) by (simp add: ready_out_def state_simps) (simp add: vars_are_def names_c_def)
  have "acts_free T (bindM (block_loop_c n (length ([] :: string)) (length ([] :: string) + length t) (0, 0)) process_fi) (0, 0) ?s [] (length t + 1) post
      (units_code T (lab_id ?s) (current_loc ?s) us) (units_symbols (lab_id ?s) (current_loc ?s) us) [] (lab_id ?s + sum_list (map unit_labels us))"
    by (rule acts_units [OF assms(1-3) r]) (use assms(8,9) in \<open>simp_all add: room_state\<close>)
  then obtain d t' where t': "bindM (block_loop_c n 0 (length t) (0, 0)) process_fi ?s = Inr ((0, 0), t')"
      "moves T (?s\<lparr>ret_depth := d\<rparr>) t' (units_code T (lab_id s) (current_loc s) us) (units_symbols (lab_id s) (current_loc s) us) []
        (lab_id s + sum_list (map unit_labels us))"
    unfolding acts_free_def by auto
  let ?u = "t'\<lparr>c_block_depth := 0\<rparr>"
  have d: "c_block_depth t' = 1" "c_stack_depth t' = 0" using t'(2) by (simp_all add: moves_def vars_are_def)
  obtain labs t1 where t1: "block_loop_c n 0 (length t) (0, 0) ?s = Inr (labs, t1)" "process_fi labs t1 = Inr ((0, 0), t')"
    using t'(1) by (auto simp: bindM_eval split: sum.splits)
  have "compile_block (block_loop_c n) 0 (length t) s = Inr ((), ?u)"
    using t1 assms(5,6) d by (simp add: compile_block_def close_block_def whenM_def thenM_def bindM_eval)
  moreover have "moves T (s\<lparr>ret_depth := d\<rparr>) ?u (units_code T (lab_id s) (current_loc s) us) (units_symbols (lab_id s) (current_loc s) us) []
      (lab_id s + sum_list (map unit_labels us))"
    using t'(2) assms(6) by (auto simp: moves_def entries_def state_simps)
  ultimately show thesis using that by blast
qed

section \<open>The two stages\<close>

lemma location_map_of: "location (Some (n, names, locs)) x = map_of (map (\<lambda>i. (names i, locs i)) [0..<n]) x"
proof -
  have "map_option locs (find (\<lambda>i. names i = x) js) = map_of (map (\<lambda>i. (names i, locs i)) js) x" for "js"
    by (induction "js") auto
  then show ?thesis by (simp add: location_def)
qed

lemma entries_location: "location (Some (symbol_num s, symbol_names s, symbol_locs s)) = map_of (entries s)"
  unfolding location_map_of entries_def by (rule ext) simp

lemma table_of_location: "location (table_of syms) = map_of syms"
proof -
  have "map (\<lambda>i. (fst (syms ! i), snd (syms ! i))) [0..<length syms] = syms" by (rule nth_equalityI) simp_all
  then show ?thesis unfolding table_of_def location_map_of by (simp only:)
qed

lemma labels_distinct: "distinct (map fst syms) \<Longrightarrow> location T = map_of syms \<Longrightarrow> labels_at T syms"
  by (auto simp: labels_at_def)

text \<open>What is accepted for one table is accepted for one that knows more names.\<close>

lemma known_mono:
  assumes "\<And>x. location U x \<noteq> None \<Longrightarrow> location T x \<noteq> None"
  shows "atom_known U ns a \<Longrightarrow> atom_known T ns a" "known U ns e \<Longrightarrow> known T ns e"
proof -
  have a: "atom_known U ns a \<Longrightarrow> atom_known T ns a" for a using assms by (cases a) auto
  then show "atom_known U ns a \<Longrightarrow> atom_known T ns a" .
  show "known U ns e \<Longrightarrow> known T ns e" using a assms by (induction e) (auto simp: list.pred_set)
qed

lemma exp_ok_mono: "(\<And>x. location U x \<noteq> None \<Longrightarrow> location T x \<noteq> None) \<Longrightarrow> exp_ok U ns e \<Longrightarrow> exp_ok T ns e"
  using known_mono(2) [of U T ns e] by (simp add: exp_ok_def)

lemma simple_ok_mono: "(\<And>x. location U x \<noteq> None \<Longrightarrow> location T x \<noteq> None) \<Longrightarrow> simple_ok U ns st \<Longrightarrow> simple_ok T ns st"
  using exp_ok_mono [of U T ns] by (cases st) auto

lemma body_ok_mono:
  assumes "\<And>x. location U x \<noteq> None \<Longrightarrow> location T x \<noteq> None"
  shows "body_ok_c U ns b \<Longrightarrow> body_ok_c T ns b" "branches_ok U ns br \<Longrightarrow> branches_ok T ns br"
proof (induction b and br arbitrary: ns and ns)
  case (Step st b)
  then show ?case using simple_ok_mono [where U = U and T = T and ns = ns and st = st] assms by simp
qed (use exp_ok_mono [OF assms] in auto)

lemma units_ok_mono:
  assumes "\<And>x. location U x \<noteq> None \<Longrightarrow> location T x \<noteq> None" "list_all (unit_ok U) us"
  shows "list_all (unit_ok T) us"
proof -
  have "unit_ok U u \<Longrightarrow> unit_ok T u" for u using body_ok_mono(1) [OF assms(1)] by (cases u) auto
  with assms(2) show ?thesis by (auto simp: list.pred_set)
qed

text \<open>One stage on a file: it is mapped, its literals are marked, and it is compiled.\<close>

lemma stage_run:
  assumes us: "list_all (unit_ok T) us" "program_text us t"
    and source: "fix_strings file 0 (length file) 0 = Inr t" "length file mod PAGE \<noteq> 0" "length file < n"
    and s: "in_pass T (s\<lparr>stage := st\<rparr>)" "room_for T s (program_symbols us)"
  shows "\<exists>u. compile_stage n file st s = Inr ((), u) \<and> in_pass T u \<and>
    emitted u = emitted s @ (if T = None then [] else units_code T 1 START us) \<and> entries u = entries s @ (if T = None then program_symbols us else [])"
proof -
  obtain r where r: "mapped file = file @ NUL # r" using mapped_split [of "file"] source(2) by auto
  have scan: "scan_text 0 file = Inr t" using fix_strings_scan [of "[]" "file" "[]" 0] source(1) by (cases "scan_text 0 file") auto
  have len: "length t = length file" using fix_strings_length [OF source(1)] by simp
  have marked: "fix_strings (file @ NUL # r) 0 (length file) 0 = Inr (t @ NUL # r)"
    using fix_strings_scan [of "[]" "file" "NUL # r" 0] scan by simp
  let ?s = "s\<lparr>stage := st, lab_id := 1, string_num := 0, c_text := t @ NUL # r, c_block_depth := 0, c_stack_depth := 0, current_loc := START\<rparr>"
  have state: "in_pass T ?s" "c_stack_depth ?s = 0" "c_block_depth ?s = 0" "0 < lab_id ?s" "c_text ?s = t @ NUL # r"
      "room_for T ?s (units_symbols (lab_id ?s) (current_loc ?s) us)"
    using s by (auto simp: in_pass_def room_for_def entries_def program_symbols_def split: option.splits)
  have n: "length t < n" using source(3) len by simp
  obtain d u where u: "compile_block (block_loop_c n) 0 (length t) ?s = Inr ((), u)"
      "moves T (?s\<lparr>ret_depth := d\<rparr>) u (units_code T 1 START us) (program_symbols us) [] (1 + sum_list (map unit_labels us))"
    by (rule program_block [OF us n state]) (simp add: program_symbols_def)
  have end': "c_block_depth u = 0" "c_stack_depth u = 0" "string_num u = 0" using u(2) by (simp_all add: moves_def vars_are_def)
  have "compile_stage n file st s = Inr ((), u)"
    unfolding compile_stage_def r using marked u(1) end'
    by (simp add: len run_state create_strings_def START_def del: block_loop_c.simps)
  moreover have "entries (?s\<lparr>ret_depth := d\<rparr>) = entries s" by (simp add: entries_def)
  ultimately show ?thesis using u(2) by (intro exI [of _ u]) (simp add: moves_def)
qed

section \<open>The whole compiler\<close>

lemma compile_program:
  assumes ok: "program_ok us" and source: "fix_strings file 0 (length file) 0 = Inr t" "program_text us t" "length file mod PAGE \<noteq> 0"
  shows "\<exists>T u. main_c file s = Inr ((), u) \<and> emitted u = emitted s @ units_code T 1 START us \<and> entries u = program_symbols us \<and>
    location T = map_of (program_symbols us) \<and> labels_at T (program_symbols us) \<and> list_all (unit_ok T) us"
proof -
  let ?syms = "program_symbols us" and ?n = "length (mapped file) + 1" and ?s = "s\<lparr>symbol_num := 0\<rparr>"
  have fit: "distinct (map fst ?syms)" "length ?syms \<le> SYMBOL_TABLE_LEN_c" "list_all (\<lambda>(x, l). 0 < length x \<and> length x < MAX_ID_LEN) ?syms"
    and units: "list_all (unit_ok (table_of ?syms)) us"
    using ok by (simp_all add: program_ok_def symbols_fit_def)
  have n: "length file < ?n" by (simp add: mapped_def)
  have none: "list_all (unit_ok None) us" by (rule units_ok_mono [OF _ units]) (simp add: location_def)
  have "in_pass None (?s\<lparr>stage := 0\<rparr>)" "room_for None ?s ?syms" using fit by (simp_all add: in_pass_def room_for_def entries_def)
  from stage_run [OF none source(2,1,3) n this] obtain u where u: "compile_stage ?n file 0 ?s = Inr ((), u)" "in_pass None u"
      "emitted u = emitted s" "entries u = ?syms" by (auto simp: entries_def)
  let ?T = "Some (symbol_num u, symbol_names u, symbol_locs u)"
  have loc: "location ?T = map_of ?syms" using entries_location [of u] u(4) by simp
  have T: "list_all (unit_ok ?T) us" by (rule units_ok_mono [OF _ units]) (simp add: loc table_of_location)
  have labels: "labels_at ?T ?syms" by (rule labels_distinct [OF fit(1) loc])
  have "in_pass ?T (u\<lparr>stage := 1\<rparr>)" "room_for ?T u ?syms" using u(2) fit(3) labels by (simp_all add: in_pass_def room_for_def)
  from stage_run [OF T source(2,1,3) n this] obtain w where w: "compile_stage ?n file 1 u = Inr ((), w)"
      "emitted w = emitted s @ units_code ?T 1 START us" "entries w = ?syms" using u(3,4) by auto
  have "main_c file s = Inr ((), w\<lparr>stage := 2\<rparr>)"
    using u(1) w(1) by (simp add: main_c_def main_steps_def thenM_def bindM_eval)
  moreover have "entries (w\<lparr>stage := 2\<rparr>) = ?syms" using w(3) by (simp add: entries_def)
  ultimately show ?thesis using w(2) loc labels T by (intro exI [of _ ?T] exI [of _ "w\<lparr>stage := 2\<rparr>"]) simp
qed

text \<open>C1: the C compiler is correct, from the text of a program to what its machine code computes. For every program the
  reference grammar accepts (global variables and possibly recursive functions, with declarations, assignments, expression statements,
  returns and nested conditionals) and every file whose text, after literals and comments are rewritten, is a text of the program with
  any blanks, \<open>main\<close> succeeds in its two stages; and if the bytes it has written are loaded at \<open>0x100000\<close>, then each call
  that has a value by the meaning of the program returns that value at the address that the symbol table
  has for the function, with the stack of its caller as it was. The meaning (\<open>call\<close>) is that of the compiler's language: it differs from
  C where \<open>/\<close> and \<open>%\<close> have a negative dividend (there is no value then), in \<open>>>\<close>, which does not copy the sign, and in \<open>&&\<close> and
  \<open>||\<close>, which evaluate both operands; theorem \<open>cc_expression_correct\<close> says when an expression has its value in C.\<close>

theorem cc_program_correct:
  assumes "program_ok us" "fix_strings file 0 (length file) 0 = Inr t" "program_text us t" "length file mod PAGE \<noteq> 0"
  shows "\<exists>u bs. main_c file s = Inr ((), u) \<and> emitted u = emitted s @ bs \<and>
    (\<forall>mem n f vs v. code_at mem START bs \<and> call us n f vs = Some v \<longrightarrow> (\<exists>l. map_of (entries u) f = Some l \<and> answers mem l vs v))"
proof -
  obtain T u where u: "main_c file s = Inr ((), u)" "emitted u = emitted s @ units_code T 1 START us" "entries u = program_symbols us"
    "location T = map_of (program_symbols us)" "labels_at T (program_symbols us)" "list_all (unit_ok T) us"
    using compile_program [OF assms] by blast
  have "\<exists>l. map_of (entries u) f = Some l \<and> answers mem l vs v"
    if "code_at mem START (units_code T 1 START us)" "call us n f vs = Some v" for mem n f vs v
    using functions_answer [OF that(1) u(5) [unfolded program_symbols_def] u(6), of n] that(2) by (simp add: provides_def u(3,4))
  with u(1,2) show ?thesis by blast
qed

definition fact_tree :: unit_tree where
  "fact_tree = Function ''fact'' [''n'']
    (Cond (Binary (CHR ''<'') (Atom (Variable ''n'')) (Atom (Number ''2''))) (Step (Return (Atom (Number ''1''))) Done) NoElse
      (Step (Declare ''m'') (Step (Assign ''m'' (Binary (CHR ''-'') (Atom (Variable ''n'')) (Atom (Number ''1''))))
        (Step (Return (Binary (CHR ''*'') (Atom (Variable ''n'')) (Call ''fact'' [Variable ''m'']))) Done))))"

lemma fact_ok: "program_ok [fact_tree]"
  by code_simp

lemma fact_runs: "call [fact_tree] 5 ''fact'' [5] = Some 120"
  by code_simp

lemma source_compact: "source e (spaced (tokens e) (map (\<lambda>_. 0) (tokens e)))"
  unfolding source_def by (intro exI [of _ 0] exI [of _ "map (\<lambda>_. 0) (tokens e)"]) simp

lemma fact_sources:
  "source (Binary (CHR ''<'') (Atom (Variable ''n'')) (Atom (Number ''2''))) ''n<2''"
  "source (Atom (Number ''1'')) ''1''"
  "source (Binary (CHR ''-'') (Atom (Variable ''n'')) (Atom (Number ''1''))) ''n-1''"
  "source (Binary (CHR ''*'') (Atom (Variable ''n'')) (Call ''fact'' [Variable ''m''])) ''n*fact(m)''"
  using source_compact [of "Binary (CHR ''<'') (Atom (Variable ''n'')) (Atom (Number ''2''))"] source_compact [of "Atom (Number ''1'')"]
    source_compact [of "Binary (CHR ''-'') (Atom (Variable ''n'')) (Atom (Number ''1''))"]
    source_compact [of "Binary (CHR ''*'') (Atom (Variable ''n'')) (Call ''fact'' [Variable ''m''])"]
  by (simp_all add: operator_token_def TOK_defs)

lemma text_parts:
  "body_text Done []" "simple_text st u \<Longrightarrow> body_text b w \<Longrightarrow> body_text (Step st b) (u @ CHR '';'' # w)"
  "source e src \<Longrightarrow> body_text b u \<Longrightarrow> body_text rest w \<Longrightarrow> body_text (Cond e b NoElse rest) ((''if('' @ src @ '')'') @ block_text u @ w)"
  "source e src \<Longrightarrow> simple_text (Return e) (''return '' @ src)" "simple_text (Declare x) (''int '' @ x)"
  "source e src \<Longrightarrow> simple_text (Assign x e) (x @ CHR ''='' # src)"
proof -
  show "body_text Done []" using exI [of "\<lambda>k. [] = blanks k" 0] by (simp add: blanks_simps)
  show "simple_text (Declare x) (''int '' @ x)"
    unfolding simple_text.simps by (intro exI [of _ 0]) (simp add: blanks_simps)
  show "simple_text (Return e) (''return '' @ src)" "simple_text (Assign x e) (x @ CHR ''='' # src)" if "source e src"
    unfolding simple_text.simps by ((intro exI [of _ 0] exI [of _ src]), simp add: blanks_simps that)+
  show "body_text (Step st b) (u @ CHR '';'' # w)" if "simple_text st u" "body_text b w"
    unfolding body_text.simps by (intro exI [of _ u] exI [of _ w]) (simp add: that)
  assume "source e src" "body_text b u" "body_text rest w"
  then have "head_text ''if'' e (''if('' @ src @ '')'')"
    unfolding head_text_def by (intro exI [of _ 0] exI [of _ src]) (simp add: blanks_simps)
  with \<open>body_text b u\<close> \<open>body_text rest w\<close> show "body_text (Cond e b NoElse rest) ((''if('' @ src @ '')'') @ block_text u @ w)"
    unfolding body_text.simps branches_text.simps by blast
qed

lemma fact_text: "program_text [fact_tree] ''fact(n){if(n<2){return 1; }int m;m=n-1;return n*fact(m); }''"
proof -
  let ?u = "(''if('' @ ''n<2'' @ '')'') @ block_text ((''return '' @ ''1'') @ CHR '';'' # []) @ (''int '' @ ''m'') @ CHR '';'' #
    (''m'' @ CHR ''='' # ''n-1'') @ CHR '';'' # (''return '' @ ''n*fact(m)'') @ CHR '';'' # []"
  have body: "body_text (Cond (Binary (CHR ''<'') (Atom (Variable ''n'')) (Atom (Number ''2''))) (Step (Return (Atom (Number ''1''))) Done) NoElse
      (Step (Declare ''m'') (Step (Assign ''m'' (Binary (CHR ''-'') (Atom (Variable ''n'')) (Atom (Number ''1''))))
        (Step (Return (Binary (CHR ''*'') (Atom (Variable ''n'')) (Call ''fact'' [Variable ''m'']))) Done)))) ?u"
    by (intro text_parts fact_sources)
  have "params_text [''n''] ''n''" unfolding params_text_def by (intro exI [of _ 0] exI [of _ "[0]"]) (simp add: blanks_simps)
  then have "unit_text fact_tree (''fact('' @ ''n'' @ '')'' @ block_text ?u)"
    unfolding fact_tree_def unit_text.simps using body
    by (intro exI [of _ 0] exI [of _ "''n''"] exI [of _ ?u]) (simp add: blanks_simps)
  moreover have "program_text [] []" using exI [of "\<lambda>k. [] = blanks k" 0] by (simp add: blanks_simps)
  ultimately have "program_text [fact_tree] ((''fact('' @ ''n'' @ '')'' @ block_text ?u) @ [])"
    unfolding program_text.simps(2) by blast
  then show ?thesis by (simp add: block_text_def)
qed

theorem cc_program_correct_witness:
  "\<exists>u bs. main_c ''fact(n){if(n<2){return 1; }int m;m=n-1;return n*fact(m); }'' empty_cc = Inr ((), u) \<and> emitted u = bs \<and>
    (\<forall>mem. code_at mem START bs \<longrightarrow> (\<exists>l. map_of (entries u) ''fact'' = Some l \<and> answers mem l [5] 120))"
proof -
  let ?t = "''fact(n){if(n<2){return 1; }int m;m=n-1;return n*fact(m); }''"
  have "pieces_ok (map Code ?t)" "concat (map piece_text (map Code ?t)) = ?t" "concat (map piece_marked (map Code ?t)) = ?t"
    by (simp_all add: is_whitespace_c_def uchar_def)
  with scan_pieces [OF this(1)] fix_strings_scan [of "[]" ?t "[]" 0] have "fix_strings ?t 0 (length ?t) 0 = Inr ?t"
    by (simp del: length_Cons)
  moreover have "length ?t mod PAGE \<noteq> 0" by (simp add: PAGE_def)
  ultimately obtain u bs where u: "main_c ?t empty_cc = Inr ((), u)" "emitted u = emitted empty_cc @ bs"
    "\<forall>mem n f vs v. code_at mem START bs \<and> call [fact_tree] n f vs = Some v \<longrightarrow> (\<exists>l. map_of (entries u) f = Some l \<and> answers mem l vs v)"
    using cc_program_correct [OF fact_ok _ fact_text, of ?t empty_cc] by blast
  then have "\<forall>mem. code_at mem START bs \<longrightarrow> (\<exists>l. map_of (entries u) ''fact'' = Some l \<and> answers mem l [5] 120)" using fact_runs by blast
  with u(1,2) show ?thesis by (simp add: empty_cc_def empty_core_def core.defs)
qed

end
